(* ===== verification/Prelude.thy ===== *)
theory Prelude imports Main "HOL-Library.Word" begin

text \<open>
  Shared vocabulary of the development: results of operations that may abort the
  process, C strings, byte windows of files, and the decimal text that
  \<^verbatim>\<open>sprintf\<close>, \<^verbatim>\<open>atol\<close> and \<^verbatim>\<open>atoi\<close> convert to and from.  The collections
  \<open>res_simps\<close>, \<open>window_simps\<close> and \<open>text_simps\<close> are the hints the component
  theories pass to the simplifier.
\<close>

named_theorems res_simps \<open>evaluation of results\<close>
named_theorems window_simps \<open>reading and overwriting windows of a file\<close>
named_theorems text_simps \<open>decimal text\<close>

section \<open>Results\<close>

text \<open>
  The ways lib/error.c and lib/errorlog.c end a process: \<^verbatim>\<open>err_dump\<close> (core dump),
  \<^verbatim>\<open>err_sys\<close>, \<^verbatim>\<open>err_quit\<close>, and a loop that never ends.  The string is the
  message of the failing call, which names its site in the source.
\<close>

datatype abort = Dump string | Sys string | Quit string | Fault | Diverges

type_synonym 'a res = "abort + 'a"

definition rbind :: "'a res \<Rightarrow> ('a \<Rightarrow> 'b res) \<Rightarrow> 'b res" where
  "rbind r f = (case r of Inl e \<Rightarrow> Inl e | Inr x \<Rightarrow> f x)"

lemma rbind_Inl [simp, res_simps]: "rbind (Inl e) f = Inl e"
  by (simp add: rbind_def)

lemma rbind_Inr [simp, res_simps]: "rbind (Inr x) f = f x"
  by (simp add: rbind_def)

lemma rbind_eq_Inr [res_simps]: "rbind r f = Inr y \<longleftrightarrow> (\<exists>x. r = Inr x \<and> f x = Inr y)"
  by (cases r) auto

lemma rbind_cong [cong]: "r = r' \<Longrightarrow> (\<And>x. r' = Inr x \<Longrightarrow> f x = g x) \<Longrightarrow> rbind r f = rbind r' g"
  by (cases r') auto

text \<open>\<open>post Q r\<close>: if \<open>r\<close> is a result, it satisfies \<open>Q\<close>. The rules of this calculus reduce a claim
  about a sequence of calls to one rule for each call, collected in \<open>post_calls\<close>.\<close>

definition post :: "('a \<Rightarrow> bool) \<Rightarrow> 'a res \<Rightarrow> bool" where
  "post Q r \<longleftrightarrow> (\<forall>x. r = Inr x \<longrightarrow> Q x)"

named_theorems post_calls

lemma post_simps [simp]: "post Q (Inl e)" "post Q (Inr x) = Q x"
  by (simp_all add: post_def)

lemma post_rbind: "post (\<lambda>x. post Q (f x)) r \<Longrightarrow> post Q (rbind r f)"
  by (auto simp: post_def rbind_eq_Inr)

lemma post_if: "(b \<Longrightarrow> post Q r) \<Longrightarrow> (\<not> b \<Longrightarrow> post Q s) \<Longrightarrow> post Q (if b then r else s)"
  by simp

lemma post_mono: "post P r \<Longrightarrow> (\<And>x. P x \<Longrightarrow> Q x) \<Longrightarrow> post Q r"
  by (simp add: post_def)

lemma postD: "post Q r \<Longrightarrow> r = Inr x \<Longrightarrow> Q x"
  by (simp add: post_def)

section \<open>C strings\<close>

abbreviation NUL :: char where "NUL \<equiv> CHR 0x00"
abbreviation NEWLINE :: char where "NEWLINE \<equiv> CHR 0x0A"
abbreviation SPACE :: char where "SPACE \<equiv> CHR 0x20"

text \<open>The string a buffer holds: its bytes before the first null byte.\<close>

definition cstr :: "string \<Rightarrow> string" where
  "cstr s = takeWhile (\<lambda>c. c \<noteq> NUL) s"

lemma cstr_no_nul: "NUL \<notin> set (cstr s)"
  unfolding cstr_def using set_takeWhileD by fastforce

lemma cstr_id: "NUL \<notin> set s \<Longrightarrow> cstr s = s"
  unfolding cstr_def by (induction s) auto

lemma cstr_append_nul: "NUL \<notin> set s \<Longrightarrow> cstr (s @ NUL # t) = s"
  unfolding cstr_def by (induction s) auto

text \<open>\<^verbatim>\<open>strchr\<close> followed by overwriting the hit with a null byte: the part before the
  first occurrence of the character and the part after it.\<close>

fun split_at :: "char \<Rightarrow> string \<Rightarrow> (string \<times> string) option" where
  "split_at c [] = None"
| "split_at c (x # xs) =
     (if x = c then Some ([], xs)
      else (case split_at c xs of None \<Rightarrow> None | Some (a, b) \<Rightarrow> Some (x # a, b)))"

lemma split_at_append: "c \<notin> set a \<Longrightarrow> split_at c (a @ c # b) = Some (a, b)"
  by (induction a) auto

lemma split_at_None: "split_at c s = None \<longleftrightarrow> c \<notin> set s"
  by (induction s) (auto split: option.splits)

lemma split_at_Some: "split_at c s = Some (a, b) \<Longrightarrow> s = a @ c # b \<and> c \<notin> set a"
  by (induction s arbitrary: a) (auto split: option.splits if_splits)

text \<open>Stores at the end of what is in a buffer of \<open>cap\<close> bytes; a store past its end faults. \<^verbatim>\<open>strcpy\<close>
  also stores the terminating null, which what follows overwrites.\<close>

definition store :: "nat \<Rightarrow> string \<Rightarrow> string \<Rightarrow> string res" where
  "store cap bs out = (if length out + length bs \<le> cap then Inr (out @ bs) else Inl Fault)"

definition store_str :: "nat \<Rightarrow> string \<Rightarrow> string \<Rightarrow> string res" where
  "store_str cap s out = (if length out + length s + 1 \<le> cap then Inr (out @ s) else Inl Fault)"

text \<open>Error numbers.\<close>

definition EINVAL :: int where "EINVAL = 22"
definition EBADF :: int where "EBADF = 9"
definition ENOMEM :: int where "ENOMEM = 12"

section \<open>Windows of a file\<close>

text \<open>\<open>window f off n\<close> is what \<^verbatim>\<open>read\<close> of \<open>n\<close> bytes at offset \<open>off\<close> returns (fewer at the end
  of the file); \<open>splice f off bs\<close> is the file after \<^verbatim>\<open>write\<close> of \<open>bs\<close> at \<open>off\<close> (a gap after
  the old end reads as null bytes).\<close>

definition window :: "string \<Rightarrow> nat \<Rightarrow> nat \<Rightarrow> string" where
  "window f off n = take n (drop off f)"

definition splice :: "string \<Rightarrow> nat \<Rightarrow> string \<Rightarrow> string" where
  "splice f off bs = take off f @ replicate (off - length f) NUL @ bs @ drop (off + length bs) f"

lemma length_window: "length (window f off n) = min n (length f - off)"
  by (simp add: window_def)

lemma window_full_length: "window f off (length bs) = bs \<Longrightarrow> bs \<noteq> [] \<Longrightarrow> off + length bs \<le> length f"
  using length_window [of f off "length bs"] by (cases "length f - off") auto

lemma length_splice_in [window_simps]: "off + length bs \<le> length f \<Longrightarrow> length (splice f off bs) = length f"
  by (simp add: splice_def)

lemma splice_end [window_simps]: "splice f (length f) bs = f @ bs"
  by (simp add: splice_def)

lemma window_same [window_simps]: "off \<le> length f \<Longrightarrow> window (splice f off bs) off (length bs) = bs"
  by (simp add: window_def splice_def)

lemma nth_splice:
  "off + length bs \<le> length f \<Longrightarrow> i < length f \<Longrightarrow>
   splice f off bs ! i = (if off \<le> i \<and> i < off + length bs then bs ! (i - off) else f ! i)"
  by (auto simp: splice_def nth_append min_def not_less)

lemma window_other [window_simps]:
  assumes "off + length bs \<le> length f" and "o' + n \<le> off \<or> off + length bs \<le> o'"
  shows "window (splice f off bs) o' n = window f o' n"
proof (rule nth_equalityI)
  show l: "length (window (splice f off bs) o' n) = length (window f o' n)"
    using assms(1) by (simp add: length_window length_splice_in)
  fix i assume "i < length (window (splice f off bs) o' n)"
  then have i: "i < n" "o' + i < length f"
    using assms(1) by (auto simp: length_window length_splice_in)
  with assms show "window (splice f off bs) o' n ! i = window f o' n ! i"
    by (auto simp: window_def nth_splice length_splice_in)
qed

lemma window_append [window_simps]: "off + n \<le> length f \<Longrightarrow> window (f @ g) off n = window f off n"
  by (simp add: window_def)

lemma window_append_end [window_simps]: "window (f @ g) (length f) (length g) = g"
  by (simp add: window_def)

lemma window_window: "i + k \<le> n \<Longrightarrow> window (window f off n) i k = window f (off + i) k"
  by (auto simp: window_def drop_take min_def add.commute)

lemma window_sub:
  "window f off n = a @ b @ c \<Longrightarrow> length a + length b + length c = n \<Longrightarrow>
   window f (off + length a) (length b) = b"
  using window_window [of "length a" "length b" n f off] by (simp add: window_def)

lemma window_split:
  assumes "window f off (length a) = a" "window f (off + length a) (length b) = b"
  shows "window f off (length a + length b) = a @ b"
  using assms by (simp add: window_def take_add add.commute)

lemma window_0_all: "window f 0 (length f) = f"
  by (simp add: window_def)

section \<open>Decimal text\<close>

definition isspace :: "char \<Rightarrow> bool" where
  "isspace c \<longleftrightarrow> c = SPACE \<or> (9 \<le> (of_char c :: nat) \<and> (of_char c :: nat) \<le> 13)"

definition isdigit :: "char \<Rightarrow> bool" where
  "isdigit c \<longleftrightarrow> 48 \<le> (of_char c :: nat) \<and> (of_char c :: nat) \<le> 57"

definition digit_val :: "char \<Rightarrow> nat" where
  "digit_val c = of_char c - 48"

definition digit :: "nat \<Rightarrow> char" where
  "digit d = char_of (48 + d)"

definition dec :: "string \<Rightarrow> nat" where
  "dec s = foldl (\<lambda>a c. 10 * a + digit_val c) 0 s"

abbreviation LONG_MAX :: int where "LONG_MAX \<equiv> 9223372036854775807"
abbreviation LONG_MIN :: int where "LONG_MIN \<equiv> - 9223372036854775808"

text \<open>\<^verbatim>\<open>atol\<close>: white space, an optional sign, digits; a value out of the range of
  \<^verbatim>\<open>long\<close> saturates, as \<^verbatim>\<open>strtol\<close> does.  \<^verbatim>\<open>atoi\<close> is that value cut to 32 bits.\<close>

definition atol :: "string \<Rightarrow> int" where
  "atol s = (let t = dropWhile isspace s in
     case t of
       [] \<Rightarrow> 0
     | c # cs \<Rightarrow>
         if c = CHR ''-'' then max LONG_MIN (- int (dec (takeWhile isdigit cs)))
         else if c = CHR ''+'' then min LONG_MAX (int (dec (takeWhile isdigit cs)))
         else min LONG_MAX (int (dec (takeWhile isdigit t))))"

definition atoi :: "string \<Rightarrow> int" where
  "atoi s = sint (word_of_int (atol s) :: 32 word)"

fun show_nat :: "nat \<Rightarrow> string" where
  "show_nat n = (if n < 10 then [digit n] else show_nat (n div 10) @ [digit (n mod 10)])"

declare show_nat.simps [simp del]

definition show_int :: "int \<Rightarrow> string" where
  "show_int i = (if i < 0 then CHR ''-'' # show_nat (nat (- i)) else show_nat (nat i))"

text \<open>\<^verbatim>\<open>sprintf("%*d", w, i)\<close>: the number, padded on the left with blanks to the width.\<close>

definition fmt_d :: "nat \<Rightarrow> int \<Rightarrow> string" where
  "fmt_d w i = replicate (w - length (show_int i)) SPACE @ show_int i"

lemma of_char_digit: "d < 10 \<Longrightarrow> (of_char (digit d) :: nat) = 48 + d"
  by (simp add: digit_def)

lemma digit_val_digit [text_simps]: "d < 10 \<Longrightarrow> digit_val (digit d) = d"
  by (simp add: digit_val_def of_char_digit)

lemma isdigit_digit [text_simps]: "d < 10 \<Longrightarrow> isdigit (digit d)"
  by (simp add: isdigit_def of_char_digit)

lemma dec_snoc: "dec (s @ [c]) = 10 * dec s + digit_val c"
  by (simp add: dec_def)

lemma dec_show_nat [text_simps]: "dec (show_nat n) = n"
proof (induction n rule: show_nat.induct)
  case (1 n)
  show ?case
  proof (cases "n < 10")
    case True
    then show ?thesis by (subst show_nat.simps) (simp add: dec_def text_simps)
  next
    case False
    with 1 show ?thesis by (subst show_nat.simps) (simp add: dec_snoc text_simps)
  qed
qed

lemma show_nat_digits: "\<forall>c \<in> set (show_nat n). isdigit c"
proof (induction n rule: show_nat.induct)
  case (1 n)
  then show ?case by (subst show_nat.simps) (auto simp: text_simps)
qed

lemma show_nat_not_Nil [simp]: "show_nat n \<noteq> []"
  by (subst show_nat.simps) simp

lemma length_show_nat_pos [simp]: "0 < length (show_nat n)"
  by simp

lemma length_show_nat: "n < 10 ^ k \<Longrightarrow> 0 < k \<Longrightarrow> length (show_nat n) \<le> k"
proof (induction n arbitrary: k rule: show_nat.induct)
  case (1 n)
  show ?case
  proof (cases "n < 10")
    case True
    with "1.prems" show ?thesis by (subst show_nat.simps) simp
  next
    case False
    with "1.prems" obtain j where k: "k = Suc j" "0 < j"
      by (cases k; cases "k - 1") auto
    with "1.prems" have "n div 10 < 10 ^ j" by auto
    with 1 False k show ?thesis by (subst show_nat.simps) force
  qed
qed

lemma isdigit_not_special: "isdigit c \<Longrightarrow> c \<noteq> CHR ''-'' \<and> c \<noteq> CHR ''+'' \<and> \<not> isspace c \<and> c \<noteq> NUL
    \<and> c \<noteq> CHR '':'' \<and> c \<noteq> NEWLINE"
  by (auto simp: isdigit_def isspace_def)

lemma isspace_SPACE [text_simps]: "isspace SPACE"
  by (simp add: isspace_def)

lemma dropWhile_replicate: "P x \<Longrightarrow> dropWhile P (replicate n x @ s) = dropWhile P s"
  by (induction n) auto

lemma takeWhile_all_then: "\<forall>x \<in> set s. P x \<Longrightarrow> (t = [] \<or> \<not> P (hd t)) \<Longrightarrow> takeWhile P (s @ t) = s"
  by (induction s) (auto, cases t, auto)

lemma atol_show_nat_then:
  assumes "int n \<le> LONG_MAX" and "t = [] \<or> \<not> isdigit (hd t)"
  shows "atol (replicate k SPACE @ show_nat n @ t) = int n"
proof -
  obtain c cs where c: "show_nat n = c # cs" by (cases "show_nat n") auto
  have d: "isdigit c" using show_nat_digits [of n] c by simp
  have s: "dropWhile isspace (replicate k SPACE @ show_nat n @ t) = show_nat n @ t"
    using c isdigit_not_special [OF d] by (simp add: dropWhile_replicate text_simps)
  have "takeWhile isdigit (show_nat n @ t) = show_nat n"
    by (rule takeWhile_all_then [OF show_nat_digits assms(2)])
  with s c isdigit_not_special [OF d] show ?thesis
    using assms(1) dec_show_nat [of n] by (simp add: atol_def)
qed

lemma atol_show_nat [text_simps]: "int n \<le> LONG_MAX \<Longrightarrow> atol (show_nat n) = int n"
  using atol_show_nat_then [of n "[]" 0] by simp

lemma atol_fmt_d [text_simps]: "int n \<le> LONG_MAX \<Longrightarrow> atol (fmt_d w (int n)) = int n"
  using atol_show_nat_then [of n "[]"] by (simp add: fmt_d_def show_int_def)

lemma sint_word32_id: "- (2 ^ 31) \<le> i \<Longrightarrow> i < 2 ^ 31 \<Longrightarrow> sint (word_of_int i :: 32 word) = i"
  by (simp add: signed_of_int signed_take_bit_int_eq_self)

lemma atoi_fmt_d [text_simps]: "n < 2 ^ 31 \<Longrightarrow> atoi (fmt_d w (int n)) = int n"
  using sint_word32_id [of "int n"] by (simp add: atoi_def atol_fmt_d)

lemma length_fmt_d [text_simps]: "n < 10 ^ w \<Longrightarrow> 0 < w \<Longrightarrow> length (fmt_d w (int n)) = w"
  using length_show_nat [of n w] by (simp add: fmt_d_def show_int_def)

lemma show_nat_free: "NUL \<notin> set (show_nat n) \<and> CHR '':'' \<notin> set (show_nat n)"
  using show_nat_digits isdigit_not_special by blast

lemma atoi_show_int [text_simps]:
  assumes "- (2 ^ 31) \<le> i" "i < 2 ^ 31"
  shows "atoi (show_int i) = i"
proof (cases "i < 0")
  case True
  have tw: "takeWhile isdigit (show_nat k) = show_nat k" for k
    using show_nat_digits [of k] by (simp add: takeWhile_eq_all_conv)
  have "\<not> isspace (CHR ''-'')" by (simp add: isspace_def)
  then have "atol (show_int i) = i"
    using True assms by (simp add: atol_def show_int_def dec_show_nat tw)
  then show ?thesis using assms by (simp add: atoi_def sint_word32_id)
next
  case False
  then have "atol (show_int i) = i" using assms atol_show_nat [of "nat i"] by (simp add: show_int_def)
  then show ?thesis using assms by (simp add: atoi_def sint_word32_id)
qed

end
