(* ===== verification/DbModel.thy ===== *)
theory DbModel imports Prelude begin

text \<open>
  The hash database library of db/db.c: the handle (\<open>DB\<close>), the system calls it makes and
  every operation.  A handle owns the contents of its index and data files and their file
  offsets; \<open>fails\<close> says at which call sites (named by their error message) the system makes
  a call fail, and \<open>trace\<close> is the sequence of lock, unlock, read and write calls, the latest
  first.  A buffer is modelled by the C string it holds.  The two chain loops get
  \<open>Suc (length file)\<close> rounds: an offset inside the file must repeat after that many, so a
  chain that needs more is a cycle and the code never returns.
\<close>

section \<open>Constants and data\<close>

definition DB_INSERT :: int where "DB_INSERT = 1"
definition DB_REPLACE :: int where "DB_REPLACE = 2"
definition DB_STORE :: int where "DB_STORE = 3"
definition IDXLEN_MIN :: nat where "IDXLEN_MIN = 6"
definition IDXLEN_MAX :: nat where "IDXLEN_MAX = 1024"
definition DATLEN_MIN :: nat where "DATLEN_MIN = 2"
definition DATLEN_MAX :: nat where "DATLEN_MAX = 1024"

definition ENOENT :: int where "ENOENT = 2"

abbreviation (input) IDXLEN_SZ :: nat where "IDXLEN_SZ \<equiv> 4"
abbreviation SEP :: char where "SEP \<equiv> CHR '':''"
abbreviation (input) PTR_SZ :: nat where "PTR_SZ \<equiv> 7"
abbreviation (input) PTR_MAX :: int where "PTR_MAX \<equiv> 9999999"
abbreviation (input) NHASH_DEF :: nat where "NHASH_DEF \<equiv> 137"
abbreviation (input) FREE_OFF :: int where "FREE_OFF \<equiv> 0"
abbreviation (input) HASH_OFF :: int where "HASH_OFF \<equiv> 7"

datatype dbfile = Idx | Dat
datatype lockkind = Rd | Wr
datatype whence = SEEK_SET | SEEK_CUR | SEEK_END

datatype sysev =
    LockEv dbfile int int lockkind
  | UnlockEv dbfile int int
  | ReadEv dbfile nat nat
  | WriteEv dbfile nat nat

text \<open>\<open>typedef struct \<dots> DB\<close>, after the files and their offsets.\<close>

record db =
  idxfile :: string
  datfile :: string
  idxpos :: nat
  datpos :: nat
  fails :: "string \<Rightarrow> bool"
  trace :: "sysev list"
  errno :: int
  idxbuf :: string
  datbuf :: string
  dbname :: string
  idxoff :: int
  idxlen :: nat
  datoff :: int
  datlen :: nat
  ptrval :: int
  ptroff :: int
  chainoff :: int
  hashoff :: int
  nhash :: "64 word"
  cnt_delok :: nat
  cnt_delerr :: nat
  cnt_fetchok :: nat
  cnt_fetcherr :: nat
  cnt_nextrec :: nat
  cnt_stor1 :: nat
  cnt_stor2 :: nat
  cnt_stor3 :: nat
  cnt_stor4 :: nat
  cnt_storerr :: nat

section \<open>System calls on the two files\<close>

text \<open>\<^verbatim>\<open>lseek\<close>, \<^verbatim>\<open>read\<close>, \<^verbatim>\<open>write\<close> and the lock macros of apue.h, each with the check the
  callers make: a failing call ends the process with the site's message.\<close>

definition seek_target :: "nat \<Rightarrow> nat \<Rightarrow> int \<Rightarrow> whence \<Rightarrow> int" where
  "seek_target pos len off wh =
     (case wh of SEEK_SET \<Rightarrow> off | SEEK_CUR \<Rightarrow> int pos + off | SEEK_END \<Rightarrow> int len + off)"

definition seek_idx :: "db \<Rightarrow> int \<Rightarrow> whence \<Rightarrow> string \<Rightarrow> (int \<times> db) res" where
  "seek_idx db off wh msg =
     (let t = seek_target (idxpos db) (length (idxfile db)) off wh in
      if fails db msg \<or> t < 0 then Inl (Dump msg) else Inr (t, db\<lparr>idxpos := nat t\<rparr>))"

definition seek_dat :: "db \<Rightarrow> int \<Rightarrow> whence \<Rightarrow> string \<Rightarrow> (int \<times> db) res" where
  "seek_dat db off wh msg =
     (let t = seek_target (datpos db) (length (datfile db)) off wh in
      if fails db msg \<or> t < 0 then Inl (Dump msg) else Inr (t, db\<lparr>datpos := nat t\<rparr>))"

text \<open>A read that must return exactly \<open>n\<close> bytes.\<close>

definition read_idx :: "db \<Rightarrow> nat \<Rightarrow> string \<Rightarrow> (string \<times> db) res" where
  "read_idx db n msg =
     (let bs = window (idxfile db) (idxpos db) n in
      if fails db msg \<or> length bs \<noteq> n then Inl (Dump msg)
      else Inr (bs, db\<lparr>idxpos := idxpos db + n, trace := ReadEv Idx (idxpos db) n # trace db\<rparr>))"

definition read_dat :: "db \<Rightarrow> nat \<Rightarrow> string \<Rightarrow> (string \<times> db) res" where
  "read_dat db n msg =
     (let bs = window (datfile db) (datpos db) n in
      if fails db msg \<or> length bs \<noteq> n then Inl (Dump msg)
      else Inr (bs, db\<lparr>datpos := datpos db + n, trace := ReadEv Dat (datpos db) n # trace db\<rparr>))"

definition write_idx :: "db \<Rightarrow> string \<Rightarrow> string \<Rightarrow> db res" where
  "write_idx db bs msg =
     (if fails db msg then Inl (Dump msg)
      else Inr (db\<lparr>idxfile := splice (idxfile db) (idxpos db) bs, idxpos := idxpos db + length bs,
        trace := WriteEv Idx (idxpos db) (length bs) # trace db\<rparr>))"

definition write_dat :: "db \<Rightarrow> string \<Rightarrow> string \<Rightarrow> db res" where
  "write_dat db bs msg =
     (if fails db msg then Inl (Dump msg)
      else Inr (db\<lparr>datfile := splice (datfile db) (datpos db) bs, datpos := datpos db + length bs,
        trace := WriteEv Dat (datpos db) (length bs) # trace db\<rparr>))"

definition lock_file :: "db \<Rightarrow> dbfile \<Rightarrow> int \<Rightarrow> int \<Rightarrow> lockkind \<Rightarrow> string \<Rightarrow> db res" where
  "lock_file db f off len k msg =
     (if fails db msg then Inl (Dump msg) else Inr (db\<lparr>trace := LockEv f off len k # trace db\<rparr>))"

definition un_lock :: "db \<Rightarrow> dbfile \<Rightarrow> int \<Rightarrow> int \<Rightarrow> string \<Rightarrow> db res" where
  "un_lock db f off len msg =
     (if fails db msg then Inl (Dump msg) else Inr (db\<lparr>trace := UnlockEv f off len # trace db\<rparr>))"

section \<open>Index pointers and records\<close>

text \<open>\<^verbatim>\<open>_db_hash\<close>: \<open>c * i\<close> is an \<open>int\<close> (a \<open>char\<close> is signed), added to an unsigned 64-bit sum.\<close>

fun db_hash_from :: "nat \<Rightarrow> 64 word \<Rightarrow> string \<Rightarrow> 64 word" where
  "db_hash_from i hval [] = hval"
| "db_hash_from i hval (c # cs) =
     db_hash_from (Suc i) (hval + word_of_int (sint (of_char c :: 8 word) * int i)) cs"

definition db_hash :: "db \<Rightarrow> string \<Rightarrow> 64 word" where
  "db_hash db key = db_hash_from 1 0 key mod nhash db"

definition db_readptr :: "db \<Rightarrow> int \<Rightarrow> (int \<times> db) res" where
  "db_readptr db offset =
     rbind (seek_idx db offset SEEK_SET ''_db_readptr: lseek error to ptr field'') (\<lambda>(_, db).
     rbind (read_idx db PTR_SZ ''_db_readptr: read error of ptr field'') (\<lambda>(asciiptr, db).
     Inr (atol asciiptr, db)))"

definition db_writeptr :: "db \<Rightarrow> int \<Rightarrow> int \<Rightarrow> db res" where
  "db_writeptr db offset ptr =
     (if ptr < 0 \<or> PTR_MAX < ptr then Inl (Quit ''_db_writeptr: invalid ptr'')
      else
        rbind (seek_idx db offset SEEK_SET ''_db_writeptr: lseek error to ptr field'') (\<lambda>(_, db).
        write_idx db (fmt_d PTR_SZ ptr) ''_db_writeptr: write error of ptr field''))"

text \<open>An \<open>int\<close> or \<open>long\<close> stored into a \<open>size_t\<close>.\<close>

definition to_size_t :: "int \<Rightarrow> nat" where
  "to_size_t i = nat (i mod 2 ^ 64)"

text \<open>The parsing half of \<^verbatim>\<open>_db_readidx\<close>: the record's bytes, split at the separators, into the
  key, the data offset and the data length.\<close>

definition parse_idx :: "string \<Rightarrow> (string \<times> int \<times> nat) res" where
  "parse_idx buf =
     (if last buf \<noteq> NEWLINE then Inl (Dump ''_db_readidx: missing newline'')
      else case split_at SEP (cstr (butlast buf)) of
        None \<Rightarrow> Inl (Dump ''_db_readidx: missing first separator'')
      | Some (key, ptr1) \<Rightarrow>
          (case split_at SEP ptr1 of
            None \<Rightarrow> Inl (Dump ''_db_readidx: missing second separator'')
          | Some (start, ptr2) \<Rightarrow>
              if SEP \<in> set ptr2 then Inl (Dump ''_db_readidx: too many separators'')
              else if atol start < 0 then Inl (Dump ''_db_readidx: starting offset < 0'')
              else if to_size_t (atol ptr2) = 0 \<or> to_size_t (atol ptr2) > DATLEN_MAX
                then Inl (Dump ''_db_readidx: invalid length'')
              else Inr (key, atol start, to_size_t (atol ptr2))))"

definition db_readidx :: "db \<Rightarrow> int \<Rightarrow> (int \<times> db) res" where
  "db_readidx db offset =
     rbind (seek_idx db offset (if offset = 0 then SEEK_CUR else SEEK_SET)
              ''_db_readidx: lseek error'') (\<lambda>(off, db).
     let db = db\<lparr>idxoff := off\<rparr>;
         bs = window (idxfile db) (idxpos db) (PTR_SZ + IDXLEN_SZ) in
     if bs = [] \<and> offset = 0 \<and> \<not> fails db ''_db_readidx: readv error of index record''
     then Inr (-1, db)
     else
       rbind (read_idx db (PTR_SZ + IDXLEN_SZ) ''_db_readidx: readv error of index record'') (\<lambda>(bs, db).
       let db = db\<lparr>ptrval := atol (take PTR_SZ bs)\<rparr>;
           db = db\<lparr>idxlen := to_size_t (atoi (drop PTR_SZ bs))\<rparr> in
       if idxlen db < IDXLEN_MIN \<or> idxlen db > IDXLEN_MAX
       then Inl (Dump ''_db_readidx: invalid length'')
       else
         rbind (read_idx db (idxlen db) ''_db_readidx: read error of index record'') (\<lambda>(buf, db).
         rbind (parse_idx buf) (\<lambda>(key, start, len).
         Inr (ptrval db, db\<lparr>idxbuf := key, datoff := start, datlen := len\<rparr>)))))"

definition db_readdat :: "db \<Rightarrow> (string \<times> db) res" where
  "db_readdat db =
     rbind (seek_dat db (datoff db) SEEK_SET ''_db_readdat: lseek error'') (\<lambda>(_, db).
     rbind (read_dat db (datlen db) ''_db_readdat: read error'') (\<lambda>(bs, db).
     if last bs \<noteq> NEWLINE then Inl (Dump ''_db_readdat: missing newline'')
     else let db = db\<lparr>datbuf := cstr (butlast bs)\<rparr> in Inr (datbuf db, db)))"

definition db_writedat :: "db \<Rightarrow> string \<Rightarrow> int \<Rightarrow> whence \<Rightarrow> db res" where
  "db_writedat db dat offset wh =
     rbind (if wh = SEEK_END then lock_file db Dat 0 0 Wr ''_db_writedat: writew_lock error'' else Inr db) (\<lambda>db.
     rbind (seek_dat db offset wh ''_db_writedat: lseek error'') (\<lambda>(off, db).
     let db = db\<lparr>datoff := off, datlen := length dat + 1\<rparr> in
     rbind (write_dat db (dat @ [NEWLINE]) ''_db_writedat: writev error of data record'') (\<lambda>db.
     if wh = SEEK_END then un_lock db Dat 0 0 ''_db_writedat: un_lock error'' else Inr db)))"

text \<open>The text of an index record, without its chain pointer and length.\<close>

definition idx_text :: "string \<Rightarrow> int \<Rightarrow> nat \<Rightarrow> string" where
  "idx_text key off len = key @ [SEP] @ show_int off @ [SEP] @ show_nat len @ [NEWLINE]"

definition db_writeidx :: "db \<Rightarrow> string \<Rightarrow> int \<Rightarrow> whence \<Rightarrow> int \<Rightarrow> db res" where
  "db_writeidx db key offset wh ptr =
     (let db = db\<lparr>ptrval := ptr\<rparr> in
      if ptr < 0 \<or> PTR_MAX < ptr then Inl (Quit ''_db_writeidx: invalid ptr'')
      else
        let db = db\<lparr>idxbuf := idx_text key (datoff db) (datlen db)\<rparr>;
            len = length (idxbuf db) in
        if len < IDXLEN_MIN \<or> IDXLEN_MAX < len then Inl (Dump ''_db_writeidx: invalid length'')
        else
          rbind (if wh = SEEK_END
                 then lock_file db Idx ((uint (nhash db) + 1) * int PTR_SZ + 1) 0 Wr
                        ''_db_writeidx: writew_lock error''
                 else Inr db) (\<lambda>db.
          rbind (seek_idx db offset wh ''_db_writeidx: lseek error'') (\<lambda>(off, db).
          let db = db\<lparr>idxoff := off\<rparr> in
          rbind (write_idx db (fmt_d PTR_SZ ptr @ fmt_d IDXLEN_SZ (int len) @ idxbuf db)
                   ''_db_writeidx: writev error of index record'') (\<lambda>db.
          if wh = SEEK_END
          then un_lock db Idx ((uint (nhash db) + 1) * int PTR_SZ + 1) 0 ''_db_writeidx: un_lock error''
          else Inr db))))"

section \<open>Finding, deleting and storing a record\<close>

fun find_loop :: "nat \<Rightarrow> db \<Rightarrow> string \<Rightarrow> int \<Rightarrow> (int \<times> db) res" where
  "find_loop n db key offset =
     (if offset = 0 then Inr (offset, db)
      else case n of
        0 \<Rightarrow> Inl Diverges
      | Suc m \<Rightarrow>
          rbind (db_readidx db offset) (\<lambda>(nextoffset, db).
          if idxbuf db = key then Inr (offset, db)
          else find_loop m (db\<lparr>ptroff := offset\<rparr>) key nextoffset))"

declare find_loop.simps [simp del]

definition db_find_and_lock :: "db \<Rightarrow> string \<Rightarrow> bool \<Rightarrow> (int \<times> db) res" where
  "db_find_and_lock db key writelock =
     (let db = db\<lparr>chainoff := uint (db_hash db key) * int PTR_SZ + hashoff db\<rparr>;
          db = db\<lparr>ptroff := chainoff db\<rparr> in
      rbind (if writelock
             then lock_file db Idx (chainoff db) 1 Wr ''_db_find_and_lock: writew_lock error''
             else lock_file db Idx (chainoff db) 1 Rd ''_db_find_and_lock: readw_lock error'') (\<lambda>db.
      rbind (db_readptr db (ptroff db)) (\<lambda>(offset, db).
      rbind (find_loop (Suc (length (idxfile db))) db key offset) (\<lambda>(offset, db).
      Inr (if offset = 0 then -1 else 0, db)))))"

definition db_fetch :: "db \<Rightarrow> string \<Rightarrow> (string option \<times> db) res" where
  "db_fetch db key =
     rbind (db_find_and_lock db key False) (\<lambda>(rc, db).
     rbind (if rc < 0 then Inr (None, db\<lparr>cnt_fetcherr := cnt_fetcherr db + 1\<rparr>)
            else rbind (db_readdat db) (\<lambda>(dat, db).
                 Inr (Some dat, db\<lparr>cnt_fetchok := cnt_fetchok db + 1\<rparr>))) (\<lambda>(ptr, db).
     rbind (un_lock db Idx (chainoff db) 1 ''db_fetch: un_lock error'') (\<lambda>db.
     Inr (ptr, db))))"

definition db_dodelete :: "db \<Rightarrow> db res" where
  "db_dodelete db =
     (let db = db\<lparr>datbuf := replicate (datlen db - 1) SPACE\<rparr>;
          db = db\<lparr>idxbuf := replicate (length (idxbuf db)) SPACE\<rparr> in
      rbind (lock_file db Idx FREE_OFF 1 Wr ''_db_dodelete: writew_lock error'') (\<lambda>db.
      rbind (db_writedat db (datbuf db) (datoff db) SEEK_SET) (\<lambda>db.
      rbind (db_readptr db FREE_OFF) (\<lambda>(freeptr, db).
      let saveptr = ptrval db in
      rbind (db_writeidx db (idxbuf db) (idxoff db) SEEK_SET freeptr) (\<lambda>db.
      rbind (db_writeptr db FREE_OFF (idxoff db)) (\<lambda>db.
      rbind (db_writeptr db (ptroff db) saveptr) (\<lambda>db.
      un_lock db Idx FREE_OFF 1 ''_db_dodelete: un_lock error'')))))))"

definition db_delete :: "db \<Rightarrow> string \<Rightarrow> (int \<times> db) res" where
  "db_delete db key =
     rbind (db_find_and_lock db key True) (\<lambda>(found, db).
     rbind (if found = 0
            then rbind (db_dodelete db) (\<lambda>db. Inr (0, db\<lparr>cnt_delok := cnt_delok db + 1\<rparr>))
            else Inr (-1, db\<lparr>cnt_delerr := cnt_delerr db + 1\<rparr>)) (\<lambda>(rc, db).
     rbind (un_lock db Idx (chainoff db) 1 ''db_delete: un_lock error'') (\<lambda>db.
     Inr (rc, db))))"

fun findfree_loop :: "nat \<Rightarrow> db \<Rightarrow> nat \<Rightarrow> nat \<Rightarrow> int \<Rightarrow> int \<Rightarrow> (int \<times> int \<times> db) res" where
  "findfree_loop n db keylen dlen saveoffset offset =
     (if offset = 0 then Inr (saveoffset, offset, db)
      else case n of
        0 \<Rightarrow> Inl Diverges
      | Suc m \<Rightarrow>
          rbind (db_readidx db offset) (\<lambda>(nextoffset, db).
          if length (idxbuf db) = keylen \<and> datlen db = dlen then Inr (saveoffset, offset, db)
          else findfree_loop m db keylen dlen offset nextoffset))"

declare findfree_loop.simps [simp del]

definition db_findfree :: "db \<Rightarrow> nat \<Rightarrow> nat \<Rightarrow> (int \<times> db) res" where
  "db_findfree db keylen dlen =
     rbind (lock_file db Idx FREE_OFF 1 Wr ''_db_findfree: writew_lock error'') (\<lambda>db.
     rbind (db_readptr db FREE_OFF) (\<lambda>(offset, db).
     rbind (findfree_loop (Suc (length (idxfile db))) db keylen dlen FREE_OFF offset) (\<lambda>(saveoffset, offset, db).
     rbind (if offset = 0 then Inr (-1, db)
            else rbind (db_writeptr db saveoffset (ptrval db)) (\<lambda>db. Inr (0, db))) (\<lambda>(rc, db).
     rbind (un_lock db Idx FREE_OFF 1 ''_db_findfree: un_lock error'') (\<lambda>db.
     Inr (rc, db))))))"

text \<open>The branches of \<^verbatim>\<open>db_store\<close> after \<^verbatim>\<open>_db_find_and_lock\<close>: the key is new, or a record
  with it exists.\<close>

definition store_new :: "db \<Rightarrow> string \<Rightarrow> string \<Rightarrow> db res" where
  "store_new db key dat =
     rbind (db_readptr db (chainoff db)) (\<lambda>(ptr, db).
     rbind (db_findfree db (length key) (length dat + 1)) (\<lambda>(free, db).
     if free < 0 then
       rbind (db_writedat db dat 0 SEEK_END) (\<lambda>db.
       rbind (db_writeidx db key 0 SEEK_END ptr) (\<lambda>db.
       rbind (db_writeptr db (chainoff db) (idxoff db)) (\<lambda>db.
       Inr (db\<lparr>cnt_stor1 := cnt_stor1 db + 1\<rparr>))))
     else
       rbind (db_writedat db dat (datoff db) SEEK_SET) (\<lambda>db.
       rbind (db_writeidx db key (idxoff db) SEEK_SET ptr) (\<lambda>db.
       rbind (db_writeptr db (chainoff db) (idxoff db)) (\<lambda>db.
       Inr (db\<lparr>cnt_stor2 := cnt_stor2 db + 1\<rparr>))))))"

definition store_replace :: "db \<Rightarrow> string \<Rightarrow> string \<Rightarrow> db res" where
  "store_replace db key dat =
     (if length dat + 1 \<noteq> datlen db then
       rbind (db_dodelete db) (\<lambda>db.
       rbind (db_readptr db (chainoff db)) (\<lambda>(ptr, db).
       rbind (db_writedat db dat 0 SEEK_END) (\<lambda>db.
       rbind (db_writeidx db key 0 SEEK_END ptr) (\<lambda>db.
       rbind (db_writeptr db (chainoff db) (idxoff db)) (\<lambda>db.
       Inr (db\<lparr>cnt_stor3 := cnt_stor3 db + 1\<rparr>))))))
     else
       rbind (db_writedat db dat (datoff db) SEEK_SET) (\<lambda>db.
       Inr (db\<lparr>cnt_stor4 := cnt_stor4 db + 1\<rparr>)))"

definition db_store :: "db \<Rightarrow> string \<Rightarrow> string \<Rightarrow> int \<Rightarrow> (int \<times> db) res" where
  "db_store db key dat flag =
     (if flag \<noteq> DB_INSERT \<and> flag \<noteq> DB_REPLACE \<and> flag \<noteq> DB_STORE
      then Inr (-1, db\<lparr>errno := EINVAL\<rparr>)
      else if length dat + 1 < DATLEN_MIN \<or> DATLEN_MAX < length dat + 1
      then Inl (Dump ''db_store: invalid data length'')
      else
        rbind (db_find_and_lock db key True) (\<lambda>(found, db).
        rbind (if found < 0 then
                 (if flag = DB_REPLACE
                  then Inr (-1, db\<lparr>cnt_storerr := cnt_storerr db + 1, errno := ENOENT\<rparr>)
                  else rbind (store_new db key dat) (\<lambda>db. Inr (0, db)))
               else
                 (if flag = DB_INSERT
                  then Inr (1, db\<lparr>cnt_storerr := cnt_storerr db + 1\<rparr>)
                  else rbind (store_replace db key dat) (\<lambda>db. Inr (0, db)))) (\<lambda>(rc, db).
        rbind (un_lock db Idx (chainoff db) 1 ''db_store: un_lock error'') (\<lambda>db.
        Inr (rc, db)))))"

section \<open>Sequential reading\<close>

definition db_rewind :: "db \<Rightarrow> db res" where
  "db_rewind db =
     rbind (seek_idx db ((uint (nhash db) + 1) * int PTR_SZ + 1) SEEK_SET ''db_rewind: lseek error'')
       (\<lambda>(off, db). Inr (db\<lparr>idxoff := off\<rparr>))"

fun nextrec_loop :: "nat \<Rightarrow> db \<Rightarrow> (bool \<times> db) res" where
  "nextrec_loop 0 db = Inl Diverges"
| "nextrec_loop (Suc n) db =
     rbind (db_readidx db 0) (\<lambda>(p, db).
     if p < 0 then Inr (False, db)
     else if list_all (\<lambda>c. c = SPACE) (idxbuf db) then nextrec_loop n db
     else Inr (True, db))"

declare nextrec_loop.simps [simp del]

text \<open>The result is the key and the data, \<open>None\<close> for the null pointer at the end of the file.\<close>

definition db_nextrec :: "db \<Rightarrow> ((string \<times> string) option \<times> db) res" where
  "db_nextrec db =
     rbind (lock_file db Idx FREE_OFF 1 Rd ''db_nextrec: readw_lock error'') (\<lambda>db.
     rbind (nextrec_loop (Suc (length (idxfile db))) db) (\<lambda>(found, db).
     rbind (if \<not> found then Inr (None, db)
            else let key = idxbuf db in
                 rbind (db_readdat db) (\<lambda>(dat, db).
                 Inr (Some (key, dat), db\<lparr>cnt_nextrec := cnt_nextrec db + 1\<rparr>))) (\<lambda>(ptr, db).
     rbind (un_lock db Idx FREE_OFF 1 ''db_nextrec: un_lock error'') (\<lambda>db.
     Inr (ptr, db)))))"

section \<open>Opening and closing\<close>

type_synonym fs = "string \<rightharpoonup> string"

datatype open_flag = O_RDONLY | O_RDWR | O_CREAT | O_EXCL | O_TRUNC

text \<open>\<^verbatim>\<open>open(2)\<close> on the file system: whether it returned a descriptor, and the files after it.
  The site of a refused \<open>open\<close> is named by the file.\<close>

definition os_open :: "(string \<Rightarrow> bool) \<Rightarrow> fs \<Rightarrow> string \<Rightarrow> open_flag set \<Rightarrow> bool \<times> fs" where
  "os_open flt fs fname oflag =
     (if flt fname then (False, fs)
      else case fs fname of
        None \<Rightarrow> if O_CREAT \<in> oflag then (True, fs(fname \<mapsto> [])) else (False, fs)
      | Some c \<Rightarrow>
          if O_CREAT \<in> oflag \<and> O_EXCL \<in> oflag then (False, fs)
          else if O_TRUNC \<in> oflag then (True, fs(fname \<mapsto> [])) else (True, fs))"

definition db_alloc :: "(string \<Rightarrow> bool) \<Rightarrow> db res" where
  "db_alloc flt =
     (if flt ''_db_alloc: calloc error for DB'' then Inl (Dump ''_db_alloc: calloc error for DB'')
      else if flt ''_db_alloc: malloc error for name'' then Inl (Dump ''_db_alloc: malloc error for name'')
      else if flt ''_db_alloc: malloc error for index buffer''
      then Inl (Dump ''_db_alloc: malloc error for index buffer'')
      else if flt ''_db_alloc: malloc error for data buffer''
      then Inl (Dump ''_db_alloc: malloc error for data buffer'')
      else Inr \<lparr>idxfile = [], datfile = [], idxpos = 0, datpos = 0, fails = flt, trace = [], errno = 0,
        idxbuf = [], datbuf = [], dbname = [], idxoff = 0, idxlen = 0, datoff = 0, datlen = 0,
        ptrval = 0, ptroff = 0, chainoff = 0, hashoff = 0, nhash = 0, cnt_delok = 0, cnt_delerr = 0,
        cnt_fetchok = 0, cnt_fetcherr = 0, cnt_nextrec = 0, cnt_stor1 = 0, cnt_stor2 = 0,
        cnt_stor3 = 0, cnt_stor4 = 0, cnt_storerr = 0\<rparr>)"

text \<open>The free list pointer and the hash table of a new index file.\<close>

definition init_hash :: string where
  "init_hash = concat (replicate (NHASH_DEF + 1) (fmt_d PTR_SZ 0)) @ [NEWLINE]"

definition db_init :: "db \<Rightarrow> db res" where
  "db_init db =
     rbind (lock_file db Idx 0 0 Wr ''db_open: writew_lock error'') (\<lambda>db.
     if fails db ''db_open: fstat error'' then Inl (Sys ''db_open: fstat error'')
     else
       rbind (if length (idxfile db) = 0
              then write_idx db init_hash ''db_open: index file init write error''
              else Inr db) (\<lambda>db.
       un_lock db Idx 0 0 ''db_open: un_lock error''))"

definition db_open :: "(string \<Rightarrow> bool) \<Rightarrow> fs \<Rightarrow> string \<Rightarrow> open_flag set \<Rightarrow> (db option \<times> fs) res" where
  "db_open flt fs pathname oflag =
     rbind (db_alloc flt) (\<lambda>db.
     let db = db\<lparr>nhash := of_nat NHASH_DEF, hashoff := HASH_OFF\<rparr>;
         idxname = pathname @ ''.idx'';
         (idxfd, fs) = os_open flt fs idxname oflag;
         db = db\<lparr>dbname := pathname @ ''.dat''\<rparr>;
         (datfd, fs) = os_open flt fs (dbname db) oflag in
     if \<not> idxfd \<or> \<not> datfd then Inr (None, fs)
     else
       let db = db\<lparr>idxfile := the (fs idxname), datfile := the (fs (dbname db))\<rparr> in
       rbind (if O_CREAT \<in> oflag \<and> O_TRUNC \<in> oflag then db_init db else Inr db) (\<lambda>db.
       rbind (db_rewind db) (\<lambda>db.
       Inr (Some db, fs(idxname \<mapsto> idxfile db, dbname db \<mapsto> datfile db)))))"

text \<open>\<^verbatim>\<open>db_close\<close> and \<^verbatim>\<open>_db_free\<close>: the descriptors are closed and the buffers freed; what
  stays is the contents of the two files, under the names the handle was opened with.\<close>

definition db_free :: "fs \<Rightarrow> db \<Rightarrow> fs" where
  "db_free fs db =
     (let base = take (length (dbname db) - 4) (dbname db) in
      fs(base @ ''.idx'' \<mapsto> idxfile db, base @ ''.dat'' \<mapsto> datfile db))"

definition db_close :: "fs \<Rightarrow> db \<Rightarrow> fs" where
  "db_close fs h = db_free fs h"

end
