(* ===== verification/DbCalls.thy ===== *)
theory DbCalls imports DbModel begin

text \<open>
  What the low-level functions of db/db.c compute when no system call fails: each as an
  explicit update of the handle.  \<open>irec\<close> is an index record with its data record, \<open>rec_bytes\<close>
  its bytes in the index file; \<^verbatim>\<open>_db_readidx\<close> recovers the record from the bytes
  \<^verbatim>\<open>_db_writeidx\<close> writes.
\<close>

named_theorems db_calls \<open>results of the low-level functions\<close>

record irec =
  r_key :: string
  r_ptr :: nat
  r_dat :: nat
  r_data :: string

definition r_len :: "irec \<Rightarrow> nat" where
  "r_len r = length (r_data r) + 1"

definition rec_text :: "irec \<Rightarrow> string" where
  "rec_text r = idx_text (r_key r) (int (r_dat r)) (r_len r)"

definition rec_bytes :: "irec \<Rightarrow> string" where
  "rec_bytes r = fmt_d 7 (int (r_ptr r)) @ fmt_d 4 (int (length (rec_text r))) @ rec_text r"

definition rsize :: "irec \<Rightarrow> nat" where
  "rsize r = 11 + length (rec_text r)"

text \<open>The records the library can write and read back.\<close>

definition rec_ok :: "irec \<Rightarrow> bool" where
  "rec_ok r \<longleftrightarrow> NUL \<notin> set (r_key r) \<and> SEP \<notin> set (r_key r) \<and> NUL \<notin> set (r_data r)
     \<and> r_ptr r \<le> 9999999 \<and> int (r_dat r) \<le> LONG_MAX
     \<and> DATLEN_MIN \<le> r_len r \<and> r_len r \<le> DATLEN_MAX
     \<and> IDXLEN_MIN \<le> length (rec_text r) \<and> length (rec_text r) \<le> IDXLEN_MAX"

definition env_ok :: "db \<Rightarrow> bool" where
  "env_ok db \<longleftrightarrow> (\<forall>m. \<not> fails db m) \<and> nhash db = 137 \<and> hashoff db = 7"

lemma env_okD [simp]: "env_ok db \<Longrightarrow> \<not> fails db m" "env_ok db \<Longrightarrow> nhash db = 137"
    "env_ok db \<Longrightarrow> hashoff db = 7"
  by (simp_all add: env_ok_def)

lemma env_ok_cong: "fails db' = fails db \<Longrightarrow> nhash db' = nhash db \<Longrightarrow> hashoff db' = hashoff db \<Longrightarrow>
    env_ok db' = env_ok db"
  by (simp add: env_ok_def del: env_okD)

lemma length_ptr [simp]: "p \<le> 9999999 \<Longrightarrow> length (fmt_d 7 (int p)) = 7"
  by (rule length_fmt_d) auto

lemma length_len [simp]: "n \<le> 9999 \<Longrightarrow> length (fmt_d 4 (int n)) = 4"
  by (rule length_fmt_d) auto

lemma rec_ok_text_bound: "rec_ok r \<Longrightarrow> length (rec_text r) \<le> 9999"
  by (simp add: rec_ok_def IDXLEN_MAX_def)

lemma length_rec_bytes: "rec_ok r \<Longrightarrow> length (rec_bytes r) = rsize r"
  using rec_ok_text_bound [of r] by (simp add: rec_bytes_def rsize_def rec_ok_def)

section \<open>Chain pointers\<close>

lemma db_readptr_eq [db_calls]:
  assumes "env_ok db" "window (idxfile db) off 7 = fmt_d 7 (int p)" "p \<le> 9999999"
  shows "db_readptr db (int off) =
    Inr (int p, db\<lparr>idxpos := off + 7, trace := ReadEv Idx off 7 # trace db\<rparr>)"
  using assms by (simp add: db_readptr_def seek_idx_def seek_target_def read_idx_def atol_fmt_d)

lemma db_writeptr_eq [db_calls]:
  assumes "env_ok db" "p \<le> 9999999"
  shows "db_writeptr db (int off) (int p) =
    Inr (db\<lparr>idxfile := splice (idxfile db) off (fmt_d 7 (int p)), idxpos := off + 7,
      trace := WriteEv Idx off 7 # trace db\<rparr>)"
  using assms by (simp add: db_writeptr_def seek_idx_def seek_target_def write_idx_def)

section \<open>Records\<close>

lemma rec_text_free:
  "rec_ok r \<Longrightarrow> NUL \<notin> set (rec_text r)"
  using show_nat_free by (auto simp: rec_text_def idx_text_def rec_ok_def show_int_def)

lemma rec_text_not_Nil [simp]: "rec_text r \<noteq> []"
  by (simp add: rec_text_def idx_text_def)

lemma parse_rec_text:
  assumes "rec_ok r"
  shows "parse_idx (rec_text r) = Inr (r_key r, int (r_dat r), r_len r)"
proof -
  let ?t = "r_key r @ SEP # show_nat (r_dat r) @ SEP # show_nat (r_len r)"
  have t: "rec_text r = ?t @ [NEWLINE]"
    by (simp add: rec_text_def idx_text_def show_int_def)
  have c: "cstr ?t = ?t"
    using assms show_nat_free by (intro cstr_id) (auto simp: rec_ok_def)
  have len: "int (r_len r) \<le> LONG_MAX" "r_len r \<noteq> 0" "r_len r \<le> DATLEN_MAX"
    using assms by (auto simp: rec_ok_def DATLEN_MAX_def DATLEN_MIN_def)
  have "to_size_t (int (r_len r)) = r_len r"
    using len by (simp add: to_size_t_def DATLEN_MAX_def)
  then show ?thesis
    using assms len show_nat_free c
    by (simp add: parse_idx_def t split_at_append rec_ok_def atol_show_nat butlast_append)
qed

text \<open>The handle after \<^verbatim>\<open>_db_readidx\<close> of a record at \<open>off\<close>.\<close>

definition loaded :: "db \<Rightarrow> nat \<Rightarrow> irec \<Rightarrow> db" where
  "loaded db off r = db\<lparr>idxoff := int off, ptrval := int (r_ptr r), idxlen := length (rec_text r),
     idxbuf := r_key r, datoff := int (r_dat r), datlen := r_len r, idxpos := off + rsize r,
     trace := ReadEv Idx (off + 11) (length (rec_text r)) # ReadEv Idx off 11 # trace db\<rparr>"

lemma loaded_simps [simp]:
  "idxfile (loaded db off r) = idxfile db" "datfile (loaded db off r) = datfile db"
  "fails (loaded db off r) = fails db" "nhash (loaded db off r) = nhash db"
  "hashoff (loaded db off r) = hashoff db" "chainoff (loaded db off r) = chainoff db"
  "ptroff (loaded db off r) = ptroff db" "idxoff (loaded db off r) = int off"
  "ptrval (loaded db off r) = int (r_ptr r)" "idxbuf (loaded db off r) = r_key r"
  "datoff (loaded db off r) = int (r_dat r)" "datlen (loaded db off r) = r_len r"
  "idxpos (loaded db off r) = off + rsize r" "env_ok (loaded db off r) = env_ok db"
  by (simp_all add: loaded_def env_ok_def del: env_okD)

lemma rec_windows:
  assumes "rec_ok r" "window f off (rsize r) = rec_bytes r"
  shows "window f off 11 = fmt_d 7 (int (r_ptr r)) @ fmt_d 4 (int (length (rec_text r)))"
    and "window f (off + 11) (length (rec_text r)) = rec_text r"
    and "window f off 7 = fmt_d 7 (int (r_ptr r))"
    and "off + rsize r \<le> length f"
proof -
  note l = rec_ok_text_bound [OF assms(1)]
  have p: "r_ptr r \<le> 9999999" using assms(1) by (simp add: rec_ok_def)
  let ?h = "fmt_d 7 (int (r_ptr r)) @ fmt_d 4 (int (length (rec_text r)))"
  have h: "length ?h = 11" using l p by simp
  have w: "window f off (rsize r) = [] @ ?h @ rec_text r"
    using assms(2) by (simp add: rec_bytes_def)
  show "window f off 11 = ?h"
    using window_sub [OF w] h by (simp add: rsize_def)
  have w2: "window f off (rsize r) = ?h @ rec_text r @ []"
    using assms(2) by (simp add: rec_bytes_def)
  show "window f (off + 11) (length (rec_text r)) = rec_text r"
    using window_sub [OF w2] h by (simp add: rsize_def)
  have w3: "window f off (rsize r) = [] @ fmt_d 7 (int (r_ptr r)) @ (fmt_d 4 (int (length (rec_text r))) @ rec_text r)"
    using assms(2) by (simp add: rec_bytes_def)
  show "window f off 7 = fmt_d 7 (int (r_ptr r))"
    using window_sub [OF w3] p l by (simp add: rsize_def)
  show "off + rsize r \<le> length f"
    using window_full_length [of f off "rec_bytes r"] assms length_rec_bytes [OF assms(1)]
    by (simp add: rec_bytes_def)
qed

lemma db_readidx_at:
  assumes "env_ok db" "rec_ok r" "window (idxfile db) off (rsize r) = rec_bytes r"
    and "seek_target (idxpos db) (length (idxfile db)) offset (if offset = 0 then SEEK_CUR else SEEK_SET) = int off"
  shows "db_readidx db offset = Inr (int (r_ptr r), loaded db off r)"
proof -
  note w = rec_windows [OF assms(2,3)]
  have l: "IDXLEN_MIN \<le> length (rec_text r)" "length (rec_text r) \<le> IDXLEN_MAX"
    "length (rec_text r) \<le> 9999" "r_ptr r \<le> 9999999"
    using assms(2) rec_ok_text_bound by (auto simp: rec_ok_def)
  have a: "atoi (fmt_d 4 (int (length (rec_text r)))) = int (length (rec_text r))"
    by (rule atoi_fmt_d) (use l in simp)
  have s: "to_size_t (int (length (rec_text r))) = length (rec_text r)"
    using l by (simp add: to_size_t_def)
  have ne: "fmt_d 7 (int (r_ptr r)) \<noteq> []" using l by (metis length_ptr list.size(3) zero_neq_numeral)
  show ?thesis
    using assms(1,4) w l a s ne parse_rec_text [OF assms(2)]
    by (simp add: db_readidx_def seek_idx_def read_idx_def atol_fmt_d loaded_def rsize_def Let_def not_less)
qed

lemma db_readidx_eq [db_calls]:
  assumes "env_ok db" "rec_ok r" "window (idxfile db) off (rsize r) = rec_bytes r" "off \<noteq> 0"
  shows "db_readidx db (int off) = Inr (int (r_ptr r), loaded db off r)"
  by (rule db_readidx_at) (use assms in \<open>auto simp: seek_target_def\<close>)

lemma db_readidx_next [db_calls]:
  assumes "env_ok db" "rec_ok r" "window (idxfile db) (idxpos db) (rsize r) = rec_bytes r"
  shows "db_readidx db 0 = Inr (int (r_ptr r), loaded db (idxpos db) r)"
  by (rule db_readidx_at) (use assms in \<open>auto simp: seek_target_def\<close>)

lemma db_readidx_eof [db_calls]:
  assumes "env_ok db" "idxpos db = length (idxfile db)"
  shows "db_readidx db 0 = Inr (-1, db\<lparr>idxoff := int (idxpos db)\<rparr>)"
  using assms by (simp add: db_readidx_def seek_idx_def seek_target_def window_def Let_def)

lemma db_readdat_eq [db_calls]:
  assumes "env_ok db" "window (datfile db) off (length d + 1) = d @ [NEWLINE]" "NUL \<notin> set d"
    and "datoff db = int off" "datlen db = length d + 1"
  shows "db_readdat db =
    Inr (d, db\<lparr>datbuf := d, datpos := off + (length d + 1), trace := ReadEv Dat off (length d + 1) # trace db\<rparr>)"
  using assms by (simp add: db_readdat_def seek_dat_def seek_target_def read_dat_def cstr_id Let_def)

section \<open>Writing\<close>

lemma db_writedat_set [db_calls]:
  assumes "env_ok db"
  shows "db_writedat db dat (int off) SEEK_SET =
    Inr (db\<lparr>datoff := int off, datlen := length dat + 1, datfile := splice (datfile db) off (dat @ [NEWLINE]),
      datpos := off + (length dat + 1), trace := WriteEv Dat off (length dat + 1) # trace db\<rparr>)"
  using assms by (simp add: db_writedat_def seek_dat_def seek_target_def write_dat_def Let_def)

lemma db_writedat_end [db_calls]:
  assumes "env_ok db"
  shows "db_writedat db dat 0 SEEK_END =
    Inr (db\<lparr>datoff := int (length (datfile db)), datlen := length dat + 1,
      datfile := datfile db @ dat @ [NEWLINE], datpos := length (datfile db) + (length dat + 1),
      trace := UnlockEv Dat 0 0 # WriteEv Dat (length (datfile db)) (length dat + 1) # LockEv Dat 0 0 Wr # trace db\<rparr>)"
  using assms by (simp add: db_writedat_def seek_dat_def seek_target_def write_dat_def lock_file_def un_lock_def
    Let_def splice_end)

text \<open>Writing the record \<open>r\<close>, whose data record was written just before.\<close>

lemma db_writeidx_set [db_calls]:
  assumes "env_ok db" "rec_ok r" "datoff db = int (r_dat r)" "datlen db = r_len r"
  shows "db_writeidx db (r_key r) (int off) SEEK_SET (int (r_ptr r)) =
    Inr (db\<lparr>ptrval := int (r_ptr r), idxbuf := rec_text r, idxoff := int off,
      idxfile := splice (idxfile db) off (rec_bytes r), idxpos := off + rsize r,
      trace := WriteEv Idx off (rsize r) # trace db\<rparr>)"
  using assms length_rec_bytes [OF assms(2)]
  by (simp add: db_writeidx_def seek_idx_def seek_target_def write_idx_def Let_def rec_ok_def
    rec_bytes_def rec_text_def rsize_def not_less)

lemma db_writeidx_end [db_calls]:
  assumes "env_ok db" "rec_ok r" "datoff db = int (r_dat r)" "datlen db = r_len r"
  shows "db_writeidx db (r_key r) 0 SEEK_END (int (r_ptr r)) =
    Inr (db\<lparr>ptrval := int (r_ptr r), idxbuf := rec_text r, idxoff := int (length (idxfile db)),
      idxfile := idxfile db @ rec_bytes r, idxpos := length (idxfile db) + rsize r,
      trace := UnlockEv Idx 967 0 # WriteEv Idx (length (idxfile db)) (rsize r) # LockEv Idx 967 0 Wr # trace db\<rparr>)"
  using assms length_rec_bytes [OF assms(2)]
  by (simp add: db_writeidx_def seek_idx_def seek_target_def write_idx_def Let_def rec_ok_def
    rec_bytes_def rec_text_def rsize_def not_less lock_file_def un_lock_def splice_end)

end
