(* ===== verification/DbLayout.thy ===== *)
theory DbLayout imports DbCalls begin

text \<open>
  The layout of the two files of a database: \<open>disk\<close> is the free list pointer, the hash
  table and the index records in file order with their offsets; \<open>on_disk\<close> says two byte
  strings are that disk.  A \<open>cell\<close> is one of the places that hold a chain pointer.  The
  lemmas say how overwriting a cell, overwriting a record by one of the same size and
  appending a record act on the disk.
\<close>

section \<open>Records in file order\<close>

record disk =
  free :: nat
  heads :: "nat \<Rightarrow> nat"
  recs :: "(nat \<times> irec) list"

abbreviation recm :: "disk \<Rightarrow> nat \<rightharpoonup> irec" where
  "recm d \<equiv> map_of (recs d)"

text \<open>The records fill the file from \<open>a\<close> to \<open>e\<close> without a gap.\<close>

fun tiled :: "nat \<Rightarrow> (nat \<times> irec) list \<Rightarrow> nat \<Rightarrow> bool" where
  "tiled a [] e \<longleftrightarrow> a = e"
| "tiled a ((p, r) # L) e \<longleftrightarrow> p = a \<and> tiled (a + rsize r) L e"

lemma rsize_pos [simp]: "0 < rsize r"
  by (simp add: rsize_def)

lemma tiled_le: "tiled a L e \<Longrightarrow> a \<le> e"
  by (induction L arbitrary: a) fastforce+

lemma tiled_bounds: "tiled a L e \<Longrightarrow> (p, r) \<in> set L \<Longrightarrow> a \<le> p \<and> p + rsize r \<le> e"
  by (induction L arbitrary: a) (fastforce dest: tiled_le)+

lemma tiled_distinct: "tiled a L e \<Longrightarrow> distinct (map fst L)"
proof (induction L arbitrary: a)
  case (Cons x L)
  obtain p r where x: "x = (p, r)" by (cases x)
  with Cons.prems have t: "tiled (a + rsize r) L e" "p = a" by auto
  have "a \<notin> fst ` set L"
  proof
    assume "a \<in> fst ` set L"
    then obtain r' where "(a, r') \<in> set L" by auto
    then have "a + rsize r \<le> a" using tiled_bounds [OF t(1)] by blast
    then show False using rsize_pos [of r] by linarith
  qed
  with Cons.IH [OF t(1)] x t show ?case by simp
qed simp

lemma tiled_disjoint:
  "tiled a L e \<Longrightarrow> (p, r) \<in> set L \<Longrightarrow> (q, s) \<in> set L \<Longrightarrow> p \<noteq> q \<Longrightarrow>
   p + rsize r \<le> q \<or> q + rsize s \<le> p"
proof (induction L arbitrary: a)
  case (Cons x L)
  obtain p0 r0 where x: "x = (p0, r0)" by (cases x)
  with Cons.prems have t: "tiled (p0 + rsize r0) L e" by auto
  show ?case
    using Cons.prems Cons.IH [OF t] tiled_bounds [OF t, of p r] tiled_bounds [OF t, of q s] x by auto
qed simp

lemma tiled_snoc: "tiled a L e \<Longrightarrow> tiled a (L @ [(e, r)]) (e + rsize r)"
  by (induction L arbitrary: a) auto

text \<open>Replacing the record at an offset.\<close>

definition upd_rec :: "nat \<Rightarrow> irec \<Rightarrow> (nat \<times> irec) list \<Rightarrow> (nat \<times> irec) list" where
  "upd_rec p r = map (\<lambda>(q, s). if q = p then (q, r) else (q, s))"

lemma tiled_upd_rec:
  "tiled a L e \<Longrightarrow> (\<And>s. (p, s) \<in> set L \<Longrightarrow> rsize r = rsize s) \<Longrightarrow> tiled a (upd_rec p r L) e"
proof (induction L arbitrary: a)
  case (Cons x L)
  obtain q s where x: "x = (q, s)" by (cases x)
  have "rsize (if q = p then r else s) = rsize s" using Cons.prems(2) [of s] x by auto
  moreover have "tiled (a + rsize s) (upd_rec p r L) e"
    using Cons.prems x by (intro Cons.IH) auto
  ultimately show ?case using Cons.prems(1) x by (auto simp: upd_rec_def)
qed (simp add: upd_rec_def)

lemma fst_upd_rec [simp]: "map fst (upd_rec p r L) = map fst L"
  by (induction L) (auto simp: upd_rec_def)

lemma map_of_upd_rec_at: "map_of (upd_rec p r L) q =
    (if q = p \<and> map_of L p \<noteq> None then Some r else map_of L q)"
  by (induction L) (auto simp: upd_rec_def)

lemma map_of_upd_rec: "map_of L p = Some s \<Longrightarrow> map_of (upd_rec p r L) = (map_of L)(p \<mapsto> r)"
  by (rule ext) (simp add: map_of_upd_rec_at)

lemma tiled_map_of:
  assumes "tiled a L e"
  shows "map_of L p = Some r \<longleftrightarrow> (p, r) \<in> set L"
  using tiled_distinct [OF assms] map_of_eq_Some_iff by fastforce

section \<open>The files of a disk\<close>

definition dat_disjoint :: "irec \<Rightarrow> irec \<Rightarrow> bool" where
  "dat_disjoint r s \<longleftrightarrow> r_dat r + r_len r \<le> r_dat s \<or> r_dat s + r_len s \<le> r_dat r"

definition on_disk :: "string \<Rightarrow> string \<Rightarrow> disk \<Rightarrow> bool" where
  "on_disk f g d \<longleftrightarrow>
     window f 0 7 = fmt_d 7 (int (free d)) \<and> free d \<le> 9999999 \<and>
     (\<forall>h < 137. heads d h \<le> 9999999 \<and> window f (7 + 7 * h) 7 = fmt_d 7 (int (heads d h))) \<and>
     tiled 967 (recs d) (length f) \<and>
     (\<forall>p r. recm d p = Some r \<longrightarrow> rec_ok r \<and> window f p (rsize r) = rec_bytes r \<and>
        window g (r_dat r) (r_len r) = r_data r @ [NEWLINE]) \<and>
     (\<forall>p r q s. recm d p = Some r \<longrightarrow> recm d q = Some s \<longrightarrow> p \<noteq> q \<longrightarrow> dat_disjoint r s)"

lemma on_disk_rec:
  assumes "on_disk f g d" "recm d p = Some r"
  shows "rec_ok r" "window f p (rsize r) = rec_bytes r"
    "window g (r_dat r) (r_len r) = r_data r @ [NEWLINE]"
    "967 \<le> p" "p + rsize r \<le> length f" "r_dat r + r_len r \<le> length g"
proof -
  have t: "tiled 967 (recs d) (length f)" using assms(1) by (simp add: on_disk_def)
  show "rec_ok r" "window f p (rsize r) = rec_bytes r"
    and w: "window g (r_dat r) (r_len r) = r_data r @ [NEWLINE]"
    using assms unfolding on_disk_def by blast+
  show "967 \<le> p" "p + rsize r \<le> length f"
    using tiled_bounds [OF t map_of_SomeD [OF assms(2)]] by auto
  show "r_dat r + r_len r \<le> length g"
    using window_full_length [of g "r_dat r" "r_data r @ [NEWLINE]"] w by (simp add: r_len_def)
qed

lemma on_disk_disjoint:
  assumes "on_disk f g d" "recm d p = Some r" "recm d q = Some s" "p \<noteq> q"
  shows "p + rsize r \<le> q \<or> q + rsize s \<le> p" "dat_disjoint r s"
proof -
  have t: "tiled 967 (recs d) (length f)" using assms(1) by (simp add: on_disk_def)
  show "p + rsize r \<le> q \<or> q + rsize s \<le> p"
    using tiled_disjoint [OF t map_of_SomeD [OF assms(2)] map_of_SomeD [OF assms(3)] assms(4)] .
  show "dat_disjoint r s" using assms unfolding on_disk_def by blast
qed

lemma on_disk_length: "on_disk f g d \<Longrightarrow> 967 \<le> length f"
  unfolding on_disk_def by (blast dest: tiled_le)

section \<open>Cells\<close>

datatype cell = Free | Bucket nat | Next nat

fun cell_off :: "cell \<Rightarrow> nat" where
  "cell_off Free = 0"
| "cell_off (Bucket h) = 7 + 7 * h"
| "cell_off (Next p) = p"

fun cell_in :: "disk \<Rightarrow> cell \<Rightarrow> bool" where
  "cell_in d Free = True"
| "cell_in d (Bucket h) = (h < 137)"
| "cell_in d (Next p) = (recm d p \<noteq> None)"

fun get_cell :: "disk \<Rightarrow> cell \<Rightarrow> nat" where
  "get_cell d Free = free d"
| "get_cell d (Bucket h) = heads d h"
| "get_cell d (Next p) = r_ptr (the (recm d p))"

fun set_cell :: "disk \<Rightarrow> cell \<Rightarrow> nat \<Rightarrow> disk" where
  "set_cell d Free v = d\<lparr>free := v\<rparr>"
| "set_cell d (Bucket h) v = d\<lparr>heads := (heads d)(h := v)\<rparr>"
| "set_cell d (Next p) v = d\<lparr>recs := upd_rec p ((the (recm d p))\<lparr>r_ptr := v\<rparr>) (recs d)\<rparr>"

lemma set_cell_recm:
  "cell_in d (Next p) \<Longrightarrow> recm (set_cell d (Next p) v) = (recm d)(p \<mapsto> (the (recm d p))\<lparr>r_ptr := v\<rparr>)"
  by (auto simp: map_of_upd_rec)

lemma get_cell_window:
  assumes "on_disk f g d" "cell_in d c"
  shows "window f (cell_off c) 7 = fmt_d 7 (int (get_cell d c)) \<and> get_cell d c \<le> 9999999
    \<and> cell_off c + 7 \<le> length f"
proof (cases c)
  case (Next p)
  with assms(2) obtain r where r: "recm d p = Some r" by auto
  note o = on_disk_rec [OF assms(1) r]
  have "7 \<le> rsize r" by (simp add: rsize_def)
  then show ?thesis using rec_windows(3) [OF o(1,2)] o(1,5) Next r by (simp add: rec_ok_def)
qed (use assms on_disk_length [OF assms(1)] in \<open>auto simp: on_disk_def\<close>)

text \<open>The text of a record does not depend on its chain pointer.\<close>

lemma rec_text_ptr [simp]: "rec_text (r\<lparr>r_ptr := v\<rparr>) = rec_text r" "rsize (r\<lparr>r_ptr := v\<rparr>) = rsize r"
  "r_len (r\<lparr>r_ptr := v\<rparr>) = r_len r"
  by (simp_all add: rec_text_def r_len_def rsize_def)

lemma rec_ok_ptr: "rec_ok r \<Longrightarrow> v \<le> 9999999 \<Longrightarrow> rec_ok (r\<lparr>r_ptr := v\<rparr>)"
  by (simp add: rec_ok_def)

lemma splice_prefix:
  assumes "off + length a + length b \<le> length f" "window f off (length a + length b) = x @ b"
    and "length x = length a"
  shows "window (splice f off a) off (length a + length b) = a @ b"
proof (rule window_split)
  show "window (splice f off a) off (length a) = a" using assms(1) by (simp add: window_same)
  have "window f (off + length x) (length b) = b"
    using window_sub [of f off "length a + length b" x b "[]"] assms(2,3) by simp
  then show "window (splice f off a) (off + length a) (length b) = b"
    using assms(1,3) by (simp add: window_other)
qed

text \<open>Overwriting the first bytes of a record is overwriting its chain pointer.\<close>

lemma splice_record_ptr:
  assumes "rec_ok r" "window f p (rsize r) = rec_bytes r" "p + rsize r \<le> length f" "v \<le> 9999999"
  shows "window (splice f p (fmt_d 7 (int v))) p (rsize r) = rec_bytes (r\<lparr>r_ptr := v\<rparr>)"
proof -
  let ?b = "fmt_d 4 (int (length (rec_text r))) @ rec_text r"
  have l: "length (fmt_d 7 (int v)) + length ?b = rsize r"
    using assms(1,4) rec_ok_text_bound [OF assms(1)] by (simp add: rsize_def)
  have "window (splice f p (fmt_d 7 (int v))) p (length (fmt_d 7 (int v)) + length ?b) = fmt_d 7 (int v) @ ?b"
  proof (rule splice_prefix)
    show "p + length (fmt_d 7 (int v)) + length ?b \<le> length f" using l assms(3) by simp
    show "window f p (length (fmt_d 7 (int v)) + length ?b) = fmt_d 7 (int (r_ptr r)) @ ?b"
      using l assms(2) by (simp add: rec_bytes_def)
    show "length (fmt_d 7 (int (r_ptr r))) = length (fmt_d 7 (int v))"
      using assms(1,4) by (simp add: rec_ok_def)
  qed
  with l show ?thesis by (simp add: rec_bytes_def)
qed

section \<open>Updates of the disk\<close>

text \<open>Changing one record in place: both files keep everything outside the record's windows.\<close>

lemma on_disk_upd:
  assumes d: "on_disk f g d" "recm d p = Some r"
    and r': "rec_ok r'" "rsize r' = rsize r" "r_dat r' = r_dat r" "r_len r' = r_len r"
    and f': "length f' = length f"
      "\<And>q n. q + n \<le> p \<or> p + rsize r \<le> q \<Longrightarrow> window f' q n = window f q n"
      "window f' p (rsize r) = rec_bytes r'"
    and g': "\<And>s. dat_disjoint r s \<Longrightarrow> window g' (r_dat s) (r_len s) = window g (r_dat s) (r_len s)"
      "window g' (r_dat r) (r_len r) = r_data r' @ [NEWLINE]"
  shows "on_disk f' g' (d\<lparr>recs := upd_rec p r' (recs d)\<rparr>)"
proof -
  note o = on_disk_rec [OF d]
  let ?d = "d\<lparr>recs := upd_rec p r' (recs d)\<rparr>"
  have m: "recm ?d = (recm d)(p \<mapsto> r')" using d(2) by (simp add: map_of_upd_rec)
  have t: "tiled 967 (recs d) (length f)" using d(1) by (simp add: on_disk_def)
  have "tiled 967 (recs ?d) (length f')"
  proof -
    have "rsize r' = rsize s" if "(p, s) \<in> set (recs d)" for s
      using that tiled_map_of [OF t, of p s] d(2) r'(2) by simp
    with tiled_upd_rec [OF t, of p r'] f'(1) show ?thesis by simp
  qed
  moreover have "rec_ok s \<and> window f' q (rsize s) = rec_bytes s \<and>
      window g' (r_dat s) (r_len s) = r_data s @ [NEWLINE]" if "recm ?d q = Some s" for q s
  proof (cases "q = p")
    case True
    with that m have "s = r'" by simp
    with True r' f'(3) g'(2) show ?thesis by simp
  next
    case False
    with that m have s: "recm d q = Some s" by simp
    note os = on_disk_rec [OF d(1) s] and dj = on_disk_disjoint [OF d s False [symmetric]]
    show ?thesis using os(1-3) f'(2) [of q "rsize s"] g'(1) [OF dj(2)] dj(1) by auto
  qed
  moreover have "dat_disjoint s s'"
    if "recm ?d q = Some s" "recm ?d q' = Some s'" "q \<noteq> q'" for q s q' s'
  proof -
    have eq: "\<exists>t. recm d x = Some t \<and> r_dat t = r_dat y \<and> r_len t = r_len y" if "recm ?d x = Some y" for x y
      using that m d(2) r' by (auto split: if_splits)
    note q = that
    obtain t t' where "recm d q = Some t" "recm d q' = Some t'"
      "r_dat t = r_dat s" "r_len t = r_len s" "r_dat t' = r_dat s'" "r_len t' = r_len s'"
      using eq [OF q(1)] eq [OF q(2)] by auto
    with on_disk_disjoint(2) [OF d(1), of q t q' t'] q(3) show ?thesis by (simp add: dat_disjoint_def)
  qed
  moreover have "window f' 0 7 = window f 0 7" "h < 137 \<Longrightarrow> window f' (7 + 7 * h) 7 = window f (7 + 7 * h) 7" for h
    using f'(2) [of 0 7] f'(2) [of "7 + 7 * h" 7] o(4) by auto
  ultimately show ?thesis using d(1) unfolding on_disk_def by simp
qed

lemma on_disk_set_next:
  assumes d: "on_disk f g d" "recm d p = Some r" and v: "v \<le> 9999999"
  shows "on_disk (splice f p (fmt_d 7 (int v))) g (d\<lparr>recs := upd_rec p (r\<lparr>r_ptr := v\<rparr>) (recs d)\<rparr>)"
proof -
  note o = on_disk_rec [OF d]
  have le: "p + 7 \<le> length f" "7 \<le> rsize r" using o(5) by (auto simp: rsize_def)
  show ?thesis
  proof (rule on_disk_upd [OF d])
    show "rec_ok (r\<lparr>r_ptr := v\<rparr>)" using o(1) v by (rule rec_ok_ptr)
    show "window (splice f p (fmt_d 7 (int v))) p (rsize r) = rec_bytes (r\<lparr>r_ptr := v\<rparr>)"
      by (rule splice_record_ptr [OF o(1,2,5) v])
  qed (use le v o(3) in \<open>auto simp: window_simps\<close>)
qed

lemma on_disk_set_cell:
  assumes d: "on_disk f g d" and c: "cell_in d c" and v: "v \<le> 9999999"
  shows "on_disk (splice f (cell_off c) (fmt_d 7 (int v))) g (set_cell d c v)"
proof (cases c)
  case (Next p)
  with c obtain r where "recm d p = Some r" by auto
  with on_disk_set_next [OF d this v] Next show ?thesis by simp
next
  case Free
  have len: "967 \<le> length f" by (rule on_disk_length [OF d])
  have rec: "window (splice f 0 (fmt_d 7 (int v))) p (rsize r) = window f p (rsize r)" if "recm d p = Some r" for p r
    using on_disk_rec(4) [OF d that] len v by (simp add: window_other)
  show ?thesis
    using d Free v len rec window_same [of 0 f "fmt_d 7 (int v)"]
    unfolding on_disk_def by (auto simp: window_other length_splice_in)
next
  case (Bucket h)
  have len: "967 \<le> length f" by (rule on_disk_length [OF d])
  have h: "h < 137" using c Bucket by simp
  let ?s = "splice f (7 + 7 * h) (fmt_d 7 (int v))"
  have rec: "window ?s p (rsize r) = window f p (rsize r)" if "recm d p = Some r" for p r
    using on_disk_rec(4) [OF d that] len v h by (simp add: window_other)
  have bk: "window ?s (7 + 7 * h') 7 = (if h' = h then fmt_d 7 (int v) else window f (7 + 7 * h') 7)"
    if "h' < 137" for h'
  proof (cases "h' = h")
    case False
    then have "7 + 7 * h' + 7 \<le> 7 + 7 * h \<or> 7 + 7 * h + 7 \<le> 7 + 7 * h'" by linarith
    then show ?thesis using False len v h by (simp add: window_other)
  qed (use len h v window_same [of "7 + 7 * h" f "fmt_d 7 (int v)"] in simp)
  show ?thesis
    using d Bucket v len h rec bk unfolding on_disk_def by (auto simp: window_other length_splice_in)
qed

lemma on_disk_set_data:
  assumes d: "on_disk f g d" "recm d p = Some r" and n: "length dat = length (r_data r)" "NUL \<notin> set dat"
  shows "on_disk f (splice g (r_dat r) (dat @ [NEWLINE])) (d\<lparr>recs := upd_rec p (r\<lparr>r_data := dat\<rparr>) (recs d)\<rparr>)"
proof -
  note o = on_disk_rec [OF d]
  have t: "r_len (r\<lparr>r_data := dat\<rparr>) = r_len r" "rec_text (r\<lparr>r_data := dat\<rparr>) = rec_text r"
    using n by (simp_all add: r_len_def rec_text_def)
  have l: "length (dat @ [NEWLINE]) = r_len r" using n by (simp add: r_len_def)
  show ?thesis
  proof (rule on_disk_upd [OF d])
    show "rec_ok (r\<lparr>r_data := dat\<rparr>)" using o(1) n t by (simp add: rec_ok_def)
    show "window (splice g (r_dat r) (dat @ [NEWLINE])) (r_dat r) (r_len r) = r_data (r\<lparr>r_data := dat\<rparr>) @ [NEWLINE]"
      using window_same [of "r_dat r" g "dat @ [NEWLINE]"] l o(6) by simp
    show "window (splice g (r_dat r) (dat @ [NEWLINE])) (r_dat s) (r_len s) = window g (r_dat s) (r_len s)"
      if "dat_disjoint r s" for s
      using that l o(6) by (intro window_other) (auto simp: dat_disjoint_def)
    show "window f p (rsize r) = rec_bytes (r\<lparr>r_data := dat\<rparr>)"
      using o(2) t by (simp add: rec_bytes_def)
  qed (use t in \<open>auto simp: rsize_def\<close>)
qed

lemma on_disk_set_idx:
  assumes d: "on_disk f g d" "recm d p = Some r"
    and r': "rec_ok r'" "r_dat r' = r_dat r" "r_data r' = r_data r" "length (r_key r') = length (r_key r)"
  shows "on_disk (splice f p (rec_bytes r')) g (d\<lparr>recs := upd_rec p r' (recs d)\<rparr>)"
proof -
  note o = on_disk_rec [OF d]
  have s: "r_len r' = r_len r" "rsize r' = rsize r"
    using r' by (simp_all add: r_len_def rsize_def rec_text_def idx_text_def)
  have l: "length (rec_bytes r') = rsize r" using length_rec_bytes [OF r'(1)] s by simp
  show ?thesis
  proof (rule on_disk_upd [OF d r'(1) s(2) r'(2) s(1)])
    show "window (splice f p (rec_bytes r')) p (rsize r) = rec_bytes r'"
      using window_same [of p f "rec_bytes r'"] l o(5) by simp
  qed (use l o(3,5) r' in \<open>auto simp: window_simps\<close>)
qed

lemma on_disk_append:
  assumes d: "on_disk f g d" and r: "rec_ok r" "r_dat r = length g"
  shows "on_disk (f @ rec_bytes r) (g @ r_data r @ [NEWLINE]) (d\<lparr>recs := recs d @ [(length f, r)]\<rparr>)"
proof -
  let ?d = "d\<lparr>recs := recs d @ [(length f, r)]\<rparr>"
  have t: "tiled 967 (recs d) (length f)" using d by (simp add: on_disk_def)
  have new: "recm d (length f) = None"
  proof (rule ccontr)
    assume "recm d (length f) \<noteq> None"
    then obtain s where "recm d (length f) = Some s" by auto
    from on_disk_rec(5) [OF d this] show False using rsize_pos [of s] by linarith
  qed
  have m: "recm ?d = (recm d)(length f \<mapsto> r)"
    using new by (auto simp: map_add_def fun_eq_iff split: option.splits)
  have "tiled 967 (recs ?d) (length (f @ rec_bytes r))"
    using tiled_snoc [OF t] length_rec_bytes [OF r(1)] by simp
  moreover have "rec_ok s \<and> window (f @ rec_bytes r) q (rsize s) = rec_bytes s \<and>
      window (g @ r_data r @ [NEWLINE]) (r_dat s) (r_len s) = r_data s @ [NEWLINE]" if "recm ?d q = Some s" for q s
  proof (cases "q = length f")
    case True
    with that m have "s = r" by simp
    with True r length_rec_bytes [OF r(1)] window_append_end [of f "rec_bytes r"]
      window_append_end [of g "r_data r @ [NEWLINE]"] show ?thesis by (simp add: r_len_def)
  next
    case False
    with that m have "recm d q = Some s" by simp
    note os = on_disk_rec [OF d this]
    show ?thesis using os by (simp add: window_append)
  qed
  moreover have "dat_disjoint s s'"
    if "recm ?d q = Some s" "recm ?d q' = Some s'" "q \<noteq> q'" for q s q' s'
  proof -
    have old: "r_dat y + r_len y \<le> length g" if "recm d x = Some y" for x y
      using on_disk_rec(6) [OF d that] .
    show ?thesis
      using that m r(2) old on_disk_disjoint(2) [OF d, of q s q' s']
      by (auto simp: dat_disjoint_def split: if_splits)
  qed
  moreover have "window (f @ rec_bytes r) q 7 = window f q 7" if "q + 7 \<le> 967" for q
    using that on_disk_length [OF d] by (simp add: window_append)
  ultimately show ?thesis using d unfolding on_disk_def by simp
qed

end
