(* ===== verification/DbChains.thy ===== *)
theory DbChains imports DbLayout begin

text \<open>
  The hash chains and the free list of a database, on the disk of \<open>DbLayout\<close>: \<open>chain M v ps\<close>
  says that following chain pointers from \<open>v\<close> visits the records \<open>ps\<close>.  \<open>linked X d F C m\<close> is
  the invariant: the free list is \<open>F\<close>, the chain of bucket \<open>h\<close> is \<open>C h\<close>, every record is on
  exactly one of them (but for the records of \<open>X\<close>, which are being moved), and the live
  records are the map \<open>m\<close>.  The lemmas say how unlinking, rewriting and pushing a record
  change it.
\<close>

fun chain :: "(nat \<rightharpoonup> irec) \<Rightarrow> nat \<Rightarrow> nat list \<Rightarrow> bool" where
  "chain M v [] \<longleftrightarrow> v = 0"
| "chain M v (p # ps) \<longleftrightarrow> v = p \<and> p \<noteq> 0 \<and> (\<exists>r. M p = Some r \<and> chain M (r_ptr r) ps)"

lemma chain_dom: "chain M v ps \<Longrightarrow> p \<in> set ps \<Longrightarrow> \<exists>r. M p = Some r"
  by (induction ps arbitrary: v) auto

lemma chain_upd [simp]: "p \<notin> set ps \<Longrightarrow> chain (M(p \<mapsto> r)) v ps = chain M v ps"
  by (induction ps arbitrary: v) auto

lemma chain_unique: "chain M v ps \<Longrightarrow> chain M v qs \<Longrightarrow> ps = qs"
proof (induction ps arbitrary: v qs)
  case Nil
  then show ?case by (cases qs) auto
next
  case (Cons p ps)
  then show ?case by (cases qs) auto
qed

lemma chain_tail: "chain M v (as @ p # bs) \<Longrightarrow> chain M p (p # bs)"
  by (induction as arbitrary: v) auto

lemma chain_distinct: "chain M v ps \<Longrightarrow> distinct ps"
proof (induction ps arbitrary: v)
  case (Cons p ps)
  then obtain r where r: "M p = Some r" "chain M (r_ptr r) ps" by auto
  have "p \<notin> set ps"
  proof
    assume "p \<in> set ps"
    then obtain as bs where ps: "ps = as @ p # bs" by (meson split_list)
    with r(2) have "chain M p (p # bs)" by (blast dest: chain_tail)
    moreover have "chain M p (p # ps)" using Cons.prems by auto
    ultimately have "bs = ps" using chain_unique by blast
    with ps show False using length_append [of as "p # bs"] by simp
  qed
  with Cons.IH [OF r(2)] show ?case by simp
qed simp

text \<open>Making the record before \<open>p\<close> point past \<open>p\<close>.\<close>

lemma chain_remove:
  assumes "chain M v (as @ q # p # bs)" "M p = Some r" "M q = Some s"
  shows "chain (M(q \<mapsto> s\<lparr>r_ptr := r_ptr r\<rparr>)) v (as @ q # bs)"
  using assms
proof (induction as arbitrary: v)
  case Nil
  have q: "q \<notin> set bs" using chain_distinct [OF Nil(1)] by simp
  have "chain M (r_ptr r) bs" "v = q" "q \<noteq> 0" using Nil by auto
  then show ?case using q by (simp del: fun_upd_apply) (simp add: fun_upd_same)
next
  case (Cons a as)
  then have "a \<noteq> q" using chain_distinct [of M v "(a # as) @ q # p # bs"] by auto
  with Cons show ?case by auto
qed

section \<open>The invariant\<close>

definition hashof :: "string \<Rightarrow> nat" where
  "hashof k = unat (db_hash_from 1 0 k mod 137)"

lemma hashof_bound [simp]: "hashof k < 137"
proof -
  have "unat (db_hash_from 1 0 k mod (137 :: 64 word)) = unat (db_hash_from 1 0 k) mod 137"
    by (simp add: unat_mod)
  then show ?thesis by (simp add: hashof_def)
qed

abbreviation keyat :: "disk \<Rightarrow> nat \<Rightarrow> string" where
  "keyat d p \<equiv> r_key (the (recm d p))"

definition blank :: "string \<Rightarrow> bool" where
  "blank s \<longleftrightarrow> (\<forall>c \<in> set s. c = SPACE)"

definition linked :: "nat set \<Rightarrow> disk \<Rightarrow> nat list \<Rightarrow> (nat \<Rightarrow> nat list) \<Rightarrow> (string \<rightharpoonup> string) \<Rightarrow> bool" where
  "linked X d F C m \<longleftrightarrow>
     chain (recm d) (free d) F \<and> (\<forall>h < 137. chain (recm d) (heads d h) (C h)) \<and>
     (\<forall>p. recm d p \<noteq> None \<longleftrightarrow> p \<in> X \<or> p \<in> set F \<or> (\<exists>h < 137. p \<in> set (C h))) \<and>
     X \<inter> set F = {} \<and> (\<forall>h < 137. X \<inter> set (C h) = {} \<and> set F \<inter> set (C h) = {}) \<and>
     (\<forall>p \<in> set F. blank (keyat d p)) \<and>
     (\<forall>h < 137. \<forall>p \<in> set (C h). hashof (keyat d p) = h) \<and>
     (\<forall>h < 137. inj_on (keyat d) (set (C h))) \<and>
     (\<forall>k v. m k = Some v \<longleftrightarrow>
        (\<exists>p \<in> set (C (hashof k)). keyat d p = k \<and> r_data (the (recm d p)) = v))"

lemma linkedD:
  assumes "linked X d F C m"
  shows "chain (recm d) (free d) F"
    and "h < 137 \<Longrightarrow> chain (recm d) (heads d h) (C h)"
    and "recm d p \<noteq> None \<longleftrightarrow> p \<in> X \<or> p \<in> set F \<or> (\<exists>h < 137. p \<in> set (C h))"
    and "X \<inter> set F = {}" and "h < 137 \<Longrightarrow> X \<inter> set (C h) = {}" and "h < 137 \<Longrightarrow> set F \<inter> set (C h) = {}"
    and "p \<in> set F \<Longrightarrow> blank (keyat d p)"
    and "h < 137 \<Longrightarrow> p \<in> set (C h) \<Longrightarrow> hashof (keyat d p) = h"
    and "h < 137 \<Longrightarrow> inj_on (keyat d) (set (C h))"
    and "m k = Some v \<longleftrightarrow> (\<exists>p \<in> set (C (hashof k)). keyat d p = k \<and> r_data (the (recm d p)) = v)"
proof -
  note L = assms [unfolded linked_def]
  show "chain (recm d) (free d) F" using L by (elim conjE)
  show "h < 137 \<Longrightarrow> chain (recm d) (heads d h) (C h)" using L by (elim conjE allE impE)
  show "recm d p \<noteq> None \<longleftrightarrow> p \<in> X \<or> p \<in> set F \<or> (\<exists>h < 137. p \<in> set (C h))"
    using L by (elim conjE) (erule spec)
  show "X \<inter> set F = {}" using L by (elim conjE)
  show "h < 137 \<Longrightarrow> X \<inter> set (C h) = {}" "h < 137 \<Longrightarrow> set F \<inter> set (C h) = {}"
    using L by (metis (no_types, lifting))+
  show "p \<in> set F \<Longrightarrow> blank (keyat d p)" using L by (metis (no_types, lifting))
  show "h < 137 \<Longrightarrow> p \<in> set (C h) \<Longrightarrow> hashof (keyat d p) = h" using L by (metis (no_types, lifting))
  show "h < 137 \<Longrightarrow> inj_on (keyat d) (set (C h))" using L by (metis (no_types, lifting))
  show "m k = Some v \<longleftrightarrow> (\<exists>p \<in> set (C (hashof k)). keyat d p = k \<and> r_data (the (recm d p)) = v)"
    using L by (metis (no_types, lifting))
qed

lemma linked_bucket_unique:
  "linked X d F C m \<Longrightarrow> h < 137 \<Longrightarrow> h' < 137 \<Longrightarrow> p \<in> set (C h) \<Longrightarrow> p \<in> set (C h') \<Longrightarrow> h = h'"
  using linkedD(8) by metis

text \<open>The invariant only reads the pointers and the records by offset.\<close>

lemma linked_cong:
  "free d' = free d \<Longrightarrow> heads d' = heads d \<Longrightarrow> recm d' = recm d \<Longrightarrow> linked X d' F C m = linked X d F C m"
  by (simp add: linked_def)

text \<open>What the map says about a key.\<close>

lemma linked_None:
  assumes "linked X d F C m" "m k = None"
  shows "\<forall>p \<in> set (C (hashof k)). keyat d p \<noteq> k"
proof
  fix p assume p: "p \<in> set (C (hashof k))"
  show "keyat d p \<noteq> k"
  proof
    assume "keyat d p = k"
    with p linkedD(10) [OF assms(1), of k "r_data (the (recm d p))"] assms(2) show False by auto
  qed
qed

lemma linked_Some:
  assumes "linked X d F C m" "m k = Some v"
  obtains as p bs r where "C (hashof k) = as @ p # bs" "recm d p = Some r" "r_key r = k" "r_data r = v"
    "\<forall>q \<in> set as. keyat d q \<noteq> k"
proof -
  let ?h = "hashof k"
  obtain p where p: "p \<in> set (C ?h)" "keyat d p = k" "r_data (the (recm d p)) = v"
    using linkedD(10) [OF assms(1)] assms(2) by blast
  obtain r where r: "recm d p = Some r" using chain_dom [OF linkedD(2) [OF assms(1)] p(1)] by auto
  obtain as bs where s: "C ?h = as @ p # bs" by (meson p(1) split_list)
  have "distinct (C ?h)" by (rule chain_distinct [OF linkedD(2) [OF assms(1)]]) simp
  then have "q \<noteq> p" if "q \<in> set as" for q using s that by auto
  moreover have "inj_on (keyat d) (set (C ?h))" by (rule linkedD(9) [OF assms(1)]) simp
  ultimately have "\<forall>q \<in> set as. keyat d q \<noteq> k" using s p(2) by (auto simp: inj_on_def)
  with that s r p show thesis by auto
qed

section \<open>Moving a record\<close>

text \<open>The cell that points to the record after \<open>as\<close> in a chain that starts at cell \<open>c\<close>.\<close>

definition prev_cell :: "cell \<Rightarrow> nat list \<Rightarrow> cell" where
  "prev_cell c as = (if as = [] then c else Next (last as))"

lemma keyat_upd_ptr:
  "recm d q = Some s \<Longrightarrow> ((recm d)(q \<mapsto> s\<lparr>r_ptr := v\<rparr>)) p = Some t \<Longrightarrow>
   \<exists>t0. recm d p = Some t0 \<and> r_key t = r_key t0 \<and> r_data t = r_data t0"
  by (auto split: if_splits)

text \<open>\<open>d'\<close> differs from \<open>d\<close> in chain pointers only.\<close>

definition same_recs :: "disk \<Rightarrow> disk \<Rightarrow> bool" where
  "same_recs d d' \<longleftrightarrow> (\<forall>p. (recm d' p = None \<longleftrightarrow> recm d p = None) \<and>
     r_key (the (recm d' p)) = r_key (the (recm d p)) \<and> r_data (the (recm d' p)) = r_data (the (recm d p)))"

lemma same_recs_set_cell: "cell_in d c \<Longrightarrow> same_recs d (set_cell d c v)"
  by (cases c) (auto simp: same_recs_def map_of_upd_rec split: if_splits)

lemma bucket_upd:
  "h < 137 \<Longrightarrow> (\<exists>h' < (137 :: nat). q \<in> set ((C(h := xs)) h')) \<longleftrightarrow>
     q \<in> set xs \<or> (\<exists>h' < 137. h' \<noteq> h \<and> q \<in> set (C h'))"
  by (metis fun_upd_apply)

lemma unlink_free:
  assumes l: "linked {} d (as @ p # bs) C m" and r: "recm d p = Some r"
  shows "linked {p} (set_cell d (prev_cell Free as) (r_ptr r)) (as @ bs) C m"
    and "cell_in d (prev_cell Free as)"
proof -
  note D = linkedD [OF l]
  have dist: "distinct (as @ p # bs)" by (rule chain_distinct [OF D(1)])
  have q: "\<exists>s. recm d (last as) = Some s \<and> last as \<in> set as" if "as \<noteq> []"
    using chain_dom [OF D(1), of "last as"] that by auto
  then show c: "cell_in d (prev_cell Free as)" by (auto simp: prev_cell_def)
  let ?d = "set_cell d (prev_cell Free as) (r_ptr r)"
  have same: "same_recs d ?d" by (rule same_recs_set_cell [OF c])
  have F: "chain (recm ?d) (free ?d) (as @ bs)"
  proof (cases "as = []")
    case True
    with D(1) r show ?thesis by (auto simp: prev_cell_def)
  next
    case False
    then obtain as' q s where as: "as = as' @ [q]" "recm d q = Some s"
      using q by (metis append_butlast_last_id)
    with chain_remove [of "recm d" "free d" as' q p bs r s] D(1) r False show ?thesis
      by (simp add: prev_cell_def map_of_upd_rec)
  qed
  have H: "chain (recm ?d) (heads ?d h) (C h)" if h: "h < 137" for h
  proof (cases "as = []")
    case True
    with D(2) [OF h] show ?thesis by (simp add: prev_cell_def)
  next
    case False
    then have "last as \<in> set (as @ p # bs)" by simp
    with D(6) [OF h] have "last as \<notin> set (C h)" by blast
    with D(2) [OF h] q False show ?thesis by (auto simp: prev_cell_def map_of_upd_rec)
  qed
  show "linked {p} ?d (as @ bs) C m"
    using F H D dist same unfolding linked_def same_recs_def inj_on_def by auto
qed

lemma unlink_bucket:
  assumes l: "linked {} d F C m" and C: "C h = as @ p # bs" "h < 137" and r: "recm d p = Some r"
  shows "linked {p} (set_cell d (prev_cell (Bucket h) as) (r_ptr r)) F (C(h := as @ bs)) (m(r_key r := None))"
    and "cell_in d (prev_cell (Bucket h) as)"
proof -
  note D = linkedD [OF l]
  have dist: "distinct (as @ p # bs)" using chain_distinct [OF D(2) [OF C(2)]] C(1) by simp
  have q: "\<exists>s. recm d (last as) = Some s \<and> last as \<in> set (C h)" if "as \<noteq> []"
    using chain_dom [OF D(2) [OF C(2)], of "last as"] that C(1) by auto
  then show c: "cell_in d (prev_cell (Bucket h) as)" using C(2) by (auto simp: prev_cell_def)
  let ?d = "set_cell d (prev_cell (Bucket h) as) (r_ptr r)"
  let ?C = "C(h := as @ bs)"
  have same: "same_recs d ?d" by (rule same_recs_set_cell [OF c])
  have F: "chain (recm ?d) (free ?d) F"
  proof (cases "as = []")
    case True
    with D(1) show ?thesis by (simp add: prev_cell_def)
  next
    case False
    with q D(6) [OF C(2)] have "last as \<notin> set F" by auto
    with D(1) q False show ?thesis by (auto simp: prev_cell_def map_of_upd_rec)
  qed
  have H: "chain (recm ?d) (heads ?d h') (?C h')" if h': "h' < 137" for h'
  proof (cases "as = []")
    case True
    with D(2) [OF h'] D(2) [OF C(2)] C r show ?thesis by (auto simp: prev_cell_def)
  next
    case False
    then obtain as' s where as: "as = as' @ [last as]" "recm d (last as) = Some s"
      using q by (metis append_butlast_last_id)
    show ?thesis
    proof (cases "h' = h")
      case True
      with chain_remove [of "recm d" "heads d h" as' "last as" p bs r s] D(2) [OF C(2)] C r False as show ?thesis
        by (simp add: prev_cell_def map_of_upd_rec) (metis append.assoc append_Cons append_Nil)
    next
      case ne: False
      have "last as \<notin> set (C h')" using q False ne linked_bucket_unique [OF l h' C(2)] by blast
      with D(2) [OF h'] as False ne show ?thesis by (simp add: prev_cell_def map_of_upd_rec)
    qed
  qed
  have key: "hashof (keyat d p) = h" using D(8) [OF C(2), of p] C(1) by simp
  have M: "(m(r_key r := None)) k = Some v \<longleftrightarrow>
      (\<exists>q \<in> set (?C (hashof k)). keyat d q = k \<and> r_data (the (recm d q)) = v)" for k v
  proof -
    have inj: "inj_on (keyat d) (set (C h))" by (rule D(9) [OF C(2)])
    have "keyat d q \<noteq> keyat d p" if "q \<in> set (as @ bs)" for q
      using inj that dist C(1) by (auto simp: inj_on_def)
    then show ?thesis using D(10) [of k v] C(1) r key by auto
  qed
  have P: "recm d q \<noteq> None \<longleftrightarrow> q = p \<or> q \<in> set F \<or> (\<exists>h' < 137. q \<in> set (?C h'))" for q
  proof -
    have "(\<exists>h' < 137. q \<in> set (C h')) \<longleftrightarrow> q \<in> set (C h) \<or> (\<exists>h' < 137. h' \<noteq> h \<and> q \<in> set (C h'))"
      using C(2) by blast
    with D(3) [of q] C show ?thesis unfolding bucket_upd [OF C(2)] by auto
  qed
  have pF: "p \<notin> set F" using D(6) [OF C(2)] C(1) by auto
  have pC: "p \<notin> set (?C h')" if "h' < 137" for h'
    using linked_bucket_unique [OF l that C(2), of p] dist C(1) by auto
  have sub: "set (?C h') \<subseteq> set (C h')" for h' using C(1) by auto
  show "linked {p} ?d F ?C (m(r_key r := None))"
    unfolding linked_def
  proof (intro conjI)
    show "\<forall>q. recm ?d q \<noteq> None \<longleftrightarrow> q \<in> {p} \<or> q \<in> set F \<or> (\<exists>h' < 137. q \<in> set (?C h'))"
      using P same by (simp add: same_recs_def)
    show "\<forall>h' < 137. {p} \<inter> set (?C h') = {} \<and> set F \<inter> set (?C h') = {}"
      using pC D(6) sub by blast
    show "\<forall>h' < 137. \<forall>q \<in> set (?C h'). hashof (keyat ?d q) = h'"
      using D(8) sub same unfolding same_recs_def by (metis subsetD)
    show "\<forall>h' < 137. inj_on (keyat ?d) (set (?C h'))"
      using D(9) sub same unfolding same_recs_def inj_on_def by (metis subsetD)
    show "\<forall>k v. (m(r_key r := None)) k = Some v \<longleftrightarrow>
        (\<exists>q \<in> set (?C (hashof k)). keyat ?d q = k \<and> r_data (the (recm ?d q)) = v)"
      using M same by (simp add: same_recs_def)
  qed (use F H D pF same in \<open>auto simp: same_recs_def\<close>)
qed

text \<open>A record that is on no chain may be rewritten.\<close>

lemma linked_rewrite:
  assumes l: "linked {p} d F C m" and r: "recm d' = (recm d)(p \<mapsto> r)" "free d' = free d" "heads d' = heads d"
  shows "linked {p} d' F C m"
proof -
  note D = linkedD [OF l]
  have pF: "p \<notin> set F" using D(4) by auto
  have pC: "p \<notin> set (C h)" if "h < 137" for h using D(5) [OF that] by auto
  have ne: "q \<noteq> p" if "h < 137" "q \<in> set (C h)" for q h using pC that by blast
  show ?thesis
    unfolding linked_def
  proof (intro conjI)
    show "\<forall>h < 137. chain (recm d') (heads d' h) (C h)" using D(2) pC r by simp
    show "\<forall>q. recm d' q \<noteq> None \<longleftrightarrow> q \<in> {p} \<or> q \<in> set F \<or> (\<exists>h < 137. q \<in> set (C h))"
      using D(3) r(1) by simp
    show "\<forall>h < 137. inj_on (keyat d') (set (C h))"
      using D(9) ne r(1) by (simp add: inj_on_def)
    show "\<forall>k v. m k = Some v \<longleftrightarrow>
        (\<exists>q \<in> set (C (hashof k)). keyat d' q = k \<and> r_data (the (recm d' q)) = v)"
      using D(10) ne [OF hashof_bound] r(1) by (simp cong: bex_cong)
    show "\<forall>h < 137. \<forall>q \<in> set (C h). hashof (keyat d' q) = h" using D(8) ne r(1) by simp
  qed (use D pF r in \<open>auto\<close>)
qed

lemma linked_add:
  assumes l: "linked {} d F C m" and r: "recm d' = (recm d)(p \<mapsto> r)" "free d' = free d" "heads d' = heads d"
    and p: "recm d p = None"
  shows "linked {p} d' F C m"
proof -
  note D = linkedD [OF l]
  have pF: "p \<notin> set F" using D(3) [of p] p by auto
  have pC: "p \<notin> set (C h)" if "h < 137" for h using D(3) [of p] p that by auto
  have ne: "q \<noteq> p" if "h < 137" "q \<in> set (C h)" for q h using pC that by blast
  show ?thesis
    unfolding linked_def
  proof (intro conjI)
    show "\<forall>h < 137. chain (recm d') (heads d' h) (C h)" using D(2) pC r by simp
    show "\<forall>q. recm d' q \<noteq> None \<longleftrightarrow> q \<in> {p} \<or> q \<in> set F \<or> (\<exists>h < 137. q \<in> set (C h))"
      using D(3) r(1) by simp
    show "\<forall>h < 137. inj_on (keyat d') (set (C h))"
      using D(9) ne r(1) by (simp add: inj_on_def)
    show "\<forall>k v. m k = Some v \<longleftrightarrow>
        (\<exists>q \<in> set (C (hashof k)). keyat d' q = k \<and> r_data (the (recm d' q)) = v)"
      using D(10) ne [OF hashof_bound] r(1) by (simp cong: bex_cong)
    show "\<forall>h < 137. \<forall>q \<in> set (C h). hashof (keyat d' q) = h" using D(8) ne r(1) by simp
  qed (use D pF pC r in \<open>auto\<close>)
qed

lemma push_free:
  assumes l: "linked {p} d F C m" and p: "p \<noteq> 0" "recm d p = Some r" "r_ptr r = free d" "blank (r_key r)"
  shows "linked {} (set_cell d Free p) (p # F) C m"
  using linkedD [OF l] p unfolding linked_def by (auto simp: Int_commute)

lemma push_bucket:
  assumes l: "linked {p} d F C m" and p: "p \<noteq> 0" "recm d p = Some r" "r_ptr r = heads d h"
    and h: "hashof (r_key r) = h" "m (r_key r) = None"
  shows "linked {} (set_cell d (Bucket h) p) F (C(h := p # C h)) (m(r_key r \<mapsto> r_data r))"
proof -
  note D = linkedD [OF l]
  have h137: "h < 137" using h(1) by auto
  have new: "\<forall>q \<in> set (C h). keyat d q \<noteq> r_key r" using linked_None [OF l h(2)] h(1) by simp
  let ?d = "set_cell d (Bucket h) p" and ?C = "C(h := p # C h)"
  show ?thesis
    unfolding linked_def
  proof (intro conjI)
    show "\<forall>h' < 137. chain (recm ?d) (heads ?d h') (?C h')" using D(2) p by auto
    show "\<forall>q. recm ?d q \<noteq> None \<longleftrightarrow> q \<in> {} \<or> q \<in> set F \<or> (\<exists>h' < 137. q \<in> set (?C h'))"
    proof
      fix q
      have "(\<exists>h' < 137. q \<in> set (C h')) \<longleftrightarrow> q \<in> set (C h) \<or> (\<exists>h' < 137. h' \<noteq> h \<and> q \<in> set (C h'))"
        using h137 by blast
      with D(3) [of q] show "recm ?d q \<noteq> None \<longleftrightarrow> q \<in> {} \<or> q \<in> set F \<or> (\<exists>h' < 137. q \<in> set (?C h'))"
        unfolding bucket_upd [OF h137] by auto
    qed
    show "\<forall>h' < 137. {} \<inter> set (?C h') = {} \<and> set F \<inter> set (?C h') = {}" using D(4,6) by auto
    show "\<forall>h' < 137. \<forall>q \<in> set (?C h'). hashof (keyat ?d q) = h'" using D(8) p(2) h(1) by auto
    show "\<forall>h' < 137. inj_on (keyat ?d) (set (?C h'))"
      using D(9) p(2) new h137 by (auto simp: inj_on_insert)
    show "\<forall>k v. (m(r_key r \<mapsto> r_data r)) k = Some v \<longleftrightarrow>
        (\<exists>q \<in> set (?C (hashof k)). keyat ?d q = k \<and> r_data (the (recm ?d q)) = v)"
      using D(10) p(2) h(1) new by auto
  qed (use D in auto)
qed

text \<open>Overwriting the data of a live record.\<close>

lemma linked_set_data:
  assumes l: "linked {} d F C m" and p: "p \<in> set (C (hashof (r_key r)))" "recm d p = Some r"
    and r: "recm d' = (recm d)(p \<mapsto> r\<lparr>r_data := v\<rparr>)" "free d' = free d" "heads d' = heads d"
  shows "linked {} d' F C (m(r_key r \<mapsto> v))"
proof -
  note D = linkedD [OF l]
  let ?h = "hashof (r_key r)"
  have ptr: "chain (recm d') w ps = chain (recm d) w ps" for w ps
    using r(1) p(2) by (induction ps arbitrary: w) auto
  have key: "keyat d' q = keyat d q" for q using r(1) p(2) by simp
  have inj: "inj_on (keyat d) (set (C ?h))" by (rule D(9)) simp
  show ?thesis
    unfolding linked_def
  proof (intro conjI)
    show "\<forall>k w. (m(r_key r \<mapsto> v)) k = Some w \<longleftrightarrow>
        (\<exists>q \<in> set (C (hashof k)). keyat d' q = k \<and> r_data (the (recm d' q)) = w)"
    proof (intro allI)
      fix k w
      show "(m(r_key r \<mapsto> v)) k = Some w \<longleftrightarrow>
        (\<exists>q \<in> set (C (hashof k)). keyat d' q = k \<and> r_data (the (recm d' q)) = w)"
      proof (cases "k = r_key r")
        case True
        have u: "q = p" if "q \<in> set (C ?h)" "keyat d q = k" for q
          using inj_onD [OF inj _ that(1) p(1)] that(2) p(2) True by simp
        have "keyat d' p = k" "p \<in> set (C (hashof k))" using True key [of p] p by simp_all
        then have "(\<exists>q \<in> set (C (hashof k)). keyat d' q = k \<and> r_data (the (recm d' q)) = w) \<longleftrightarrow>
            r_data (the (recm d' p)) = w"
          using u key True by metis
        then show ?thesis using True r(1) by simp
      next
        case False
        then have "r_data (the (recm d' q)) = r_data (the (recm d q))" if "keyat d q = k" for q
          using that r(1) p(2) by auto
        then show ?thesis using False D(10) [of k w] key by (simp cong: conj_cong)
      qed
    qed
    show "\<forall>q. recm d' q \<noteq> None \<longleftrightarrow> q \<in> {} \<or> q \<in> set F \<or> (\<exists>h < 137. q \<in> set (C h))"
      using D(3) r(1) p(2) by auto
  qed (use D ptr key r in \<open>auto simp: inj_on_def\<close>)
qed

end
