(* ===== verification/DbRefine.thy ===== *)
theory DbRefine imports DbChains begin

text \<open>
  The operations of db/db.c implement a finite map: \<open>db_rel n db m\<close> says the handle's files
  are a well-formed database that holds the map \<open>m\<close> and has room for \<open>n\<close> more records;
  fetching, deleting and storing act on the files as lookup, deletion and update act on \<open>m\<close>.
\<close>

definition db_room :: "nat \<Rightarrow> db \<Rightarrow> bool" where
  "db_room n db \<longleftrightarrow> length (idxfile db) + n * 1035 \<le> 10000000
     \<and> int (length (datfile db)) + int n * 1024 \<le> LONG_MAX"

definition db_rel :: "nat \<Rightarrow> db \<Rightarrow> (string \<rightharpoonup> string) \<Rightarrow> bool" where
  "db_rel n db m \<longleftrightarrow> env_ok db \<and> db_room n db \<and>
     (\<exists>d F C. on_disk (idxfile db) (datfile db) d \<and> linked {} d F C m)"

text \<open>Keys and data the library accepts: what fits an index record and a data record.\<close>

definition dbkey :: "string \<Rightarrow> bool" where
  "dbkey k \<longleftrightarrow> k \<noteq> [] \<and> length k \<le> 998 \<and> NUL \<notin> set k \<and> SEP \<notin> set k"

definition dbdata :: "string \<Rightarrow> bool" where
  "dbdata v \<longleftrightarrow> 1 \<le> length v \<and> length v \<le> 1023 \<and> NUL \<notin> set v"

section \<open>Frames\<close>

definition same_files :: "db \<Rightarrow> db \<Rightarrow> bool" where
  "same_files db db' \<longleftrightarrow> idxfile db' = idxfile db \<and> datfile db' = datfile db \<and> fails db' = fails db
     \<and> nhash db' = nhash db \<and> hashoff db' = hashoff db \<and> chainoff db' = chainoff db"

lemma same_files_refl [simp]: "same_files db db"
  by (simp add: same_files_def)

lemma same_files_trans: "same_files a b \<Longrightarrow> same_files b c \<Longrightarrow> same_files a c"
  by (simp add: same_files_def)

lemma same_files_env: "same_files a b \<Longrightarrow> env_ok a \<Longrightarrow> env_ok b"
  by (simp add: same_files_def env_ok_def del: env_okD)

lemma same_filesD: "same_files a b \<Longrightarrow> idxfile b = idxfile a" "same_files a b \<Longrightarrow> datfile b = datfile a"
  "same_files a b \<Longrightarrow> chainoff b = chainoff a"
  unfolding same_files_def by blast+

text \<open>The handle describes the record at \<open>p\<close>.\<close>

definition at_rec :: "db \<Rightarrow> nat \<Rightarrow> irec \<Rightarrow> bool" where
  "at_rec db p r \<longleftrightarrow> idxoff db = int p \<and> ptrval db = int (r_ptr r) \<and> idxbuf db = r_key r
     \<and> datoff db = int (r_dat r) \<and> datlen db = r_len r"

lemma at_rec_loaded [simp]: "at_rec (loaded db p r) p r"
  by (simp add: at_rec_def)

lemma same_files_loaded [simp]: "same_files db (loaded db p r)"
  by (simp add: same_files_def)

lemma env_ok_upd [simp]:
  "env_ok (db\<lparr>idxfile := a\<rparr>) = env_ok db" "env_ok (db\<lparr>datfile := a\<rparr>) = env_ok db"
  "env_ok (db\<lparr>idxpos := n\<rparr>) = env_ok db" "env_ok (db\<lparr>datpos := n\<rparr>) = env_ok db"
  "env_ok (db\<lparr>trace := t\<rparr>) = env_ok db" "env_ok (db\<lparr>idxbuf := a\<rparr>) = env_ok db"
  "env_ok (db\<lparr>datbuf := a\<rparr>) = env_ok db" "env_ok (db\<lparr>idxoff := i\<rparr>) = env_ok db"
  "env_ok (db\<lparr>datoff := i\<rparr>) = env_ok db" "env_ok (db\<lparr>datlen := n\<rparr>) = env_ok db"
  "env_ok (db\<lparr>ptrval := i\<rparr>) = env_ok db" "env_ok (db\<lparr>ptroff := i\<rparr>) = env_ok db"
  "env_ok (db\<lparr>chainoff := i\<rparr>) = env_ok db" "env_ok (db\<lparr>errno := i\<rparr>) = env_ok db"
  "env_ok (db\<lparr>cnt_delok := n\<rparr>) = env_ok db" "env_ok (db\<lparr>cnt_delerr := n\<rparr>) = env_ok db"
  "env_ok (db\<lparr>cnt_fetchok := n\<rparr>) = env_ok db" "env_ok (db\<lparr>cnt_fetcherr := n\<rparr>) = env_ok db"
  "env_ok (db\<lparr>cnt_nextrec := n\<rparr>) = env_ok db" "env_ok (db\<lparr>cnt_storerr := n\<rparr>) = env_ok db"
  "env_ok (db\<lparr>cnt_stor1 := n\<rparr>) = env_ok db" "env_ok (db\<lparr>cnt_stor2 := n\<rparr>) = env_ok db"
  "env_ok (db\<lparr>cnt_stor3 := n\<rparr>) = env_ok db" "env_ok (db\<lparr>cnt_stor4 := n\<rparr>) = env_ok db"
  by (simp_all add: env_ok_def del: env_okD)

lemma lock_file_eq [db_calls]: "env_ok db \<Longrightarrow>
    lock_file db f off len k msg = Inr (db\<lparr>trace := LockEv f off len k # trace db\<rparr>)"
  by (simp add: lock_file_def)

lemma un_lock_eq [db_calls]: "env_ok db \<Longrightarrow>
    un_lock db f off len msg = Inr (db\<lparr>trace := UnlockEv f off len # trace db\<rparr>)"
  by (simp add: un_lock_def)

text \<open>The relation reads the files and the environment only.\<close>

lemma db_rel_cong:
  "db_rel n db m \<Longrightarrow> idxfile db' = idxfile db \<Longrightarrow> datfile db' = datfile db \<Longrightarrow> env_ok db' \<Longrightarrow> db_rel n db' m"
  unfolding db_rel_def db_room_def by simp

lemma db_relI:
  "on_disk (idxfile db) (datfile db) d \<Longrightarrow> linked {} d F C m \<Longrightarrow> env_ok db \<Longrightarrow> db_room n db \<Longrightarrow> db_rel n db m"
  unfolding db_rel_def by blast

section \<open>Walking a chain\<close>

lemma chain_step:
  assumes "env_ok db" "on_disk (idxfile db) (datfile db) d" "recm d p = Some r"
  shows "db_readidx db (int p) = Inr (int (r_ptr r), loaded db p r)" "p \<noteq> 0"
proof -
  note o = on_disk_rec [OF assms(2,3)]
  show p: "p \<noteq> 0" using o(4) by simp
  show "db_readidx db (int p) = Inr (int (r_ptr r), loaded db p r)"
    by (rule db_readidx_eq [OF assms(1) o(1,2) p])
qed

lemma chain_length:
  assumes "on_disk f g d" "chain (recm d) v ps"
  shows "length ps \<le> length f"
proof -
  have "set ps \<subseteq> {..<length f}"
  proof
    fix p assume "p \<in> set ps"
    then obtain r where r: "recm d p = Some r" using chain_dom [OF assms(2)] by blast
    show "p \<in> {..<length f}" using on_disk_rec(5) [OF assms(1) r] rsize_pos [of r] by (simp del: rsize_pos)
  qed
  then have "card (set ps) \<le> length f" using card_mono [of "{..<length f}" "set ps"] by simp
  then show ?thesis using distinct_card [OF chain_distinct [OF assms(2)]] by simp
qed

lemma find_loop_miss:
  "env_ok db \<Longrightarrow> on_disk (idxfile db) (datfile db) d \<Longrightarrow> chain (recm d) v ps \<Longrightarrow>
   \<forall>p \<in> set ps. keyat d p \<noteq> key \<Longrightarrow> length ps \<le> n \<Longrightarrow>
   \<exists>db'. find_loop n db key (int v) = Inr (0, db') \<and> same_files db db'"
proof (induction ps arbitrary: v n db)
  case Nil
  then show ?case by (subst find_loop.simps) auto
next
  case (Cons p ps)
  obtain r where r: "recm d p = Some r" "chain (recm d) (r_ptr r) ps" and v: "v = p" "p \<noteq> 0"
    using Cons.prems(3) by auto
  obtain n' where n: "n = Suc n'" "length ps \<le> n'" using Cons.prems(5) by (cases n) auto
  let ?db = "(loaded db p r)\<lparr>ptroff := int p\<rparr>"
  have "\<exists>db'. find_loop n' ?db key (int (r_ptr r)) = Inr (0, db') \<and> same_files ?db db'"
    using Cons.prems r n by (intro Cons.IH) auto
  then show ?case
    using chain_step [OF Cons.prems(1,2) r(1)] v n Cons.prems(4) r(1)
    by (subst find_loop.simps) (auto simp: same_files_def)
qed

lemma find_loop_hit:
  "env_ok db \<Longrightarrow> on_disk (idxfile db) (datfile db) d \<Longrightarrow> chain (recm d) v (as @ p # bs) \<Longrightarrow>
   \<forall>q \<in> set as. keyat d q \<noteq> key \<Longrightarrow> recm d p = Some r \<Longrightarrow> r_key r = key \<Longrightarrow> length as < n \<Longrightarrow>
   \<exists>db'. find_loop n db key (int v) = Inr (int p, db') \<and> same_files db db' \<and> at_rec db' p r
     \<and> ptroff db' = (if as = [] then ptroff db else int (last as))"
proof (induction as arbitrary: v n db)
  case Nil
  then show ?case
    using chain_step [of db d p r] by (cases n; subst find_loop.simps) auto
next
  case (Cons q as)
  obtain s where s: "recm d q = Some s" "chain (recm d) (r_ptr s) (as @ p # bs)" and v: "v = q" "q \<noteq> 0"
    using Cons.prems(3) by auto
  obtain n' where n: "n = Suc n'" "length as < n'" using Cons.prems(7) by (cases n) auto
  let ?db = "(loaded db q s)\<lparr>ptroff := int q\<rparr>"
  have "\<exists>db'. find_loop n' ?db key (int (r_ptr s)) = Inr (int p, db') \<and> same_files ?db db' \<and> at_rec db' p r
     \<and> ptroff db' = (if as = [] then ptroff ?db else int (last as))"
    using Cons.prems s n by (intro Cons.IH) auto
  then show ?case
    using chain_step [OF Cons.prems(1,2) s(1)] v n Cons.prems(4) s(1)
    by (subst find_loop.simps) (auto simp: same_files_def)
qed

text \<open>The handle once the chain of \<open>key\<close> is found and locked.\<close>

definition bucket_locked :: "db \<Rightarrow> string \<Rightarrow> db \<Rightarrow> bool" where
  "bucket_locked db key db' \<longleftrightarrow> idxfile db' = idxfile db \<and> datfile db' = datfile db \<and> env_ok db'
     \<and> chainoff db' = int (7 + 7 * hashof key)"

lemma bucket_locked_same: "bucket_locked db key a \<Longrightarrow> same_files a b \<Longrightarrow> bucket_locked db key b"
  unfolding bucket_locked_def by (metis same_filesD same_files_env)

lemma db_find_and_lock_start:
  assumes "env_ok db" "on_disk (idxfile db) (datfile db) d"
  shows "\<exists>db0. db_find_and_lock db key w =
      rbind (find_loop (Suc (length (idxfile db0))) db0 key (int (heads d (hashof key)))) (\<lambda>(offset, db).
        Inr (if offset = 0 then -1 else 0, db))
    \<and> bucket_locked db key db0 \<and> ptroff db0 = int (7 + 7 * hashof key)"
proof -
  let ?h = "hashof key"
  have u: "uint (db_hash db key) = int ?h"
    using assms(1) by (simp add: db_hash_def hashof_def)
  have off: "int ?h * 7 + 7 = int (7 + 7 * ?h)" by simp
  have win: "window (idxfile db) (7 + 7 * ?h) 7 = fmt_d 7 (int (heads d ?h))" "heads d ?h \<le> 9999999"
    using get_cell_window [OF assms(2), of "Bucket ?h"] by auto
  let ?db = "db\<lparr>chainoff := int (7 + 7 * ?h), ptroff := int (7 + 7 * ?h), idxpos := 14 + 7 * ?h,
     trace := ReadEv Idx (7 + 7 * ?h) 7 # LockEv Idx (int (7 + 7 * ?h)) 1 (if w then Wr else Rd) # trace db\<rparr>"
  show ?thesis
    unfolding db_find_and_lock_def Let_def
    using assms(1) win
    by (intro exI [of _ ?db]) (simp add: db_calls u off bucket_locked_def del: of_nat_add of_nat_mult)
qed

lemma db_find_and_lock_miss:
  assumes "env_ok db" "on_disk (idxfile db) (datfile db) d" "linked {} d F C m" "m key = None"
  shows "\<exists>db'. db_find_and_lock db key w = Inr (-1, db') \<and> bucket_locked db key db'"
proof -
  obtain db0 where 0: "db_find_and_lock db key w =
      rbind (find_loop (Suc (length (idxfile db0))) db0 key (int (heads d (hashof key)))) (\<lambda>(offset, db).
        Inr (if offset = 0 then -1 else 0, db))" "bucket_locked db key db0"
    using db_find_and_lock_start [OF assms(1,2)] by blast
  have ch: "chain (recm d) (heads d (hashof key)) (C (hashof key))" by (rule linkedD(2) [OF assms(3)]) simp
  have "length (C (hashof key)) \<le> Suc (length (idxfile db0))"
    using chain_length [OF assms(2) ch] 0(2) by (simp add: bucket_locked_def)
  then have "\<exists>db'. find_loop (Suc (length (idxfile db0))) db0 key (int (heads d (hashof key))) = Inr (0, db')
      \<and> same_files db0 db'"
    using 0(2) assms(2) linked_None [OF assms(3,4)] by (intro find_loop_miss [OF _ _ ch]) (auto simp: bucket_locked_def)
  with 0(1) bucket_locked_same [OF 0(2)] show ?thesis by auto
qed

lemma db_find_and_lock_hit:
  assumes "env_ok db" "on_disk (idxfile db) (datfile db) d" "linked {} d F C m"
    and "C (hashof key) = as @ p # bs" "recm d p = Some r" "r_key r = key" "\<forall>q \<in> set as. keyat d q \<noteq> key"
  shows "\<exists>db'. db_find_and_lock db key w = Inr (0, db') \<and> bucket_locked db key db' \<and> at_rec db' p r
     \<and> ptroff db' = int (cell_off (prev_cell (Bucket (hashof key)) as))"
proof -
  obtain db0 where 0: "db_find_and_lock db key w =
      rbind (find_loop (Suc (length (idxfile db0))) db0 key (int (heads d (hashof key)))) (\<lambda>(offset, db).
        Inr (if offset = 0 then -1 else 0, db))" "bucket_locked db key db0" "ptroff db0 = int (7 + 7 * hashof key)"
    using db_find_and_lock_start [OF assms(1,2)] by blast
  have "chain (recm d) (heads d (hashof key)) (C (hashof key))" by (rule linkedD(2) [OF assms(3)]) simp
  then have ch: "chain (recm d) (heads d (hashof key)) (as @ p # bs)" using assms(4) by simp
  have "length as < Suc (length (idxfile db0))"
    using chain_length [OF assms(2) ch] 0(2) by (simp add: bucket_locked_def)
  then have "\<exists>db'. find_loop (Suc (length (idxfile db0))) db0 key (int (heads d (hashof key))) = Inr (int p, db')
      \<and> same_files db0 db' \<and> at_rec db' p r \<and> ptroff db' = (if as = [] then ptroff db0 else int (last as))"
    using 0(2) assms(2) by (intro find_loop_hit [OF _ _ ch assms(7,5,6)]) (auto simp: bucket_locked_def)
  moreover have "p \<noteq> 0" using chain_step(2) [OF assms(1,2,5)] .
  ultimately show ?thesis
    using 0(1,3) bucket_locked_same [OF 0(2)] by (auto simp: prev_cell_def)
qed

section \<open>Fetching\<close>

lemma db_fetch_ok:
  assumes "db_rel n db m"
  shows "\<exists>db'. db_fetch db key = Inr (m key, db') \<and> db_rel n db' m"
proof -
  obtain d F C where d: "on_disk (idxfile db) (datfile db) d" "linked {} d F C m" and e: "env_ok db"
    using assms by (auto simp: db_rel_def)
  show ?thesis
  proof (cases "m key")
    case None
    then obtain db0 where 0: "db_find_and_lock db key False = Inr (-1, db0)" "bucket_locked db key db0"
      using db_find_and_lock_miss [OF e d] by blast
    then have b: "env_ok db0" "idxfile db0 = idxfile db" "datfile db0 = datfile db"
      by (simp_all add: bucket_locked_def)
    show ?thesis
      using 0(1) b None by (auto simp: db_fetch_def db_calls intro!: db_rel_cong [OF assms])
  next
    case (Some v)
    obtain as p bs r where r: "C (hashof key) = as @ p # bs" "recm d p = Some r" "r_key r = key" "r_data r = v"
      "\<forall>q \<in> set as. keyat d q \<noteq> key"
      using linked_Some [where m = m, OF d(2) Some] by blast
    obtain db0 where 0: "db_find_and_lock db key False = Inr (0, db0)" "bucket_locked db key db0" "at_rec db0 p r"
      using db_find_and_lock_hit [OF e d r(1,2,3,5)] by blast
    note o = on_disk_rec [OF d(1) r(2)]
    have b: "env_ok db0" "idxfile db0 = idxfile db" "datfile db0 = datfile db"
      using 0(2) by (simp_all add: bucket_locked_def)
    have "\<exists>db1. db_readdat db0 = Inr (v, db1) \<and> idxfile db1 = idxfile db0 \<and> datfile db1 = datfile db0
        \<and> env_ok db1"
      using b o(1,3) 0(3) r(4) db_readdat_eq [of db0 "r_dat r" v]
      by (simp add: at_rec_def r_len_def rec_ok_def)
    then show ?thesis
      using 0(1) b Some by (auto simp: db_fetch_def db_calls intro!: db_rel_cong [OF assms])
  qed
qed

section \<open>Deleting\<close>

text \<open>The record a deletion leaves behind: blank key, blank data, at the head of the free list.\<close>

definition blanked :: "irec \<Rightarrow> nat \<Rightarrow> irec" where
  "blanked r v = r\<lparr>r_key := replicate (length (r_key r)) SPACE, r_ptr := v,
     r_data := replicate (length (r_data r)) SPACE\<rparr>"

lemma rec_ok_blanked: "rec_ok r \<Longrightarrow> v \<le> 9999999 \<Longrightarrow> rec_ok (blanked r v)"
  by (auto simp: rec_ok_def blanked_def rec_text_def idx_text_def r_len_def)

lemma blanked_simps [simp]: "r_key (blanked r v) = replicate (length (r_key r)) SPACE"
  "r_ptr (blanked r v) = v" "r_dat (blanked r v) = r_dat r" "r_len (blanked r v) = r_len r"
  "r_data (blanked r v) = replicate (length (r_data r)) SPACE"
  by (simp_all add: blanked_def r_len_def)

lemma recm_upd: "recm d p = Some r \<Longrightarrow> recm (d\<lparr>recs := upd_rec p s (recs d)\<rparr>) = (recm d)(p \<mapsto> s)"
  by (simp add: map_of_upd_rec)

text \<open>The four writes of \<^verbatim>\<open>_db_dodelete\<close>, as updates of the disk.\<close>

definition deleted :: "disk \<Rightarrow> nat \<Rightarrow> irec \<Rightarrow> cell \<Rightarrow> disk" where
  "deleted d p r c =
     (let d1 = d\<lparr>recs := upd_rec p (r\<lparr>r_data := replicate (length (r_data r)) SPACE\<rparr>) (recs d)\<rparr>;
          d2 = d1\<lparr>recs := upd_rec p (blanked r (free d)) (recs d1)\<rparr>;
          d3 = set_cell d2 Free p
      in set_cell d3 c (r_ptr r))"

lemma linked_deleted:
  assumes l: "linked {} d F C m" and C: "C h = as @ p # bs" "h < 137" and r: "recm d p = Some r" and p0: "p \<noteq> 0"
  shows "linked {} (deleted d p r (prev_cell (Bucket h) as)) (p # F) (C(h := as @ bs)) (m(r_key r := None))"
proof -
  let ?c = "prev_cell (Bucket h) as"
  let ?d1 = "set_cell d ?c (r_ptr r)"
  let ?d2 = "?d1\<lparr>recs := upd_rec p (blanked r (free d)) (recs ?d1)\<rparr>"
  note u = unlink_bucket [OF l C r]
  have p1: "recm ?d1 p \<noteq> None" using linkedD(3) [OF u(1), of p] by simp
  then have m2: "recm ?d2 = (recm ?d1)(p \<mapsto> blanked r (free d))" by (auto simp: map_of_upd_rec)
  have fd: "free ?d1 = free d" by (simp add: prev_cell_def)
  have "linked {p} ?d2 F (C(h := as @ bs)) (m(r_key r := None))"
    by (rule linked_rewrite [OF u(1) m2]) simp_all
  then have "linked {} (set_cell ?d2 Free p) (p # F) (C(h := as @ bs)) (m(r_key r := None))"
    using p0 m2 fd by (intro push_free) (auto simp: blank_def)
  moreover have "recm (deleted d p r ?c) = recm (set_cell ?d2 Free p) \<and>
      free (deleted d p r ?c) = free (set_cell ?d2 Free p) \<and> heads (deleted d p r ?c) = heads (set_cell ?d2 Free p)"
  proof (cases "as = []")
    case True
    with r m2 show ?thesis by (simp add: deleted_def prev_cell_def map_of_upd_rec Let_def)
  next
    case False
    have "distinct (as @ p # bs)" using chain_distinct [OF linkedD(2) [OF l C(2)]] C(1) by simp
    moreover have "last as \<in> set as" using False by simp
    ultimately have ne: "last as \<noteq> p" by auto
    obtain s where s: "recm d (last as) = Some s" using u(2) False by (auto simp: prev_cell_def)
    with False r m2 ne show ?thesis
      by (auto simp: deleted_def prev_cell_def map_of_upd_rec Let_def fun_eq_iff)
  qed
  ultimately show ?thesis using linked_cong by blast
qed

lemma db_dodelete_ok:
  assumes e: "env_ok db" and d: "on_disk (idxfile db) (datfile db) d" and l: "linked {} d F C m"
    and C: "C h = as @ p # bs" "h < 137" and r: "recm d p = Some r" and a: "at_rec db p r"
    and pc: "ptroff db = int (cell_off (prev_cell (Bucket h) as))" and len: "length (idxfile db) \<le> 10000000"
  defines "d' \<equiv> deleted d p r (prev_cell (Bucket h) as)"
  shows "\<exists>db'. db_dodelete db = Inr db' \<and> on_disk (idxfile db') (datfile db') d' \<and> env_ok db'
     \<and> length (idxfile db') = length (idxfile db) \<and> length (datfile db') = length (datfile db)
     \<and> chainoff db' = chainoff db"
proof -
  let ?c = "prev_cell (Bucket h) as"
  let ?dat = "replicate (length (r_data r)) SPACE" and ?key = "replicate (length (r_key r)) SPACE"
  let ?f = "idxfile db" and ?g = "datfile db"
  note o = on_disk_rec [OF d r]
  have bounds: "p \<le> 9999999" "free d \<le> 9999999" "r_ptr r \<le> 9999999"
    using o(1,5) len d rsize_pos [of r] by (auto simp: rec_ok_def on_disk_def simp del: rsize_pos)
  let ?d1 = "d\<lparr>recs := upd_rec p (r\<lparr>r_data := ?dat\<rparr>) (recs d)\<rparr>"
  let ?d2 = "?d1\<lparr>recs := upd_rec p (blanked r (free d)) (recs ?d1)\<rparr>"
  let ?d3 = "set_cell ?d2 Free p"
  let ?g1 = "splice ?g (r_dat r) (?dat @ [NEWLINE])"
  let ?f2 = "splice ?f p (rec_bytes (blanked r (free d)))"
  let ?f3 = "splice ?f2 0 (fmt_d 7 (int p))"
  let ?f4 = "splice ?f3 (cell_off ?c) (fmt_d 7 (int (r_ptr r)))"
  have r1: "recm ?d1 p = Some (r\<lparr>r_data := ?dat\<rparr>)" using r by (simp add: map_of_upd_rec)
  have D1: "on_disk ?f ?g1 ?d1" using on_disk_set_data [OF d r, of ?dat] by simp
  have D2: "on_disk ?f2 ?g1 ?d2"
    by (rule on_disk_set_idx [OF D1 r1 rec_ok_blanked [OF o(1) bounds(2)]]) simp_all
  have D3: "on_disk ?f3 ?g1 ?d3"
    using on_disk_set_cell [OF D2, of Free p] bounds by simp
  have m3: "recm ?d3 = (recm d)(p \<mapsto> blanked r (free d))" using r by (simp add: map_of_upd_rec)
  have c3: "cell_in ?d3 ?c"
    using unlink_bucket(2) [OF l C r] m3 by (auto simp: prev_cell_def split: if_splits)
  have D4: "on_disk ?f4 ?g1 d'"
    using on_disk_set_cell [OF D3 c3 bounds(3)] by (simp add: d'_def deleted_def Let_def)
  have free1: "window ?f 0 7 = fmt_d 7 (int (free d))" using d by (simp add: on_disk_def)
  have len2: "length ?f2 = length ?f"
    using length_rec_bytes [OF rec_ok_blanked [OF o(1) bounds(2)]] o(5)
    by (simp add: length_splice_in rsize_def rec_text_def idx_text_def)
  have len4: "length ?f4 = length ?f"
    using len2 get_cell_window [OF D3 c3] on_disk_length [OF D2] bounds by (simp add: length_splice_in)
  have leng: "length ?g1 = length ?g" using o(6) by (simp add: length_splice_in r_len_def)
  have dl: "datlen db - 1 = length (r_data r)" using a by (simp add: at_rec_def r_len_def)
  let ?b = "blanked r (free d)"
  have w2: "db_writeidx db0 ?key (int p) SEEK_SET (int (free d)) =
      Inr (db0\<lparr>ptrval := int (free d), idxbuf := rec_text ?b, idxoff := int p,
        idxfile := splice (idxfile db0) p (rec_bytes ?b), idxpos := p + rsize ?b,
        trace := WriteEv Idx p (rsize ?b) # trace db0\<rparr>)"
    if "env_ok db0" "datoff db0 = int (r_dat r)" "datlen db0 = length ?dat + 1" for db0
    using db_writeidx_set [OF that(1) rec_ok_blanked [OF o(1) bounds(2)], of p] that by (simp add: r_len_def)
  have w1: "db_readptr db0 0 = Inr (int (free d), db0\<lparr>idxpos := 7, trace := ReadEv Idx 0 7 # trace db0\<rparr>)"
    if "env_ok db0" "idxfile db0 = ?f" for db0
    using db_readptr_eq [OF that(1), of 0 "free d"] that free1 bounds by simp
  have w3: "db_writeptr db0 0 (int p) = Inr (db0\<lparr>idxfile := splice (idxfile db0) 0 (fmt_d 7 (int p)), idxpos := 7,
      trace := WriteEv Idx 0 7 # trace db0\<rparr>)" if "env_ok db0" for db0
    using db_writeptr_eq [OF that bounds(1), of 0] by simp
  show ?thesis
    using D4 len4 leng e a pc dl bounds
    by (simp add: db_dodelete_def Let_def db_calls w1 w2 w3 at_rec_def del: replicate_append_same)
qed

lemma db_rel_bound: "db_rel n db m \<Longrightarrow> length (idxfile db) \<le> 10000000"
  by (simp add: db_rel_def db_room_def)

lemma db_delete_ok:
  assumes "db_rel n db m"
  shows "\<exists>db'. db_delete db key = Inr (if m key = None then -1 else 0, db') \<and> db_rel n db' (m(key := None))"
proof -
  obtain d F C where d: "on_disk (idxfile db) (datfile db) d" and l: "linked {} d F C m"
    and e: "env_ok db" "db_room n db"
    using assms by (auto simp: db_rel_def)
  show ?thesis
  proof (cases "m key")
    case None
    then obtain db0 where 0: "db_find_and_lock db key True = Inr (-1, db0)" "bucket_locked db key db0"
      using db_find_and_lock_miss [OF e(1) d l] by blast
    then have b: "env_ok db0" "idxfile db0 = idxfile db" "datfile db0 = datfile db"
      by (simp_all add: bucket_locked_def)
    have m: "m(key := None) = m" using None by (rule fun_upd_idem)
    show ?thesis
      unfolding m using 0(1) b None by (auto simp: db_delete_def db_calls intro!: db_rel_cong [OF assms])
  next
    case (Some v)
    obtain as p bs r where r: "C (hashof key) = as @ p # bs" "recm d p = Some r" "r_key r = key"
      "\<forall>q \<in> set as. keyat d q \<noteq> key"
      using linked_Some [where m = m, OF l Some] by metis
    let ?c = "prev_cell (Bucket (hashof key)) as"
    obtain db0 where 0: "db_find_and_lock db key True = Inr (0, db0)" "bucket_locked db key db0" "at_rec db0 p r"
      "ptroff db0 = int (cell_off ?c)"
      using db_find_and_lock_hit [OF e(1) d l r] by blast
    have b: "idxfile db0 = idxfile db" "datfile db0 = datfile db" "env_ok db0"
      using 0(2) by (auto simp: bucket_locked_def)
    obtain db1 where 1: "db_dodelete db0 = Inr db1" "on_disk (idxfile db1) (datfile db1) (deleted d p r ?c)" "env_ok db1"
      "length (idxfile db1) = length (idxfile db)" "length (datfile db1) = length (datfile db)"
      using db_dodelete_ok [of db0 d F C m "hashof key" as p bs r] b d l r 0(3,4) db_rel_bound [OF assms] by auto
    have "p \<noteq> 0" using chain_step(2) [OF e(1) d r(2)] .
    with linked_deleted [OF l r(1) hashof_bound r(2)] r(3)
    have "linked {} (deleted d p r ?c) (p # F) (C(hashof key := as @ bs)) (m(key := None))" by simp
    moreover have "db_room n db1" using e(2) 1(4,5) by (simp add: db_room_def)
    ultimately have "db_rel n db1 (m(key := None))" using 1(2,3) by (intro db_relI)
    then show ?thesis
      using 0(1) 1(1,3) Some by (auto simp: db_delete_def db_calls intro: db_rel_cong)
  qed
qed

end
