(* ===== verification/DbStore.thy ===== *)
theory DbStore imports DbRefine begin

text \<open>
  \<^verbatim>\<open>db_store\<close> of db/db.c as an update of the map: a new record goes to the end of the files
  or into a record of the free list with the same key and data lengths, a replaced one is
  overwritten in place when the lengths agree and deleted and appended otherwise.
\<close>

section \<open>The free list\<close>

lemma findfree_loop_ok:
  "env_ok db \<Longrightarrow> on_disk (idxfile db) (datfile db) d \<Longrightarrow> chain (recm d) v ps \<Longrightarrow> length ps \<le> n \<Longrightarrow>
   (\<exists>db' so. findfree_loop n db kl dl sv (int v) = Inr (so, 0, db') \<and> same_files db db') \<or>
   (\<exists>as p bs r db'. ps = as @ p # bs \<and> recm d p = Some r \<and> length (r_key r) = kl \<and> r_len r = dl \<and>
      findfree_loop n db kl dl sv (int v) = Inr (if as = [] then sv else int (last as), int p, db') \<and>
      same_files db db' \<and> at_rec db' p r)"
proof (induction ps arbitrary: v n db sv)
  case Nil
  then show ?case by (subst findfree_loop.simps) auto
next
  case (Cons p ps)
  obtain r where r: "recm d p = Some r" "chain (recm d) (r_ptr r) ps" and v: "v = p" "p \<noteq> 0"
    using Cons.prems(3) by auto
  obtain n' where n: "n = Suc n'" "length ps \<le> n'" using Cons.prems(4) by (cases n) auto
  let ?db = "loaded db p r"
  have unf: "findfree_loop n db kl dl sv (int v) =
      (if length (r_key r) = kl \<and> r_len r = dl then Inr (sv, int p, ?db)
       else findfree_loop n' ?db kl dl (int p) (int (r_ptr r)))"
    using chain_step [OF Cons.prems(1,2) r(1)] v n by (subst findfree_loop.simps) simp
  show ?case
  proof (cases "length (r_key r) = kl \<and> r_len r = dl")
    case True
    have "p # ps = [] @ p # ps \<and> recm d p = Some r \<and> length (r_key r) = kl \<and> r_len r = dl \<and>
        findfree_loop n db kl dl sv (int v) = Inr (if [] = ([] :: nat list) then sv else int (last []), int p, ?db) \<and>
        same_files db ?db \<and> at_rec ?db p r"
      using True r unf by simp
    then show ?thesis by blast
  next
    case False
    have "(\<exists>db' so. findfree_loop n' ?db kl dl (int p) (int (r_ptr r)) = Inr (so, 0, db') \<and> same_files ?db db') \<or>
      (\<exists>as q bs s db'. ps = as @ q # bs \<and> recm d q = Some s \<and> length (r_key s) = kl \<and> r_len s = dl \<and>
        findfree_loop n' ?db kl dl (int p) (int (r_ptr r)) = Inr (if as = [] then int p else int (last as), int q, db') \<and>
        same_files ?db db' \<and> at_rec db' q s)"
      using Cons.prems(1,2) r(2) n(2) by (intro Cons.IH) auto
    then show ?thesis
    proof (elim disjE exE conjE)
      fix db' so assume "findfree_loop n' ?db kl dl (int p) (int (r_ptr r)) = Inr (so, 0, db')" "same_files ?db db'"
      with unf False same_files_trans [OF same_files_loaded] show ?thesis by auto
    next
      fix as q bs s db'
      assume a: "ps = as @ q # bs" "recm d q = Some s" "length (r_key s) = kl" "r_len s = dl"
        "findfree_loop n' ?db kl dl (int p) (int (r_ptr r)) = Inr (if as = [] then int p else int (last as), int q, db')"
        "same_files ?db db'" "at_rec db' q s"
      have "p # ps = (p # as) @ q # bs \<and> recm d q = Some s \<and> length (r_key s) = kl \<and> r_len s = dl \<and>
          findfree_loop n db kl dl sv (int v) = Inr (if p # as = [] then sv else int (last (p # as)), int q, db') \<and>
          same_files db db' \<and> at_rec db' q s"
        using a unf False same_files_trans [OF same_files_loaded a(6)] by simp
      then show ?thesis by blast
    qed
  qed
qed

text \<open>Either no free record fits, or one is taken off the free list.\<close>

lemma db_findfree_ok:
  assumes e: "env_ok db" and d: "on_disk (idxfile db) (datfile db) d" and l: "linked {} d F C m"
  shows "(\<exists>db'. db_findfree db kl dl = Inr (-1, db') \<and> same_files db db') \<or>
   (\<exists>as p bs r db'. F = as @ p # bs \<and> recm d p = Some r \<and> length (r_key r) = kl \<and> r_len r = dl \<and>
      db_findfree db kl dl = Inr (0, db') \<and> env_ok db' \<and> datfile db' = datfile db \<and> chainoff db' = chainoff db \<and>
      at_rec db' p r \<and> length (idxfile db') = length (idxfile db) \<and>
      on_disk (idxfile db') (datfile db') (set_cell d (prev_cell Free as) (r_ptr r)))"
proof -
  have free: "window (idxfile db) 0 7 = fmt_d 7 (int (free d))" "free d \<le> 9999999"
    using d by (simp_all add: on_disk_def)
  have ch: "chain (recm d) (free d) F" by (rule linkedD(1) [OF l])
  let ?db = "db\<lparr>idxpos := 7, trace := ReadEv Idx 0 7 # LockEv Idx 0 1 Wr # trace db\<rparr>"
  have start: "db_findfree db kl dl =
      rbind (findfree_loop (Suc (length (idxfile db))) ?db kl dl 0 (int (free d))) (\<lambda>(saveoffset, offset, db).
      rbind (if offset = 0 then Inr (-1, db)
             else rbind (db_writeptr db saveoffset (ptrval db)) (\<lambda>db. Inr (0, db))) (\<lambda>(rc, db).
      rbind (un_lock db Idx 0 1 ''_db_findfree: un_lock error'') (\<lambda>db. Inr (rc, db))))"
    using e free db_readptr_eq [of "db\<lparr>trace := LockEv Idx 0 1 Wr # trace db\<rparr>" 0 "free d"]
    by (simp add: db_findfree_def lock_file_eq)
  have s: "same_files db ?db" by (simp add: same_files_def)
  have "(\<exists>db' so. findfree_loop (Suc (length (idxfile db))) ?db kl dl 0 (int (free d)) = Inr (so, 0, db') \<and> same_files ?db db') \<or>
   (\<exists>as p bs r db'. F = as @ p # bs \<and> recm d p = Some r \<and> length (r_key r) = kl \<and> r_len r = dl \<and>
      findfree_loop (Suc (length (idxfile db))) ?db kl dl 0 (int (free d)) = Inr (if as = [] then 0 else int (last as), int p, db') \<and>
      same_files ?db db' \<and> at_rec db' p r)"
    using e d chain_length [OF d ch] by (intro findfree_loop_ok [OF _ _ ch]) auto
  then show ?thesis
  proof (elim disjE exE conjE)
    fix db' so
    assume a: "findfree_loop (Suc (length (idxfile db))) ?db kl dl 0 (int (free d)) = Inr (so, 0, db')" "same_files ?db db'"
    have "same_files db db'" by (rule same_files_trans [OF s a(2)])
    moreover from this have "env_ok db'" using e by (rule same_files_env)
    ultimately have "db_findfree db kl dl = Inr (-1, db'\<lparr>trace := UnlockEv Idx 0 1 # trace db'\<rparr>) \<and>
        same_files db (db'\<lparr>trace := UnlockEv Idx 0 1 # trace db'\<rparr>)"
      using start a(1) by (simp add: un_lock_eq same_files_def)
    then show ?thesis by blast
  next
    fix as p bs r db'
    assume a: "F = as @ p # bs" "recm d p = Some r" "length (r_key r) = kl" "r_len r = dl"
      "findfree_loop (Suc (length (idxfile db))) ?db kl dl 0 (int (free d)) = Inr (if as = [] then 0 else int (last as), int p, db')"
      "same_files ?db db'" "at_rec db' p r"
    have l': "linked {} d (as @ p # bs) C m" using l a(1) by simp
    note u = unlink_free(2) [OF l' a(2)]
    have s': "same_files db db'" by (rule same_files_trans [OF s a(6)])
    then have e': "env_ok db'" using e by (rule same_files_env)
    note o = on_disk_rec [OF d a(2)]
    have ptr: "r_ptr r \<le> 9999999" using o(1) by (simp add: rec_ok_def)
    let ?c = "prev_cell Free as"
    have co: "(if as = [] then 0 else int (last as)) = int (cell_off ?c)" by (simp add: prev_cell_def)
    let ?db' = "db'\<lparr>idxfile := splice (idxfile db') (cell_off ?c) (fmt_d 7 (int (r_ptr r))), idxpos := cell_off ?c + 7,
      trace := UnlockEv Idx 0 1 # WriteEv Idx (cell_off ?c) 7 # trace db'\<rparr>"
    have p0: "int p \<noteq> 0" using o(4) by simp
    have "db_findfree db kl dl = Inr (0, ?db')"
      unfolding start a(5) co using e' a(7) p0 ptr by (simp add: db_calls at_rec_def)
    moreover have "on_disk (idxfile ?db') (datfile ?db') (set_cell d ?c (r_ptr r))"
      using on_disk_set_cell [OF d u ptr] same_filesD [OF s'] by simp
    moreover have "length (idxfile ?db') = length (idxfile db)"
      using get_cell_window [OF d u] same_filesD [OF s'] ptr by (simp add: length_splice_in)
    ultimately show ?thesis
      using a(1-4,7) e' same_filesD [OF s']
      by (intro disjI2 exI [of _ as] exI [of _ p] exI [of _ bs] exI [of _ r] exI [of _ ?db']) (simp add: at_rec_def)
  qed
qed

section \<open>Records that fit\<close>

lemma length_show_nat_le: "n \<le> 9999 \<Longrightarrow> length (show_nat n) \<le> 4"
  by (rule length_show_nat) auto

lemma length_show_off_le: "int n \<le> LONG_MAX \<Longrightarrow> length (show_nat n) \<le> 19"
  by (rule length_show_nat) auto

definition new_rec :: "string \<Rightarrow> nat \<Rightarrow> nat \<Rightarrow> string \<Rightarrow> irec" where
  "new_rec key ptr off dat = \<lparr>r_key = key, r_ptr = ptr, r_dat = off, r_data = dat\<rparr>"

lemma rec_ok_new:
  assumes "dbkey key" "dbdata dat" "ptr \<le> 9999999" "int off \<le> LONG_MAX"
  shows "rec_ok (new_rec key ptr off dat)"
proof -
  have k: "1 \<le> length key" using assms(1) by (cases key) (auto simp: dbkey_def)
  have a: "1 \<le> length (show_nat off)" "1 \<le> length (show_nat (Suc (length dat)))"
    using length_show_nat_pos [of off] length_show_nat_pos [of "Suc (length dat)"]
    by (simp_all add: Suc_leI del: length_show_nat_pos)
  have b: "length (show_nat off) \<le> 19" "length (show_nat (Suc (length dat))) \<le> 4"
    using length_show_off_le [OF assms(4)] length_show_nat_le [of "Suc (length dat)"] assms(2)
    by (auto simp: dbdata_def)
  show ?thesis
    using assms k a b
    by (auto simp: rec_ok_def new_rec_def rec_text_def idx_text_def show_int_def r_len_def dbkey_def dbdata_def
      DATLEN_MIN_def DATLEN_MAX_def IDXLEN_MIN_def IDXLEN_MAX_def)
qed

lemma rsize_le: "rec_ok r \<Longrightarrow> rsize r \<le> 1035"
  by (simp add: rec_ok_def rsize_def IDXLEN_MAX_def)

lemma new_rec_simps [simp]: "r_key (new_rec k p q v) = k" "r_ptr (new_rec k p q v) = p"
  "r_dat (new_rec k p q v) = q" "r_data (new_rec k p q v) = v" "r_len (new_rec k p q v) = length v + 1"
  by (simp_all add: new_rec_def r_len_def)

section \<open>Pushing a record on a chain\<close>

text \<open>Appending a record to both files and making it the head of its chain.\<close>

lemma append_ok:
  assumes e: "env_ok db" and d: "on_disk (idxfile db) (datfile db) d" and l: "linked {} d F C m"
    and room: "db_room (Suc n) db" and kv: "dbkey key" "dbdata dat" and m: "m key = None"
    and co: "chainoff db = int (7 + 7 * hashof key)" and ptr: "ptr = int (heads d (hashof key))"
  shows "\<exists>db1 db2 db3. db_writedat db dat 0 SEEK_END = Inr db1 \<and> db_writeidx db1 key 0 SEEK_END ptr = Inr db2
    \<and> db_writeptr db2 (chainoff db2) (idxoff db2) = Inr db3
    \<and> db_rel n db3 (m(key \<mapsto> dat))"
proof -
  let ?f = "idxfile db" and ?g = "datfile db" and ?h = "hashof key"
  let ?r = "new_rec key (heads d ?h) (length ?g) dat"
  have hd: "heads d ?h \<le> 9999999" using get_cell_window [OF d, of "Bucket ?h"] by simp
  have ok: "rec_ok ?r" using room hd by (intro rec_ok_new [OF kv]) (simp_all add: db_room_def)
  have len: "length ?f \<le> 9999999" using room by (simp add: db_room_def)
  let ?d1 = "d\<lparr>recs := recs d @ [(length ?f, ?r)]\<rparr>"
  let ?f1 = "?f @ rec_bytes ?r" and ?g1 = "?g @ dat @ [NEWLINE]"
  have D1: "on_disk ?f1 ?g1 ?d1" using on_disk_append [OF d ok] by simp
  have p0: "length ?f \<noteq> 0" using on_disk_length [OF d] by linarith
  have new: "recm d (length ?f) = None"
  proof (rule ccontr)
    assume "recm d (length ?f) \<noteq> None"
    then obtain s where "recm d (length ?f) = Some s" by auto
    from on_disk_rec(5) [OF d this] show False using rsize_pos [of s] by linarith
  qed
  have m1: "recm ?d1 = (recm d)(length ?f \<mapsto> ?r)"
    using new by (auto simp: map_add_def fun_eq_iff split: option.splits)
  have "linked {length ?f} ?d1 F C m" by (rule linked_add [OF l m1 _ _ new]) simp_all
  then have L: "linked {} (set_cell ?d1 (Bucket ?h) (length ?f)) F (C(?h := length ?f # C ?h)) (m(key \<mapsto> dat))"
    using push_bucket [of "length ?f" ?d1 F C m ?r ?h] p0 m1 m by simp
  have D2: "on_disk (splice ?f1 (7 + 7 * ?h) (fmt_d 7 (int (length ?f)))) ?g1 (set_cell ?d1 (Bucket ?h) (length ?f))"
    using on_disk_set_cell [OF D1, of "Bucket ?h"] len by simp
  have l2: "length (splice ?f1 (7 + 7 * ?h) (fmt_d 7 (int (length ?f)))) = length ?f + rsize ?r"
    using get_cell_window [OF D1, of "Bucket ?h"] len length_rec_bytes [OF ok] by (simp add: length_splice_in)
  let ?db1 = "db\<lparr>datoff := int (length ?g), datlen := length dat + 1, datfile := ?g1,
      datpos := length ?g + (length dat + 1),
      trace := UnlockEv Dat 0 0 # WriteEv Dat (length ?g) (length dat + 1) # LockEv Dat 0 0 Wr # trace db\<rparr>"
  have w1: "db_writedat db dat 0 SEEK_END = Inr ?db1" by (rule db_writedat_end [OF e])
  let ?db2 = "?db1\<lparr>ptrval := int (heads d ?h), idxbuf := rec_text ?r, idxoff := int (length ?f),
      idxfile := ?f1, idxpos := length ?f + rsize ?r,
      trace := UnlockEv Idx 967 0 # WriteEv Idx (length ?f) (rsize ?r) # LockEv Idx 967 0 Wr # trace ?db1\<rparr>"
  have w2: "db_writeidx ?db1 key 0 SEEK_END ptr = Inr ?db2"
    using db_writeidx_end [of ?db1 ?r] e ok ptr by simp
  let ?db3 = "?db2\<lparr>idxfile := splice ?f1 (7 + 7 * ?h) (fmt_d 7 (int (length ?f))), idxpos := 7 + 7 * ?h + 7,
      trace := WriteEv Idx (7 + 7 * ?h) 7 # trace ?db2\<rparr>"
  have w3: "db_writeptr ?db2 (int (7 + 7 * ?h)) (int (length ?f)) = Inr ?db3"
    using db_writeptr_eq [of ?db2 "length ?f" "7 + 7 * ?h"] e len by simp
  have "db_room n ?db3"
    using room l2 rsize_le [OF ok] kv(2) by (simp add: db_room_def dbdata_def)
  then have "db_rel n ?db3 (m(key \<mapsto> dat))"
    using D2 L e by (intro db_relI [where d = "set_cell ?d1 (Bucket ?h) (length ?f)"]) simp_all
  then show ?thesis
    using w1 w2 w3 co by (intro exI [of _ ?db1] exI [of _ ?db2] exI [of _ ?db3]) simp
qed

text \<open>Writing a record that was taken off the free list and making it the head of its chain.\<close>

lemma reuse_ok:
  assumes e: "env_ok db" and d: "on_disk (idxfile db) (datfile db) d" and l: "linked {p} d F C m"
    and room: "db_room n db" and kv: "dbkey key" "dbdata dat" and m: "m key = None"
    and co: "chainoff db = int (7 + 7 * hashof key)" and ptr: "ptr = int (heads d (hashof key))"
    and r: "recm d p = Some r" "length (r_key r) = length key" "r_len r = length dat + 1"
    and a: "datoff db = int (r_dat r)" "idxoff db = int p" and p: "p \<le> 9999999"
  shows "\<exists>db1 db2 db3. db_writedat db dat (datoff db) SEEK_SET = Inr db1
    \<and> db_writeidx db1 key (idxoff db1) SEEK_SET ptr = Inr db2
    \<and> db_writeptr db2 (chainoff db2) (idxoff db2) = Inr db3
    \<and> db_rel n db3 (m(key \<mapsto> dat))"
proof -
  let ?f = "idxfile db" and ?g = "datfile db" and ?h = "hashof key"
  note o = on_disk_rec [OF d r(1)]
  let ?r = "new_rec key (heads d ?h) (r_dat r) dat"
  have hd: "heads d ?h \<le> 9999999" using get_cell_window [OF d, of "Bucket ?h"] by simp
  have ok: "rec_ok ?r" using hd o(1) by (intro rec_ok_new [OF kv]) (simp_all add: rec_ok_def)
  have ld: "length dat = length (r_data r)" "NUL \<notin> set dat" using r(3) kv(2) by (simp_all add: r_len_def dbdata_def)
  let ?d1 = "d\<lparr>recs := upd_rec p (r\<lparr>r_data := dat\<rparr>) (recs d)\<rparr>"
  let ?d2 = "?d1\<lparr>recs := upd_rec p ?r (recs ?d1)\<rparr>"
  let ?g1 = "splice ?g (r_dat r) (dat @ [NEWLINE])" and ?f2 = "splice ?f p (rec_bytes ?r)"
  have D1: "on_disk ?f ?g1 ?d1" by (rule on_disk_set_data [OF d r(1) ld])
  have r1: "recm ?d1 p = Some (r\<lparr>r_data := dat\<rparr>)" using r(1) by (simp add: map_of_upd_rec)
  have D2: "on_disk ?f2 ?g1 ?d2" by (rule on_disk_set_idx [OF D1 r1 ok]) (use r(2) in simp_all)
  have D3: "on_disk (splice ?f2 (7 + 7 * ?h) (fmt_d 7 (int p))) ?g1 (set_cell ?d2 (Bucket ?h) p)"
    using on_disk_set_cell [OF D2, of "Bucket ?h"] p by simp
  have m2: "recm ?d2 = (recm d)(p \<mapsto> ?r)" using r(1) by (simp add: map_of_upd_rec)
  have "linked {p} ?d2 F C m" by (rule linked_rewrite [OF l m2]) simp_all
  then have L: "linked {} (set_cell ?d2 (Bucket ?h) p) F (C(?h := p # C ?h)) (m(key \<mapsto> dat))"
    using push_bucket [of p ?d2 F C m ?r ?h] o(4) m2 m by simp
  have rs: "rsize ?r = rsize r" using r(2,3) by (simp add: rsize_def rec_text_def idx_text_def)
  have lf2: "length ?f2 = length ?f" using o(5) rs length_rec_bytes [OF ok] by (simp add: length_splice_in)
  have lf: "length (splice ?f2 (7 + 7 * ?h) (fmt_d 7 (int p))) = length ?f"
    using get_cell_window [OF D2, of "Bucket ?h"] lf2 p by (simp add: length_splice_in)
  have lg: "length ?g1 = length ?g" using o(6) r(3) by (simp add: length_splice_in)
  let ?db1 = "db\<lparr>datoff := int (r_dat r), datlen := length dat + 1, datfile := ?g1,
      datpos := r_dat r + (length dat + 1), trace := WriteEv Dat (r_dat r) (length dat + 1) # trace db\<rparr>"
  have w1: "db_writedat db dat (datoff db) SEEK_SET = Inr ?db1" unfolding a(1) by (rule db_writedat_set [OF e])
  let ?db2 = "?db1\<lparr>ptrval := int (heads d ?h), idxbuf := rec_text ?r, idxoff := int p,
      idxfile := ?f2, idxpos := p + rsize ?r, trace := WriteEv Idx p (rsize ?r) # trace ?db1\<rparr>"
  have w2: "db_writeidx ?db1 key (idxoff ?db1) SEEK_SET ptr = Inr ?db2"
    using db_writeidx_set [of ?db1 ?r p] e ok ptr a(2) by simp
  let ?db3 = "?db2\<lparr>idxfile := splice ?f2 (7 + 7 * ?h) (fmt_d 7 (int p)), idxpos := 7 + 7 * ?h + 7,
      trace := WriteEv Idx (7 + 7 * ?h) 7 # trace ?db2\<rparr>"
  have w3: "db_writeptr ?db2 (int (7 + 7 * ?h)) (int p) = Inr ?db3"
    using db_writeptr_eq [of ?db2 p "7 + 7 * ?h"] e p by simp
  have "db_room n ?db3" using room lf lg by (simp add: db_room_def)
  then have "db_rel n ?db3 (m(key \<mapsto> dat))"
    using D3 L e by (intro db_relI [where d = "set_cell ?d2 (Bucket ?h) p"]) simp_all
  then show ?thesis
    using w1 w2 w3 co by (intro exI [of _ ?db1] exI [of _ ?db2] exI [of _ ?db3]) simp
qed

section \<open>Storing\<close>

lemma db_rel_env: "db_rel n db m \<Longrightarrow> env_ok db"
  by (simp add: db_rel_def)

lemma db_rel_upd [simp]:
  "db_rel n (db\<lparr>trace := t\<rparr>) m = db_rel n db m" "db_rel n (db\<lparr>cnt_stor1 := c\<rparr>) m = db_rel n db m"
  "db_rel n (db\<lparr>cnt_stor2 := c\<rparr>) m = db_rel n db m" "db_rel n (db\<lparr>cnt_stor3 := c\<rparr>) m = db_rel n db m"
  "db_rel n (db\<lparr>cnt_stor4 := c\<rparr>) m = db_rel n db m" "db_rel n (db\<lparr>cnt_storerr := c\<rparr>) m = db_rel n db m"
  "db_rel n (db\<lparr>errno := i\<rparr>) m = db_rel n db m"
  by (simp_all add: db_rel_def db_room_def)

lemma store_new_ok:
  assumes e: "env_ok db" and d: "on_disk (idxfile db) (datfile db) d" and l: "linked {} d F C m"
    and room: "db_room (Suc n) db" and kv: "dbkey key" "dbdata dat" and m: "m key = None"
    and co: "chainoff db = int (7 + 7 * hashof key)"
  shows "\<exists>db'. store_new db key dat = Inr db' \<and> db_rel n db' (m(key \<mapsto> dat))"
proof -
  let ?h = "hashof key"
  have win: "window (idxfile db) (7 + 7 * ?h) 7 = fmt_d 7 (int (heads d ?h))" "heads d ?h \<le> 9999999"
    using get_cell_window [OF d, of "Bucket ?h"] by auto
  let ?db0 = "db\<lparr>idxpos := 7 + 7 * ?h + 7, trace := ReadEv Idx (7 + 7 * ?h) 7 # trace db\<rparr>"
  have r0: "db_readptr db (chainoff db) = Inr (int (heads d ?h), ?db0)"
    unfolding co by (rule db_readptr_eq [OF e win])
  have e0: "env_ok ?db0" and d0: "on_disk (idxfile ?db0) (datfile ?db0) d" using e d by simp_all
  from db_findfree_ok [OF e0 d0 l, of "length key" "length dat + 1"]
  show ?thesis
  proof (elim disjE exE conjE)
    fix db1 assume f: "db_findfree ?db0 (length key) (length dat + 1) = Inr (-1, db1)" "same_files ?db0 db1"
    note s = same_filesD [OF f(2)] same_files_env [OF f(2) e0]
    have "db_room (Suc n) db1" "on_disk (idxfile db1) (datfile db1) d" "chainoff db1 = int (7 + 7 * ?h)"
      using room d co s by (simp_all add: db_room_def)
    from append_ok [OF s(4) this(2) l this(1) kv m this(3) refl] show ?thesis
      using r0 f(1) by (auto simp: store_new_def)
  next
    fix as p bs r db1
    assume a: "F = as @ p # bs" "recm d p = Some r" "length (r_key r) = length key" "r_len r = length dat + 1"
      "db_findfree ?db0 (length key) (length dat + 1) = Inr (0, db1)" "env_ok db1" "datfile db1 = datfile ?db0"
      "chainoff db1 = chainoff ?db0" "at_rec db1 p r" "length (idxfile db1) = length (idxfile ?db0)"
      "on_disk (idxfile db1) (datfile db1) (set_cell d (prev_cell Free as) (r_ptr r))"
    let ?d = "set_cell d (prev_cell Free as) (r_ptr r)"
    have l': "linked {} d (as @ p # bs) C m" using l a(1) by simp
    note u = unlink_free [OF l' a(2)]
    have "recm ?d p \<noteq> None" using linkedD(3) [OF u(1), of p] by simp
    then obtain s where s: "recm ?d p = Some s" by auto
    have s': "r_key s = r_key r" "r_data s = r_data r" "r_dat s = r_dat r"
      using s a(2) u(2) by (auto simp: prev_cell_def map_of_upd_rec split: if_splits)
    have s'': "r_len s = r_len r" using s' by (simp add: r_len_def)
    have heads: "heads ?d ?h = heads d ?h" by (simp add: prev_cell_def)
    have p: "p \<le> 9999999"
      using on_disk_rec(5) [OF d a(2)] rsize_pos [of r] room by (simp add: db_room_def del: rsize_pos)
    have room1: "db_room n db1" using room a(7,10) by (simp add: db_room_def)
    have "\<exists>db2 db3 db4. db_writedat db1 dat (datoff db1) SEEK_SET = Inr db2
      \<and> db_writeidx db2 key (idxoff db2) SEEK_SET (int (heads d ?h)) = Inr db3
      \<and> db_writeptr db3 (chainoff db3) (idxoff db3) = Inr db4 \<and> db_rel n db4 (m(key \<mapsto> dat))"
      using reuse_ok [OF a(6,11) u(1) room1 kv m _ _ s _ _ _ _ p, of "int (heads d ?h)"] a(3,4,8,9) co s' s'' heads
      by (simp add: at_rec_def)
    then show ?thesis
      using r0 a(5) by (auto simp: store_new_def)
  qed
qed

lemma store_replace_ok:
  assumes e: "env_ok db" and d: "on_disk (idxfile db) (datfile db) d" and l: "linked {} d F C m"
    and room: "db_room (Suc n) db" and kv: "dbkey key" "dbdata dat"
    and co: "chainoff db = int (7 + 7 * hashof key)"
    and r: "C (hashof key) = as @ p # bs" "recm d p = Some r" "r_key r = key" and a: "at_rec db p r"
    and pc: "ptroff db = int (cell_off (prev_cell (Bucket (hashof key)) as))"
  shows "\<exists>db'. store_replace db key dat = Inr db' \<and> db_rel n db' (m(key \<mapsto> dat))"
proof (cases "length dat + 1 = datlen db")
  case True
  note o = on_disk_rec [OF d r(2)]
  have len: "length dat = length (r_data r)" "NUL \<notin> set dat" "datoff db = int (r_dat r)"
    using True a kv(2) by (simp_all add: at_rec_def r_len_def dbdata_def)
  let ?d = "d\<lparr>recs := upd_rec p (r\<lparr>r_data := dat\<rparr>) (recs d)\<rparr>"
  let ?db = "db\<lparr>datoff := int (r_dat r), datlen := length dat + 1, datfile := splice (datfile db) (r_dat r) (dat @ [NEWLINE]),
      datpos := r_dat r + (length dat + 1), trace := WriteEv Dat (r_dat r) (length dat + 1) # trace db\<rparr>"
  have w: "db_writedat db dat (datoff db) SEEK_SET = Inr ?db" unfolding len(3) by (rule db_writedat_set [OF e])
  have L: "linked {} ?d F C (m(key \<mapsto> dat))"
    using linked_set_data [OF l, where p = p and r = r and d' = ?d and v = dat] r by (simp add: map_of_upd_rec)
  have "length (splice (datfile db) (r_dat r) (dat @ [NEWLINE])) = length (datfile db)"
    using o(6) len(1) by (simp add: length_splice_in r_len_def)
  then have "db_room n ?db" using room by (simp add: db_room_def)
  then have "db_rel n ?db (m(key \<mapsto> dat))"
    using on_disk_set_data [OF d r(2) len(1,2)] L e by (intro db_relI) simp_all
  then show ?thesis
    using w True e by (auto simp: store_replace_def)
next
  case False
  have "length (idxfile db) \<le> 10000000" using room by (simp add: db_room_def)
  from db_dodelete_ok [OF e d l r(1) hashof_bound r(2) a pc this]
  obtain db1 where 1: "db_dodelete db = Inr db1" "env_ok db1" "length (idxfile db1) = length (idxfile db)"
      "length (datfile db1) = length (datfile db)" "chainoff db1 = chainoff db"
      "on_disk (idxfile db1) (datfile db1) (deleted d p r (prev_cell (Bucket (hashof key)) as))"
    by blast
  let ?d = "deleted d p r (prev_cell (Bucket (hashof key)) as)" and ?h = "hashof key"
  have p0: "p \<noteq> 0" using chain_step(2) [OF e d r(2)] .
  have L: "linked {} ?d (p # F) (C(?h := as @ bs)) (m(key := None))"
    using linked_deleted [OF l r(1) hashof_bound r(2) p0] r(3) by simp
  have win: "window (idxfile db1) (7 + 7 * ?h) 7 = fmt_d 7 (int (heads ?d ?h))" "heads ?d ?h \<le> 9999999"
    using get_cell_window [OF 1(6), of "Bucket ?h"] by auto
  let ?db2 = "db1\<lparr>idxpos := 7 + 7 * ?h + 7, trace := ReadEv Idx (7 + 7 * ?h) 7 # trace db1\<rparr>"
  have r2: "db_readptr db1 (chainoff db1) = Inr (int (heads ?d ?h), ?db2)"
    unfolding 1(5) co by (rule db_readptr_eq [OF 1(2) win])
  have "db_room (Suc n) ?db2" using room 1(3,4) by (simp add: db_room_def)
  then have "\<exists>db3 db4 db5. db_writedat ?db2 dat 0 SEEK_END = Inr db3
      \<and> db_writeidx db3 key 0 SEEK_END (int (heads ?d ?h)) = Inr db4
      \<and> db_writeptr db4 (chainoff db4) (idxoff db4) = Inr db5 \<and> db_rel n db5 ((m(key := None))(key \<mapsto> dat))"
    using 1 co by (intro append_ok [OF _ _ L _ kv]) simp_all
  then show ?thesis
    using 1(1) r2 False by (auto simp: store_replace_def)
qed

text \<open>The specification: the return value and the map after \<^verbatim>\<open>db_store\<close>.\<close>

definition store_spec :: "(string \<rightharpoonup> string) \<Rightarrow> string \<Rightarrow> string \<Rightarrow> int \<Rightarrow> int \<times> (string \<rightharpoonup> string)" where
  "store_spec m key dat flag =
     (case m key of
        None \<Rightarrow> if flag = DB_REPLACE then (-1, m) else (0, m(key \<mapsto> dat))
      | Some _ \<Rightarrow> if flag = DB_INSERT then (1, m) else (0, m(key \<mapsto> dat)))"

lemma db_rel_weaken: "db_rel (Suc n) db m \<Longrightarrow> db_rel n db m"
  by (auto simp: db_rel_def db_room_def)

lemma db_store_ok:
  assumes rel: "db_rel (Suc n) db m" and kv: "dbkey key" "dbdata dat"
    and flag: "flag \<in> {DB_INSERT, DB_REPLACE, DB_STORE}"
  shows "\<exists>db'. db_store db key dat flag = Inr (fst (store_spec m key dat flag), db')
     \<and> db_rel n db' (snd (store_spec m key dat flag))"
proof -
  obtain d F C where d: "on_disk (idxfile db) (datfile db) d" and l: "linked {} d F C m"
    and e: "env_ok db" "db_room (Suc n) db"
    using rel by (auto simp: db_rel_def)
  have dat: "\<not> (length dat + 1 < DATLEN_MIN \<or> DATLEN_MAX < length dat + 1)"
    using kv(2) by (auto simp: dbdata_def DATLEN_MIN_def DATLEN_MAX_def)
  have fl: "\<not> (flag \<noteq> DB_INSERT \<and> flag \<noteq> DB_REPLACE \<and> flag \<noteq> DB_STORE)" using flag by auto
  note weak = db_rel_weaken [OF rel]
  note store = db_store_def [of db key dat flag] if_not_P [OF fl] if_not_P [OF dat]
  have room: "db_room (Suc n) db0" if "bucket_locked db key db0" for db0
    using e(2) that by (simp add: db_room_def bucket_locked_def)
  show ?thesis
  proof (cases "m key")
    case None
    then obtain db0 where 0: "db_find_and_lock db key True = Inr (-1, db0)" "bucket_locked db key db0"
      using db_find_and_lock_miss [OF e(1) d l] by blast
    then have b: "env_ok db0" "idxfile db0 = idxfile db" "datfile db0 = datfile db" "chainoff db0 = int (7 + 7 * hashof key)"
      by (simp_all add: bucket_locked_def)
    obtain db1 where 1: "store_new db0 key dat = Inr db1" "db_rel n db1 (m(key \<mapsto> dat))"
      using store_new_ok [OF b(1) _ l room [OF 0(2)] kv None b(4)] d b by auto
    show ?thesis
      using 0(1) 1 b None dat db_rel_env [OF 1(2)]
      by (auto simp: store store_spec_def db_calls intro: db_rel_cong [OF weak])
  next
    case (Some v)
    obtain as p bs r where r: "C (hashof key) = as @ p # bs" "recm d p = Some r" "r_key r = key"
      "\<forall>q \<in> set as. keyat d q \<noteq> key"
      using linked_Some [where m = m, OF l Some] by metis
    obtain db0 where 0: "db_find_and_lock db key True = Inr (0, db0)" "bucket_locked db key db0" "at_rec db0 p r"
      "ptroff db0 = int (cell_off (prev_cell (Bucket (hashof key)) as))"
      using db_find_and_lock_hit [OF e(1) d l r] by blast
    then have b: "env_ok db0" "idxfile db0 = idxfile db" "datfile db0 = datfile db" "chainoff db0 = int (7 + 7 * hashof key)"
      by (simp_all add: bucket_locked_def)
    obtain db1 where 1: "store_replace db0 key dat = Inr db1" "db_rel n db1 (m(key \<mapsto> dat))"
      using store_replace_ok [OF b(1) _ l room [OF 0(2)] kv b(4) r(1-3) 0(3,4)] d b by auto
    show ?thesis
      using 0(1) 1 b Some dat db_rel_env [OF 1(2)]
      by (auto simp: store store_spec_def db_calls intro: db_rel_cong [OF weak])
  qed
qed

end
