(* ===== verification/DbSession.thy ===== *)
theory DbSession imports DbStore begin

text \<open>
  Opening, closing and scanning a database of db/db.c: a new database is the empty map, the
  files a closed handle leaves are the map a later \<^verbatim>\<open>db_open\<close> finds, and stepping through
  \<^verbatim>\<open>db_nextrec\<close> from \<^verbatim>\<open>db_rewind\<close> gives each live record once, in file order.
\<close>

section \<open>Opening\<close>

lemma window_replicate:
  "length z = 7 \<Longrightarrow> i < n \<Longrightarrow> window (concat (replicate n z) @ s) (7 * i) 7 = z"
proof (induction n arbitrary: i)
  case (Suc n)
  show ?case
  proof (cases i)
    case 0
    then show ?thesis using Suc.prems by (simp add: window_def)
  next
    case (Suc j)
    then have "window (concat (replicate n z) @ s) (7 * j) 7 = z" using Suc.IH Suc.prems by simp
    then show ?thesis using Suc Suc.prems(1) by (simp add: window_def)
  qed
qed simp

definition empty_disk :: disk where
  "empty_disk = \<lparr>free = 0, heads = (\<lambda>_. 0), recs = []\<rparr>"

lemma length_init_hash: "length init_hash = 967"
  by (simp add: init_hash_def length_concat sum_list_replicate length_fmt_d [of 0 7, simplified])

lemma on_disk_init: "on_disk init_hash g empty_disk"
proof -
  have z: "length (fmt_d 7 (0 :: int)) = 7" using length_fmt_d [of 0 7] by simp
  have w: "window init_hash (7 * i) 7 = fmt_d 7 0" if "i < 138" for i
    using window_replicate [OF z, of i 138] that by (simp add: init_hash_def)
  have "window init_hash (7 + 7 * h) 7 = fmt_d 7 0" if "h < 137" for h
    using w [of "Suc h"] that by (simp add: add.commute)
  with w [of 0] show ?thesis
    by (simp add: on_disk_def empty_disk_def length_init_hash)
qed

lemma linked_init: "linked {} empty_disk [] (\<lambda>_. []) Map.empty"
  by (simp add: linked_def empty_disk_def)

text \<open>The handle \<^verbatim>\<open>db_open\<close> makes for two files that exist.\<close>

lemma db_rewind_eq: "env_ok db \<Longrightarrow> db_rewind db = Inr (db\<lparr>idxpos := 967, idxoff := 967\<rparr>)"
  by (simp add: db_rewind_def seek_idx_def seek_target_def)

lemma db_open_new_ok:
  assumes "\<forall>m. \<not> flt m" "{O_CREAT, O_TRUNC} \<subseteq> oflag" "O_EXCL \<notin> oflag" "967 + n * 1035 \<le> 10000000"
  shows "\<exists>db fs'. db_open flt fs path oflag = Inr (Some db, fs') \<and> db_rel n db Map.empty
     \<and> dbname db = path @ ''.dat'' \<and> fs' (path @ ''.idx'') = Some (idxfile db) \<and> fs' (path @ ''.dat'') = Some (datfile db)"
proof -
  have "int n * 1024 \<le> LONG_MAX" using assms(4) by simp
  then show ?thesis
    using assms on_disk_init [of "[]"] linked_init
    by (auto simp: db_open_def db_alloc_def os_open_def db_init_def lock_file_def un_lock_def write_idx_def
      db_rewind_def seek_idx_def seek_target_def Let_def db_rel_def db_room_def env_ok_def length_init_hash
      splice_def split: option.splits simp del: env_okD intro!: exI)
qed

lemma db_reopen_ok:
  assumes rel: "db_rel n db m" and name: "dbname db = path @ ''.dat''" and flt: "\<forall>m. \<not> flt m"
  shows "\<exists>db' fs'. db_open flt (db_close fs db) path {O_RDWR} = Inr (Some db', fs') \<and> db_rel n db' m"
proof -
  let ?fs = "db_close fs db"
  have fs: "?fs (path @ ''.idx'') = Some (idxfile db)" "?fs (path @ ''.dat'') = Some (datfile db)"
    using name by (simp_all add: db_close_def db_free_def Let_def)
  obtain db' fs' where o: "db_open flt ?fs path {O_RDWR} = Inr (Some db', fs')"
    "idxfile db' = idxfile db" "datfile db' = datfile db" "env_ok db'"
    using flt fs
    by (simp add: db_open_def db_alloc_def os_open_def db_rewind_def seek_idx_def seek_target_def Let_def
      env_ok_def del: env_okD)
  then show ?thesis using db_rel_cong [OF rel] by blast
qed

section \<open>Scanning\<close>

text \<open>The live records among \<open>L\<close>, in order.\<close>

definition live :: "(nat \<times> irec) list \<Rightarrow> (string \<times> string) list" where
  "live L = map (\<lambda>(p, r). (r_key r, r_data r)) (filter (\<lambda>(p, r). \<not> blank (r_key r)) L)"

lemma live_simps [simp]: "live [] = []"
  "live ((p, r) # L) = (if blank (r_key r) then live L else (r_key r, r_data r) # live L)"
  by (simp_all add: live_def)

text \<open>\<open>db_scan n db m L\<close>: the file offset is at a record boundary and \<open>L\<close> is still to come.\<close>

definition db_scan :: "nat \<Rightarrow> db \<Rightarrow> (string \<rightharpoonup> string) \<Rightarrow> (string \<times> string) list \<Rightarrow> bool" where
  "db_scan n db m L \<longleftrightarrow> env_ok db \<and> db_room n db \<and>
     (\<exists>d F C pre suf. on_disk (idxfile db) (datfile db) d \<and> linked {} d F C m \<and> recs d = pre @ suf
        \<and> tiled (idxpos db) suf (length (idxfile db)) \<and> L = live suf)"

lemma tiled_append: "tiled a (L @ M) e \<longleftrightarrow> (\<exists>b. tiled a L b \<and> tiled b M e)"
  by (induction L arbitrary: a) auto

lemma nextrec_loop_ok:
  assumes "env_ok db" "on_disk (idxfile db) (datfile db) d" "recs d = pre @ suf"
    "tiled (idxpos db) suf (length (idxfile db))" "length suf < n"
  shows "case live suf of
      [] \<Rightarrow> \<exists>db'. nextrec_loop n db = Inr (False, db') \<and> same_files db db' \<and> idxpos db' = length (idxfile db)
    | kv # L \<Rightarrow> \<exists>db' pre' p r suf'. nextrec_loop n db = Inr (True, db') \<and> same_files db db' \<and> recs d = pre' @ suf'
        \<and> (p, r) \<in> set (recs d) \<and> kv = (r_key r, r_data r) \<and> at_rec db' p r
        \<and> tiled (idxpos db') suf' (length (idxfile db)) \<and> L = live suf'"
  using assms
proof (induction suf arbitrary: pre n db)
  case Nil
  then obtain n' where "n = Suc n'" by (cases n) auto
  with Nil show ?case by (auto simp: nextrec_loop.simps db_readidx_eof same_files_def)
next
  case (Cons x suf)
  obtain p r where x: "x = (p, r)" by (cases x)
  obtain n' where n: "n = Suc n'" "length suf < n'" using Cons.prems(5) by (cases n) auto
  have t: "p = idxpos db" "tiled (p + rsize r) suf (length (idxfile db))" using Cons.prems(4) x by auto
  have mem: "(p, r) \<in> set (recs d)" using Cons.prems(3) x by simp
  have "tiled 967 (recs d) (length (idxfile db))" using Cons.prems(2) by (simp add: on_disk_def)
  with mem have "recm d p = Some r" by (simp add: tiled_map_of)
  note o = on_disk_rec [OF Cons.prems(2) this]
  have rd: "db_readidx db 0 = Inr (int (r_ptr r), loaded db p r)"
    using db_readidx_next [OF Cons.prems(1) o(1)] o(2) t(1) by simp
  let ?db = "loaded db p r"
  show ?case
  proof (cases "blank (r_key r)")
    case True
    have step: "nextrec_loop n db = nextrec_loop n' ?db"
      using rd n True by (simp add: nextrec_loop.simps list_all_iff blank_def)
    have "case live suf of
      [] \<Rightarrow> \<exists>db'. nextrec_loop n' ?db = Inr (False, db') \<and> same_files ?db db' \<and> idxpos db' = length (idxfile ?db)
    | kv # L \<Rightarrow> \<exists>db' pre' q s suf'. nextrec_loop n' ?db = Inr (True, db') \<and> same_files ?db db' \<and> recs d = pre' @ suf'
        \<and> (q, s) \<in> set (recs d) \<and> kv = (r_key s, r_data s) \<and> at_rec db' q s
        \<and> tiled (idxpos db') suf' (length (idxfile ?db)) \<and> L = live suf'"
      by (rule Cons.IH [of ?db "pre @ [x]"]) (use Cons.prems t n in simp_all)
    then show ?thesis
      using True x step same_files_trans [OF same_files_loaded [of db p r]]
      by (cases "live suf") (simp, blast, simp, metis)
  next
    case False
    then have "nextrec_loop n db = Inr (True, ?db)"
      using rd n by (auto simp: nextrec_loop.simps list_all_iff blank_def)
    moreover have "recs d = (pre @ [x]) @ suf" using Cons.prems(3) by simp
    ultimately have "\<exists>db' pre' q s suf'. nextrec_loop n db = Inr (True, db') \<and> same_files db db' \<and> recs d = pre' @ suf'
        \<and> (q, s) \<in> set (recs d) \<and> (r_key r, r_data r) = (r_key s, r_data s) \<and> at_rec db' q s
        \<and> tiled (idxpos db') suf' (length (idxfile db)) \<and> live suf = live suf'"
      using mem t(2)
      by (intro exI [of _ ?db] exI [of _ "pre @ [x]"] exI [of _ p] exI [of _ r] exI [of _ suf]) simp
    then show ?thesis using False x by simp
  qed
qed

lemma db_scan_rel: "db_scan n db m L \<Longrightarrow> db_rel n db m"
  by (auto simp: db_scan_def db_rel_def)

lemma db_scan_upd [simp]:
  "db_scan n (db\<lparr>trace := t\<rparr>) m L = db_scan n db m L" "db_scan n (db\<lparr>cnt_nextrec := c\<rparr>) m L = db_scan n db m L"
  by (simp_all add: db_scan_def db_room_def)

lemma suffix_length: "on_disk f g d \<Longrightarrow> recs d = pre @ suf \<Longrightarrow> length suf \<le> length f"
proof -
  assume d: "on_disk f g d" and s: "recs d = pre @ suf"
  have t: "tiled 967 (recs d) (length f)" using d by (simp add: on_disk_def)
  have "length L \<le> e - a" if "tiled a L e" for a L e
    using that
  proof (induction L arbitrary: a)
    case (Cons x L)
    obtain p r where "x = (p, r)" by (cases x)
    with Cons have "length L \<le> e - (a + rsize r)" "a + rsize r \<le> e" by (auto dest: tiled_le)
    then show ?case using rsize_pos [of r] by (simp del: rsize_pos)
  qed simp
  from this [OF t] s show ?thesis by simp
qed

text \<open>One call of \<^verbatim>\<open>db_nextrec\<close> yields the next live record, or the null pointer.\<close>

lemma db_nextrec_ok:
  assumes "db_scan n db m L"
  shows "\<exists>db'. db_nextrec db = Inr (case L of [] \<Rightarrow> None | kv # _ \<Rightarrow> Some kv, db')
    \<and> db_scan n db' m (case L of [] \<Rightarrow> [] | _ # L' \<Rightarrow> L')"
proof -
  obtain d F C pre suf where d: "on_disk (idxfile db) (datfile db) d" and l: "linked {} d F C m"
    and s: "recs d = pre @ suf" "tiled (idxpos db) suf (length (idxfile db))" "L = live suf"
    and e: "env_ok db" "db_room n db"
    using assms by (auto simp: db_scan_def)
  let ?db = "db\<lparr>trace := LockEv Idx 0 1 Rd # trace db\<rparr>"
  have e': "env_ok ?db" using e(1) by simp
  obtain N where N: "N = Suc (length (idxfile db))" by simp
  have "length suf < N" using suffix_length [OF d s(1)] N by simp
  then have loop: "case L of
      [] \<Rightarrow> \<exists>db'. nextrec_loop N ?db = Inr (False, db') \<and> same_files ?db db' \<and> idxpos db' = length (idxfile db)
    | kv # L \<Rightarrow> \<exists>db' pre' p r suf'. nextrec_loop N ?db = Inr (True, db') \<and> same_files ?db db'
        \<and> recs d = pre' @ suf' \<and> (p, r) \<in> set (recs d) \<and> kv = (r_key r, r_data r) \<and> at_rec db' p r
        \<and> tiled (idxpos db') suf' (length (idxfile db)) \<and> L = live suf'"
    using nextrec_loop_ok [OF e', of d pre suf N] d s by (simp cong: list.case_cong)
  show ?thesis
  proof (cases L)
    case Nil
    with loop obtain db' where 1: "nextrec_loop N ?db = Inr (False, db')"
      "same_files ?db db'" "idxpos db' = length (idxfile db)" by (simp only: list.case) blast
    note f = same_filesD [OF 1(2)] same_files_env [OF 1(2) e']
    have "recs d = recs d @ []" "tiled (idxpos db') [] (length (idxfile db'))" using 1(3) f by simp_all
    then have "db_scan n db' m []"
      using d l e(2) f unfolding db_scan_def db_room_def
      by (simp del: append_Nil2) (metis append_Nil2 live_simps(1) tiled.simps(1))
    then show ?thesis
      using Nil 1(1) f(4) e(1) N by (simp add: db_nextrec_def lock_file_def un_lock_def)
  next
    case (Cons kv L')
    from loop [unfolded Cons list.case] obtain db' pre' p r suf' where 1: "nextrec_loop N ?db = Inr (True, db')"
      "same_files ?db db'" "recs d = pre' @ suf'" "(p, r) \<in> set (recs d)" "kv = (r_key r, r_data r)" "at_rec db' p r"
      "tiled (idxpos db') suf' (length (idxfile db))" "L' = live suf'" by - (elim exE conjE, rule that)
    note f = same_filesD [OF 1(2)] same_files_env [OF 1(2) e']
    have "tiled 967 (recs d) (length (idxfile db))" using d by (simp add: on_disk_def)
    with 1(4) have "recm d p = Some r" by (simp add: tiled_map_of)
    note o = on_disk_rec [OF d this]
    let ?db' = "db'\<lparr>datbuf := r_data r, datpos := r_dat r + (length (r_data r) + 1),
       trace := ReadEv Dat (r_dat r) (length (r_data r) + 1) # trace db'\<rparr>"
    have rd: "db_readdat db' = Inr (r_data r, ?db')"
      by (rule db_readdat_eq) (use f o 1(6) in \<open>simp_all add: at_rec_def r_len_def rec_ok_def\<close>)
    have "db_scan n ?db' m L'"
      using d l e(2) f 1(3,7,8) unfolding db_scan_def db_room_def
      by (simp, intro exI [of _ d] conjI exI [of _ F] exI [of _ C] exI [of _ pre'] exI [of _ suf']) simp_all
    then show ?thesis
      using Cons 1(1,5,6) rd f(4) e(1) N by (simp add: db_nextrec_def lock_file_def un_lock_def Let_def at_rec_def)
  qed
qed

text \<open>The records still to come right after \<^verbatim>\<open>db_rewind\<close>.\<close>

lemma linked_live:
  assumes d: "on_disk f g d" and l: "linked {} d F C m"
  shows "distinct (map fst (live (recs d)))"
    and "(k, v) \<in> set (live (recs d)) \<longleftrightarrow> m k = Some v \<and> \<not> blank k"
proof -
  have t: "tiled 967 (recs d) (length f)" using d by (simp add: on_disk_def)
  note mem = tiled_map_of [OF t]
  note D = linkedD [OF l]
  have inC: "p \<in> set (C (hashof (r_key r)))" if "(p, r) \<in> set (recs d)" "\<not> blank (r_key r)" for p r
  proof -
    have r: "recm d p = Some r" using that(1) mem by simp
    then have "p \<notin> set F" using D(7) [of p] that(2) by auto
    then obtain h where h: "h < 137" "p \<in> set (C h)" using D(3) [of p] r by auto
    with D(8) [OF h] r show ?thesis by simp
  qed
  show "(k, v) \<in> set (live (recs d)) \<longleftrightarrow> m k = Some v \<and> \<not> blank k"
  proof
    assume "(k, v) \<in> set (live (recs d))"
    then obtain p r where r: "(p, r) \<in> set (recs d)" "\<not> blank (r_key r)" "k = r_key r" "v = r_data r"
      by (auto simp: live_def)
    with inC [OF r(1,2)] mem show "m k = Some v \<and> \<not> blank k"
      using D(10) [of k v] by force
  next
    assume k: "m k = Some v \<and> \<not> blank k"
    then obtain p where p: "p \<in> set (C (hashof k))" "keyat d p = k" "r_data (the (recm d p)) = v"
      using D(10) [of k v] by blast
    obtain r where "recm d p = Some r" using chain_dom [OF D(2) p(1)] by auto
    with p k mem show "(k, v) \<in> set (live (recs d))" by (force simp: live_def)
  qed
  have "inj_on (\<lambda>(p, r). r_key r) {x \<in> set (recs d). \<not> blank (r_key (snd x))}"
  proof (rule inj_onI, clarify)
    fix p r q s
    assume a: "(p, r) \<in> set (recs d)" "\<not> blank (r_key (snd (p, r)))" "(q, s) \<in> set (recs d)"
      "\<not> blank (r_key (snd (q, s)))" "r_key r = r_key s"
    have "p \<in> set (C (hashof (r_key r)))" "q \<in> set (C (hashof (r_key r)))"
      using inC [OF a(1)] inC [OF a(3)] a(2,4) unfolding a(5) by simp_all
    moreover have "recm d p = Some r" "recm d q = Some s" using a mem by auto
    ultimately have "p = q" using inj_onD [OF D(9) [OF hashof_bound [of "r_key r"]], of p q] a(5) by simp
    with \<open>recm d p = Some r\<close> \<open>recm d q = Some s\<close> show "p = q \<and> r = s" by simp
  qed
  moreover have "distinct (recs d)" using tiled_distinct [OF t] by (simp add: distinct_map)
  moreover have "map fst (live (recs d)) = map (\<lambda>(p, r). r_key r) (filter (\<lambda>(p, r). \<not> blank (r_key r)) (recs d))"
    by (auto simp: live_def)
  moreover have "set (filter (\<lambda>(p, r). \<not> blank (r_key r)) (recs d)) = {x \<in> set (recs d). \<not> blank (r_key (snd x))}"
    by auto
  ultimately show "distinct (map fst (live (recs d)))" by (simp add: distinct_map)
qed

lemma db_rewind_ok:
  assumes "db_rel n db m"
  shows "\<exists>db' L. db_rewind db = Inr db' \<and> db_scan n db' m L \<and> distinct (map fst L)
    \<and> (\<forall>k v. (k, v) \<in> set L \<longleftrightarrow> m k = Some v \<and> \<not> blank k)"
proof -
  obtain d F C where d: "on_disk (idxfile db) (datfile db) d" and l: "linked {} d F C m"
    and e: "env_ok db" "db_room n db"
    using assms by (auto simp: db_rel_def)
  let ?db = "db\<lparr>idxpos := 967, idxoff := 967\<rparr>"
  have "tiled 967 (recs d) (length (idxfile db))" using d by (simp add: on_disk_def)
  then have "db_scan n ?db m (live (recs d))"
    using d l e unfolding db_scan_def db_room_def
    by (simp, intro exI [of _ d] exI [of _ "[]"] exI [of _ "recs d"]) (simp, blast)
  then show ?thesis using db_rewind_eq [OF e(1)] linked_live [OF d l] by blast
qed

end
