(* ===== verification/DbApi.thy ===== *)
theory DbApi imports DbSession begin

text \<open>
  What db/db.c promises its clients, as interfaces: \<open>kv_store\<close> (fetch, store and delete act on a
  finite map and use up room only when they store) and \<open>kv_cursor\<close> (a cursor steps through the
  records of such a store). The lemmas about clients, which run lists of commands or drain the
  cursor, are proved once from the interface; the operations of db.c are its interpretation.
\<close>

section \<open>Commands and their meaning\<close>

datatype cmd = Fetch string | Store string string int | Delete string

datatype reply = Data "string option" | Code int

fun cmd_ok :: "cmd \<Rightarrow> bool" where
  "cmd_ok (Store k v flag) = (dbkey k \<and> dbdata v \<and> flag \<in> {DB_INSERT, DB_REPLACE, DB_STORE})"
| "cmd_ok _ = True"

fun cmd_cost :: "cmd \<Rightarrow> nat" where
  "cmd_cost (Store k v flag) = 1"
| "cmd_cost _ = 0"

definition cost :: "cmd list \<Rightarrow> nat" where
  "cost cs = sum_list (map cmd_cost cs)"

lemma cost_simps [simp]: "cost [] = 0" "cost (c # cs) = cmd_cost c + cost cs"
  by (simp_all add: cost_def)

text \<open>The commands on the abstract map.\<close>

fun spec_step :: "(string \<rightharpoonup> string) \<Rightarrow> cmd \<Rightarrow> reply \<times> (string \<rightharpoonup> string)" where
  "spec_step m (Fetch k) = (Data (m k), m)"
| "spec_step m (Store k v flag) = (Code (fst (store_spec m k v flag)), snd (store_spec m k v flag))"
| "spec_step m (Delete k) = (Code (if m k = None then -1 else 0), m(k := None))"

fun spec_run :: "(string \<rightharpoonup> string) \<Rightarrow> cmd list \<Rightarrow> reply list \<times> (string \<rightharpoonup> string)" where
  "spec_run m [] = ([], m)"
| "spec_run m (c # cs) =
     (let (r, m') = spec_step m c; (rs, m'') = spec_run m' cs in (r # rs, m''))"

text \<open>A client that issues the commands through given operations.\<close>

type_synonym 's fetch_op = "'s \<Rightarrow> string \<Rightarrow> (string option \<times> 's) res"
type_synonym 's store_op = "'s \<Rightarrow> string \<Rightarrow> string \<Rightarrow> int \<Rightarrow> (int \<times> 's) res"
type_synonym 's delete_op = "'s \<Rightarrow> string \<Rightarrow> (int \<times> 's) res"

fun step_with :: "'s fetch_op \<Rightarrow> 's store_op \<Rightarrow> 's delete_op \<Rightarrow> 's \<Rightarrow> cmd \<Rightarrow> (reply \<times> 's) res" where
  "step_with fe st de s (Fetch k) = rbind (fe s k) (\<lambda>(r, s). Inr (Data r, s))"
| "step_with fe st de s (Store k v flag) = rbind (st s k v flag) (\<lambda>(r, s). Inr (Code r, s))"
| "step_with fe st de s (Delete k) = rbind (de s k) (\<lambda>(r, s). Inr (Code r, s))"

fun run_with :: "'s fetch_op \<Rightarrow> 's store_op \<Rightarrow> 's delete_op \<Rightarrow> 's \<Rightarrow> cmd list \<Rightarrow> (reply list \<times> 's) res" where
  "run_with fe st de s [] = Inr ([], s)"
| "run_with fe st de s (c # cs) =
     rbind (step_with fe st de s c) (\<lambda>(r, s).
     rbind (run_with fe st de s cs) (\<lambda>(rs, s). Inr (r # rs, s)))"

fun drain_with :: "('s \<Rightarrow> ((string \<times> string) option \<times> 's) res) \<Rightarrow> nat \<Rightarrow> 's
    \<Rightarrow> ((string \<times> string) list \<times> 's) res" where
  "drain_with nx 0 s = Inr ([], s)"
| "drain_with nx (Suc k) s =
     rbind (nx s) (\<lambda>(r, s).
     case r of None \<Rightarrow> Inr ([], s)
     | Some kv \<Rightarrow> rbind (drain_with nx k s) (\<lambda>(L, s). Inr (kv # L, s)))"

section \<open>The interfaces\<close>

locale kv_store =
  fixes rel :: "nat \<Rightarrow> 's \<Rightarrow> (string \<rightharpoonup> string) \<Rightarrow> bool"
    and fetch :: "'s fetch_op" and store :: "'s store_op" and delete :: "'s delete_op"
  assumes fetch_law: "rel n s m \<Longrightarrow> \<exists>s'. fetch s k = Inr (m k, s') \<and> rel n s' m"
    and delete_law: "rel n s m \<Longrightarrow>
      \<exists>s'. delete s k = Inr (if m k = None then -1 else 0, s') \<and> rel n s' (m(k := None))"
    and store_law: "rel (Suc n) s m \<Longrightarrow> dbkey k \<Longrightarrow> dbdata v \<Longrightarrow> flag \<in> {DB_INSERT, DB_REPLACE, DB_STORE} \<Longrightarrow>
      \<exists>s'. store s k v flag = Inr (fst (store_spec m k v flag), s') \<and> rel n s' (snd (store_spec m k v flag))"
begin

lemma step_sim:
  assumes "rel (cmd_cost c + n) s m" "cmd_ok c"
  shows "\<exists>s'. step_with fetch store delete s c = Inr (fst (spec_step m c), s') \<and> rel n s' (snd (spec_step m c))"
proof (cases c)
  case (Fetch k)
  then show ?thesis using fetch_law [of n s m k] assms by auto
next
  case (Store k v flag)
  then have "rel (Suc n) s m" "dbkey k" "dbdata v" "flag \<in> {DB_INSERT, DB_REPLACE, DB_STORE}"
    using assms by simp_all
  from store_law [OF this] Store show ?thesis by auto
next
  case (Delete k)
  then show ?thesis using delete_law [of n s m k] assms by auto
qed

text \<open>Any list of commands answers as the map does.\<close>

lemma run_sim:
  "rel (cost cs + n) s m \<Longrightarrow> list_all cmd_ok cs \<Longrightarrow>
     \<exists>s'. run_with fetch store delete s cs = Inr (fst (spec_run m cs), s') \<and> rel n s' (snd (spec_run m cs))"
proof (induction cs arbitrary: s m)
  case (Cons c cs)
  have "rel (cmd_cost c + (cost cs + n)) s m" using Cons.prems(1) by (simp add: add.assoc)
  then obtain s' where 1: "step_with fetch store delete s c = Inr (fst (spec_step m c), s')"
    "rel (cost cs + n) s' (snd (spec_step m c))"
    using step_sim Cons.prems(2) by force
  from Cons.IH [OF 1(2)] Cons.prems(2) obtain s'' where
    "run_with fetch store delete s' cs = Inr (fst (spec_run (snd (spec_step m c)) cs), s'')"
    "rel n s'' (snd (spec_run (snd (spec_step m c)) cs))" by auto
  with 1 show ?case by (auto simp: split_beta Let_def)
qed simp

text \<open>What a store leaves is what a later fetch finds, whatever happens to other keys.\<close>

lemma store_fetch:
  assumes "rel (Suc n) s m" "dbkey k" "dbdata v"
  shows "\<exists>s' s''. store s k v DB_STORE = Inr (0, s') \<and> fetch s' k = Inr (Some v, s'')
    \<and> rel n s'' (m(k \<mapsto> v))"
proof -
  have "store_spec m k v DB_STORE = (0, m(k \<mapsto> v))" by (simp add: store_spec_def DB_INSERT_def DB_REPLACE_def DB_STORE_def split: option.split)
  then obtain s' where "store s k v DB_STORE = Inr (0, s')" "rel n s' (m(k \<mapsto> v))"
    using store_law [OF assms, of DB_STORE] by auto
  with fetch_law [of n s' "m(k \<mapsto> v)" k] show ?thesis by auto
qed

lemma delete_twice:
  assumes "rel n s m"
  shows "\<exists>r s' s''. delete s k = Inr (r, s') \<and> delete s' k = Inr (-1, s'') \<and> rel n s'' (m(k := None))"
proof -
  obtain s' where "delete s k = Inr (if m k = None then -1 else 0, s')" "rel n s' (m(k := None))"
    using delete_law [OF assms] by blast
  with delete_law [of n s' "m(k := None)" k] show ?thesis by auto
qed

end

locale kv_cursor = kv_store rel fetch store delete
  for rel :: "nat \<Rightarrow> 's \<Rightarrow> (string \<rightharpoonup> string) \<Rightarrow> bool"
    and fetch :: "'s fetch_op" and store :: "'s store_op" and delete :: "'s delete_op" +
  fixes scan :: "nat \<Rightarrow> 's \<Rightarrow> (string \<rightharpoonup> string) \<Rightarrow> (string \<times> string) list \<Rightarrow> bool"
    and rewind :: "'s \<Rightarrow> 's res"
    and nextrec :: "'s \<Rightarrow> ((string \<times> string) option \<times> 's) res"
  assumes scan_rel: "scan n s m L \<Longrightarrow> rel n s m"
    and rewind_law: "rel n s m \<Longrightarrow> \<exists>s' L. rewind s = Inr s' \<and> scan n s' m L \<and> distinct (map fst L)
      \<and> (\<forall>k v. (k, v) \<in> set L \<longleftrightarrow> m k = Some v \<and> \<not> blank k)"
    and nextrec_law: "scan n s m L \<Longrightarrow> \<exists>s'. nextrec s = Inr (case L of [] \<Rightarrow> None | kv # _ \<Rightarrow> Some kv, s')
      \<and> scan n s' m (case L of [] \<Rightarrow> [] | _ # L' \<Rightarrow> L')"
begin

lemma drain: "scan n s m L \<Longrightarrow> length L < k \<Longrightarrow> \<exists>s'. drain_with nextrec k s = Inr (L, s') \<and> rel n s' m"
proof (induction L arbitrary: k s)
  case Nil
  then obtain k' where "k = Suc k'" by (cases k) auto
  then show ?case using nextrec_law [OF Nil.prems(1)] scan_rel by fastforce
next
  case (Cons kv L)
  obtain k' where k: "k = Suc k'" "length L < k'" using Cons.prems(2) by (cases k) auto
  obtain s1 where 1: "nextrec s = Inr (Some kv, s1)" "scan n s1 m L"
    using nextrec_law [OF Cons.prems(1)] by auto
  with Cons.IH [OF 1(2) k(2)] k show ?case by auto
qed

text \<open>A scan from the start lists the map.\<close>

lemma rewind_drain:
  assumes "rel n s m"
  shows "\<exists>s1 L. rewind s = Inr s1 \<and> distinct (map fst L) \<and> (\<forall>k v. (k, v) \<in> set L \<longleftrightarrow> m k = Some v \<and> \<not> blank k)
    \<and> (\<forall>k > length L. \<exists>s2. drain_with nextrec k s1 = Inr (L, s2) \<and> rel n s2 m)"
proof -
  obtain s1 L where "rewind s = Inr s1" "scan n s1 m L" "distinct (map fst L)"
    "\<forall>k v. (k, v) \<in> set L \<longleftrightarrow> m k = Some v \<and> \<not> blank k"
    using rewind_law [OF assms] by blast
  with drain show ?thesis by blast
qed

end

section \<open>The database library provides them\<close>

interpretation database: kv_store db_rel db_fetch db_store db_delete
  by unfold_locales (rule db_fetch_ok db_delete_ok db_store_ok; assumption)+

interpretation database: kv_cursor db_rel db_fetch db_store db_delete db_scan db_rewind db_nextrec
  by unfold_locales (erule db_scan_rel, erule db_rewind_ok, erule db_nextrec_ok)

end
