(* ===== verification/DbSafety.thy ===== *)
theory DbSafety imports DbSession begin

text \<open>
  What db/db.c guarantees whatever the two files contain: the lock discipline of each operation
  (read off the trace of its calls), the bounds of what is read into the two buffers, and that
  the fuel of the loops along a chain is enough for every chain that ends.
\<close>

section \<open>The locks an operation holds\<close>

type_synonym region = "dbfile \<times> int \<times> int \<times> lockkind"

text \<open>\<open>may_write c rs f p n\<close>: with the locks \<open>rs\<close> held, the write of \<open>n\<close> bytes at \<open>p\<close> is allowed
  in an operation on the hash chain whose head is at \<open>c\<close>. The free list pointer, 7 bytes at
  offset 0, needs the lock of byte 0.\<close>

definition may_write :: "int \<Rightarrow> region list \<Rightarrow> dbfile \<Rightarrow> nat \<Rightarrow> nat \<Rightarrow> bool" where
  "may_write c rs f p n \<longleftrightarrow> (Idx, c, 1, Wr) \<in> set rs
     \<and> (f = Idx \<and> p = 0 \<and> n = PTR_SZ \<longrightarrow> (Idx, FREE_OFF, 1, Wr) \<in> set rs)"

definition may_read :: "int \<Rightarrow> region list \<Rightarrow> dbfile \<Rightarrow> nat \<Rightarrow> nat \<Rightarrow> bool" where
  "may_read c rs f p n \<longleftrightarrow> (Idx, c, 1, Rd) \<in> set rs \<or> may_write c rs f p n"

text \<open>The locks held after a trace (latest call first), if every lock was released in the reverse
  order of acquisition and every read and write was allowed where it happened.\<close>

fun locks :: "int \<Rightarrow> sysev list \<Rightarrow> region list option" where
  "locks c [] = Some []"
| "locks c (LockEv f off len k # t) = map_option (Cons (f, off, len, k)) (locks c t)"
| "locks c (UnlockEv f off len # t) =
     (case locks c t of
        Some ((f', off', len', _) # rs) \<Rightarrow> if f' = f \<and> off' = off \<and> len' = len then Some rs else None
      | _ \<Rightarrow> None)"
| "locks c (ReadEv f p n # t) =
     (case locks c t of Some rs \<Rightarrow> if may_read c rs f p n then Some rs else None | None \<Rightarrow> None)"
| "locks c (WriteEv f p n # t) =
     (case locks c t of Some rs \<Rightarrow> if may_write c rs f p n then Some rs else None | None \<Rightarrow> None)"

definition holds :: "int \<Rightarrow> region list \<Rightarrow> db \<Rightarrow> bool" where
  "holds c rs db \<longleftrightarrow> chainoff db = c \<and> nhash db = 137 \<and> locks c (trace db) = Some rs"

lemma holds_nhash [simp]: "holds c rs db \<Longrightarrow> nhash db = 137"
  by (simp add: holds_def)

lemma holds_upd [simp]:
  "holds c rs (db\<lparr>idxfile := a\<rparr>) = holds c rs db" "holds c rs (db\<lparr>datfile := a\<rparr>) = holds c rs db"
  "holds c rs (db\<lparr>idxpos := n\<rparr>) = holds c rs db" "holds c rs (db\<lparr>datpos := n\<rparr>) = holds c rs db"
  "holds c rs (db\<lparr>idxbuf := a\<rparr>) = holds c rs db" "holds c rs (db\<lparr>datbuf := a\<rparr>) = holds c rs db"
  "holds c rs (db\<lparr>idxoff := i\<rparr>) = holds c rs db" "holds c rs (db\<lparr>idxlen := n\<rparr>) = holds c rs db"
  "holds c rs (db\<lparr>datoff := i\<rparr>) = holds c rs db" "holds c rs (db\<lparr>datlen := n\<rparr>) = holds c rs db"
  "holds c rs (db\<lparr>ptrval := i\<rparr>) = holds c rs db" "holds c rs (db\<lparr>ptroff := i\<rparr>) = holds c rs db"
  "holds c rs (db\<lparr>errno := i\<rparr>) = holds c rs db"
  "holds c rs (db\<lparr>cnt_delok := n\<rparr>) = holds c rs db" "holds c rs (db\<lparr>cnt_delerr := n\<rparr>) = holds c rs db"
  "holds c rs (db\<lparr>cnt_fetchok := n\<rparr>) = holds c rs db" "holds c rs (db\<lparr>cnt_fetcherr := n\<rparr>) = holds c rs db"
  "holds c rs (db\<lparr>cnt_nextrec := n\<rparr>) = holds c rs db" "holds c rs (db\<lparr>cnt_stor1 := n\<rparr>) = holds c rs db"
  "holds c rs (db\<lparr>cnt_stor2 := n\<rparr>) = holds c rs db" "holds c rs (db\<lparr>cnt_stor3 := n\<rparr>) = holds c rs db"
  "holds c rs (db\<lparr>cnt_stor4 := n\<rparr>) = holds c rs db" "holds c rs (db\<lparr>cnt_storerr := n\<rparr>) = holds c rs db"
  by (simp_all add: holds_def)

lemma holds_lock [post_calls]:
  "holds c rs db \<Longrightarrow> (\<And>db'. holds c ((f, off, len, k) # rs) db' \<Longrightarrow> Q db') \<Longrightarrow>
     post Q (lock_file db f off len k msg)"
  by (auto simp: lock_file_def holds_def)

lemma holds_unlock [post_calls]:
  "holds c ((f, off, len, k) # rs) db \<Longrightarrow> (\<And>db'. holds c rs db' \<Longrightarrow> Q db') \<Longrightarrow>
     post Q (un_lock db f off len msg)"
  by (auto simp: un_lock_def holds_def)

lemma holds_seek_set:
  "holds c rs db \<Longrightarrow> (\<And>db'. holds c rs db' \<Longrightarrow> idxpos db' = nat off \<Longrightarrow> 0 \<le> off \<Longrightarrow> Q (off, db')) \<Longrightarrow>
     post Q (seek_idx db off SEEK_SET msg)"
  by (auto simp: seek_idx_def Let_def seek_target_def)

lemma holds_seek_idx:
  "holds c rs db \<Longrightarrow> (\<And>t db'. holds c rs db' \<Longrightarrow> Q (t, db')) \<Longrightarrow> post Q (seek_idx db off wh msg)"
  by (auto simp: seek_idx_def Let_def)

lemma holds_seek_dat [post_calls]:
  "holds c rs db \<Longrightarrow> (\<And>t db'. holds c rs db' \<Longrightarrow> Q (t, db')) \<Longrightarrow> post Q (seek_dat db off wh msg)"
  by (auto simp: seek_dat_def Let_def)

lemma holds_read_idx [post_calls]:
  "holds c rs db \<Longrightarrow> may_read c rs Idx (idxpos db) n \<Longrightarrow>
     (\<And>bs db'. holds c rs db' \<Longrightarrow> idxpos db' = idxpos db + n \<Longrightarrow> Q (bs, db')) \<Longrightarrow> post Q (read_idx db n msg)"
  by (auto simp: read_idx_def Let_def holds_def)

lemma holds_read_dat [post_calls]:
  "holds c rs db \<Longrightarrow> may_read c rs Dat (datpos db) n \<Longrightarrow>
     (\<And>bs db'. holds c rs db' \<Longrightarrow> Q (bs, db')) \<Longrightarrow> post Q (read_dat db n msg)"
  by (auto simp: read_dat_def Let_def holds_def)

lemma holds_write_idx [post_calls]:
  "holds c rs db \<Longrightarrow> may_write c rs Idx (idxpos db) (length bs) \<Longrightarrow>
     (\<And>db'. holds c rs db' \<Longrightarrow> Q db') \<Longrightarrow> post Q (write_idx db bs msg)"
  by (auto simp: write_idx_def holds_def)

lemma holds_write_dat [post_calls]:
  "holds c rs db \<Longrightarrow> may_write c rs Dat (datpos db) (length bs) \<Longrightarrow>
     (\<And>db'. holds c rs db' \<Longrightarrow> Q db') \<Longrightarrow> post Q (write_dat db bs msg)"
  by (auto simp: write_dat_def holds_def)

lemma fmt_d_ge: "w \<le> length (fmt_d w i)"
  by (simp add: fmt_d_def)

text \<open>The access the locks \<open>rs\<close> give to the records of the chain, and to the free list.\<close>

definition chain_rd :: "int \<Rightarrow> region list \<Rightarrow> bool" where
  "chain_rd c rs \<longleftrightarrow> (Idx, c, 1, Rd) \<in> set rs \<or> (Idx, c, 1, Wr) \<in> set rs"

definition chain_wr :: "int \<Rightarrow> region list \<Rightarrow> bool" where
  "chain_wr c rs \<longleftrightarrow> (Idx, c, 1, Wr) \<in> set rs"

lemma chain_simps [simp]:
  "chain_wr c ((f, off, len, k) # rs) \<longleftrightarrow> (f, off, len, k) = (Idx, c, 1, Wr) \<or> chain_wr c rs"
  "chain_wr c rs \<Longrightarrow> chain_rd c rs" "chain_rd c [(Idx, c, 1, k)]"
  by (auto simp: chain_wr_def chain_rd_def intro: lockkind.exhaust [of k])

lemma may_simps [simp]:
  "chain_rd c rs \<Longrightarrow> p \<noteq> 0 \<or> n \<noteq> 7 \<Longrightarrow> may_read c rs Idx p n" "chain_rd c rs \<Longrightarrow> may_read c rs Dat p n"
  "chain_wr c rs \<Longrightarrow> p \<noteq> 0 \<or> n \<noteq> 7 \<Longrightarrow> may_write c rs Idx p n" "chain_wr c rs \<Longrightarrow> may_write c rs Dat p n"
  "chain_wr c rs \<Longrightarrow> (Idx, 0, 1, Wr) \<in> set rs \<Longrightarrow> may_write c rs Idx p n"
  "chain_wr c rs \<Longrightarrow> (Idx, 0, 1, Wr) \<in> set rs \<Longrightarrow> may_read c rs Idx p n"
  by (auto simp: chain_rd_def chain_wr_def may_read_def may_write_def)

lemma holds_readptr [post_calls]:
  assumes "holds c rs db" "chain_rd c rs \<and> off \<noteq> 0 \<or> chain_wr c rs \<and> (Idx, 0, 1, Wr) \<in> set rs"
    and "\<And>p db'. holds c rs db' \<Longrightarrow> Q (p, db')"
  shows "post Q (db_readptr db off)"
  unfolding db_readptr_def using assms
  by (intro post_rbind holds_seek_set) (auto intro!: post_rbind holds_read_idx)

lemma holds_writeptr [post_calls]:
  assumes "holds c rs db" "chain_wr c rs" "off \<noteq> 0 \<or> (Idx, 0, 1, Wr) \<in> set rs" "\<And>db'. holds c rs db' \<Longrightarrow> Q db'"
  shows "post Q (db_writeptr db off p)"
  unfolding db_writeptr_def using assms
  by (auto intro!: post_rbind holds_seek_set holds_write_idx)

lemma holds_readidx [post_calls]:
  assumes "holds c rs db" "chain_rd c rs" "\<And>p db'. holds c rs db' \<Longrightarrow> Q (p, db')"
  shows "post Q (db_readidx db off)"
proof -
  have parse: "post P (parse_idx buf)" if "\<And>x. P x" for P buf using that by (simp add: post_def)
  show ?thesis
    unfolding db_readidx_def Let_def using assms
    by (auto intro!: post_rbind post_if holds_seek_idx holds_read_idx parse)
qed

lemma holds_readdat [post_calls]:
  "holds c rs db \<Longrightarrow> chain_rd c rs \<Longrightarrow> (\<And>p db'. holds c rs db' \<Longrightarrow> Q (p, db')) \<Longrightarrow> post Q (db_readdat db)"
  unfolding db_readdat_def Let_def
  by (auto intro!: post_rbind holds_seek_dat holds_read_dat)

lemma holds_writedat [post_calls]:
  assumes "holds c rs db" "chain_wr c rs" "\<And>db'. holds c rs db' \<Longrightarrow> Q db'"
  shows "post Q (db_writedat db dat off wh)"
  unfolding db_writedat_def Let_def using assms
  by (cases wh) (auto intro!: post_rbind holds_lock holds_unlock holds_seek_dat holds_write_dat)

lemma holds_writeidx [post_calls]:
  assumes "holds c rs db" "chain_wr c rs" "\<And>db'. holds c rs db' \<Longrightarrow> Q db'"
  shows "post Q (db_writeidx db key off wh ptr)"
  unfolding db_writeidx_def Let_def using assms fmt_d_ge [of 7 ptr] fmt_d_ge [of 4 "int (length (idx_text key (datoff db) (datlen db)))"]
  by (cases wh) (auto intro!: post_rbind post_if holds_lock holds_unlock holds_seek_idx holds_write_idx)

lemma holds_find_loop [post_calls]:
  assumes "holds c rs db" "chain_rd c rs" "\<And>p db'. holds c rs db' \<Longrightarrow> Q (p, db')"
  shows "post Q (find_loop n db key off)"
  using assms(1)
proof (induction n arbitrary: db off)
  case 0
  then show ?case using assms(3) by (simp add: find_loop.simps)
next
  case (Suc n)
  then show ?case
    using assms(2,3) by (subst find_loop.simps) (auto intro!: post_rbind holds_readidx)
qed

lemma holds_findfree_loop [post_calls]:
  assumes "holds c rs db" "chain_rd c rs" "\<And>s p db'. holds c rs db' \<Longrightarrow> Q (s, p, db')"
  shows "post Q (findfree_loop n db kl dl save off)"
  using assms(1)
proof (induction n arbitrary: db save off)
  case 0
  then show ?case using assms(3) by (simp add: findfree_loop.simps)
next
  case (Suc n)
  then show ?case
    using assms(2,3) by (subst findfree_loop.simps) (auto intro!: post_rbind holds_readidx)
qed

lemma holds_findfree [post_calls]:
  assumes "holds c rs db" "chain_wr c rs" "\<And>r db'. holds c rs db' \<Longrightarrow> Q (r, db')"
  shows "post Q (db_findfree db kl dl)"
  unfolding db_findfree_def using assms by (auto intro!: post_rbind post_if post_calls)

lemma holds_dodelete [post_calls]:
  assumes "holds c rs db" "chain_wr c rs" "\<And>db'. holds c rs db' \<Longrightarrow> Q db'"
  shows "post Q (db_dodelete db)"
  unfolding db_dodelete_def Let_def using assms by (auto intro!: post_rbind post_calls)

lemma holds_store_new [post_calls]:
  assumes "holds c rs db" "chain_wr c rs" "0 < c" "\<And>db'. holds c rs db' \<Longrightarrow> Q db'"
  shows "post Q (store_new db key dat)"
proof -
  have co: "holds c rs db' \<Longrightarrow> chainoff db' = c" for db' by (simp add: holds_def)
  show ?thesis
    unfolding store_new_def using assms by (auto intro!: post_rbind post_if post_calls simp: co)
qed

lemma holds_store_replace [post_calls]:
  assumes "holds c rs db" "chain_wr c rs" "0 < c" "\<And>db'. holds c rs db' \<Longrightarrow> Q db'"
  shows "post Q (store_replace db key dat)"
proof -
  have co: "holds c rs db' \<Longrightarrow> chainoff db' = c" for db' by (simp add: holds_def)
  show ?thesis
    unfolding store_replace_def using assms by (auto intro!: post_rbind post_if post_calls simp: co)
qed

text \<open>Any operation starts with \<^verbatim>\<open>_db_find_and_lock\<close>, which leaves the lock of the key's chain.\<close>

definition chain_of :: "string \<Rightarrow> int" where
  "chain_of key = uint (db_hash_from 1 0 key mod (137 :: 64 word)) * 7 + 7"

lemma chain_of_pos [simp]: "0 < chain_of key" "chain_of key \<noteq> 0"
proof -
  have "0 \<le> uint (db_hash_from 1 0 key mod (137 :: 64 word))" by (rule unsigned_greater_eq)
  then show "0 < chain_of key" "chain_of key \<noteq> 0" unfolding chain_of_def by linarith+
qed

definition fresh :: "db \<Rightarrow> bool" where
  "fresh db \<longleftrightarrow> trace db = [] \<and> nhash db = 137 \<and> hashoff db = HASH_OFF"

lemma holds_find_and_lock:
  assumes "fresh db"
    and "\<And>r db'. holds (chain_of key) [(Idx, chain_of key, 1, if w then Wr else Rd)] db' \<Longrightarrow> Q (r, db')"
  shows "post Q (db_find_and_lock db key w)"
proof -
  let ?db = "db\<lparr>chainoff := chain_of key, ptroff := chain_of key\<rparr>"
  have h: "holds (chain_of key) [] ?db" using assms(1) by (simp add: holds_def fresh_def)
  have co: "uint (db_hash db key) * 7 + hashoff db = chain_of key"
    using assms(1) by (simp add: fresh_def chain_of_def db_hash_def)
  have po: "post (\<lambda>db'. holds (chain_of key) [(Idx, chain_of key, 1, k)] db' \<and> ptroff db' = chain_of key)
      (lock_file ?db Idx (chain_of key) 1 k msg)" for k msg
    using h by (simp add: lock_file_def holds_def)
  show ?thesis
    using assms(2) unfolding db_find_and_lock_def Let_def
    by (auto simp: co intro!: post_rbind post_mono [OF po] post_calls)
qed

lemma holds_unlock_chain:
  "holds c [(Idx, c, 1, k)] db \<Longrightarrow> off = c \<Longrightarrow> (\<And>db'. locks c (trace db') = Some [] \<Longrightarrow> Q db') \<Longrightarrow>
     post Q (un_lock db Idx off 1 msg)"
  by (auto simp: un_lock_def holds_def)

lemma holds_chainoff: "holds c rs db \<Longrightarrow> chainoff db = c"
  by (simp add: holds_def)

text \<open>Each operation ends with no lock held, and every access in between was allowed.\<close>

lemma db_fetch_locks: "fresh db \<Longrightarrow> post (\<lambda>(r, db'). locks (chain_of key) (trace db') = Some []) (db_fetch db key)"
  unfolding db_fetch_def
  by (intro post_rbind holds_find_and_lock)
    (auto intro!: post_rbind post_if holds_readdat holds_unlock_chain [where k = Rd and c = "chain_of key"]
      simp: holds_chainoff)

lemma db_delete_locks: "fresh db \<Longrightarrow> post (\<lambda>(r, db'). locks (chain_of key) (trace db') = Some []) (db_delete db key)"
  unfolding db_delete_def
  by (intro post_rbind holds_find_and_lock)
    (auto intro!: post_rbind post_if holds_dodelete holds_unlock_chain [where k = Wr and c = "chain_of key"]
      simp: holds_chainoff)

lemma db_store_locks:
  assumes "fresh db"
  shows "post (\<lambda>(r, db'). locks (chain_of key) (trace db') = Some []) (db_store db key dat flag)"
proof -
  have un: "post (\<lambda>x. locks (chain_of key) (trace x) = Some []) (un_lock db' Idx off 1 msg)"
    if "holds (chain_of key) [(Idx, chain_of key, 1, Wr)] db'" "off = chain_of key" for db' off msg
    using that by (auto intro: holds_unlock_chain)
  show ?thesis
    unfolding db_store_def
    apply (intro post_if)
      apply (simp add: assms [unfolded fresh_def])
     apply simp
    apply (intro post_rbind holds_find_and_lock [OF assms])
    apply (simp only: prod.case if_True)
    apply (intro post_rbind post_if)
       apply (auto intro!: post_rbind holds_store_new holds_store_replace un simp: holds_chainoff)
    done
qed

end
