(* ===== verification/DbLoops.thy ===== *)
theory DbLoops imports DbModel begin

text \<open>
  The three loops of db/db.c that follow the index file, on arbitrary file contents: the walk
  along a hash chain or the free list ends within the fuel of the model whenever it ends at
  all (a chain of a damaged file may run in a circle), and the sequential scan always ends.
  What is read on the way fits the handle's two buffers.
\<close>

section \<open>Iterating a partial function\<close>

fun iter :: "('a \<Rightarrow> 'a option) \<Rightarrow> nat \<Rightarrow> 'a \<Rightarrow> 'a option" where
  "iter g 0 x = Some x"
| "iter g (Suc n) x = (case g x of None \<Rightarrow> None | Some y \<Rightarrow> iter g n y)"

lemma iter_add: "iter g (m + n) x = (case iter g m x of None \<Rightarrow> None | Some y \<Rightarrow> iter g n y)"
  by (induction m arbitrary: x) (auto split: option.split)

lemma iter_snoc: "iter g (Suc n) x = (case iter g n x of None \<Rightarrow> None | Some y \<Rightarrow> g y)"
proof -
  have "iter g 1 y = g y" for y by (simp split: option.split)
  then show ?thesis using iter_add [of g n 1 x] by (simp only: Suc_eq_plus1)
qed

lemma iter_prefix: "iter g n x \<noteq> None \<Longrightarrow> m \<le> n \<Longrightarrow> iter g m x \<noteq> None"
  using iter_add [of g m "n - m" x] by (auto split: option.splits)

lemma iter_cycle: "iter g p w = Some w \<Longrightarrow> iter g (k * p) w = Some w"
  by (induction k) (simp_all add: iter_add)

lemma iter_pigeonhole:
  assumes S: "finite S" "\<And>x. g x \<noteq> None \<Longrightarrow> x \<in> S" and def: "iter g (Suc (card S)) x \<noteq> None"
  shows "iter g n x \<noteq> None"
proof -
  let ?v = "\<lambda>i. the (iter g i x)"
  have v: "iter g i x = Some (?v i)" if "i \<le> Suc (card S)" for i
    using iter_prefix [OF def that] by simp
  have inS: "?v i \<in> S" if "i \<le> card S" for i
  proof -
    have "iter g (Suc i) x \<noteq> None" using iter_prefix [OF def, of "Suc i"] that by (simp del: iter.simps)
    then have "g (?v i) \<noteq> None" unfolding iter_snoc using that by (subst (asm) v) simp_all
    then show ?thesis by (rule S(2))
  qed
  have "\<not> inj_on ?v {..card S}"
  proof
    assume "inj_on ?v {..card S}"
    then have "card {..card S} \<le> card S" using inS S(1) by (intro card_inj_on_le) auto
    then show False by simp
  qed
  then obtain i j where ij: "i < j" "j \<le> card S" "?v i = ?v j"
    by (auto simp: inj_on_def) (metis linorder_neqE_nat order.trans)
  define p where "p = j - i"
  have "iter g (i + p) x = Some (?v i)" using v [of j] ij by (simp add: p_def)
  then have cyc: "iter g p (?v i) = Some (?v i)" using v [of i] ij by (simp add: iter_add)
  have "1 \<le> p" using ij by (simp add: p_def)
  then have "n \<le> n * p" by simp
  then have "iter g n (?v i) \<noteq> None" using iter_prefix [of g "n * p" "?v i" n] iter_cycle [OF cyc, of n] by simp
  then have "iter g (i + n) x \<noteq> None" using v [of i] ij by (simp add: iter_add)
  then show ?thesis by (rule iter_prefix) simp
qed

section \<open>What one step of a chain depends on\<close>

text \<open>The chain pointer, the key and the data length of the record at an offset of a file.\<close>

definition probe :: "string \<Rightarrow> (string \<Rightarrow> bool) \<Rightarrow> int \<Rightarrow> (int \<times> string \<times> nat) res" where
  "probe f flt off =
     (let bs = window f (nat off) 11; len = to_size_t (atoi (drop 7 bs)); buf = window f (nat off + 11) len in
      if off < 0 \<or> flt ''_db_readidx: lseek error'' \<or> flt ''_db_readidx: readv error of index record''
        \<or> length bs \<noteq> 11 \<or> len < IDXLEN_MIN \<or> len > IDXLEN_MAX
        \<or> flt ''_db_readidx: read error of index record'' \<or> length buf \<noteq> len
      then Inl (Dump ''_db_readidx'')
      else rbind (parse_idx buf) (\<lambda>(key, start, dl). Inr (atol (take 7 bs), key, dl)))"

lemma probe_readidx:
  assumes "off \<noteq> 0"
  shows "case db_readidx db off of
      Inl e \<Rightarrow> e \<noteq> Diverges \<and> (\<exists>e'. probe (idxfile db) (fails db) off = Inl e')
    | Inr (p, db') \<Rightarrow> probe (idxfile db) (fails db) off = Inr (p, idxbuf db', datlen db')
        \<and> idxfile db' = idxfile db \<and> fails db' = fails db"
proof -
  have parse: "parse_idx buf = Inl e \<Longrightarrow> e \<noteq> Diverges" for buf e
    by (auto simp: parse_idx_def split: if_splits option.splits)
  show ?thesis
    using assms
    by (auto simp: db_readidx_def probe_def seek_idx_def seek_target_def read_idx_def Let_def add.commute
        rbind_def split: sum.splits dest: parse)
qed

section \<open>Walks along a chain\<close>

text \<open>Where the walk goes from an offset, if it goes on: \<open>stop\<close> is the condition at the record.\<close>

definition onward :: "string \<Rightarrow> (string \<Rightarrow> bool) \<Rightarrow> (string \<Rightarrow> nat \<Rightarrow> bool) \<Rightarrow> int \<Rightarrow> int option" where
  "onward f flt stop off =
     (if off = 0 then None
      else case probe f flt off of
        Inl _ \<Rightarrow> None
      | Inr (p, key, dl) \<Rightarrow> if stop key dl then None else Some p)"

lemma onward_range: "onward f flt stop off \<noteq> None \<Longrightarrow> off \<in> {1..int (length f)}"
proof -
  assume a: "onward f flt stop off \<noteq> None"
  then have o: "off \<noteq> 0" "0 \<le> off" by (auto simp: onward_def probe_def Let_def split: if_splits)
  have "length (window f (nat off) 11) = 11"
    using a o by (auto simp: onward_def probe_def Let_def split: if_splits)
  then have "nat off + 11 \<le> length f" by (simp add: window_def min_def split: if_splits)
  with o show ?thesis by simp
qed

lemma onward_simps [simp]:
  "onward f flt stop 0 = None"
  "off \<noteq> 0 \<Longrightarrow> probe f flt off = Inl e \<Longrightarrow> onward f flt stop off = None"
  "off \<noteq> 0 \<Longrightarrow> probe f flt off = Inr (p, key, dl) \<Longrightarrow> onward f flt stop off = (if stop key dl then None else Some p)"
  by (simp_all add: onward_def)

lemma onward_forever:
  assumes "iter (onward f flt stop) (Suc (length f)) off \<noteq> None"
  shows "iter (onward f flt stop) n off \<noteq> None"
proof -
  have "card {1..int (length f)} = length f" by simp
  with iter_pigeonhole [of "{1..int (length f)}", OF _ onward_range] assms show ?thesis
    by (simp del: iter.simps)
qed

lemma find_loop_diverges:
  "find_loop n db key off = Inl Diverges \<longleftrightarrow>
     (\<exists>y. iter (onward (idxfile db) (fails db) (\<lambda>k _. k = key)) n off = Some y \<and> y \<noteq> 0)"
proof (induction n arbitrary: db off)
  case 0
  then show ?case by (simp add: find_loop.simps)
next
  case (Suc n)
  show ?case
  proof (cases "off = 0")
    case False
    show ?thesis
    proof (cases "db_readidx db off")
      case (Inl e)
      then show ?thesis
        using probe_readidx [OF False, of db] False by (subst find_loop.simps) auto
    next
      case (Inr r)
      obtain p db' where r: "r = (p, db')" by (cases r)
      then have *: "probe (idxfile db) (fails db) off = Inr (p, idxbuf db', datlen db')"
        "idxfile db' = idxfile db" "fails db' = fails db"
        using probe_readidx [OF False, of db] Inr by auto
      show ?thesis
        using Suc.IH [of "db'\<lparr>ptroff := off\<rparr>" p] * False Inr r
        by (subst find_loop.simps) simp
    qed
  qed (simp add: find_loop.simps)
qed

lemma findfree_loop_diverges:
  "findfree_loop n db kl dl save off = Inl Diverges \<longleftrightarrow>
     (\<exists>y. iter (onward (idxfile db) (fails db) (\<lambda>k l. length k = kl \<and> l = dl)) n off = Some y \<and> y \<noteq> 0)"
proof (induction n arbitrary: db off save)
  case 0
  then show ?case by (simp add: findfree_loop.simps)
next
  case (Suc n)
  show ?case
  proof (cases "off = 0")
    case False
    show ?thesis
    proof (cases "db_readidx db off")
      case (Inl e)
      then show ?thesis
        using probe_readidx [OF False, of db] False by (subst findfree_loop.simps) auto
    next
      case (Inr r)
      obtain p db' where r: "r = (p, db')" by (cases r)
      then have *: "probe (idxfile db) (fails db) off = Inr (p, idxbuf db', datlen db')"
        "idxfile db' = idxfile db" "fails db' = fails db"
        using probe_readidx [OF False, of db] Inr by auto
      show ?thesis
        using Suc.IH [of db' off p] * False Inr r
        by (subst findfree_loop.simps) simp
    qed
  qed (simp add: findfree_loop.simps)
qed

lemma diverges_forever:
  assumes "\<exists>y. iter (onward f flt stop) (Suc (length f)) off = Some y \<and> y \<noteq> 0"
  shows "\<exists>y. iter (onward f flt stop) n off = Some y \<and> y \<noteq> 0"
proof -
  have "iter (onward f flt stop) (Suc n) off \<noteq> None" using onward_forever [of f flt stop off "Suc n"] assms by auto
  then show ?thesis
    unfolding iter_snoc by (auto split: option.splits)
qed

text \<open>The fuel of the model runs out only where the code's loop has no end.\<close>

lemma find_loop_fuel:
  "find_loop (Suc (length (idxfile db))) db key off = Inl Diverges \<Longrightarrow> find_loop n db key off = Inl Diverges"
  unfolding find_loop_diverges by (rule diverges_forever)

lemma findfree_loop_fuel:
  "findfree_loop (Suc (length (idxfile db))) db kl dl save off = Inl Diverges \<Longrightarrow>
     findfree_loop n db kl dl save off = Inl Diverges"
  unfolding findfree_loop_diverges by (rule diverges_forever)

text \<open>More fuel does not change a result.\<close>

lemma find_loop_more:
  "find_loop n db key off \<noteq> Inl Diverges \<Longrightarrow> find_loop (n + k) db key off = find_loop n db key off"
proof (induction n arbitrary: db off)
  case (Suc n)
  show ?case
    using Suc by (subst (1 2) find_loop.simps, subst (asm) (2) find_loop.simps)
      (auto simp: rbind_def split: sum.splits prod.splits if_splits)
qed (auto simp: find_loop.simps split: if_splits)

section \<open>What fits the buffers\<close>

text \<open>\<open>bounded db\<close>: the record just read is within the limits the buffers were allocated for
  (\<^verbatim>\<open>IDXLEN_MAX + 2\<close> and \<^verbatim>\<open>DATLEN_MAX + 2\<close> bytes).\<close>

definition bounded :: "db \<Rightarrow> bool" where
  "bounded db \<longleftrightarrow> IDXLEN_MIN \<le> idxlen db \<and> idxlen db \<le> IDXLEN_MAX \<and> length (idxbuf db) < idxlen db
     \<and> 0 \<le> datoff db \<and> 1 \<le> datlen db \<and> datlen db \<le> DATLEN_MAX"

lemma split_at_length: "split_at c s = Some (a, b) \<Longrightarrow> length a + length b < length s"
  by (induction s arbitrary: a) (auto split: if_splits option.splits)

lemma parse_idx_bounds:
  assumes "length buf = n" "0 < n"
    "\<And>key start len. length key < n \<Longrightarrow> 0 \<le> start \<Longrightarrow> 1 \<le> len \<Longrightarrow> len \<le> DATLEN_MAX \<Longrightarrow> Q (key, start, len)"
  shows "post Q (parse_idx buf)"
proof -
  have "length (cstr (butlast buf)) \<le> n"
    using assms(1) by (simp add: cstr_def le_trans [OF length_takeWhile_le])
  then show ?thesis
    using assms(3) by (auto simp: parse_idx_def dest!: split_at_length split: option.split)
qed

lemma db_readidx_bounds:
  "post (\<lambda>(p, db'). idxfile db' = idxfile db \<and> fails db' = fails db \<and>
      (off = 0 \<and> p = -1 \<or> bounded db' \<and> (off = 0 \<longrightarrow> idxpos db < idxpos db') \<and> idxpos db' \<le> length (idxfile db)))
     (db_readidx db off)"
proof -
  have win: "length (window f p n) = n \<Longrightarrow> 0 < n \<Longrightarrow> p + n \<le> length f" for f :: string and p n
    by (simp add: window_def min_def split: if_splits)
  show ?thesis
    unfolding db_readidx_def Let_def
    by (auto simp: seek_idx_def seek_target_def read_idx_def Let_def bounded_def IDXLEN_MIN_def
      intro!: post_rbind post_if parse_idx_bounds) (auto dest!: win)
qed

lemma find_loop_bounds:
  "post (\<lambda>(off', db'). off' \<noteq> 0 \<longrightarrow> bounded db' \<and> idxbuf db' = key) (find_loop n db key off)"
proof (induction n arbitrary: db off)
  case 0
  then show ?case by (simp add: find_loop.simps)
next
  case (Suc n)
  then show ?case
    by (subst find_loop.simps) (auto intro!: post_rbind post_mono [OF db_readidx_bounds])
qed

lemma db_readdat_bounds:
  "bounded db \<Longrightarrow> post (\<lambda>(dat, db'). length dat < datlen db \<and> datbuf db' = dat \<and> datlen db' = datlen db) (db_readdat db)"
  unfolding db_readdat_def
  by (auto simp: seek_dat_def read_dat_def Let_def bounded_def cstr_def intro!: post_rbind post_if
    le_less_trans [OF length_takeWhile_le])

lemma db_fetch_bounds:
  "post (\<lambda>(r, db'). \<forall>dat. r = Some dat \<longrightarrow> length dat < DATLEN_MAX \<and> datbuf db' = dat) (db_fetch db key)"
proof -
  let ?B = "\<lambda>(rc, db'). 0 \<le> rc \<longrightarrow> bounded db'"
  have find: "post ?B (db_find_and_lock db key False)"
    unfolding db_find_and_lock_def Let_def
    by (auto simp: post_def [of _ "lock_file _ _ _ _ _ _"] post_def [of _ "db_readptr _ _"]
      intro!: post_rbind post_mono [OF find_loop_bounds])
  have read: "post (\<lambda>(dat, db'). length dat < DATLEN_MAX \<and> datbuf db' = dat) (db_readdat db')" if "bounded db'" for db'
    using that by (intro post_mono [OF db_readdat_bounds]) (auto simp: bounded_def)
  show ?thesis
    unfolding db_fetch_def
    by (intro post_rbind post_mono [OF find])
      (auto simp: un_lock_def intro!: post_rbind post_if post_mono [OF read])
qed

text \<open>Each turn of the scan moves the file offset, so it ends.\<close>

lemma nextrec_loop_ends: "length (idxfile db) - idxpos db < n \<Longrightarrow> nextrec_loop n db \<noteq> Inl Diverges"
proof (induction n arbitrary: db)
  case (Suc n)
  have "db_readidx db 0 \<noteq> Inl Diverges"
    by (auto simp: db_readidx_def seek_idx_def read_idx_def parse_idx_def Let_def rbind_def split: sum.splits if_splits option.splits)
  moreover have "nextrec_loop n db' \<noteq> Inl Diverges" if "db_readidx db 0 = Inr (p, db')" "0 \<le> p" for p db'
    using postD [OF db_readidx_bounds that(1)] that(2) Suc.prems by (intro Suc.IH) auto
  ultimately show ?case
    by (auto simp: nextrec_loop.simps rbind_def split: sum.splits)
qed simp

end
