(* ===== verification/DbProps.thy ===== *)
theory DbProps imports DbApi DbSafety DbLoops begin

text \<open>
  The properties of the database library of db/: each states, over the operations of db.c, what
  the interfaces of DbApi, the lock discipline of DbSafety and the walks of DbLoops give.
\<close>

section \<open>A session\<close>

text \<open>A client's session on a new database: open it, run commands, close it, open it again, and
  read all records from the start.\<close>

definition session :: "(string \<Rightarrow> bool) \<Rightarrow> fs \<Rightarrow> string \<Rightarrow> cmd list \<Rightarrow> nat
    \<Rightarrow> (reply list \<times> (string \<times> string) list) res" where
  "session flt fs path cs k =
     rbind (db_open flt fs path {O_RDWR, O_CREAT, O_TRUNC}) (\<lambda>(h, fs).
     case h of None \<Rightarrow> Inl (Quit ''db_open error'')
     | Some db \<Rightarrow>
         rbind (run_with db_fetch db_store db_delete db cs) (\<lambda>(rs, db).
         rbind (db_open flt (db_close fs db) path {O_RDWR}) (\<lambda>(h, fs).
         case h of None \<Rightarrow> Inl (Quit ''db_open error'')
         | Some db \<Rightarrow>
             rbind (db_rewind db) (\<lambda>db.
             rbind (drain_with db_nextrec k db) (\<lambda>(L, db). Inr (rs, L))))))"

section \<open>The handle keeps its name\<close>

definition named :: "string \<Rightarrow> db \<Rightarrow> bool" where
  "named nm db \<longleftrightarrow> dbname db = nm"

lemma named_upd [simp]:
  "named nm (db\<lparr>idxbuf := a\<rparr>) = named nm db" "named nm (db\<lparr>datbuf := a\<rparr>) = named nm db"
  "named nm (db\<lparr>idxoff := i\<rparr>) = named nm db" "named nm (db\<lparr>idxlen := n\<rparr>) = named nm db"
  "named nm (db\<lparr>datoff := i\<rparr>) = named nm db" "named nm (db\<lparr>datlen := n\<rparr>) = named nm db"
  "named nm (db\<lparr>ptrval := i\<rparr>) = named nm db" "named nm (db\<lparr>ptroff := i\<rparr>) = named nm db"
  "named nm (db\<lparr>chainoff := i\<rparr>) = named nm db" "named nm (db\<lparr>errno := i\<rparr>) = named nm db"
  "named nm (db\<lparr>cnt_delok := n\<rparr>) = named nm db" "named nm (db\<lparr>cnt_delerr := n\<rparr>) = named nm db"
  "named nm (db\<lparr>cnt_fetchok := n\<rparr>) = named nm db" "named nm (db\<lparr>cnt_fetcherr := n\<rparr>) = named nm db"
  "named nm (db\<lparr>cnt_stor1 := n\<rparr>) = named nm db" "named nm (db\<lparr>cnt_stor2 := n\<rparr>) = named nm db"
  "named nm (db\<lparr>cnt_stor3 := n\<rparr>) = named nm db" "named nm (db\<lparr>cnt_stor4 := n\<rparr>) = named nm db"
  "named nm (db\<lparr>cnt_storerr := n\<rparr>) = named nm db"
  by (simp_all add: named_def)

lemma named_sys:
  assumes "named nm db"
  shows "(\<And>t db'. named nm db' \<Longrightarrow> Q (t, db')) \<Longrightarrow> post Q (seek_idx db off wh msg)"
    and "(\<And>t db'. named nm db' \<Longrightarrow> Q (t, db')) \<Longrightarrow> post Q (seek_dat db off wh msg)"
    and "(\<And>s db'. named nm db' \<Longrightarrow> R (s, db')) \<Longrightarrow> post R (read_idx db n msg)"
    and "(\<And>s db'. named nm db' \<Longrightarrow> R (s, db')) \<Longrightarrow> post R (read_dat db n msg)"
    and "(\<And>db'. named nm db' \<Longrightarrow> P db') \<Longrightarrow> post P (write_idx db bs msg)"
    and "(\<And>db'. named nm db' \<Longrightarrow> P db') \<Longrightarrow> post P (write_dat db bs msg)"
    and "(\<And>db'. named nm db' \<Longrightarrow> P db') \<Longrightarrow> post P (lock_file db f off len k msg)"
    and "(\<And>db'. named nm db' \<Longrightarrow> P db') \<Longrightarrow> post P (un_lock db f off len msg)"
  using assms by (auto simp: named_def seek_idx_def seek_dat_def read_idx_def read_dat_def write_idx_def
    write_dat_def lock_file_def un_lock_def Let_def)

lemma named_readptr: "named nm db \<Longrightarrow> (\<And>t db'. named nm db' \<Longrightarrow> Q (t, db')) \<Longrightarrow> post Q (db_readptr db off)"
  unfolding db_readptr_def by (auto intro!: post_rbind named_sys)

lemma named_writeptr: "named nm db \<Longrightarrow> (\<And>db'. named nm db' \<Longrightarrow> Q db') \<Longrightarrow> post Q (db_writeptr db off p)"
  unfolding db_writeptr_def by (auto intro!: post_rbind named_sys)

lemma named_readidx:
  assumes "named nm db" "\<And>t db'. named nm db' \<Longrightarrow> Q (t, db')"
  shows "post Q (db_readidx db off)"
proof -
  have parse: "post P (parse_idx buf)" if "\<And>x. P x" for P buf using that by (simp add: post_def)
  show ?thesis
    unfolding db_readidx_def Let_def using assms by (auto intro!: post_rbind post_if named_sys parse)
qed

lemma named_readdat: "named nm db \<Longrightarrow> (\<And>t db'. named nm db' \<Longrightarrow> Q (t, db')) \<Longrightarrow> post Q (db_readdat db)"
  unfolding db_readdat_def Let_def by (auto intro!: post_rbind named_sys)

lemma named_writedat: "named nm db \<Longrightarrow> (\<And>db'. named nm db' \<Longrightarrow> Q db') \<Longrightarrow> post Q (db_writedat db dat off wh)"
  unfolding db_writedat_def Let_def by (cases wh) (auto intro!: post_rbind named_sys)

lemma named_writeidx: "named nm db \<Longrightarrow> (\<And>db'. named nm db' \<Longrightarrow> Q db') \<Longrightarrow> post Q (db_writeidx db key off wh p)"
  unfolding db_writeidx_def Let_def by (cases wh) (auto intro!: post_rbind post_if named_sys)

lemma named_find_loop:
  assumes "named nm db" "\<And>t db'. named nm db' \<Longrightarrow> Q (t, db')"
  shows "post Q (find_loop n db key off)"
  using assms(1)
proof (induction n arbitrary: db off)
  case (Suc n)
  then show ?case
    using assms(2) by (subst find_loop.simps) (auto intro!: post_rbind named_readidx)
qed (simp add: find_loop.simps assms(2))

lemma named_findfree_loop:
  assumes "named nm db" "\<And>s t db'. named nm db' \<Longrightarrow> Q (s, t, db')"
  shows "post Q (findfree_loop n db kl dl save off)"
  using assms(1)
proof (induction n arbitrary: db save off)
  case (Suc n)
  then show ?case
    using assms(2) by (subst findfree_loop.simps) (auto intro!: post_rbind named_readidx)
qed (simp add: findfree_loop.simps assms(2))

lemmas named_calls = named_sys(7,8) named_readptr named_writeptr named_readidx named_readdat named_writedat
  named_writeidx named_find_loop named_findfree_loop

lemma named_find_and_lock:
  "named nm db \<Longrightarrow> (\<And>t db'. named nm db' \<Longrightarrow> Q (t, db')) \<Longrightarrow> post Q (db_find_and_lock db key w)"
  unfolding db_find_and_lock_def Let_def by (auto intro!: post_rbind post_if named_calls)

lemma named_findfree: "named nm db \<Longrightarrow> (\<And>t db'. named nm db' \<Longrightarrow> Q (t, db')) \<Longrightarrow> post Q (db_findfree db kl dl)"
  unfolding db_findfree_def by (auto intro!: post_rbind post_if named_calls)

lemma named_dodelete: "named nm db \<Longrightarrow> (\<And>db'. named nm db' \<Longrightarrow> Q db') \<Longrightarrow> post Q (db_dodelete db)"
  unfolding db_dodelete_def Let_def by (auto intro!: post_rbind post_if named_calls)

lemma named_fetch: "named nm db \<Longrightarrow> post (\<lambda>(r, db'). named nm db') (db_fetch db key)"
  unfolding db_fetch_def by (auto intro!: post_rbind post_if named_calls named_find_and_lock)

lemma named_delete: "named nm db \<Longrightarrow> post (\<lambda>(r, db'). named nm db') (db_delete db key)"
  unfolding db_delete_def by (auto intro!: post_rbind post_if named_calls named_find_and_lock named_dodelete)

lemma named_store_new: "named nm db \<Longrightarrow> (\<And>db'. named nm db' \<Longrightarrow> Q db') \<Longrightarrow> post Q (store_new db key dat)"
  unfolding store_new_def by (auto intro!: post_rbind post_if named_calls named_findfree)

lemma named_store_replace: "named nm db \<Longrightarrow> (\<And>db'. named nm db' \<Longrightarrow> Q db') \<Longrightarrow> post Q (store_replace db key dat)"
  unfolding store_replace_def by (auto intro!: post_rbind post_if named_calls named_dodelete)

lemma named_store:
  assumes "named nm db"
  shows "post (\<lambda>(r, db'). named nm db') (db_store db key dat flag)"
  unfolding db_store_def
  apply (intro post_if)
    apply (simp add: assms)
   apply simp
  apply (intro post_rbind named_find_and_lock [OF assms])
  apply (simp only: prod.case)
  apply (intro post_rbind post_if)
     apply (auto intro!: post_rbind named_sys(8) named_store_new named_store_replace)
  done

lemma named_run:
  "named nm db \<Longrightarrow> post (\<lambda>(rs, db'). named nm db') (run_with db_fetch db_store db_delete db cs)"
proof (induction cs arbitrary: db)
  case (Cons c cs)
  have "post (\<lambda>(r, db'). named nm db') (step_with db_fetch db_store db_delete db c)"
    using Cons.prems by (cases c) (auto intro!: post_rbind post_mono [OF named_fetch] post_mono [OF named_store]
      post_mono [OF named_delete])
  then show ?case by (auto intro!: post_rbind post_mono [OF Cons.IH] elim!: post_mono)
qed simp

section \<open>Properties\<close>

text \<open>C1: On a new database, any list of fetches, stores and deletes answers exactly as it would on a
  map from keys to data, and a later process that opens the files and scans them finds each
  live record of that map once (keys made of blanks only are skipped by the scan).\<close>

theorem session_refines_map:
  assumes "\<forall>m. \<not> flt m" "list_all cmd_ok cs" "967 + cost cs * 1035 \<le> 10000000"
  shows "\<exists>L. (\<forall>k > length L. session flt fs path cs k = Inr (fst (spec_run Map.empty cs), L))
    \<and> distinct (map fst L) \<and> (\<forall>k v. (k, v) \<in> set L \<longleftrightarrow> snd (spec_run Map.empty cs) k = Some v \<and> \<not> blank k)"
proof -
  let ?m = "snd (spec_run Map.empty cs)"
  obtain db fs1 where 1: "db_open flt fs path {O_RDWR, O_CREAT, O_TRUNC} = Inr (Some db, fs1)"
    "db_rel (cost cs) db Map.empty" "dbname db = path @ ''.dat''"
    using db_open_new_ok [OF assms(1) _ _ assms(3), of "{O_RDWR, O_CREAT, O_TRUNC}" fs path] by auto
  obtain db2 where 2: "run_with db_fetch db_store db_delete db cs = Inr (fst (spec_run Map.empty cs), db2)"
    "db_rel 0 db2 ?m"
    using database.run_sim [of cs 0 db Map.empty] 1(2) assms(2) by auto
  have "dbname db2 = path @ ''.dat''"
    using postD [OF named_run 2(1)] 1(3) by (simp add: named_def)
  then obtain db3 fs2 where 3: "db_open flt (db_close fs1 db2) path {O_RDWR} = Inr (Some db3, fs2)" "db_rel 0 db3 ?m"
    using db_reopen_ok [OF 2(2) _ assms(1)] by blast
  obtain db4 L where 4: "db_rewind db3 = Inr db4" "distinct (map fst L)"
    "\<forall>k v. (k, v) \<in> set L \<longleftrightarrow> ?m k = Some v \<and> \<not> blank k"
    "\<forall>k > length L. \<exists>db5. drain_with db_nextrec k db4 = Inr (L, db5) \<and> db_rel 0 db5 ?m"
    using database.rewind_drain [OF 3(2)] by blast
  have "session flt fs path cs k = Inr (fst (spec_run Map.empty cs), L)" if "k > length L" for k
    using that 1(1) 2(1) 3(1) 4(1,4) by (auto simp: session_def)
  with 4 show ?thesis by blast
qed

theorem session_refines_map_witness:
  "\<exists>L. (\<forall>k > length L. session (\<lambda>_. False) Map.empty ''db4''
        [Store ''Alpha'' ''data1'' DB_INSERT, Fetch ''Alpha'', Delete ''Alpha'', Fetch ''Alpha''] k
      = Inr ([Code 0, Data (Some ''data1''), Code 0, Data None], L))
    \<and> distinct (map fst L) \<and> L = []"
proof -
  have eq: "spec_run Map.empty [Store ''Alpha'' ''data1'' DB_INSERT, Fetch ''Alpha'', Delete ''Alpha'', Fetch ''Alpha'']
      = ([Code 0, Data (Some ''data1''), Code 0, Data None], Map.empty)"
    by (simp add: store_spec_def DB_INSERT_def DB_REPLACE_def)
  obtain L where L: "\<forall>k > length L. session (\<lambda>_. False) Map.empty ''db4''
        [Store ''Alpha'' ''data1'' DB_INSERT, Fetch ''Alpha'', Delete ''Alpha'', Fetch ''Alpha''] k
      = Inr ([Code 0, Data (Some ''data1''), Code 0, Data None], L)"
    "distinct (map fst L)" "\<forall>k v. (k, v) \<notin> set L"
    using session_refines_map [of "\<lambda>_. False"
      "[Store ''Alpha'' ''data1'' DB_INSERT, Fetch ''Alpha'', Delete ''Alpha'', Fetch ''Alpha'']" Map.empty "''db4''"]
    unfolding eq by (auto simp: dbkey_def dbdata_def)
  then have "L = []" by (cases L) auto
  with L show ?thesis by blast
qed

text \<open>C2: \<^verbatim>\<open>db_store\<close> with any of the three flags answers as the manual says (0, 1 for an insert of
  an existing key, -1 for a replace of a missing one) and leaves the database holding exactly
  the updated map, whichever of its four ways of placing the record it takes.\<close>

theorem db_store_correct:
  assumes "db_rel (Suc n) db m" "dbkey key" "dbdata dat" "flag \<in> {DB_INSERT, DB_REPLACE, DB_STORE}"
  shows "\<exists>db'. db_store db key dat flag = Inr (fst (store_spec m key dat flag), db')
     \<and> db_rel n db' (snd (store_spec m key dat flag))"
  by (rule database.store_law [OF assms])

theorem db_store_correct_witness:
  "\<exists>db db'. db_rel 1 db Map.empty \<and> db_store db ''Alpha'' ''data1'' DB_INSERT = Inr (0, db')
     \<and> db_rel 0 db' [''Alpha'' \<mapsto> ''data1'']"
proof -
  obtain db where db: "db_rel 1 db Map.empty"
    using db_open_new_ok [of "\<lambda>_. False" "{O_CREAT, O_TRUNC}" 1 Map.empty "''db4''"] by auto
  with db_store_correct [of 0 db Map.empty "''Alpha''" "''data1''" DB_INSERT] show ?thesis
    by (auto simp: dbkey_def dbdata_def store_spec_def DB_INSERT_def DB_REPLACE_def)
qed

text \<open>C3: \<^verbatim>\<open>db_delete\<close> reports whether the key was there and takes exactly that key out of the
  database; the record it frees costs no room.\<close>

theorem db_delete_correct:
  assumes "db_rel n db m"
  shows "\<exists>db'. db_delete db key = Inr (if m key = None then -1 else 0, db') \<and> db_rel n db' (m(key := None))"
  by (rule database.delete_law [OF assms])

theorem db_delete_correct_witness:
  "\<exists>db db'. db_rel 1 db Map.empty \<and> db_delete db ''Alpha'' = Inr (-1, db') \<and> db_rel 1 db' Map.empty"
proof -
  obtain db where db: "db_rel 1 db Map.empty"
    using db_open_new_ok [of "\<lambda>_. False" "{O_CREAT, O_TRUNC}" 1 Map.empty "''db4''"] by auto
  with db_delete_correct [of 1 db Map.empty "''Alpha''"] show ?thesis by auto
qed

text \<open>\<^verbatim>\<open>db_fetch\<close> returns the data last stored under the key, or the null pointer, and changes
  nothing.\<close>

theorem db_fetch_correct:
  assumes "db_rel n db m"
  shows "\<exists>db'. db_fetch db key = Inr (m key, db') \<and> db_rel n db' m"
  by (rule database.fetch_law [OF assms])

theorem db_fetch_correct_witness:
  "\<exists>db db'. db_rel 1 db Map.empty \<and> db_fetch db ''Alpha'' = Inr (None, db') \<and> db_rel 1 db' Map.empty"
proof -
  obtain db where db: "db_rel 1 db Map.empty"
    using db_open_new_ok [of "\<lambda>_. False" "{O_CREAT, O_TRUNC}" 1 Map.empty "''db4''"] by auto
  with db_fetch_correct [of 1 db Map.empty "''Alpha''"] show ?thesis by auto
qed



text \<open>C5: Whatever the index file contains, a record \<^verbatim>\<open>_db_readidx\<close> accepts is within the limits its
  buffers were allocated for, and the datum \<^verbatim>\<open>db_fetch\<close> returns is shorter than
  \<^verbatim>\<open>DATLEN_MAX\<close>.\<close>

theorem db_read_bounds:
  "post (\<lambda>(p, db'). off = 0 \<and> p = -1 \<or> bounded db') (db_readidx db off)
   \<and> post (\<lambda>(r, db'). case r of None \<Rightarrow> True | Some dat \<Rightarrow> length dat < DATLEN_MAX \<and> datbuf db' = dat)
       (db_fetch db key)"
  by (auto intro!: post_mono [OF db_readidx_bounds] post_mono [OF db_fetch_bounds] split: option.split)


text \<open>What \<^verbatim>\<open>_db_writeidx\<close> appends for a key the library accepts, \<^verbatim>\<open>_db_readidx\<close> reads back: the
  chain pointer, the key, and the place and length of the data.\<close>

theorem db_idx_roundtrip:
  assumes "env_ok db" "idxfile db \<noteq> []" "dbkey key" "dbdata dat" "ptr \<le> 9999999"
    and "datoff db = int off" "int off \<le> LONG_MAX" "datlen db = length dat + 1"
  shows "\<exists>db1 db2. db_writeidx db key 0 SEEK_END (int ptr) = Inr db1
    \<and> db_readidx db1 (idxoff db1) = Inr (int ptr, db2)
    \<and> idxbuf db2 = key \<and> datoff db2 = datoff db \<and> datlen db2 = datlen db"
proof -
  let ?r = "new_rec key ptr off dat" and ?p = "length (idxfile db)"
  have r: "rec_ok ?r" by (rule rec_ok_new [OF assms(3,4,5,7)])
  obtain db1 where w: "db_writeidx db key 0 SEEK_END (int ptr) = Inr db1" "idxoff db1 = int ?p"
    "idxfile db1 = idxfile db @ rec_bytes ?r" "env_ok db1"
    using db_writeidx_end [OF assms(1) r] assms(1,6,8) by (auto simp: r_len_def)
  have "window (idxfile db1) ?p (rsize ?r) = rec_bytes ?r"
    using w(3) length_rec_bytes [OF r] by (simp add: window_def)
  with db_readidx_eq [OF w(4) r] w(2) assms(2)
  have "db_readidx db1 (idxoff db1) = Inr (int ptr, loaded db1 ?p ?r)" by simp
  with w(1) assms(6,8) show ?thesis by (auto simp: r_len_def)
qed

theorem db_idx_roundtrip_witness:
  "\<exists>db db1 db2. db_writeidx db ''Alpha'' 0 SEEK_END 0 = Inr db1
    \<and> db_readidx db1 (idxoff db1) = Inr (0, db2) \<and> idxbuf db2 = ''Alpha'' \<and> datoff db2 = 0 \<and> datlen db2 = 6"
proof -
  obtain db where db: "db_rel 1 db Map.empty"
    using db_open_new_ok [of "\<lambda>_. False" "{O_CREAT, O_TRUNC}" 1 Map.empty "''db4''"] by auto
  then obtain d where "on_disk (idxfile db) (datfile db) d" by (auto simp: db_rel_def)
  then have "idxfile db \<noteq> []" by (auto simp: on_disk_def dest: tiled_le)
  with db_idx_roundtrip [of "db\<lparr>datoff := 0, datlen := 6\<rparr>" "''Alpha''" "''data1''" 0 0] db show ?thesis
    by (fastforce simp: db_rel_def dbkey_def dbdata_def)
qed

end
