(* ===== verification/DList.thy ===== *)
theory DList imports Prelude begin

text \<open>
  Doubly linked lists in a store, as the programs of printer/ and threads/ keep them: nodes at
  addresses with a next and a previous pointer, a head and a tail pointer. The facts here are
  about the pointers alone; \<open>deque\<close> is the interface of a queue made of such nodes.
\<close>

type_synonym addr = nat

section \<open>Segments\<close>

text \<open>\<open>dseg nx pv h b L t e\<close>: from \<open>h\<close>, the nodes \<open>L\<close> follow one another up to the pointer \<open>e\<close>; back from
  \<open>t\<close> they lead to \<open>b\<close>.\<close>

fun dseg :: "(addr \<Rightarrow> addr option) \<Rightarrow> (addr \<Rightarrow> addr option) \<Rightarrow> addr option \<Rightarrow> addr option \<Rightarrow> addr list
    \<Rightarrow> addr option \<Rightarrow> addr option \<Rightarrow> bool" where
  "dseg nx pv h b [] t e \<longleftrightarrow> h = e \<and> t = b"
| "dseg nx pv h b (x # L) t e \<longleftrightarrow> h = Some x \<and> pv x = b \<and> dseg nx pv (nx x) (Some x) L t e"

lemma dseg_append:
  "dseg nx pv h b (A @ B) t e \<longleftrightarrow> (\<exists>m k. dseg nx pv h b A k m \<and> dseg nx pv m k B t e)"
  by (induction A arbitrary: h b) auto

lemma dseg_frame:
  "\<forall>x \<in> set L. nx' x = nx x \<and> pv' x = pv x \<Longrightarrow> dseg nx' pv' h b L t e = dseg nx pv h b L t e"
  by (induction L arbitrary: h b) simp_all

lemma dseg_head: "dseg nx pv h b L t e \<Longrightarrow> h = (case L of [] \<Rightarrow> e | x # _ \<Rightarrow> Some x)"
  by (cases L) auto

lemma dseg_last: "dseg nx pv h b L t e \<Longrightarrow> t = (if L = [] then b else Some (last L))"
  by (induction L arbitrary: h b) auto

text \<open>Changing where a segment comes from, or where it goes on, touches one node.\<close>

lemma dseg_new_back:
  "dseg nx pv h b L t e \<Longrightarrow> distinct L \<Longrightarrow>
     dseg nx (case L of [] \<Rightarrow> pv | x # _ \<Rightarrow> pv(x := b')) h b' L (if L = [] then b' else t) e"
proof (cases L)
  case (Cons x M)
  assume a: "dseg nx pv h b L t e" "distinct L"
  then have "dseg nx (pv(x := b')) (nx x) (Some x) M t e = dseg nx pv (nx x) (Some x) M t e"
    using Cons by (intro dseg_frame) auto
  with a Cons show ?thesis by simp
qed simp

lemma dseg_new_end:
  "dseg nx pv h b L t e \<Longrightarrow> distinct L \<Longrightarrow>
     dseg (case L of [] \<Rightarrow> nx | _ \<Rightarrow> nx(last L := e')) pv (if L = [] then e' else h) b L t e'"
proof (induction L arbitrary: h b)
  case (Cons x L)
  show ?case
  proof (cases L)
    case Nil
    then show ?thesis using Cons.prems by simp
  next
    case (Cons y M)
    then show ?thesis using Cons.IH [of "nx x" "Some x"] Cons.prems by auto
  qed
qed simp

definition dlist :: "(addr \<Rightarrow> addr option) \<Rightarrow> (addr \<Rightarrow> addr option) \<Rightarrow> addr option \<Rightarrow> addr option \<Rightarrow> addr list
    \<Rightarrow> bool" where
  "dlist nx pv h t L \<longleftrightarrow> distinct L \<and> dseg nx pv h None L t None"

lemma dlist_head: "dlist nx pv h t L \<Longrightarrow> h = (case L of [] \<Rightarrow> None | x # _ \<Rightarrow> Some x)"
  by (auto simp: dlist_def dest: dseg_head)

lemma dlist_tail: "dlist nx pv h t L \<Longrightarrow> t = (if L = [] then None else Some (last L))"
  by (auto simp: dlist_def dest: dseg_last)

lemma dlist_distinct: "dlist nx pv h t L \<Longrightarrow> distinct L"
  by (simp add: dlist_def)

lemma dlist_frame:
  "\<forall>x \<in> set L. nx' x = nx x \<and> pv' x = pv x \<Longrightarrow> dlist nx' pv' h t L = dlist nx pv h t L"
  by (simp add: dlist_def dseg_frame [of L nx' nx pv' pv])

lemma last_subset: "L \<noteq> [] \<Longrightarrow> set L \<subseteq> D \<Longrightarrow> last L \<in> D"
  using last_in_set by blast

text \<open>The pointers around a node in the middle.\<close>

lemma dlist_at:
  assumes "dlist nx pv h t (A @ p # B)"
  shows "pv p = (if A = [] then None else Some (last A))" "nx p = (case B of [] \<Rightarrow> None | x # _ \<Rightarrow> Some x)"
proof -
  obtain k where s: "dseg nx pv h None A k (Some p)" "pv p = k" "dseg nx pv (nx p) (Some p) B t None"
    using assms by (auto simp: dlist_def dseg_append)
  from dseg_last [OF s(1)] s(2) show "pv p = (if A = [] then None else Some (last A))" by simp
  from dseg_head [OF s(3)] show "nx p = (case B of [] \<Rightarrow> None | x # _ \<Rightarrow> Some x)" .
qed

lemma dlist_push_front:
  assumes "dlist nx pv h t L" "p \<notin> set L"
    and "nx' p = h" "pv' p = None" "\<And>x. x \<in> set L \<Longrightarrow> nx' x = nx x"
    and "\<And>x. x \<in> set L \<Longrightarrow> pv' x = (if h = Some x then Some p else pv x)"
  shows "dlist nx' pv' (Some p) (if h = None then Some p else t) (p # L)"
proof (cases L)
  case Nil
  then show ?thesis using assms by (simp add: dlist_def)
next
  case (Cons y M)
  then have "dseg nx' pv' (nx y) (Some y) M t None = dseg nx pv (nx y) (Some y) M t None"
    using assms by (intro dseg_frame) (auto simp: dlist_def)
  with Cons assms show ?thesis by (auto simp: dlist_def)
qed

lemma dlist_push_back:
  assumes "dlist nx pv h t L" "p \<notin> set L"
    and "nx' p = None" "pv' p = t" "\<And>x. x \<in> set L \<Longrightarrow> pv' x = pv x"
    and "\<And>x. x \<in> set L \<Longrightarrow> nx' x = (if t = Some x then Some p else nx x)"
  shows "dlist nx' pv' (if t = None then Some p else h) (Some p) (L @ [p])"
proof (cases L rule: rev_cases)
  case Nil
  then show ?thesis using assms by (simp add: dlist_def)
next
  case (snoc M y)
  obtain m k where mk: "dseg nx pv h None M k m" "m = Some y" "pv y = k" "t = Some y"
    using assms(1) snoc by (auto simp: dlist_def dseg_append)
  have "dseg nx' pv' h None M k m = dseg nx pv h None M k m"
    using assms snoc mk(4) by (intro dseg_frame) (auto simp: dlist_def)
  with mk snoc assms show ?thesis by (auto simp: dlist_def dseg_append)
qed

lemma dlist_remove:
  assumes "dlist nx pv h t (A @ p # B)"
    and "\<And>x. x \<in> set (A @ B) \<Longrightarrow> nx' x = (if pv p = Some x then nx p else nx x)"
    and "\<And>x. x \<in> set (A @ B) \<Longrightarrow> pv' x = (if nx p = Some x then pv p else pv x)"
  shows "dlist nx' pv' (if pv p = None then nx p else h) (if nx p = None then pv p else t) (A @ B)"
proof -
  obtain k m where s: "dseg nx pv h None A k (Some p)" "pv p = k" "dseg nx pv (nx p) (Some p) B t None"
    and d: "distinct (A @ p # B)"
    using assms(1) by (auto simp: dlist_def dseg_append)
  note at = dlist_at [OF assms(1)]
  have A: "dseg nx' pv' (if pv p = None then nx p else h) None A k (nx p)"
  proof -
    let ?nx = "case A of [] \<Rightarrow> nx | _ \<Rightarrow> nx(last A := nx p)"
    have "dseg ?nx pv (if A = [] then nx p else h) None A k (nx p)"
      using dseg_new_end [OF s(1), of "nx p"] d by simp
    moreover have "dseg nx' pv' (if A = [] then nx p else h) None A k (nx p)
        = dseg ?nx pv (if A = [] then nx p else h) None A k (nx p)"
    proof (rule dseg_frame, rule ballI)
      fix x assume x: "x \<in> set A"
      have "nx p \<noteq> Some x" using x d at(2) by (cases B) auto
      then show "nx' x = ?nx x \<and> pv' x = pv x"
        using assms(2,3) [of x] x at(1) by (cases A) auto
    qed
    ultimately show ?thesis using at(1) by (simp split: if_splits)
  qed
  have B: "dseg nx' pv' (nx p) k B (if nx p = None then pv p else t) None"
  proof -
    let ?pv = "case B of [] \<Rightarrow> pv | x # _ \<Rightarrow> pv(x := k)"
    have "dseg nx ?pv (nx p) k B (if B = [] then k else t) None"
      using dseg_new_back [OF s(3), of k] d by simp
    moreover have "dseg nx' pv' (nx p) k B (if B = [] then k else t) None
        = dseg nx ?pv (nx p) k B (if B = [] then k else t) None"
    proof (rule dseg_frame, rule ballI)
      fix x assume x: "x \<in> set B"
      have "last A \<notin> set B" if "A \<noteq> []" using last_in_set [OF that] d by auto
      with x at(1) have "pv p \<noteq> Some x" by (auto split: if_splits)
      then show "nx' x = nx x \<and> pv' x = ?pv x"
        using assms(2,3) [of x] x at(2) s(2) by (cases B) auto
    qed
    ultimately show ?thesis using at(2) s(2) by (cases B) auto
  qed
  from A B d show ?thesis by (auto simp: dlist_def dseg_append)
qed

section \<open>Queues of nodes\<close>

text \<open>What the operations of such a queue promise: \<open>rel s L\<close> says that the nodes \<open>L\<close> are queued, in this
  order; \<open>back_ok\<close> and \<open>front_ok\<close> are the nodes that may be appended and put in front.\<close>

locale deque =
  fixes rel :: "'s \<Rightarrow> addr list \<Rightarrow> bool" and back_ok :: "'s \<Rightarrow> addr \<Rightarrow> bool" and front_ok :: "'s \<Rightarrow> addr \<Rightarrow> bool"
    and head :: "'s \<Rightarrow> addr option"
    and push_back :: "'s \<Rightarrow> addr \<Rightarrow> 's res" and push_front :: "'s \<Rightarrow> addr \<Rightarrow> 's res"
    and remove :: "'s \<Rightarrow> addr \<Rightarrow> 's res"
  assumes head_law: "rel s L \<Longrightarrow> head s = (case L of [] \<Rightarrow> None | x # _ \<Rightarrow> Some x)"
    and back_law: "rel s L \<Longrightarrow> back_ok s p \<Longrightarrow> p \<notin> set L \<Longrightarrow>
      \<exists>s'. push_back s p = Inr s' \<and> rel s' (L @ [p]) \<and> (\<forall>q. q \<noteq> p \<longrightarrow> back_ok s' q = back_ok s q)"
    and front_law: "rel s L \<Longrightarrow> front_ok s p \<Longrightarrow> p \<notin> set L \<Longrightarrow> \<exists>s'. push_front s p = Inr s' \<and> rel s' (p # L)"
    and remove_law: "rel s (A @ p # B) \<Longrightarrow> \<exists>s'. remove s p = Inr s' \<and> rel s' (A @ B) \<and> front_ok s' p"
    and rel_distinct: "rel s L \<Longrightarrow> distinct L"
begin

fun append_all :: "'s \<Rightarrow> addr list \<Rightarrow> 's res" where
  "append_all s [] = Inr s"
| "append_all s (p # ps) = rbind (push_back s p) (\<lambda>s. append_all s ps)"

fun take_all :: "nat \<Rightarrow> 's \<Rightarrow> (addr list \<times> 's) res" where
  "take_all 0 s = Inr ([], s)"
| "take_all (Suc n) s =
     (case head s of
        None \<Rightarrow> Inr ([], s)
      | Some p \<Rightarrow> rbind (remove s p) (\<lambda>s. rbind (take_all n s) (\<lambda>(ps, s). Inr (p # ps, s))))"

lemma append_all_ok:
  "rel s L \<Longrightarrow> \<forall>p \<in> set ps. back_ok s p \<Longrightarrow> distinct (L @ ps) \<Longrightarrow> \<exists>s'. append_all s ps = Inr s' \<and> rel s' (L @ ps)"
proof (induction ps arbitrary: s L)
  case (Cons p ps)
  then obtain s1 where 1: "push_back s p = Inr s1" "rel s1 (L @ [p])" "\<forall>q. q \<noteq> p \<longrightarrow> back_ok s1 q = back_ok s q"
    using back_law [OF Cons.prems(1), of p] by auto
  from Cons.IH [OF 1(2)] Cons.prems(2,3) 1(3) obtain s2 where "append_all s1 ps = Inr s2" "rel s2 ((L @ [p]) @ ps)"
    by force
  with 1(1) show ?case by simp
qed simp

text \<open>First in, first out: what is appended is taken in the same order, after what was there.\<close>

lemma take_all_ok: "rel s L \<Longrightarrow> length L \<le> n \<Longrightarrow> \<exists>s'. take_all n s = Inr (L, s') \<and> rel s' []"
proof (induction L arbitrary: n s)
  case Nil
  then show ?case using head_law [of s "[]"] by (cases n) auto
next
  case (Cons p L)
  obtain n' where n: "n = Suc n'" "length L \<le> n'" using Cons.prems(2) by (cases n) auto
  obtain s1 where "remove s p = Inr s1" "rel s1 L" using remove_law [of s "[]" p L] Cons.prems(1) by auto
  with Cons.IH [OF _ n(2)] n head_law [OF Cons.prems(1)] show ?case by fastforce
qed

lemma fifo:
  assumes "rel s L" "\<forall>p \<in> set ps. back_ok s p" "distinct (L @ ps)"
  shows "\<exists>s' s''. append_all s ps = Inr s' \<and> take_all (length L + length ps) s' = Inr (L @ ps, s'') \<and> rel s'' []"
proof -
  obtain s' where "append_all s ps = Inr s'" "rel s' (L @ ps)" using append_all_ok [OF assms] by blast
  with take_all_ok [of s' "L @ ps"] show ?thesis by simp
qed

text \<open>A node taken from the head and put back in front is where it was.\<close>

lemma put_back:
  assumes "rel s (p # L)"
  shows "\<exists>s' s''. remove s p = Inr s' \<and> rel s' L \<and> push_front s' p = Inr s'' \<and> rel s'' (p # L)"
proof -
  obtain s' where 1: "remove s p = Inr s'" "rel s' L" "front_ok s' p" using remove_law [of s "[]" p L] assms by auto
  with front_law [OF 1(2,3)] rel_distinct [OF assms] show ?thesis by auto
qed

end

end
