(* ===== verification/PrintJobs.thy ===== *)
theory PrintJobs imports DList begin

text \<open>
  The state of the print spooler daemon (printer/printd.c) and its bookkeeping: the queue of
  jobs, the list of worker threads, job numbers and the job number file. The two lists are
  doubly linked lists of structs in a store; the queue is an interpretation of \<open>deque\<close>.
  Mutexes are part of the state: locking a mutex twice would never return.
\<close>

section \<open>State\<close>

datatype mutex = Configlock | Workerlock | Joblock

text \<open>\<^verbatim>\<open>struct printreq\<close> of print.h; the two arrays are the bytes they hold.\<close>

record printreq =
  req_size :: "32 word"
  req_flags :: "32 word"
  usernm :: string
  jobnm :: string

record job =
  job_next :: "addr option"
  job_prev :: "addr option"
  jobid :: "32 word"
  req :: printreq

record worker_thread =
  w_next :: "addr option"
  w_prev :: "addr option"
  tid :: nat
  sockfd :: int

datatype pevent = Cond_signal | Cancel nat | Close int | Log string | Exit | Reply string | Sleep nat

text \<open>The globals of printd.c, the store, the spool directory and what the daemon did so far
  (latest first). \<open>pname\<close> is \<^verbatim>\<open>printer_name\<close>.\<close>

record printd =
  jobs :: "addr \<rightharpoonup> job"
  jobhead :: "addr option"
  jobtail :: "addr option"
  nextjob :: "32 word"
  jobfile :: string
  threads :: "addr \<rightharpoonup> worker_thread"
  workers :: "addr option"
  reread :: bool
  held :: "mutex set"
  spool :: "string \<rightharpoonup> string"
  pname :: "string option"
  events :: "pevent list"

definition lock :: "mutex \<Rightarrow> printd \<Rightarrow> printd res" where
  "lock m s = (if m \<in> held s then Inl Diverges else Inr (s\<lparr>held := insert m (held s)\<rparr>))"

definition unlock :: "mutex \<Rightarrow> printd \<Rightarrow> printd" where
  "unlock m s = s\<lparr>held := held s - {m}\<rparr>"

definition event :: "pevent \<Rightarrow> printd \<Rightarrow> printd" where
  "event e s = s\<lparr>events := e # events s\<rparr>"

text \<open>Access through a pointer that is known not to be null.\<close>

definition job_at :: "printd \<Rightarrow> addr \<Rightarrow> job res" where
  "job_at s p = (case jobs s p of None \<Rightarrow> Inl Fault | Some j \<Rightarrow> Inr j)"

definition set_job :: "addr \<Rightarrow> (job \<Rightarrow> job) \<Rightarrow> printd \<Rightarrow> printd res" where
  "set_job p f s = (case jobs s p of None \<Rightarrow> Inl Fault | Some j \<Rightarrow> Inr (s\<lparr>jobs := (jobs s)(p \<mapsto> f j)\<rparr>))"

definition worker_at :: "printd \<Rightarrow> addr \<Rightarrow> worker_thread res" where
  "worker_at s p = (case threads s p of None \<Rightarrow> Inl Fault | Some w \<Rightarrow> Inr w)"

definition set_worker :: "addr \<Rightarrow> (worker_thread \<Rightarrow> worker_thread) \<Rightarrow> printd \<Rightarrow> printd res" where
  "set_worker p f s =
     (case threads s p of None \<Rightarrow> Inl Fault | Some w \<Rightarrow> Inr (s\<lparr>threads := (threads s)(p \<mapsto> f w)\<rparr>))"

section \<open>The queue of jobs\<close>

text \<open>\<open>mem\<close> is the result of \<^verbatim>\<open>malloc\<close>.\<close>

definition add_job :: "addr option \<Rightarrow> printreq \<Rightarrow> 32 word \<Rightarrow> printd \<Rightarrow> printd res" where
  "add_job mem reqp jid s =
     (case mem of
        None \<Rightarrow> Inl (Sys ''malloc failed'')
      | Some jp \<Rightarrow>
          let s = s\<lparr>jobs := (jobs s)(jp \<mapsto> \<lparr>job_next = None, job_prev = None, jobid = jid, req = reqp\<rparr>)\<rparr> in
          rbind (lock Joblock s) (\<lambda>s.
          rbind (set_job jp (\<lambda>j. j\<lparr>job_prev := jobtail s\<rparr>) s) (\<lambda>s.
          rbind (case jobtail s of
                   None \<Rightarrow> Inr (s\<lparr>jobhead := Some jp\<rparr>)
                 | Some t \<Rightarrow> set_job t (\<lambda>j. j\<lparr>job_next := Some jp\<rparr>) s) (\<lambda>s.
          Inr (event Cond_signal (unlock Joblock (s\<lparr>jobtail := Some jp\<rparr>)))))))"

definition replace_job :: "addr \<Rightarrow> printd \<Rightarrow> printd res" where
  "replace_job jp s =
     rbind (lock Joblock s) (\<lambda>s.
     rbind (set_job jp (\<lambda>j. j\<lparr>job_prev := None\<rparr>) s) (\<lambda>s.
     rbind (set_job jp (\<lambda>j. j\<lparr>job_next := jobhead s\<rparr>) s) (\<lambda>s.
     rbind (case jobhead s of
              None \<Rightarrow> Inr (s\<lparr>jobtail := Some jp\<rparr>)
            | Some h \<Rightarrow> set_job h (\<lambda>j. j\<lparr>job_prev := Some jp\<rparr>) s) (\<lambda>s.
     Inr (unlock Joblock (s\<lparr>jobhead := Some jp\<rparr>))))))"

definition remove_job :: "addr \<Rightarrow> printd \<Rightarrow> printd res" where
  "remove_job target s =
     rbind (job_at s target) (\<lambda>t.
     rbind (case job_next t of
              Some n \<Rightarrow> set_job n (\<lambda>j. j\<lparr>job_prev := job_prev t\<rparr>) s
            | None \<Rightarrow> Inr (s\<lparr>jobtail := job_prev t\<rparr>)) (\<lambda>s.
     rbind (job_at s target) (\<lambda>t.
     case job_prev t of
       Some p \<Rightarrow> set_job p (\<lambda>j. j\<lparr>job_next := job_next t\<rparr>) s
     | None \<Rightarrow> Inr (s\<lparr>jobhead := job_next t\<rparr>))))"

text \<open>Picking up a job, at the top of the loop of \<^verbatim>\<open>printer_thread\<close>: with an empty queue the thread
  waits on the condition, which releases the mutex; the result is then \<open>None\<close>.\<close>

definition pick_job :: "printd \<Rightarrow> (addr option \<times> printd) res" where
  "pick_job s =
     rbind (lock Joblock s) (\<lambda>s.
     case jobhead s of
       None \<Rightarrow> Inr (None, unlock Joblock (event (Log ''printer_thread: waiting...'') s))
     | Some jp \<Rightarrow>
         rbind (remove_job jp s) (\<lambda>s.
         rbind (job_at s jp) (\<lambda>j.
         Inr (Some jp, unlock Joblock (event (Log (''printer_thread: picked up job '' @ show_int (sint (jobid j)))) s)))))"

section \<open>Worker threads\<close>

text \<open>A thread that finds no memory exits; that is the result \<open>None\<close>.\<close>

definition add_worker :: "addr option \<Rightarrow> nat \<Rightarrow> int \<Rightarrow> printd \<Rightarrow> printd option res" where
  "add_worker mem t fd s =
     (case mem of
        None \<Rightarrow> Inr None
      | Some wtp \<Rightarrow>
          let s = s\<lparr>threads := (threads s)(wtp \<mapsto> \<lparr>w_next = None, w_prev = None, tid = t, sockfd = fd\<rparr>)\<rparr> in
          rbind (lock Workerlock s) (\<lambda>s.
          rbind (set_worker wtp (\<lambda>w. w\<lparr>w_prev := None\<rparr>) s) (\<lambda>s.
          rbind (set_worker wtp (\<lambda>w. w\<lparr>w_next := workers s\<rparr>) s) (\<lambda>s.
          rbind (case workers s of
                   None \<Rightarrow> Inr (s\<lparr>workers := Some wtp\<rparr>)
                 | Some h \<Rightarrow> set_worker h (\<lambda>w. w\<lparr>w_prev := Some wtp\<rparr>) s) (\<lambda>s.
          Inr (Some (unlock Workerlock s)))))))"

fun cancel_from :: "nat \<Rightarrow> addr option \<Rightarrow> printd \<Rightarrow> printd res" where
  "cancel_from n None s = Inr s"
| "cancel_from 0 (Some wtp) s = Inl Diverges"
| "cancel_from (Suc n) (Some wtp) s =
     rbind (worker_at s wtp) (\<lambda>w. cancel_from n (w_next w) (event (Cancel (tid w)) s))"

definition kill_workers :: "nat \<Rightarrow> printd \<Rightarrow> printd res" where
  "kill_workers n s =
     rbind (lock Workerlock s) (\<lambda>s.
     rbind (cancel_from n (workers s) s) (\<lambda>s.
     Inr (unlock Workerlock s)))"

text \<open>The loop of \<^verbatim>\<open>client_cleanup\<close>: the pointer it stops at, and the state with that thread unlinked.\<close>

fun unlink_worker :: "nat \<Rightarrow> nat \<Rightarrow> addr option \<Rightarrow> printd \<Rightarrow> (addr option \<times> printd) res" where
  "unlink_worker n t None s = Inr (None, s)"
| "unlink_worker 0 t (Some wtp) s = Inl Diverges"
| "unlink_worker (Suc n) t (Some wtp) s =
     rbind (worker_at s wtp) (\<lambda>w.
     if tid w = t then
       rbind (case w_next w of
                Some x \<Rightarrow> set_worker x (\<lambda>y. y\<lparr>w_prev := w_prev w\<rparr>) s
              | None \<Rightarrow> Inr s) (\<lambda>s.
       rbind (worker_at s wtp) (\<lambda>w.
       rbind (case w_prev w of
                Some x \<Rightarrow> set_worker x (\<lambda>y. y\<lparr>w_next := w_next w\<rparr>) s
              | None \<Rightarrow> Inr (s\<lparr>workers := w_next w\<rparr>)) (\<lambda>s.
       Inr (Some wtp, s))))
     else unlink_worker n t (w_next w) s)"

definition client_cleanup :: "nat \<Rightarrow> nat \<Rightarrow> printd \<Rightarrow> printd res" where
  "client_cleanup n t s =
     rbind (lock Workerlock s) (\<lambda>s.
     rbind (unlink_worker n t (workers s) s) (\<lambda>(wtp, s).
     let s = unlock Workerlock s in
     case wtp of
       None \<Rightarrow> Inr s
     | Some p \<Rightarrow>
         rbind (worker_at s p) (\<lambda>w.
         let s = event (Close (sockfd w)) s in
         Inr (s\<lparr>threads := (threads s)(p := None)\<rparr>))))"

text \<open>What \<^verbatim>\<open>signal_thread\<close> does for the signal \<^verbatim>\<open>sigwait\<close> returns.\<close>

datatype signal = SIGHUP | SIGTERM | Other_signal int

definition handle_signal :: "nat \<Rightarrow> signal \<Rightarrow> printd \<Rightarrow> printd res" where
  "handle_signal n sig s =
     (case sig of
        SIGHUP \<Rightarrow>
          rbind (lock Configlock s) (\<lambda>s. Inr (unlock Configlock (s\<lparr>reread := True\<rparr>)))
      | SIGTERM \<Rightarrow>
          rbind (kill_workers n s) (\<lambda>s. Inr (event Exit (event (Log ''terminate with signal'') s)))
      | Other_signal k \<Rightarrow>
          rbind (kill_workers n s) (\<lambda>s. Inl (Quit (''unexpected signal '' @ show_int k))))"

section \<open>Job numbers\<close>

definition get_newjobno :: "printd \<Rightarrow> (32 word \<times> printd) res" where
  "get_newjobno s =
     rbind (lock Joblock s) (\<lambda>s.
     let jid = nextjob s;
         s = s\<lparr>nextjob := nextjob s + 1\<rparr>;
         s = (if sint (nextjob s) \<le> 0 then s\<lparr>nextjob := 1\<rparr> else s) in
     Inr (jid, unlock Joblock s))"

text \<open>\<^verbatim>\<open>update_jobno\<close> overwrites the start of the file; it does not cut off the rest.\<close>

definition update_jobno :: "printd \<Rightarrow> printd" where
  "update_jobno s = s\<lparr>jobfile := splice (jobfile s) 0 (show_int (sint (nextjob s)))\<rparr>"

definition SPOOLDIR :: string where "SPOOLDIR = ''/var/spool/printer''"
definition JOBFILE :: string where "JOBFILE = ''jobno''"
definition DATADIR :: string where "DATADIR = ''data''"
definition REQDIR :: string where "REQDIR = ''reqs''"
definition FILENMSZ :: nat where "FILENMSZ = 64"

text \<open>\<^verbatim>\<open>init_request\<close> reads the file into the buffer that held its name, without a terminating null:
  \<open>junk\<close> is what the buffer held after the name.\<close>

definition init_request :: "bool \<Rightarrow> bool \<Rightarrow> string \<Rightarrow> printd \<Rightarrow> printd res" where
  "init_request locked fails junk s =
     (let name = SPOOLDIR @ ''/'' @ JOBFILE in
      if locked then Inl (Quit ''daemon already running'')
      else if fails then Inl (Sys ''can't read job file'')
      else
        let bs = take FILENMSZ (jobfile s); n = length bs;
            buf = bs @ drop n (name @ NUL # junk) in
        if n = 0 then Inr (s\<lparr>nextjob := 1\<rparr>)
        else Inr (s\<lparr>nextjob := word_of_int (atol (cstr buf))\<rparr>))"

end
