(* ===== verification/PrintQueue.thy ===== *)
theory PrintQueue imports PrintJobs begin

text \<open>
  The job queue and the worker list of printer/printd.c are doubly linked lists: \<^verbatim>\<open>add_job\<close>,
  \<^verbatim>\<open>replace_job\<close> and \<^verbatim>\<open>remove_job\<close> keep the queue well linked and act on it as a deque of
  job addresses, so jobs are printed in the order they came.
\<close>

section \<open>The pointers of the queue\<close>

definition nxt :: "printd \<Rightarrow> addr \<Rightarrow> addr option" where
  "nxt s p = (case jobs s p of None \<Rightarrow> None | Some j \<Rightarrow> job_next j)"

definition prv :: "printd \<Rightarrow> addr \<Rightarrow> addr option" where
  "prv s p = (case jobs s p of None \<Rightarrow> None | Some j \<Rightarrow> job_prev j)"

definition linked_jobs :: "printd \<Rightarrow> addr list \<Rightarrow> bool" where
  "linked_jobs s L \<longleftrightarrow> set L \<subseteq> dom (jobs s) \<and> dlist (nxt s) (prv s) (jobhead s) (jobtail s) L"

definition jobs_rel :: "printd \<Rightarrow> addr list \<Rightarrow> bool" where
  "jobs_rel s L \<longleftrightarrow> Joblock \<notin> held s \<and> linked_jobs s L"

text \<open>What a job is, apart from its links.\<close>

definition job_of :: "printd \<Rightarrow> addr \<Rightarrow> (32 word \<times> printreq) option" where
  "job_of s p = map_option (\<lambda>j. (jobid j, req j)) (jobs s p)"

lemma nxt_upd [simp]:
  "nxt (s\<lparr>jobs := J\<rparr>) p = (case J p of None \<Rightarrow> None | Some j \<Rightarrow> job_next j)"
  "nxt (s\<lparr>jobhead := h\<rparr>) = nxt s" "nxt (s\<lparr>jobtail := h\<rparr>) = nxt s" "nxt (s\<lparr>held := H\<rparr>) = nxt s"
  "nxt (s\<lparr>events := e\<rparr>) = nxt s"
  by (auto simp: nxt_def)

lemma prv_upd [simp]:
  "prv (s\<lparr>jobs := J\<rparr>) p = (case J p of None \<Rightarrow> None | Some j \<Rightarrow> job_prev j)"
  "prv (s\<lparr>jobhead := h\<rparr>) = prv s" "prv (s\<lparr>jobtail := h\<rparr>) = prv s" "prv (s\<lparr>held := H\<rparr>) = prv s"
  "prv (s\<lparr>events := e\<rparr>) = prv s"
  by (auto simp: prv_def)

lemma linked_jobs_upd [simp]:
  "linked_jobs (s\<lparr>held := H\<rparr>) L = linked_jobs s L" "linked_jobs (s\<lparr>events := e\<rparr>) L = linked_jobs s L"
  by (simp_all add: linked_jobs_def)

lemma job_of_upd [simp]:
  "job_of (s\<lparr>held := H\<rparr>) = job_of s" "job_of (s\<lparr>events := e\<rparr>) = job_of s"
  "job_of (s\<lparr>jobhead := h\<rparr>) = job_of s" "job_of (s\<lparr>jobtail := h\<rparr>) = job_of s"
  by (auto simp: job_of_def)

section \<open>The operations\<close>

lemma remove_job_linked:
  assumes "linked_jobs s (A @ p # B)"
  shows "\<exists>s'. remove_job p s = Inr s' \<and> linked_jobs s' (A @ B) \<and> held s' = held s \<and> job_of s' = job_of s
    \<and> dom (jobs s') = dom (jobs s)"
proof -
  let ?L = "A @ p # B"
  have dom: "set ?L \<subseteq> dom (jobs s)" and dl: "dlist (nxt s) (prv s) (jobhead s) (jobtail s) ?L"
    using assms by (simp_all add: linked_jobs_def)
  note at = dlist_at [OF dl] and dist = dlist_distinct [OF dl]
  obtain t where t: "jobs s p = Some t" using dom by auto
  have n: "job_next t = (case B of [] \<Rightarrow> None | x # _ \<Rightarrow> Some x)" and v: "job_prev t = (if A = [] then None else Some (last A))"
    using at t by (simp_all add: nxt_def prv_def)
  have nd: "x \<noteq> p \<and> (\<exists>j. jobs s x = Some j)" if "job_next t = Some x" for x
    using that n dist dom by (cases B) auto
  have pd: "x \<noteq> p \<and> (\<exists>j. jobs s x = Some j) \<and> job_next t \<noteq> Some x" if "job_prev t = Some x" for x
    using that n v dist dom last_subset [of A "dom (jobs s)"] by (cases B) (auto split: if_splits)
  define J where "J = (\<lambda>q. if job_next t = Some q then map_option (\<lambda>j. j\<lparr>job_prev := job_prev t\<rparr>) (jobs s q)
     else if job_prev t = Some q then map_option (\<lambda>j. j\<lparr>job_next := job_next t\<rparr>) (jobs s q) else jobs s q)"
  let ?s = "s\<lparr>jobs := J, jobhead := (if prv s p = None then nxt s p else jobhead s),
     jobtail := (if nxt s p = None then prv s p else jobtail s)\<rparr>"
  have np: "nxt s p = job_next t" "prv s p = job_prev t" using t by (simp_all add: nxt_def prv_def)
  have "remove_job p s = Inr ?s"
    using t nd pd np
    by (cases "job_next t"; cases "job_prev t")
      (auto simp: remove_job_def job_at_def set_job_def J_def fun_eq_iff intro!: printd.equality)
  moreover have "linked_jobs ?s (A @ B)"
  proof -
    have "dlist (nxt ?s) (prv ?s) (if prv s p = None then nxt s p else jobhead s)
        (if nxt s p = None then prv s p else jobtail s) (A @ B)"
    proof (rule dlist_remove [OF dl])
      fix x assume "x \<in> set (A @ B)"
      then obtain j where j: "jobs s x = Some j" using dom by auto
      with pd [of x] show "nxt ?s x = (if prv s p = Some x then nxt s p else nxt s x)"
        by (auto simp: J_def np nxt_def t)
      from j pd [of x] show "prv ?s x = (if nxt s p = Some x then prv s p else prv s x)"
        by (auto simp: J_def np prv_def t)
    qed
    then show ?thesis using dom by (auto simp: linked_jobs_def J_def)
  qed
  moreover have "job_of ?s = job_of s" by (auto simp: job_of_def J_def fun_eq_iff option.map_comp comp_def)
  moreover have "dom (jobs ?s) = dom (jobs s)" by (auto simp: J_def split: if_splits)
  ultimately show ?thesis by simp
qed

lemma add_job_ok:
  assumes rel: "jobs_rel s L" and p: "p \<notin> set L"
  shows "\<exists>s'. add_job (Some p) r i s = Inr s' \<and> jobs_rel s' (L @ [p]) \<and> dom (jobs s') = insert p (dom (jobs s))
    \<and> job_of s' = (job_of s)(p \<mapsto> (i, r)) \<and> held s' = held s"
proof -
  have dom: "set L \<subseteq> dom (jobs s)" and dl: "dlist (nxt s) (prv s) (jobhead s) (jobtail s) L" and nl: "Joblock \<notin> held s"
    using rel by (simp_all add: linked_jobs_def jobs_rel_def)
  have td: "x \<noteq> p \<and> (\<exists>j. jobs s x = Some j)" if "jobtail s = Some x" for x
    using that dlist_tail [OF dl] dom p last_subset [OF _ dom] by (auto split: if_splits)
  define J where "J = (\<lambda>q. if q = p then Some \<lparr>job_next = None, job_prev = jobtail s, jobid = i, req = r\<rparr>
     else if jobtail s = Some q then map_option (\<lambda>j. j\<lparr>job_next := Some p\<rparr>) (jobs s q) else jobs s q)"
  let ?s = "s\<lparr>jobs := J, jobhead := (if jobtail s = None then Some p else jobhead s), jobtail := Some p,
     events := Cond_signal # events s\<rparr>"
  have "add_job (Some p) r i s = Inr ?s"
    using td nl
    by (cases "jobtail s")
      (auto simp: add_job_def lock_def unlock_def event_def set_job_def J_def Let_def fun_eq_iff intro!: printd.equality)
  moreover have "dlist (nxt ?s) (prv ?s) (if jobtail s = None then Some p else jobhead s) (Some p) (L @ [p])"
  proof (rule dlist_push_back [OF dl p])
    fix x assume x: "x \<in> set L"
    then obtain j where "jobs s x = Some j" using dom by auto
    with x p show "prv ?s x = prv s x" "nxt ?s x = (if jobtail s = Some x then Some p else nxt s x)"
      by (auto simp: J_def nxt_def prv_def)
  qed (simp_all add: J_def)
  moreover have "dom J = insert p (dom (jobs s))" by (auto simp: J_def split: if_splits)
  moreover have "job_of ?s = (job_of s)(p \<mapsto> (i, r))" by (auto simp: job_of_def J_def fun_eq_iff option.map_comp comp_def)
  ultimately show ?thesis using dom nl by (auto simp: jobs_rel_def linked_jobs_def)
qed

lemma replace_job_ok:
  assumes rel: "jobs_rel s L" and p: "p \<notin> set L" "p \<in> dom (jobs s)"
  shows "\<exists>s'. replace_job p s = Inr s' \<and> jobs_rel s' (p # L) \<and> dom (jobs s') = dom (jobs s) \<and> job_of s' = job_of s
    \<and> held s' = held s"
proof -
  have dom: "set L \<subseteq> dom (jobs s)" and dl: "dlist (nxt s) (prv s) (jobhead s) (jobtail s) L" and nl: "Joblock \<notin> held s"
    using rel by (simp_all add: linked_jobs_def jobs_rel_def)
  obtain jp where jp: "jobs s p = Some jp" using p(2) by auto
  have hd: "x \<noteq> p \<and> (\<exists>j. jobs s x = Some j)" if "jobhead s = Some x" for x
    using that dlist_head [OF dl] dom p(1) by (cases L) auto
  define J where "J = (\<lambda>q. if q = p then Some (jp\<lparr>job_prev := None, job_next := jobhead s\<rparr>)
     else if jobhead s = Some q then map_option (\<lambda>j. j\<lparr>job_prev := Some p\<rparr>) (jobs s q) else jobs s q)"
  let ?s = "s\<lparr>jobs := J, jobhead := Some p, jobtail := (if jobhead s = None then Some p else jobtail s)\<rparr>"
  have "replace_job p s = Inr ?s"
    using hd nl jp
    by (cases "jobhead s")
      (auto simp: replace_job_def lock_def unlock_def set_job_def J_def fun_eq_iff intro!: printd.equality)
  moreover have "dlist (nxt ?s) (prv ?s) (Some p) (if jobhead s = None then Some p else jobtail s) (p # L)"
  proof (rule dlist_push_front [OF dl p(1)])
    fix x assume x: "x \<in> set L"
    then obtain j where "jobs s x = Some j" using dom by auto
    with x p(1) show "nxt ?s x = nxt s x" "prv ?s x = (if jobhead s = Some x then Some p else prv s x)"
      by (auto simp: J_def nxt_def prv_def)
  qed (simp_all add: J_def)
  moreover have "dom J = dom (jobs s)" using jp by (auto simp: J_def split: if_splits)
  moreover have "job_of ?s = job_of s" using jp by (auto simp: job_of_def J_def fun_eq_iff option.map_comp comp_def)
  ultimately show ?thesis using dom nl p(2) by (auto simp: jobs_rel_def linked_jobs_def)
qed

text \<open>\<^verbatim>\<open>remove_job\<close> as its callers use it, between lock and unlock.\<close>

definition remove_locked :: "addr \<Rightarrow> printd \<Rightarrow> printd res" where
  "remove_locked p s = rbind (lock Joblock s) (\<lambda>s. rbind (remove_job p s) (\<lambda>s. Inr (unlock Joblock s)))"

lemma jobs_rel_lock: "jobs_rel s L \<Longrightarrow> lock Joblock s = Inr (s\<lparr>held := insert Joblock (held s)\<rparr>)"
  by (simp add: jobs_rel_def lock_def)

lemma remove_locked_ok:
  assumes "jobs_rel s (A @ p # B)"
  shows "\<exists>s'. remove_locked p s = Inr s' \<and> jobs_rel s' (A @ B) \<and> job_of s' = job_of s \<and> dom (jobs s') = dom (jobs s)"
proof -
  let ?s = "s\<lparr>held := insert Joblock (held s)\<rparr>"
  have "linked_jobs ?s (A @ p # B)" using assms by (simp add: jobs_rel_def)
  from remove_job_linked [OF this] obtain s' where "remove_job p ?s = Inr s'" "linked_jobs s' (A @ B)"
    "held s' = insert Joblock (held s)" "job_of s' = job_of s" "dom (jobs s') = dom (jobs s)" by auto
  then show ?thesis by (simp add: remove_locked_def jobs_rel_lock [OF assms] unlock_def jobs_rel_def)
qed

interpretation job_queue: deque jobs_rel "\<lambda>s p. jobs s p = None" "\<lambda>s p. jobs s p \<noteq> None" jobhead
  "\<lambda>s p. add_job (Some p) (rq p) (jn p) s" "\<lambda>s p. replace_job p s" "\<lambda>s p. remove_locked p s" for rq jn
proof
  fix s L p
  show "jobs_rel s L \<Longrightarrow> jobhead s = (case L of [] \<Rightarrow> None | x # _ \<Rightarrow> Some x)"
    by (auto simp: jobs_rel_def linked_jobs_def dest: dlist_head)
  show "jobs_rel s L \<Longrightarrow> distinct L"
    by (auto simp: jobs_rel_def linked_jobs_def dest: dlist_distinct)
  show "jobs_rel s L \<Longrightarrow> jobs s p = None \<Longrightarrow> p \<notin> set L \<Longrightarrow>
      \<exists>s'. add_job (Some p) (rq p) (jn p) s = Inr s' \<and> jobs_rel s' (L @ [p]) \<and> (\<forall>q. q \<noteq> p \<longrightarrow> (jobs s' q = None) = (jobs s q = None))"
    using add_job_ok [of s L p "rq p" "jn p"] by (metis domIff insert_iff)
  show "jobs_rel s L \<Longrightarrow> jobs s p \<noteq> None \<Longrightarrow> p \<notin> set L \<Longrightarrow> \<exists>s'. replace_job p s = Inr s' \<and> jobs_rel s' (p # L)"
    using replace_job_ok [of s L p] by auto
next
  fix s A p B
  assume a: "jobs_rel s (A @ p # B)"
  then have "p \<in> dom (jobs s)" by (auto simp: jobs_rel_def linked_jobs_def)
  with remove_locked_ok [OF a] show "\<exists>s'. remove_locked p s = Inr s' \<and> jobs_rel s' (A @ B) \<and> jobs s' p \<noteq> None"
    by (auto simp: domD)
qed

section \<open>Printing in order\<close>

fun add_jobs :: "(addr \<times> printreq \<times> 32 word) list \<Rightarrow> printd \<Rightarrow> printd res" where
  "add_jobs [] s = Inr s"
| "add_jobs ((p, r, i) # js) s = rbind (add_job (Some p) r i s) (add_jobs js)"

text \<open>The numbers and requests of the jobs picked up by \<open>n\<close> turns of the printer thread.\<close>

fun pick_jobs :: "nat \<Rightarrow> printd \<Rightarrow> ((32 word \<times> printreq) list \<times> printd) res" where
  "pick_jobs 0 s = Inr ([], s)"
| "pick_jobs (Suc n) s =
     rbind (pick_job s) (\<lambda>(jp, s).
     case jp of None \<Rightarrow> Inr ([], s)
     | Some p \<Rightarrow>
         rbind (job_at s p) (\<lambda>j.
         rbind (pick_jobs n s) (\<lambda>(js, s). Inr ((jobid j, req j) # js, s))))"

lemma pick_job_ok:
  assumes rel: "jobs_rel s (p # L)"
  shows "\<exists>s'. pick_job s = Inr (Some p, s') \<and> jobs_rel s' L \<and> job_of s' = job_of s \<and> p \<in> dom (jobs s')"
proof -
  let ?s = "s\<lparr>held := insert Joblock (held s)\<rparr>"
  have h: "jobhead s = Some p" using job_queue.head_law [OF rel] by simp
  have l: "linked_jobs ?s ([] @ p # L)" using rel by (simp add: jobs_rel_def)
  obtain s' where s': "remove_job p ?s = Inr s'" "linked_jobs s' L" "held s' = insert Joblock (held s)"
    "job_of s' = job_of s" "dom (jobs s') = dom (jobs s)"
    using remove_job_linked [OF l] by auto
  have "p \<in> dom (jobs s')" using rel s'(5) by (auto simp: jobs_rel_def linked_jobs_def)
  then obtain j where "jobs s' p = Some j" by auto
  with s' h show ?thesis
    by (auto simp: pick_job_def jobs_rel_lock [OF rel] job_at_def unlock_def event_def jobs_rel_def)
qed

lemma add_jobs_ok:
  "jobs_rel s L \<Longrightarrow> distinct (L @ map fst js) \<Longrightarrow>
     \<exists>s'. add_jobs js s = Inr s' \<and> jobs_rel s' (L @ map fst js)
       \<and> (\<forall>q. job_of s' q = (case map_of js q of None \<Rightarrow> job_of s q | Some (r, i) \<Rightarrow> Some (i, r)))"
proof (induction js arbitrary: s L)
  case (Cons x js)
  obtain p r i where x: "x = (p, r, i)" by (cases x)
  obtain s1 where 1: "add_job (Some p) r i s = Inr s1" "jobs_rel s1 (L @ [p])" "job_of s1 = (job_of s)(p \<mapsto> (i, r))"
    using add_job_ok [OF Cons.prems(1), of p r i] Cons.prems(2) x by auto
  obtain s2 where 2: "add_jobs js s1 = Inr s2" "jobs_rel s2 ((L @ [p]) @ map fst js)"
    "\<forall>q. job_of s2 q = (case map_of js q of None \<Rightarrow> job_of s1 q | Some (r, i) \<Rightarrow> Some (i, r))"
    using Cons.IH [OF 1(2)] Cons.prems(2) x by auto
  have "map_of js p = None" using Cons.prems(2) x by (auto simp: map_of_eq_None_iff)
  with 1 2 x show ?case by (auto split: option.split)
qed simp

lemma pick_jobs_ok:
  "jobs_rel s L \<Longrightarrow> \<exists>s'. pick_jobs (length L) s = Inr (map (\<lambda>p. the (job_of s p)) L, s') \<and> jobs_rel s' []"
proof (induction L arbitrary: s)
  case (Cons p L)
  obtain s1 where 1: "pick_job s = Inr (Some p, s1)" "jobs_rel s1 L" "job_of s1 = job_of s" "p \<in> dom (jobs s1)"
    using pick_job_ok [OF Cons.prems] by blast
  then obtain j where j: "jobs s1 p = Some j" by auto
  then have "the (job_of s p) = (jobid j, req j)" using 1(3) by (metis job_of_def option.map(2) option.sel)
  with Cons.IH [OF 1(2)] 1 j show ?case by (auto simp: job_at_def)
qed simp

end
