(* ===== verification/PrintWorkers.thy ===== *)
theory PrintWorkers imports PrintQueue begin

text \<open>
  The worker list and the job numbers of printer/printd.c. A well linked worker list is
  cancelled and cleaned up thread by thread; \<^verbatim>\<open>add_worker\<close> puts the first thread on it, but
  no second one. Job numbers run through the positive 32-bit integers, and the job number
  file gives the next one back after a restart.
\<close>

section \<open>The worker list\<close>

definition wnx :: "printd \<Rightarrow> addr \<Rightarrow> addr option" where
  "wnx s p = (case threads s p of None \<Rightarrow> None | Some w \<Rightarrow> w_next w)"

definition wpv :: "printd \<Rightarrow> addr \<Rightarrow> addr option" where
  "wpv s p = (case threads s p of None \<Rightarrow> None | Some w \<Rightarrow> w_prev w)"

definition linked_workers :: "printd \<Rightarrow> addr list \<Rightarrow> bool" where
  "linked_workers s L \<longleftrightarrow> set L \<subseteq> dom (threads s) \<and> dlist (wnx s) (wpv s) (workers s) (if L = [] then None else Some (last L)) L"

definition tids :: "printd \<Rightarrow> addr list \<Rightarrow> nat list" where
  "tids s L = map (\<lambda>p. tid (the (threads s p))) L"

text \<open>Only the next pointers matter to a walk from the head.\<close>

fun next_chain :: "(addr \<rightharpoonup> worker_thread) \<Rightarrow> addr option \<Rightarrow> addr list \<Rightarrow> bool" where
  "next_chain W h [] \<longleftrightarrow> h = None"
| "next_chain W h (p # L) \<longleftrightarrow> h = Some p \<and> (\<exists>w. W p = Some w \<and> next_chain W (w_next w) L)"

lemma dseg_next_chain:
  "dseg (wnx s) (wpv s) h b L t None \<Longrightarrow> set L \<subseteq> dom (threads s) \<Longrightarrow> next_chain (threads s) h L"
  by (induction L arbitrary: h b) (auto simp: wnx_def)

lemma linked_next_chain: "linked_workers s L \<Longrightarrow> next_chain (threads s) (workers s) L"
  by (auto simp: linked_workers_def dlist_def dest: dseg_next_chain)

lemma cancel_from_ok:
  "next_chain (threads s) h L \<Longrightarrow> length L \<le> n \<Longrightarrow>
     cancel_from n h s = Inr (s\<lparr>events := rev (map Cancel (tids s L)) @ events s\<rparr>)"
proof (induction L arbitrary: n h s)
  case (Cons p L)
  obtain n' where n: "n = Suc n'" "length L \<le> n'" using Cons.prems(2) by (cases n) auto
  obtain w where w: "h = Some p" "threads s p = Some w" "next_chain (threads s) (w_next w) L"
    using Cons.prems(1) by auto
  have "next_chain (threads (event (Cancel (tid w)) s)) (w_next w) L" using w(3) by (simp add: event_def)
  from Cons.IH [OF this n(2)] w n(1) show ?case by (simp add: worker_at_def event_def tids_def)
qed (simp add: tids_def)

lemma kill_workers_ok:
  assumes "next_chain (threads s) (workers s) L" "length L \<le> n" "Workerlock \<notin> held s"
  shows "kill_workers n s = Inr (s\<lparr>events := rev (map Cancel (tids s L)) @ events s\<rparr>)"
proof -
  have "next_chain (threads (s\<lparr>held := insert Workerlock (held s)\<rparr>)) (workers s) L" using assms(1) by simp
  from cancel_from_ok [OF this assms(2)] show ?thesis
    using assms(3) by (auto simp: kill_workers_def lock_def unlock_def tids_def)
qed

text \<open>The loop of \<^verbatim>\<open>client_cleanup\<close> reaches its thread.\<close>

lemma unlink_worker_skip:
  "dseg (wnx s) (wpv s) h b (A @ p # B) k None \<Longrightarrow> set (A @ p # B) \<subseteq> dom (threads s) \<Longrightarrow> t \<notin> set (tids s A) \<Longrightarrow>
     unlink_worker (length A + n) t h s = unlink_worker n t (Some p) s"
proof (induction A arbitrary: h b)
  case (Cons q A)
  then obtain w where "threads s q = Some w" by auto
  with Cons show ?case by (auto simp: worker_at_def wnx_def tids_def)
qed simp

lemma client_cleanup_ok:
  assumes l: "linked_workers s (A @ p # B)" and w: "threads s p = Some w" and t: "tid w \<notin> set (tids s A)"
    and lk: "Workerlock \<notin> held s"
  shows "\<exists>s'. client_cleanup (Suc (length A)) (tid w) s = Inr s' \<and> linked_workers s' (A @ B)
    \<and> threads s' p = None \<and> events s' = Close (sockfd w) # events s \<and> held s' = held s"
proof -
  let ?L = "A @ p # B"
  have dom: "set ?L \<subseteq> dom (threads s)" and dl: "dlist (wnx s) (wpv s) (workers s) (Some (last ?L)) ?L"
    using l by (simp_all add: linked_workers_def)
  note at = dlist_at [OF dl] and dist = dlist_distinct [OF dl]
  have n: "w_next w = (case B of [] \<Rightarrow> None | x # _ \<Rightarrow> Some x)" and v: "w_prev w = (if A = [] then None else Some (last A))"
    using at w by (simp_all add: wnx_def wpv_def)
  have nd: "x \<noteq> p \<and> (\<exists>j. threads s x = Some j)" if "w_next w = Some x" for x
    using that n dist dom by (cases B) auto
  have pd: "x \<noteq> p \<and> (\<exists>j. threads s x = Some j) \<and> w_next w \<noteq> Some x" if "w_prev w = Some x" for x
    using that n v dist dom last_subset [of A "dom (threads s)"] by (cases B) (auto split: if_splits)
  define W where "W = (\<lambda>q. if w_next w = Some q then map_option (\<lambda>j. j\<lparr>w_prev := w_prev w\<rparr>) (threads s q)
     else if w_prev w = Some q then map_option (\<lambda>j. j\<lparr>w_next := w_next w\<rparr>) (threads s q) else threads s q)"
  let ?s0 = "s\<lparr>held := insert Workerlock (held s)\<rparr>"
  let ?h = "if wpv s p = None then wnx s p else workers s"
  have np: "wnx s p = w_next w" "wpv s p = w_prev w" using w by (simp_all add: wnx_def wpv_def)
  have "dseg (wnx ?s0) (wpv ?s0) (workers s) None ?L (Some (last ?L)) None"
    using dl by (simp add: dlist_def wnx_def [abs_def] wpv_def [abs_def])
  from unlink_worker_skip [OF this, of "tid w" 1] t dom
  have "unlink_worker (Suc (length A)) (tid w) (workers s) ?s0 = unlink_worker 1 (tid w) (Some p) ?s0"
    by (simp add: tids_def)
  also have "\<dots> = Inr (Some p, ?s0\<lparr>threads := W, workers := ?h\<rparr>)"
    using w nd pd np
    by (cases "w_next w"; cases "w_prev w")
      (auto simp: worker_at_def set_worker_def W_def fun_eq_iff intro!: printd.equality)
  finally have u: "unlink_worker (Suc (length A)) (tid w) (workers s) ?s0 = Inr (Some p, ?s0\<lparr>threads := W, workers := ?h\<rparr>)" .
  have Wp: "W p = Some w" using w nd [of p] pd [of p] by (auto simp: W_def)
  let ?s = "s\<lparr>threads := W(p := None), workers := ?h, events := Close (sockfd w) # events s\<rparr>"
  have "client_cleanup (Suc (length A)) (tid w) s = Inr ?s"
    using u lk Wp by (auto simp: client_cleanup_def lock_def unlock_def worker_at_def event_def Let_def intro!: printd.equality)
  moreover have "linked_workers ?s (A @ B)"
  proof -
    have "dlist (wnx ?s) (wpv ?s) ?h (if wnx s p = None then wpv s p else Some (last ?L)) (A @ B)"
    proof (rule dlist_remove [OF dl])
      fix x assume x: "x \<in> set (A @ B)"
      then have "x \<in> dom (threads s)" "x \<noteq> p" using dom dist by auto
      then obtain j where j: "threads s x = Some j" "x \<noteq> p" by auto
      with pd [of x] show "wnx ?s x = (if wpv s p = Some x then wnx s p else wnx s x)"
        by (auto simp: W_def np wnx_def w)
      from j pd [of x] show "wpv ?s x = (if wnx s p = Some x then wpv s p else wpv s x)"
        by (auto simp: W_def np wpv_def w)
    qed
    moreover have "(if wnx s p = None then wpv s p else Some (last ?L)) = (if A @ B = [] then None else Some (last (A @ B)))"
      using np n v by (cases B) auto
    moreover have "p \<notin> set (A @ B)" using dist by auto
    ultimately show ?thesis using dom by (auto simp: linked_workers_def W_def)
  qed
  ultimately show ?thesis by simp
qed

text \<open>The first worker is put on the list; a further one is not: \<^verbatim>\<open>workers\<close> keeps pointing to the
  node that was first, whose previous pointer now leads to the new node.\<close>

lemma add_worker_first:
  assumes "linked_workers s []" "Workerlock \<notin> held s"
  shows "\<exists>s'. add_worker (Some p) t fd s = Inr (Some s') \<and> linked_workers s' [p]
    \<and> threads s' p = Some \<lparr>w_next = None, w_prev = None, tid = t, sockfd = fd\<rparr> \<and> events s' = events s \<and> held s' = held s"
  using assms
  by (auto simp: add_worker_def lock_def unlock_def set_worker_def linked_workers_def dlist_def wnx_def wpv_def Let_def)

lemma add_worker_more:
  assumes "workers s = Some h" "threads s h = Some w" "p \<noteq> h" "Workerlock \<notin> held s"
  shows "add_worker (Some p) t fd s = Inr (Some (s\<lparr>threads := (threads s)
    (p \<mapsto> \<lparr>w_next = Some h, w_prev = None, tid = t, sockfd = fd\<rparr>, h \<mapsto> w\<lparr>w_prev := Some p\<rparr>)\<rparr>))"
  using assms
  by (auto simp: add_worker_def lock_def unlock_def set_worker_def Let_def intro!: printd.equality)

lemma next_chain_cong:
  "\<forall>q \<in> set L. map_option w_next (W' q) = map_option w_next (W q) \<Longrightarrow> next_chain W' h L = next_chain W h L"
proof (induction L arbitrary: h)
  case (Cons q L)
  then have "map_option w_next (W' q) = map_option w_next (W q)" by simp
  with Cons show ?case by (cases "W q"; cases "W' q") auto
qed simp

section \<open>Job numbers\<close>

lemma lock_free: "m \<notin> held s \<Longrightarrow> lock m s = Inr (s\<lparr>held := insert m (held s)\<rparr>)"
  by (simp add: lock_def)

lemma unlock_same: "m \<notin> held s \<Longrightarrow> held s = H \<Longrightarrow> insert m H - {m} = H"
  by auto

definition next_number :: "int \<Rightarrow> int" where
  "next_number i = i mod (2 ^ 31 - 1) + 1"

lemma get_newjobno_ok:
  assumes "0 < sint (nextjob s)" "Joblock \<notin> held s"
  shows "\<exists>s'. get_newjobno s = Inr (nextjob s, s') \<and> sint (nextjob s') = next_number (sint (nextjob s))
    \<and> 0 < sint (nextjob s') \<and> Joblock \<notin> held s'"
proof -
  let ?i = "sint (nextjob s)"
  have lt: "?i < 2 ^ 31" using sint_lt [of "nextjob s"] by simp
  have inc: "nextjob s + 1 = word_of_int (?i + 1)" by simp
  show ?thesis
  proof (cases "?i = 2 ^ 31 - 1")
    case True
    then have "sint (nextjob s + 1) = - (2 ^ 31)" unfolding inc by (simp add: signed_of_int signed_take_bit_int_eq_self_iff)
    with True assms(2) show ?thesis
      by (auto simp: get_newjobno_def lock_free unlock_def next_number_def Let_def)
  next
    case False
    then have "sint (nextjob s + 1) = ?i + 1" unfolding inc using lt assms(1) by (intro sint_word32_id) auto
    moreover have "next_number ?i = ?i + 1" using False lt assms(1) by (simp add: next_number_def)
    ultimately show ?thesis
      using assms by (auto simp: get_newjobno_def lock_free unlock_def Let_def)
  qed
qed

fun job_numbers :: "nat \<Rightarrow> printd \<Rightarrow> (32 word list \<times> printd) res" where
  "job_numbers 0 s = Inr ([], s)"
| "job_numbers (Suc n) s =
     rbind (get_newjobno s) (\<lambda>(i, s). rbind (job_numbers n s) (\<lambda>(js, s). Inr (i # js, s)))"

lemma job_numbers_ok:
  "0 < sint (nextjob s) \<Longrightarrow> Joblock \<notin> held s \<Longrightarrow>
     \<exists>js s'. job_numbers n s = Inr (js, s') \<and> length js = n
       \<and> (\<forall>k < n. sint (js ! k) = (sint (nextjob s) - 1 + int k) mod (2 ^ 31 - 1) + 1)"
proof (induction n arbitrary: s)
  case (Suc n)
  obtain s1 where 1: "get_newjobno s = Inr (nextjob s, s1)" "sint (nextjob s1) = next_number (sint (nextjob s))"
    "0 < sint (nextjob s1)" "Joblock \<notin> held s1"
    using get_newjobno_ok [OF Suc.prems] by blast
  obtain js s2 where 2: "job_numbers n s1 = Inr (js, s2)" "length js = n"
    "\<forall>k < n. sint (js ! k) = (sint (nextjob s1) - 1 + int k) mod (2 ^ 31 - 1) + 1"
    using Suc.IH [OF 1(3,4)] by blast
  have "sint ((nextjob s # js) ! k) = (sint (nextjob s) - 1 + int k) mod (2 ^ 31 - 1) + 1" if "k < Suc n" for k
  proof (cases k)
    case 0
    then show ?thesis using Suc.prems(1) sint_lt [of "nextjob s"] by simp
  next
    case (Suc j)
    have "(next_number (sint (nextjob s)) - 1 + int j) mod (2 ^ 31 - 1) = (sint (nextjob s) - 1 + int k) mod (2 ^ 31 - 1)"
      using Suc by (simp add: next_number_def mod_add_left_eq)
    with 2(3) that Suc 1(2) show ?thesis by simp
  qed
  with 1(1) 2 show ?case by simp
qed simp

lemma init_update:
  assumes "0 < sint (nextjob s)" "length (jobfile s) \<le> length (show_nat (nat (sint (nextjob s))))"
  shows "init_request False False junk (update_jobno s) = Inr ((update_jobno s)\<lparr>nextjob := nextjob s\<rparr>)"
proof -
  define k where "k = nat (sint (nextjob s))"
  have k: "sint (nextjob s) = int k" using assms(1) by (simp add: k_def)
  then have "k < 10 ^ 10" using sint_lt [of "nextjob s"] by simp
  then have len: "length (show_nat k) \<le> 10" by (intro length_show_nat) auto
  let ?d = "show_nat k"
  have jf: "jobfile (update_jobno s) = ?d"
    using assms(2) by (simp add: update_jobno_def splice_def k show_int_def)
  define nm where "nm = SPOOLDIR @ ''/'' @ JOBFILE"
  let ?t = "drop (length ?d) nm"
  have name: "length nm = 24" unfolding nm_def SPOOLDIR_def JOBFILE_def by simp
  have "list_all (\<lambda>c. \<not> isdigit c \<and> c \<noteq> NUL) nm" unfolding nm_def by code_simp
  then have tl: "list_all (\<lambda>c. \<not> isdigit c \<and> c \<noteq> NUL) ?t" unfolding list_all_iff by (blast dest: in_set_dropD)
  have "?t \<noteq> []" using len name by simp
  with tl have hd: "\<not> isdigit (hd ?t)" by (cases ?t) auto
  have "cstr (?d @ drop (length ?d) (nm @ NUL # junk)) = ?d @ ?t"
  proof -
    have "NUL \<notin> set (?d @ ?t)" using tl show_nat_free [of k] by (auto simp: list_all_iff)
    moreover have "drop (length ?d) (nm @ NUL # junk) = ?t @ NUL # junk" using len name by simp
    ultimately show ?thesis by (simp add: cstr_def takeWhile_append)
  qed
  moreover have "atol (?d @ ?t) = int k"
    using atol_show_nat_then [of k ?t 0] hd k sint_lt [of "nextjob s"] by simp
  moreover have "take FILENMSZ ?d = ?d" "?d \<noteq> []" using len length_show_nat_pos [of k] by (auto simp: FILENMSZ_def)
  moreover have "word_of_int (int k) = nextjob s" unfolding k [symmetric] by simp
  ultimately show ?thesis
    unfolding init_request_def Let_def jf nm_def [symmetric] by (simp del: drop_append)
qed

end
