(* ===== verification/StreamIO.thy ===== *)
theory StreamIO imports Prelude begin

text \<open>
  Reading and writing whole buffers: \<^verbatim>\<open>readn\<close> and \<^verbatim>\<open>writen\<close> of lib/, and the timed reads
  \<^verbatim>\<open>tread\<close> and \<^verbatim>\<open>treadn\<close> of printer/util.c. A descriptor is the sequence of what happens on
  it; \<open>byte_source\<close> is the interface of a single read, from which the loop's result follows.
\<close>

section \<open>Descriptors\<close>

text \<open>What a reader meets: bytes that arrive together, a failing call, a pause of some seconds, a
  failing \<^verbatim>\<open>select\<close>. The end of the list is the end of file.\<close>

datatype arrival = Bytes string | Fails int | Idle nat | SelFails int

type_synonym source = "arrival list"

datatype rdres = RGot string | RErr int

definition ETIME :: int where "ETIME = 62"

text \<open>\<^verbatim>\<open>read(2)\<close> returns what has arrived, up to \<open>n\<close> bytes; it waits as long as it takes.\<close>

fun os_read :: "source \<Rightarrow> nat \<Rightarrow> rdres \<times> source" where
  "os_read [] n = (RGot [], [])"
| "os_read (Bytes bs # r) n = (RGot (take n bs), if length bs \<le> n then r else Bytes (drop n bs) # r)"
| "os_read (Fails e # r) n = (RErr e, r)"
| "os_read (Idle k # r) n = os_read r n"
| "os_read (SelFails e # r) n = os_read r n"

text \<open>\<^verbatim>\<open>tread\<close>: wait at most \<open>timout\<close> seconds for data, then read.\<close>

fun tread :: "source \<Rightarrow> nat \<Rightarrow> nat \<Rightarrow> rdres \<times> source" where
  "tread (Idle k # r) n timout =
     (if k < timout then tread r n (timout - k) else (RErr ETIME, Idle (k - timout) # r))"
| "tread (SelFails e # r) n timout = (RErr e, r)"
| "tread src n timout = os_read src n"

section \<open>Read exactly n bytes\<close>

text \<open>The loop of \<^verbatim>\<open>readn\<close> and \<^verbatim>\<open>treadn\<close>, around one call \<open>rd\<close>. The result is the returned count,
  \<^verbatim>\<open>errno\<close> if a call failed, the bytes stored and what is left on the descriptor.\<close>

function read_loop :: "('s \<Rightarrow> nat \<Rightarrow> rdres \<times> 's) \<Rightarrow> nat \<Rightarrow> 's \<Rightarrow> nat \<Rightarrow> string \<Rightarrow> int \<times> int \<times> string \<times> 's" where
  "read_loop rd n s nleft got =
     (if nleft = 0 then (int (n - nleft), 0, got, s)
      else case rd s nleft of
        (RErr e, s') \<Rightarrow> if nleft = n then (-1, e, got, s') else (int (n - nleft), e, got, s')
      | (RGot bs, s') \<Rightarrow>
          if bs = [] then (int (n - nleft), 0, got, s')
          else read_loop rd n s' (nleft - length bs) (got @ bs))"
  by pat_completeness auto
termination by (relation "measure (\<lambda>(rd, n, s, nleft, got). nleft)") (auto simp: neq_Nil_conv)

declare read_loop.simps [simp del]

definition readn :: "source \<Rightarrow> nat \<Rightarrow> int \<times> int \<times> string \<times> source" where
  "readn src n = read_loop os_read n src n []"

definition treadn :: "source \<Rightarrow> nat \<Rightarrow> nat \<Rightarrow> int \<times> int \<times> string \<times> source" where
  "treadn src nbytes timout = read_loop (\<lambda>s n. tread s n timout) nbytes src nbytes []"

text \<open>The interface of one read: \<open>avail s\<close> are the bytes that arrive before the first end of file
  or failure, and \<open>ending s\<close> is that failure, if it is one.\<close>

locale byte_source =
  fixes rd :: "'s \<Rightarrow> nat \<Rightarrow> rdres \<times> 's" and avail :: "'s \<Rightarrow> string" and ending :: "'s \<Rightarrow> int option"
  assumes got_law: "rd s n = (RGot bs, s') \<Longrightarrow> 0 < n \<Longrightarrow> bs \<noteq> [] \<Longrightarrow>
      length bs \<le> n \<and> avail s = bs @ avail s' \<and> ending s' = ending s"
    and end_law: "rd s n = (RGot [], s') \<Longrightarrow> 0 < n \<Longrightarrow> avail s = [] \<and> ending s = None"
    and err_law: "rd s n = (RErr e, s') \<Longrightarrow> 0 < n \<Longrightarrow> avail s = [] \<and> ending s = Some e"
begin

text \<open>The loop stores the first bytes that arrive, at most as many as asked for, and returns their
  number; only a failure before the first byte is reported as -1.\<close>

lemma read_loop_result:
  assumes "nleft \<le> n"
  shows "\<exists>e s'. read_loop rd n s nleft got
      = (if nleft = n \<and> 0 < n \<and> avail s = [] \<and> ending s \<noteq> None then -1 else int (n - nleft + length (take nleft (avail s))),
         e, got @ take nleft (avail s), s')
    \<and> (nleft \<le> length (avail s) \<longrightarrow> avail s' = drop nleft (avail s) \<and> ending s' = ending s)
    \<and> (length (avail s) < nleft \<longrightarrow> e = (case ending s of None \<Rightarrow> 0 | Some e \<Rightarrow> e))"
  using assms
proof (induction nleft arbitrary: s got rule: less_induct)
  case (less nleft)
  show ?case
  proof (cases "nleft = 0")
    case True
    then show ?thesis using less.prems by (auto simp: read_loop.simps)
  next
    case False
    obtain r s' where rd: "rd s nleft = (r, s')" by fastforce
    show ?thesis
    proof (cases r)
      case (RErr e)
      then show ?thesis
        using err_law [of s nleft e s'] rd False less.prems by (subst read_loop.simps) simp
    next
      case (RGot bs)
      show ?thesis
      proof (cases "bs = []")
        case True
        then show ?thesis
          using end_law [of s nleft s'] rd RGot False less.prems by (subst read_loop.simps) simp
      next
        case ne: False
        have g: "length bs \<le> nleft" "avail s = bs @ avail s'" "ending s' = ending s"
          using got_law [of s nleft bs s'] rd RGot False ne by auto
        have "nleft - length bs < nleft" "nleft - length bs \<noteq> n" using ne False less.prems by (auto simp: neq_Nil_conv)
        with less.IH [of "nleft - length bs" s' "got @ bs"] g ne rd RGot False less.prems show ?thesis
          by (subst read_loop.simps) auto
      qed
    qed
  qed
qed

end

text \<open>What arrives before the end or a failure, for a plain read and for a read that gives up after
  \<open>t\<close> seconds.\<close>

fun os_avail :: "source \<Rightarrow> string" where
  "os_avail [] = []"
| "os_avail (Bytes bs # r) = (if bs = [] then [] else bs @ os_avail r)"
| "os_avail (Fails e # r) = []"
| "os_avail (Idle k # r) = os_avail r"
| "os_avail (SelFails e # r) = os_avail r"

fun os_ending :: "source \<Rightarrow> int option" where
  "os_ending [] = None"
| "os_ending (Bytes bs # r) = (if bs = [] then None else os_ending r)"
| "os_ending (Fails e # r) = Some e"
| "os_ending (Idle k # r) = os_ending r"
| "os_ending (SelFails e # r) = os_ending r"

text \<open>\<open>w\<close> is what is left of the wait for the next byte, \<open>t\<close> the wait that starts after each.\<close>

fun t_avail :: "nat \<Rightarrow> nat \<Rightarrow> source \<Rightarrow> string" where
  "t_avail t w [] = []"
| "t_avail t w (Bytes bs # r) = (if bs = [] then [] else bs @ t_avail t t r)"
| "t_avail t w (Fails e # r) = []"
| "t_avail t w (Idle k # r) = (if k < w then t_avail t (w - k) r else [])"
| "t_avail t w (SelFails e # r) = []"

fun t_ending :: "nat \<Rightarrow> nat \<Rightarrow> source \<Rightarrow> int option" where
  "t_ending t w [] = None"
| "t_ending t w (Bytes bs # r) = (if bs = [] then None else t_ending t t r)"
| "t_ending t w (Fails e # r) = Some e"
| "t_ending t w (Idle k # r) = (if k < w then t_ending t (w - k) r else Some ETIME)"
| "t_ending t w (SelFails e # r) = Some e"

interpretation plain: byte_source os_read os_avail os_ending
proof
  fix s s' and n :: nat and bs e
  show "os_read s n = (RGot bs, s') \<Longrightarrow> 0 < n \<Longrightarrow> bs \<noteq> [] \<Longrightarrow>
      length bs \<le> n \<and> os_avail s = bs @ os_avail s' \<and> os_ending s' = os_ending s"
    by (induction s n rule: os_read.induct) (auto split: if_splits simp: append_assoc [symmetric])
  show "os_read s n = (RGot [], s') \<Longrightarrow> 0 < n \<Longrightarrow> os_avail s = [] \<and> os_ending s = None"
    by (induction s n rule: os_read.induct) (auto split: if_splits)
  show "os_read s n = (RErr e, s') \<Longrightarrow> 0 < n \<Longrightarrow> os_avail s = [] \<and> os_ending s = Some e"
    by (induction s n rule: os_read.induct) (auto split: if_splits)
qed

lemma tread_got:
  "tread s n w = (RGot bs, s') \<Longrightarrow> 0 < n \<Longrightarrow> bs \<noteq> [] \<Longrightarrow>
     length bs \<le> n \<and> t_avail t w s = bs @ t_avail t t s' \<and> t_ending t t s' = t_ending t w s"
  by (induction s n w rule: tread.induct) (auto split: if_splits simp: append_assoc [symmetric])

lemma tread_end: "tread s n w = (RGot [], s') \<Longrightarrow> 0 < n \<Longrightarrow> t_avail t w s = [] \<and> t_ending t w s = None"
  by (induction s n w rule: tread.induct) (auto split: if_splits)

lemma tread_err: "tread s n w = (RErr e, s') \<Longrightarrow> 0 < n \<Longrightarrow> t_avail t w s = [] \<and> t_ending t w s = Some e"
  by (induction s n w rule: tread.induct) (auto split: if_splits)

interpretation timed: byte_source "\<lambda>s n. tread s n t" "t_avail t t" "t_ending t t" for t
  by unfold_locales (rule tread_got tread_end tread_err; assumption)+

section \<open>Write exactly n bytes\<close>

text \<open>A descriptor for writing: what the next calls do, and the bytes it has taken so far. A call
  takes at most what it is given; after the list every call takes everything.\<close>

datatype outcome = Takes nat | WFails int

type_synonym sink = "outcome list \<times> string"

datatype wrres = WGot nat | WErr int

fun os_write :: "sink \<Rightarrow> string \<Rightarrow> wrres \<times> sink" where
  "os_write ([], out) bs = (WGot (length bs), ([], out @ bs))"
| "os_write (Takes k # r, out) bs = (WGot (min k (length bs)), (r, out @ take k bs))"
| "os_write (WFails e # r, out) bs = (WErr e, (r, out))"

function write_loop :: "nat \<Rightarrow> sink \<Rightarrow> string \<Rightarrow> int \<times> int \<times> sink" where
  "write_loop n s bs =
     (if bs = [] then (int (n - length bs), 0, s)
      else case os_write s bs of
        (WErr e, s') \<Rightarrow> if length bs = n then (-1, e, s') else (int (n - length bs), e, s')
      | (WGot k, s') \<Rightarrow> if k = 0 then (int (n - length bs), 0, s') else write_loop n s' (drop k bs))"
  by pat_completeness auto
termination by (relation "measure (\<lambda>(n, s, bs). length bs)") auto

declare write_loop.simps [simp del]

definition writen :: "sink \<Rightarrow> string \<Rightarrow> int \<times> int \<times> sink" where
  "writen s bs = write_loop (length bs) s bs"

text \<open>The bytes the coming calls take, and whether a failure stops them before \<open>m\<close> bytes are out.\<close>

fun taken :: "outcome list \<Rightarrow> nat \<Rightarrow> nat" where
  "taken [] m = m"
| "taken (Takes k # r) m = (if m = 0 \<or> k = 0 then 0 else if m \<le> k then m else k + taken r (m - k))"
| "taken (WFails e # r) m = 0"

fun stopped_by :: "outcome list \<Rightarrow> nat \<Rightarrow> int option" where
  "stopped_by [] m = None"
| "stopped_by (Takes k # r) m = (if k = 0 \<or> m \<le> k then None else stopped_by r (m - k))"
| "stopped_by (WFails e # r) m = (if m = 0 then None else Some e)"

lemma stopped_by_0 [simp]: "stopped_by sc 0 = None"
proof (cases sc)
  case (Cons x r)
  then show ?thesis by (cases x) simp_all
qed simp

lemma taken_le: "taken r m \<le> m"
  by (induction r m rule: taken.induct) auto

lemma write_loop_result:
  assumes "length bs \<le> n" "s = (sc, out)"
  shows "\<exists>sc'. write_loop n s bs =
     (if bs \<noteq> [] \<and> length bs = n \<and> taken sc (length bs) = 0 \<and> stopped_by sc (length bs) \<noteq> None then -1
      else int (n - length bs + taken sc (length bs)),
      (case stopped_by sc (length bs) of None \<Rightarrow> 0 | Some e \<Rightarrow> e),
      (sc', out @ take (taken sc (length bs)) bs))"
  using assms
proof (induction "length bs" arbitrary: bs s sc out rule: less_induct)
  case less
  show ?case
  proof (cases "bs = []")
    case True
    then show ?thesis using less.prems taken_le [of sc 0] by (simp add: write_loop.simps)
  next
    case False
    show ?thesis
    proof (cases sc)
      case Nil
      then show ?thesis
        using False less.prems by (subst write_loop.simps) (simp add: write_loop.simps)
    next
      case (Cons x r)
      show ?thesis
      proof (cases x)
        case (WFails e)
        then show ?thesis using Cons False less.prems by (subst write_loop.simps) auto
      next
        case (Takes k)
        show ?thesis
        proof (cases "k = 0")
          case True
          then show ?thesis using Takes Cons False less.prems by (subst write_loop.simps) auto
        next
          case k: False
          let ?bs = "drop k bs"
          have lt: "length ?bs < length bs" "length ?bs \<le> n" "length ?bs \<noteq> n"
            using k False less.prems by (auto simp: neq_Nil_conv)
          have min: "drop (min k (length bs)) bs = ?bs" by (simp add: min_def)
          from less.hyps [OF lt(1) lt(2) refl, of r "out @ take k bs"] lt(3)
          obtain sc' where IH: "write_loop n (r, out @ take k bs) ?bs =
            (int (n - length ?bs + taken r (length ?bs)), (case stopped_by r (length ?bs) of None \<Rightarrow> 0 | Some e \<Rightarrow> e),
             (sc', (out @ take k bs) @ take (taken r (length ?bs)) ?bs))" by auto
          have "write_loop n s bs = write_loop n (r, out @ take k bs) ?bs"
            using k False Takes Cons less.prems min by (subst write_loop.simps) (simp add: min_def)
          moreover have "length bs \<le> k \<Longrightarrow> stopped_by r 0 = None \<and> taken r 0 = 0"
            using taken_le [of r 0] by simp
          moreover have "k < length bs \<Longrightarrow> take (k + taken r (length bs - k)) bs
              = take k bs @ take (taken r (length bs - k)) (drop k bs)"
            by (simp add: take_add)
          ultimately show ?thesis
            using IH Takes Cons False less.prems lt by (cases "length bs \<le> k") (auto intro: k [unfolded neq0_conv])
        qed
      qed
    qed
  qed
qed

section \<open>Properties\<close>

text \<open>\<^verbatim>\<open>readn\<close> stores exactly the bytes that arrive before the end of file or an error, at most
  \<open>n\<close> of them, however the arrivals are split, and leaves the rest on the descriptor; it returns
  their number, and -1 only for an error before the first byte.\<close>

theorem readn_exact:
  "\<exists>e s'. readn src n = (if 0 < n \<and> os_avail src = [] \<and> os_ending src \<noteq> None then -1
      else int (length (take n (os_avail src))), e, take n (os_avail src), s')
     \<and> (length (os_avail src) < n \<or> os_avail s' = drop n (os_avail src))"
  using plain.read_loop_result [of n n src "[]"] unfolding readn_def by (fastforce simp: min_def)

text \<open>\<^verbatim>\<open>treadn\<close> does the same for what arrives in time: each read waits at most \<open>timout\<close> seconds
  for the next byte, and a pause of \<open>timout\<close> seconds or more ends the transfer with
  \<^verbatim>\<open>ETIME\<close>.\<close>

theorem treadn_exact:
  "\<exists>e s'. treadn src n t = (if 0 < n \<and> t_avail t t src = [] \<and> t_ending t t src \<noteq> None then -1
      else int (length (take n (t_avail t t src))), e, take n (t_avail t t src), s')
     \<and> (length (t_avail t t src) < n \<or> t_avail t t s' = drop n (t_avail t t src))
     \<and> (n \<le> length (t_avail t t src) \<or> e = (case t_ending t t src of None \<Rightarrow> 0 | Some e \<Rightarrow> e))"
  using timed.read_loop_result [of n n t src "[]"] unfolding treadn_def by (fastforce simp: min_def)

text \<open>\<^verbatim>\<open>writen\<close> hands out a prefix of the buffer, in order and once, however the writes are split,
  and returns its length (-1 only when the first write fails); without failing or empty writes
  the prefix is the whole buffer.\<close>

theorem writen_exact:
  "\<exists>sc'. writen (sc, out) bs = (if taken sc (length bs) = 0 \<and> stopped_by sc (length bs) \<noteq> None then -1
      else int (taken sc (length bs)),
      (case stopped_by sc (length bs) of None \<Rightarrow> 0 | Some e \<Rightarrow> e), (sc', out @ take (taken sc (length bs)) bs))
    \<and> taken sc (length bs) \<le> length bs
    \<and> (\<not> list_all (\<lambda>x. case x of Takes k \<Rightarrow> 0 < k | WFails e \<Rightarrow> False) sc \<or> taken sc (length bs) = length bs)"
proof -
  have "taken sc m = m" if "list_all (\<lambda>x. case x of Takes k \<Rightarrow> 0 < k | WFails e \<Rightarrow> False) sc" for m
    using that by (induction sc m rule: taken.induct) auto
  then show ?thesis
    using write_loop_result [of bs "length bs" "(sc, out)" sc out] taken_le [of sc "length bs"]
    unfolding writen_def by (cases "bs = []") auto
qed

theorem writen_exact_witness:
  "\<exists>sc'. writen ([Takes 2, Takes 1], ''x'') ''abc'' = (3, 0, (sc', ''xabc''))"
  using writen_exact [of "[Takes 2, Takes 1]" "''x''" "''abc''"] by simp

end
