(* ===== verification/PrintWire.thy ===== *)
theory PrintWire imports PrintJobs StreamIO begin

text \<open>
  The messages of the print spooler: the print request \<^verbatim>\<open>print\<close> sends to the daemon and the daemon
  keeps in a control file (print.h, print.c), and the IPP and HTTP headers it sends to the
  printer (printd.c, ipp.h). Structs are the bytes they occupy, integers in them
  little-endian as on the machines the code was built for; \<^verbatim>\<open>htonl\<close> swaps them.
\<close>

unbundle bit_operations_syntax

section \<open>Integers in memory\<close>

definition byte :: "nat \<Rightarrow> char" where
  "byte n = char_of (n mod 256)"

definition le32 :: "32 word \<Rightarrow> string" where
  "le32 w = (let n = unat w in
     [byte n, byte (n div 256), byte (n div 256 div 256), byte (n div 256 div 256 div 256)])"

definition of_le32 :: "string \<Rightarrow> 32 word" where
  "of_le32 bs = of_nat (of_char (bs ! 0) + 256 * (of_char (bs ! 1) + 256 * (of_char (bs ! 2) + 256 * of_char (bs ! 3))))"

definition be16 :: "nat \<Rightarrow> string" where
  "be16 n = [byte (n div 256), byte n]"

definition be32 :: "32 word \<Rightarrow> string" where
  "be32 w = rev (le32 w)"

text \<open>\<^verbatim>\<open>htonl\<close> and \<^verbatim>\<open>ntohl\<close>.\<close>

definition htonl :: "32 word \<Rightarrow> 32 word" where
  "htonl w = of_le32 (be32 w)"

lemma of_char_byte [simp]: "of_char (byte n) = n mod 256"
  by (simp add: byte_def)

lemma byte_of_char [simp]: "byte (of_char c) = c"
  by (simp add: byte_def)

lemma length_le32 [simp]: "length (le32 w) = 4"
  by (simp add: le32_def Let_def)

lemma length_be32 [simp]: "length (be32 w) = 4"
  by (simp add: be32_def)

lemma length_be16 [simp]: "length (be16 n) = 2"
  by (simp add: be16_def)

lemma horner_aux: "n = 256 * q + r \<Longrightarrow> q = 256 * q' + r' \<Longrightarrow> q' = 256 * q'' + r'' \<Longrightarrow>
    r + 256 * (r' + 256 * (r'' + 256 * q'')) = (n :: nat)"
  by simp

lemma horner4:
  assumes "n < 2 ^ 32"
  shows "n mod 256 + 256 * (n div 256 mod 256 + 256 * (n div 256 div 256 mod 256 + 256 * (n div 256 div 256 div 256 mod 256))) = (n :: nat)"
proof -
  have "n div 256 div 256 div 256 < 256" using assms by (simp add: div_less_iff_less_mult)
  then have "n div 256 div 256 div 256 mod 256 = n div 256 div 256 div 256" by simp
  then show ?thesis
    using horner_aux [OF mult_div_mod_eq [of 256 n, symmetric] mult_div_mod_eq [of 256 "n div 256", symmetric]
      mult_div_mod_eq [of 256 "n div 256 div 256", symmetric]] by simp
qed

lemma of_le32_append [simp]: "of_le32 (le32 w @ bs) = w"
proof -
  have "unat w < 2 ^ 32" using unsigned_less [of w] by simp
  from horner4 [OF this] show ?thesis by (simp add: of_le32_def le32_def Let_def nth_append)
qed

lemma of_le32_le32 [simp]: "of_le32 (le32 w) = w"
  using of_le32_append [of w "[]"] by (simp del: of_le32_append)

lemma of_char_lt: "(of_char c :: nat) < 256"
  by (metis of_char_mod_256 mod_less_divisor zero_less_numeral)

lemma horner_step: "a < 256 \<Longrightarrow> m < k \<Longrightarrow> a + 256 * m < 256 * (k :: nat)"
  by linarith

lemma horner_less: "a < 256 \<Longrightarrow> b < 256 \<Longrightarrow> c < 256 \<Longrightarrow> d < 256 \<Longrightarrow>
    a + 256 * (b + 256 * (c + 256 * d)) < 256 * (256 * (256 * (256 :: nat)))"
  by (intro horner_step)

lemma le32_of_le32: "length bs = 4 \<Longrightarrow> le32 (of_le32 bs) = bs"
proof -
  assume "length bs = 4"
  then obtain a b c d where bs: "bs = [a, b, c, d]" by (auto simp: numeral_eq_Suc length_Suc_conv)
  define n where "n = (of_char a :: nat) + 256 * (of_char b + 256 * (of_char c + 256 * of_char d))"
  have "n < 2 ^ 32" using horner_less [OF of_char_lt of_char_lt of_char_lt of_char_lt, of a b c d] by (simp add: n_def)
  moreover have "of_le32 bs = of_nat n" by (simp add: of_le32_def bs n_def numeral_2_eq_2 numeral_3_eq_3)
  ultimately have u: "unat (of_le32 bs) = n" by (simp add: unat_of_nat)
  have dm: "(of_char x + 256 * m) mod 256 = (of_char x :: nat)" "(of_char x + 256 * m) div 256 = m" for x m
    using of_char_lt [of x] by simp_all
  show ?thesis unfolding bs le32_def u [unfolded bs] Let_def by (simp add: byte_def n_def dm del: distrib_left_numeral)
qed

lemma htonl_htonl [simp]: "htonl (htonl w) = w"
  by (simp add: htonl_def be32_def le32_of_le32)

lemma le32_htonl [simp]: "le32 (htonl w) = be32 w"
  by (simp add: htonl_def le32_of_le32)

section \<open>The print request\<close>

definition USERNM_MAX :: nat where "USERNM_MAX = 64"
definition JOBNM_MAX :: nat where "JOBNM_MAX = 256"
definition PR_TEXT :: "32 word" where "PR_TEXT = 1"

text \<open>The bytes of a \<^verbatim>\<open>struct printreq\<close>.\<close>

definition REQSZ :: nat where
  "REQSZ = 8 + USERNM_MAX + JOBNM_MAX"

definition encode_req :: "printreq \<Rightarrow> string" where
  "encode_req r = le32 (req_size r) @ le32 (req_flags r) @ usernm r @ jobnm r"

definition decode_req :: "string \<Rightarrow> printreq" where
  "decode_req bs = \<lparr>req_size = of_le32 (take 4 bs), req_flags = of_le32 (take 4 (drop 4 bs)),
     usernm = take USERNM_MAX (drop 8 bs), jobnm = take JOBNM_MAX (drop (8 + USERNM_MAX) bs)\<rparr>"

definition req_wf :: "printreq \<Rightarrow> bool" where
  "req_wf r \<longleftrightarrow> length (usernm r) = USERNM_MAX \<and> length (jobnm r) = JOBNM_MAX"

lemma decode_encode_req [simp]: "req_wf r \<Longrightarrow> decode_req (encode_req r) = r"
  by (simp add: decode_req_def encode_req_def req_wf_def)

lemma length_encode_req [simp]: "req_wf r \<Longrightarrow> length (encode_req r) = REQSZ"
  by (simp add: encode_req_def req_wf_def REQSZ_def)

text \<open>\<^verbatim>\<open>strcpy\<close> and \<^verbatim>\<open>strncpy\<close> into an array that holds \<open>dst\<close>.\<close>

definition c_strcpy :: "string \<Rightarrow> string \<Rightarrow> string" where
  "c_strcpy dst s = s @ NUL # drop (length s + 1) dst"

definition c_strncpy :: "string \<Rightarrow> string \<Rightarrow> nat \<Rightarrow> string" where
  "c_strncpy dst s n = take n (s @ replicate n NUL) @ drop n dst"

text \<open>The request \<^verbatim>\<open>submit_file\<close> builds, in network byte order. \<open>user\<close> is the name \<^verbatim>\<open>getpwuid\<close> found;
  \<open>u\<close> and \<open>j\<close> are what the two arrays on the stack held before.\<close>

definition submit_request :: "string option \<Rightarrow> string \<Rightarrow> nat \<Rightarrow> bool \<Rightarrow> string \<Rightarrow> string \<Rightarrow> printreq" where
  "submit_request user fname nbytes text u j =
     \<lparr>req_size = htonl (of_nat nbytes), req_flags = (if text then htonl PR_TEXT else 0),
      usernm = (case user of
          None \<Rightarrow> c_strcpy u ''unknown''
        | Some nm \<Rightarrow> (c_strncpy u nm (USERNM_MAX - 1))[USERNM_MAX - 1 := NUL]),
      jobnm = (let len = length fname in
        if JOBNM_MAX \<le> len then c_strcpy j (''... '' @ take (JOBNM_MAX - 5) (drop (len - JOBNM_MAX + 5) fname))
        else c_strcpy j fname)\<rparr>"

lemma cstr_c_strcpy: "NUL \<notin> set s \<Longrightarrow> cstr (c_strcpy dst s) = s"
  by (simp add: cstr_def c_strcpy_def takeWhile_append)

lemma length_c_strcpy: "length s < length dst \<Longrightarrow> length (c_strcpy dst s) = length dst"
  by (simp add: c_strcpy_def)

lemma c_strncpy_user:
  assumes "length u = 64" "NUL \<notin> set nm"
  shows "length ((c_strncpy u nm 63)[63 := NUL]) = 64" and "cstr ((c_strncpy u nm 63)[63 := NUL]) = take 63 nm"
proof -
  have "length (drop 63 u) = 1" using assms(1) by simp
  then obtain c where d: "drop 63 u = [c]" by (cases "drop 63 u") (simp_all del: drop_eq_Nil length_drop)
  have upd: "length x = 63 \<Longrightarrow> (x @ [c])[63 := NUL] = x @ [NUL]" for x by (simp add: list_update_append)
  have l: "length (take 63 (nm @ replicate 63 NUL)) = 63" by simp
  have e: "(c_strncpy u nm 63)[63 := NUL] = take 63 (nm @ replicate 63 NUL) @ [NUL]"
    unfolding c_strncpy_def d by (rule upd [OF l])
  show "length ((c_strncpy u nm 63)[63 := NUL]) = 64" unfolding e using l by simp
  have s: "take 63 (nm @ replicate 63 NUL) @ [NUL] = take 63 nm @ NUL # replicate (63 - length nm) NUL"
    by (simp add: min_def replicate_append_same)
  have n: "NUL \<notin> set (take 63 nm)" using assms(2) by (auto dest: in_set_takeD)
  show "cstr ((c_strncpy u nm 63)[63 := NUL]) = take 63 nm" unfolding e s by (rule cstr_append_nul [OF n])
qed

lemma submit_request_wf:
  assumes "length u = USERNM_MAX" "length j = JOBNM_MAX" "\<forall>nm. user = Some nm \<longrightarrow> NUL \<notin> set nm"
  shows "req_wf (submit_request user fname nbytes text u j)"
proof -
  let ?r = "submit_request user fname nbytes text u j"
  have "length (usernm ?r) = USERNM_MAX"
  proof (cases user)
    case None
    then show ?thesis using assms(1) by (simp add: submit_request_def length_c_strcpy USERNM_MAX_def)
  next
    case (Some nm)
    have "length ((c_strncpy u nm 63)[63 := NUL]) = 64"
      by (rule c_strncpy_user(1)) (use assms Some in \<open>simp_all add: USERNM_MAX_def\<close>)
    then show ?thesis using Some by (simp add: submit_request_def USERNM_MAX_def)
  qed
  moreover have "length (jobnm ?r) = JOBNM_MAX"
    using assms(2) by (simp add: submit_request_def length_c_strcpy JOBNM_MAX_def Let_def)
  ultimately show ?thesis by (simp add: req_wf_def)
qed

section \<open>The IPP header\<close>

definition IBUFSZ :: nat where "IBUFSZ = 512"
definition HBUFSZ :: nat where "HBUFSZ = 512"
definition OP_PRINT_JOB :: nat where "OP_PRINT_JOB = 2"
definition TAG_OPERATION_ATTR :: nat where "TAG_OPERATION_ATTR = 1"
definition TAG_END_OF_ATTR :: nat where "TAG_END_OF_ATTR = 3"
definition TAG_NAMEWOLANG :: nat where "TAG_NAMEWOLANG = 0x42"
definition TAG_URI :: nat where "TAG_URI = 0x45"
definition TAG_CHARSET :: nat where "TAG_CHARSET = 0x47"
definition TAG_NATULANG :: nat where "TAG_NATULANG = 0x48"
definition TAG_MIMETYPE :: nat where "TAG_MIMETYPE = 0x49"

definition add_option :: "nat \<Rightarrow> nat \<Rightarrow> string \<Rightarrow> string \<Rightarrow> string \<Rightarrow> string res" where
  "add_option cap tag optname optval cp =
     rbind (store cap [byte tag] cp) (\<lambda>cp.
     rbind (store cap (be16 (length optname)) cp) (\<lambda>cp.
     rbind (store_str cap optname cp) (\<lambda>cp.
     rbind (store cap (be16 (length optval)) cp) (\<lambda>cp.
     store_str cap optval cp))))"

definition mime_type :: "printreq \<Rightarrow> string" where
  "mime_type r = (if req_flags r AND PR_TEXT \<noteq> 0 then ''text/plain'' else ''application/postscript'')"

definition ipp_header :: "32 word \<Rightarrow> printreq \<Rightarrow> string \<Rightarrow> string res" where
  "ipp_header jid r printer_name =
     rbind (store IBUFSZ ([byte 1, byte 1] @ be16 OP_PRINT_JOB @ be32 jid) []) (\<lambda>icp.
     rbind (store IBUFSZ [byte TAG_OPERATION_ATTR] icp) (\<lambda>icp.
     rbind (add_option IBUFSZ TAG_CHARSET ''attributes-charset'' ''utf-8'' icp) (\<lambda>icp.
     rbind (add_option IBUFSZ TAG_NATULANG ''attributes-natural-language'' ''en-us'' icp) (\<lambda>icp.
     rbind (store_str 64 (''http://'' @ printer_name @ ''/ipp'') []) (\<lambda>str.
     rbind (add_option IBUFSZ TAG_URI ''printer-uri'' str icp) (\<lambda>icp.
     rbind (add_option IBUFSZ TAG_NAMEWOLANG ''requesting-user-name'' (cstr (usernm r)) icp) (\<lambda>icp.
     rbind (add_option IBUFSZ TAG_NAMEWOLANG ''job-name'' (cstr (jobnm r)) icp) (\<lambda>icp.
     rbind (add_option IBUFSZ TAG_MIMETYPE ''document-format'' (mime_type r) icp) (\<lambda>icp.
     store IBUFSZ [byte TAG_END_OF_ATTR] icp)))))))))"

definition CRLF :: string where
  "CRLF = [CHR 0x0D, NEWLINE]"

definition http_header :: "int \<Rightarrow> string \<Rightarrow> string res" where
  "http_header len printer_name =
     rbind (store_str HBUFSZ (''POST /ipp HTTP/1.1'' @ CRLF) []) (\<lambda>hcp.
     rbind (store_str HBUFSZ (''Content-Length: '' @ show_int len @ CRLF) hcp) (\<lambda>hcp.
     rbind (store_str HBUFSZ (''Content-Type: application/ipp'' @ CRLF) hcp) (\<lambda>hcp.
     rbind (store_str HBUFSZ (''Host: '' @ printer_name @ '':631'' @ CRLF) hcp) (\<lambda>hcp.
     store HBUFSZ CRLF hcp))))"

text \<open>The attributes as one byte string, and their meaning by the protocol's grammar (RFC 2910): a tag,
  two lengths, a name and a value, up to the tag that ends the group.\<close>

definition attr_bytes :: "nat \<times> string \<times> string \<Rightarrow> string" where
  "attr_bytes a = (case a of (tag, n, v) \<Rightarrow> byte tag # be16 (length n) @ n @ be16 (length v) @ v)"

definition ipp_attrs :: "printreq \<Rightarrow> string \<Rightarrow> (nat \<times> string \<times> string) list" where
  "ipp_attrs r printer_name =
     [(TAG_CHARSET, ''attributes-charset'', ''utf-8''),
      (TAG_NATULANG, ''attributes-natural-language'', ''en-us''),
      (TAG_URI, ''printer-uri'', ''http://'' @ printer_name @ ''/ipp''),
      (TAG_NAMEWOLANG, ''requesting-user-name'', cstr (usernm r)),
      (TAG_NAMEWOLANG, ''job-name'', cstr (jobnm r)),
      (TAG_MIMETYPE, ''document-format'', mime_type r)]"

lemma add_option_eq:
  "add_option cap tag n v cp =
     (if length cp + length (attr_bytes (tag, n, v)) + 1 \<le> cap then Inr (cp @ attr_bytes (tag, n, v)) else Inl Fault)"
  by (simp add: add_option_def store_def store_str_def attr_bytes_def)

lemma length_attr_bytes [simp]: "length (attr_bytes (tag, n, v)) = 5 + length n + length v"
  by (simp add: attr_bytes_def)

definition ipp_bytes :: "32 word \<Rightarrow> printreq \<Rightarrow> string \<Rightarrow> string" where
  "ipp_bytes jid r printer_name = [byte 1, byte 1] @ be16 OP_PRINT_JOB @ be32 jid @ [byte TAG_OPERATION_ATTR]
     @ concat (map attr_bytes (ipp_attrs r printer_name)) @ [byte TAG_END_OF_ATTR]"

lemma ipp_header_eq:
  "ipp_header jid r printer_name =
     (if length printer_name < 53
         \<and> 159 + length printer_name + length (cstr (usernm r)) + length (cstr (jobnm r)) + length (mime_type r) \<le> 511
      then Inr (ipp_bytes jid r printer_name) else Inl Fault)"
  by (simp add: ipp_header_def add_option_eq ipp_bytes_def ipp_attrs_def store_def store_str_def IBUFSZ_def)

section \<open>Reading the header back\<close>

definition of_be16 :: "string \<Rightarrow> nat" where
  "of_be16 bs = of_char (bs ! 0) * 256 + of_char (bs ! 1)"

fun parse_attrs :: "nat \<Rightarrow> string \<Rightarrow> ((nat \<times> string \<times> string) list \<times> string) option" where
  "parse_attrs 0 bs = None"
| "parse_attrs (Suc k) [] = None"
| "parse_attrs (Suc k) (t # bs) =
     (if of_char t = TAG_END_OF_ATTR then Some ([], bs)
      else
        let n = of_be16 bs; name = take n (drop 2 bs); bs = drop (2 + n) bs;
            v = of_be16 bs; val = take v (drop 2 bs) in
        map_option (\<lambda>(as, rest). ((of_char t, name, val) # as, rest)) (parse_attrs k (drop (2 + v) bs)))"

text \<open>Version, operation, request id and operation attributes.\<close>

definition parse_ipp :: "string \<Rightarrow> ((nat \<times> nat) \<times> nat \<times> 32 word \<times> (nat \<times> string \<times> string) list \<times> string) option" where
  "parse_ipp bs =
     (if length bs < 9 \<or> of_char (bs ! 8) \<noteq> TAG_OPERATION_ATTR then None
      else map_option (\<lambda>(as, rest). ((of_char (bs ! 0), of_char (bs ! 1)), of_be16 (drop 2 bs),
        of_le32 (rev (take 4 (drop 4 bs))), as, rest)) (parse_attrs (length bs) (drop 9 bs)))"

lemma of_be16_be16: "n < 65536 \<Longrightarrow> of_be16 (be16 n @ bs) = n"
  by (simp add: of_be16_def be16_def div_less_iff_less_mult)

lemma parse_attrs_ok:
  "\<forall>(t, n, v) \<in> set as. t < 256 \<and> t \<noteq> TAG_END_OF_ATTR \<and> length n < 65536 \<and> length v < 65536 \<Longrightarrow> length as < k \<Longrightarrow>
     parse_attrs k (concat (map attr_bytes as) @ byte TAG_END_OF_ATTR # rest) = Some (as, rest)"
proof (induction as arbitrary: k)
  case Nil
  then obtain k' where "k = Suc k'" by (cases k) auto
  then show ?case by (simp add: TAG_END_OF_ATTR_def)
next
  case (Cons a as)
  obtain k' where k: "k = Suc k'" "length as < k'" using Cons.prems(2) by (cases k) auto
  obtain t n v where a: "a = (t, n, v)" by (cases a)
  have b: "t < 256" "t \<noteq> TAG_END_OF_ATTR" "length n < 65536" "length v < 65536" using Cons.prems(1) a by auto
  let ?r = "concat (map attr_bytes as) @ byte TAG_END_OF_ATTR # rest"
  have "parse_attrs k' ?r = Some (as, rest)" using Cons.IH [OF _ k(2)] Cons.prems(1) by simp
  moreover have "concat (map attr_bytes (a # as)) @ byte TAG_END_OF_ATTR # rest
      = byte t # be16 (length n) @ n @ be16 (length v) @ v @ ?r"
    by (simp add: a attr_bytes_def)
  ultimately show ?case
    using b unfolding k(1) by (simp add: of_be16_be16 a Let_def del: concat.simps map_append)
qed

lemma parse_ipp_ok:
  assumes "length printer_name < 60000" "length (cstr (usernm r)) < 60000" "length (cstr (jobnm r)) < 60000"
  shows "parse_ipp (ipp_bytes jid r printer_name @ rest) = Some ((1, 1), OP_PRINT_JOB, jid, ipp_attrs r printer_name, rest)"
proof -
  let ?as = "ipp_attrs r printer_name" and ?b = "ipp_bytes jid r printer_name @ rest"
  have l: "length ?as < length ?b" by (simp add: ipp_bytes_def ipp_attrs_def)
  have "\<forall>(t, n, v) \<in> set ?as. t < 256 \<and> t \<noteq> TAG_END_OF_ATTR \<and> length n < 65536 \<and> length v < 65536"
    using assms by (auto simp: ipp_attrs_def TAG_END_OF_ATTR_def TAG_CHARSET_def TAG_NATULANG_def TAG_URI_def
      TAG_NAMEWOLANG_def TAG_MIMETYPE_def mime_type_def)
  from parse_attrs_ok [OF this l]
  have p: "parse_attrs (length ?b) (concat (map attr_bytes ?as) @ byte TAG_END_OF_ATTR # rest) = Some (?as, rest)" .
  have d: "?b = byte 1 # byte 1 # be16 OP_PRINT_JOB @ be32 jid @ byte TAG_OPERATION_ATTR #
      (concat (map attr_bytes ?as) @ byte TAG_END_OF_ATTR # rest)"
    by (simp add: ipp_bytes_def)
  have "rev (take 4 (be32 jid)) = le32 jid" by (simp add: be32_def)
  then show ?thesis
    using p of_be16_be16 [of OP_PRINT_JOB] unfolding parse_ipp_def d
    by (simp add: nth_append nth_Cons' OP_PRINT_JOB_def TAG_OPERATION_ATTR_def be32_def)
qed

section \<open>Properties\<close>

lemma submit_request_user:
  assumes "length u = USERNM_MAX" "\<forall>nm. user = Some nm \<longrightarrow> NUL \<notin> set nm"
  shows "cstr (usernm (submit_request user fname nbytes text u j)) = (case user of None \<Rightarrow> ''unknown'' | Some nm \<Rightarrow> take 63 nm)"
proof (cases user)
  case None
  then show ?thesis by (simp add: submit_request_def cstr_c_strcpy)
next
  case (Some nm)
  then show ?thesis using c_strncpy_user(2) [of u nm] assms by (simp add: submit_request_def USERNM_MAX_def)
qed

lemma submit_request_job:
  assumes "NUL \<notin> set fname"
  shows "cstr (jobnm (submit_request user fname nbytes text u j))
    = (if length fname < JOBNM_MAX then fname else ''... '' @ drop (length fname - 251) fname)"
proof -
  have "NUL \<notin> set (''... '' @ drop k fname)" for k using assms by (auto dest: in_set_dropD)
  from cstr_c_strcpy [OF this] cstr_c_strcpy [OF assms] show ?thesis
    by (simp add: submit_request_def Let_def JOBNM_MAX_def)
qed

text \<open>However the bytes of a request are split on the way, the daemon's \<^verbatim>\<open>treadn\<close> gets the struct the
  client built: in host order the size and the text flag, the user name cut to 63 bytes, a file name of up
  to 255 bytes as it is and a longer one as its last 251 bytes; the file's data comes next.\<close>

theorem request_received:
  assumes sz: "length u = USERNM_MAX" "length j = JOBNM_MAX"
    and nul: "\<forall>nm. user = Some nm \<longrightarrow> NUL \<notin> set nm" "NUL \<notin> set fname"
    and src: "t_avail 10 10 src = encode_req (submit_request user fname nbytes text u j) @ data"
  shows "\<exists>e bs s' r. treadn src REQSZ 10 = (int REQSZ, e, bs, s') \<and> t_avail 10 10 s' = data \<and> r = decode_req bs
    \<and> htonl (req_size r) = of_nat nbytes \<and> (htonl (req_flags r) AND PR_TEXT \<noteq> 0 \<longleftrightarrow> text)
    \<and> cstr (usernm r) = (case user of None \<Rightarrow> ''unknown'' | Some nm \<Rightarrow> take 63 nm)
    \<and> cstr (jobnm r) = (if length fname < JOBNM_MAX then fname else ''... '' @ drop (length fname - 251) fname)"
proof -
  let ?r = "submit_request user fname nbytes text u j"
  have wf: "req_wf ?r" by (rule submit_request_wf [OF sz nul(1)])
  have ne: "encode_req ?r \<noteq> []" using length_encode_req [OF wf] by (auto simp: REQSZ_def)
  obtain e s' where "treadn src REQSZ 10 = (int REQSZ, e, encode_req ?r, s')" "t_avail 10 10 s' = data"
    using timed.read_loop_result [of REQSZ REQSZ 10 src "[]"] length_encode_req [OF wf] ne
    unfolding treadn_def src by fastforce
  moreover have "htonl 0 = 0" "PR_TEXT AND PR_TEXT \<noteq> 0" by code_simp+
  ultimately show ?thesis
    using wf submit_request_user [OF sz(1) nul(1)] submit_request_job [OF nul(2)]
    by (simp add: submit_request_def)
qed

theorem request_received_witness:
  "\<exists>e bs s'. treadn [Bytes (take 100 (encode_req (submit_request (Some ''sar'') ''paper.ps'' 70000 True
      (replicate 64 NUL) (replicate 256 NUL)))), Idle 3, Bytes (drop 100 (encode_req (submit_request (Some ''sar'')
      ''paper.ps'' 70000 True (replicate 64 NUL) (replicate 256 NUL))) @ ''%!PS'')] REQSZ 10 = (int REQSZ, e, bs, s')
    \<and> t_avail 10 10 s' = ''%!PS'' \<and> htonl (req_size (decode_req bs)) = 70000 \<and> cstr (jobnm (decode_req bs)) = ''paper.ps''"
proof -
  let ?q = "submit_request (Some ''sar'') ''paper.ps'' 70000 True (replicate 64 NUL) (replicate 256 NUL)"
  let ?src = "[Bytes (take 100 (encode_req ?q)), Idle 3, Bytes (drop 100 (encode_req ?q) @ ''%!PS'')]"
  have "length (encode_req ?q) = REQSZ"
    by (rule length_encode_req, rule submit_request_wf) (simp_all add: USERNM_MAX_def JOBNM_MAX_def)
  then have "encode_req ?q \<noteq> []" by (auto simp: REQSZ_def)
  then have "t_avail 10 10 ?src = encode_req ?q @ ''%!PS''" by simp
  from request_received [OF _ _ _ _ this] show ?thesis
    by (auto simp: USERNM_MAX_def JOBNM_MAX_def)
qed

text \<open>Every IPP header the daemon builds is within its buffer, and reading it by the protocol's grammar
  gives back the request number and all six attributes, with what follows it untouched.\<close>

theorem ipp_header_parses:
  assumes "ipp_header jid r printer_name = Inr b"
  shows "length b \<le> IBUFSZ \<and> parse_ipp (b @ data) = Some ((1, 1), OP_PRINT_JOB, jid, ipp_attrs r printer_name, data)"
proof -
  have b: "b = ipp_bytes jid r printer_name" and sm: "length printer_name < 53"
    "159 + length printer_name + length (cstr (usernm r)) + length (cstr (jobnm r)) + length (mime_type r) \<le> 511"
    using assms by (simp_all add: ipp_header_eq split: if_splits)
  have "length (ipp_bytes jid r printer_name)
      = 160 + length printer_name + length (cstr (usernm r)) + length (cstr (jobnm r)) + length (mime_type r)"
    by (simp add: ipp_bytes_def ipp_attrs_def)
  then have "length b \<le> IBUFSZ" using sm(2) by (simp add: b IBUFSZ_def)
  moreover have "parse_ipp (b @ data) = Some ((1, 1), OP_PRINT_JOB, jid, ipp_attrs r printer_name, data)"
    unfolding b by (rule parse_ipp_ok) (use sm in linarith)+
  ultimately show ?thesis ..
qed

theorem ipp_header_parses_witness:
  "\<exists>b. ipp_header 7 \<lparr>req_size = 4, req_flags = 1, usernm = ''sar'', jobnm = ''paper''\<rparr> ''lp'' = Inr b
     \<and> parse_ipp (b @ ''data'') = Some ((1, 1), 2, 7, [(0x47, ''attributes-charset'', ''utf-8''),
       (0x48, ''attributes-natural-language'', ''en-us''), (0x45, ''printer-uri'', ''http://lp/ipp''),
       (0x42, ''requesting-user-name'', ''sar''), (0x42, ''job-name'', ''paper''),
       (0x49, ''document-format'', ''text/plain'')], ''data'')"
proof -
  let ?r = "\<lparr>req_size = 4, req_flags = 1, usernm = ''sar'', jobnm = ''paper''\<rparr>"
  have c: "cstr ''sar'' = ''sar''" "cstr ''paper'' = ''paper''" "(1 :: 32 word) AND 1 = 1" by code_simp+
  then have "ipp_header 7 ?r ''lp'' = Inr (ipp_bytes 7 ?r ''lp'')" by (simp add: ipp_header_eq mime_type_def PR_TEXT_def)
  from ipp_header_parses [OF this, of "''data''"] this c show ?thesis
    by (simp add: ipp_attrs_def mime_type_def PR_TEXT_def OP_PRINT_JOB_def TAG_CHARSET_def TAG_NATULANG_def TAG_URI_def
      TAG_NAMEWOLANG_def TAG_MIMETYPE_def)
qed

text \<open>The header buffer of 512 bytes is too small for the requests clients may send: a user name of 63
  bytes or more and a file name of 255 bytes or more overrun it whenever the printer's name has more than 24
  bytes.\<close>

theorem ipp_header_overflow:
  assumes "length u = USERNM_MAX" "NUL \<notin> set nm" "NUL \<notin> set fname" "63 \<le> length nm" "255 \<le> length fname"
    and "24 < length printer_name"
  shows "ipp_header jid (submit_request (Some nm) fname nbytes text u j) printer_name = Inl Fault"
proof -
  let ?r = "submit_request (Some nm) fname nbytes text u j"
  have "length (cstr (usernm ?r)) = 63" using submit_request_user [of u "Some nm"] assms by simp
  moreover have "length (cstr (jobnm ?r)) = 255"
    using assms(5) by (simp add: submit_request_job [OF assms(3)] JOBNM_MAX_def)
  moreover have "10 \<le> length (mime_type ?r)" by (simp add: mime_type_def)
  ultimately show ?thesis using assms(6) by (simp add: ipp_header_eq)
qed

theorem ipp_header_overflow_witness:
  "ipp_header 1 (submit_request (Some (replicate 63 CHR ''u'')) (replicate 300 CHR ''f'') 10 True (replicate 64 NUL)
      (replicate 256 NUL)) ''printer.third-floor.example.com'' = Inl Fault"
  by (rule ipp_header_overflow) (simp_all add: USERNM_MAX_def)

end
