(* ===== verification/PrintStatus.thy ===== *)
theory PrintStatus imports PrintWire begin

text \<open>
  Reading the printer's answer: \<^verbatim>\<open>readmore\<close> and \<^verbatim>\<open>printer_status\<close> of printer/printd.c. The buffer is
  a string of its allocated length; an access outside it faults. The loops have fuel: running
  out of it is \<open>Diverges\<close>.
\<close>

section \<open>Buffer access\<close>

definition IOBUFSZ :: nat where "IOBUFSZ = 8192"

function skip_chars :: "(char \<Rightarrow> bool) \<Rightarrow> string \<Rightarrow> nat \<Rightarrow> nat res" where
  "skip_chars P bp i =
     (if length bp \<le> i then Inl Fault else if P (bp ! i) then skip_chars P bp (Suc i) else Inr i)"
  by pat_completeness auto
termination by (relation "measure (\<lambda>(P, bp, i). length bp - i)") auto

declare skip_chars.simps [simp del]

definition poke :: "nat \<Rightarrow> char \<Rightarrow> string \<Rightarrow> string res" where
  "poke i c bp = (if length bp \<le> i then Inl Fault else Inr (bp[i := c]))"

definition lower :: "char \<Rightarrow> char" where
  "lower c = (let n = of_char c :: nat in if 65 \<le> n \<and> n \<le> 90 then char_of (n + 32) else c)"

text \<open>\<^verbatim>\<open>strncasecmp\<close> with a lower-case pattern.\<close>

fun ncase_eq :: "string \<Rightarrow> string \<Rightarrow> nat \<Rightarrow> bool res" where
  "ncase_eq [] bp i = Inr True"
| "ncase_eq (p # ps) bp i =
     (if length bp \<le> i then Inl Fault else if lower (bp ! i) = p then ncase_eq ps bp (Suc i) else Inr False)"

section \<open>readmore\<close>

text \<open>\<open>junk\<close> is what \<^verbatim>\<open>realloc\<close> leaves in the new part of the buffer.\<close>

definition readmore :: "char \<Rightarrow> source \<Rightarrow> string \<Rightarrow> nat \<Rightarrow> (int \<times> string \<times> source) res" where
  "readmore junk sk bp off =
     (let bp = (if length bp \<le> off then bp @ replicate IOBUFSZ junk else bp) in
      if length bp < off then Inl Fault
      else case tread sk (length bp - off) 1 of
        (RGot bs, sk) \<Rightarrow>
          if bs = [] then Inr (-1, bp, sk)
          else Inr (int (off + length bs), take off bp @ bs @ drop (off + length bs) bp, sk)
      | (RErr e, sk) \<Rightarrow> Inr (-1, bp, sk))"

text \<open>A call site of \<^verbatim>\<open>readmore\<close>: \<open>None\<close> for the jump to \<^verbatim>\<open>out\<close>, else the new amount of data. The code adds
  the returned end of data to the amount it had.\<close>

definition need_more :: "bool \<Rightarrow> char \<Rightarrow> nat \<Rightarrow> int \<times> string \<times> source \<Rightarrow> (int \<times> string \<times> source) option res" where
  "need_more need junk i st =
     (case st of (datsz, bp, sk) \<Rightarrow>
      if \<not> need then Inr (Some (datsz, bp, sk))
      else rbind (readmore junk sk bp i) (\<lambda>(nr, bp, sk).
           Inr (if nr < 0 then None else Some (datsz + nr, bp, sk))))"

section \<open>The headers\<close>

function scan_c :: "string \<Rightarrow> nat \<Rightarrow> int \<Rightarrow> nat res" where
  "scan_c bp i datsz =
     (if length bp \<le> i then Inl Fault
      else if bp ! i \<noteq> CHR ''C'' \<and> bp ! i \<noteq> CHR ''c'' \<and> int i < datsz then scan_c bp (Suc i) datsz
      else Inr i)"
  by pat_completeness auto
termination by (relation "measure (\<lambda>(bp, i, datsz). length bp - i)") auto

declare scan_c.simps [simp del]

text \<open>The search for Content-Length: its value and where the search stopped.\<close>

fun find_length :: "nat \<Rightarrow> char \<Rightarrow> nat \<Rightarrow> int \<times> string \<times> source \<Rightarrow> (int \<times> nat \<times> int \<times> string \<times> source) option res" where
  "find_length 0 junk i st = Inl Diverges"
| "find_length (Suc n) junk i (datsz, bp, sk) =
     rbind (scan_c bp i datsz) (\<lambda>i.
     rbind (need_more (datsz \<le> int i) junk i (datsz, bp, sk)) (\<lambda>r.
     case r of None \<Rightarrow> Inr None
     | Some (datsz, bp, sk) \<Rightarrow>
         rbind (ncase_eq ''content-length:'' bp i) (\<lambda>eq.
         if eq then
           rbind (skip_chars isspace bp (i + 15)) (\<lambda>contentlen.
           rbind (skip_chars isdigit bp contentlen) (\<lambda>cp.
           rbind (poke cp NUL bp) (\<lambda>bp.
           Inr (Some (atoi (cstr (drop contentlen bp)), cp + 1, datsz, bp, sk)))))
         else find_length n junk (Suc i) (datsz, bp, sk))))"

text \<open>The inner loop of the search for the end of the header.\<close>

function scan_end :: "string \<Rightarrow> nat \<Rightarrow> int \<Rightarrow> (bool \<times> nat) res" where
  "scan_end bp i datsz =
     (if datsz - 2 \<le> int i then Inr (False, i)
      else if length bp \<le> i then Inl Fault
      else if bp ! i = NEWLINE \<and> length bp \<le> i + 1 then Inl Fault
      else if bp ! i = NEWLINE \<and> bp ! (i + 1) = CHR 0x0D \<and> length bp \<le> i + 2 then Inl Fault
      else if bp ! i = NEWLINE \<and> bp ! (i + 1) = CHR 0x0D \<and> bp ! (i + 2) = NEWLINE then Inr (True, i + 3)
      else scan_end bp (Suc i) datsz)"
  by pat_completeness auto
termination by (relation "measure (\<lambda>(bp, i, datsz). length bp - i)") auto

declare scan_end.simps [simp del]

fun find_end :: "nat \<Rightarrow> char \<Rightarrow> nat \<Rightarrow> int \<times> string \<times> source \<Rightarrow> (nat \<times> int \<times> string \<times> source) option res" where
  "find_end 0 junk i st = Inl Diverges"
| "find_end (Suc n) junk i (datsz, bp, sk) =
     rbind (scan_end bp i datsz) (\<lambda>(found, i).
     rbind (need_more (datsz \<le> int i) junk i (datsz, bp, sk)) (\<lambda>r.
     case r of None \<Rightarrow> Inr None
     | Some (datsz, bp, sk) \<Rightarrow>
         if found then Inr (Some (i, datsz, bp, sk)) else find_end n junk i (datsz, bp, sk)))"

section \<open>printer_status\<close>

text \<open>The part after a success code in the status line; the result is whether the job was accepted.\<close>

definition ipp_response :: "nat \<Rightarrow> char \<Rightarrow> 32 word \<Rightarrow> nat \<Rightarrow> int \<times> string \<times> source \<Rightarrow> bool res" where
  "ipp_response n junk jid i st =
     rbind (find_length n junk i st) (\<lambda>r.
     case r of None \<Rightarrow> Inr False
     | Some (len, i, datsz, bp, sk) \<Rightarrow>
     rbind (need_more (datsz \<le> int i) junk i (datsz, bp, sk)) (\<lambda>r.
     case r of None \<Rightarrow> Inr False
     | Some (datsz, bp, sk) \<Rightarrow>
     rbind (find_end n junk i (datsz, bp, sk)) (\<lambda>r.
     case r of None \<Rightarrow> Inr False
     | Some (i, datsz, bp, sk) \<Rightarrow>
     rbind (need_more (datsz - int i < len) junk i (datsz, bp, sk)) (\<lambda>r.
     case r of None \<Rightarrow> Inr False
     | Some (datsz, bp, sk) \<Rightarrow>
         if length bp < i + 8 then Inl Fault
         else
           let st = of_be16 (drop (i + 2) bp); jobid = of_le32 (rev (take 4 (drop (i + 4) bp))) in
           Inr (jobid = jid \<and> st \<le> 0xff)))))"

fun status_loop :: "nat \<Rightarrow> char \<Rightarrow> 32 word \<Rightarrow> string \<Rightarrow> source \<Rightarrow> bool res" where
  "status_loop 0 junk jid bp sk = Inl Diverges"
| "status_loop (Suc n) junk jid bp sk =
     (case tread sk (length bp) 5 of
        (RErr e, sk) \<Rightarrow> Inr False
      | (RGot bs, sk) \<Rightarrow>
          if bs = [] then Inr False
          else
            let bp = bs @ drop (length bs) bp; datsz = int (length bs) in
            rbind (skip_chars isspace bp 8) (\<lambda>statcode.
            rbind (skip_chars isdigit bp statcode) (\<lambda>cp.
            if cp = statcode then
              (if NUL \<notin> set bp \<or> CHR ''%'' \<in> set (cstr bp) then Inl Fault else status_loop n junk jid bp sk)
            else
              rbind (poke cp NUL bp) (\<lambda>bp.
              rbind (skip_chars (\<lambda>c. c \<noteq> CHR 0x0D \<and> c \<noteq> NEWLINE) bp (cp + 1)) (\<lambda>cp.
              rbind (poke cp NUL bp) (\<lambda>bp.
              let code = atoi (cstr (drop statcode bp)) in
              if 100 \<le> code \<and> code \<le> 199 then status_loop n junk jid bp sk
              else if \<not> (200 \<le> code \<and> code \<le> 299) then
                rbind (poke (length bs) NUL bp) (\<lambda>bp. Inr False)
              else ipp_response n junk jid cp (datsz, bp, sk)))))))"

definition printer_status :: "nat \<Rightarrow> char \<Rightarrow> 32 word \<Rightarrow> source \<Rightarrow> bool res" where
  "printer_status n junk jid sk = status_loop n junk jid (replicate IOBUFSZ junk) sk"

section \<open>Single steps\<close>

lemma skip_chars_ok:
  "list_all P B \<Longrightarrow> \<not> P c \<Longrightarrow> i = length A \<Longrightarrow> skip_chars P (A @ B @ c # C) i = Inr (length A + length B)"
proof (induction B arbitrary: A i)
  case Nil
  then show ?case by (simp add: skip_chars.simps)
next
  case (Cons b B)
  from Cons.IH [of "Suc i" "A @ [b]"] Cons.prems show ?case
    by (subst skip_chars.simps) (simp add: nth_append)
qed

lemma poke_ok: "poke (length A) c (A @ b # B) = Inr (A @ c # B)"
  by (simp add: poke_def)

lemma ncase_eq_same: "i = length A \<Longrightarrow> map lower s = ps \<Longrightarrow> ncase_eq ps (A @ s @ B) i = Inr True"
proof (induction ps arbitrary: A s i)
  case (Cons p ps)
  then obtain x s' where s: "s = x # s'" "lower x = p" "map lower s' = ps" by (cases s) auto
  from Cons.IH [of "Suc i" "A @ [x]" s'] Cons.prems(1) s show ?case by (simp add: nth_append)
qed simp

section \<open>Walking through the headers\<close>

lemma scan_c_at: "i < length bp \<Longrightarrow> bp ! i = CHR ''C'' \<or> bp ! i = CHR ''c'' \<Longrightarrow> scan_c bp i datsz = Inr i"
  by (subst scan_c.simps) auto

lemma scan_c_skip: "i < length bp \<Longrightarrow> bp ! i \<noteq> CHR ''C'' \<Longrightarrow> bp ! i \<noteq> CHR ''c'' \<Longrightarrow> int i < datsz \<Longrightarrow>
    scan_c bp i datsz = scan_c bp (Suc i) datsz"
  by (subst scan_c.simps) auto

lemma find_length_skip:
  "length B < n \<Longrightarrow> int (length A + length B) < datsz \<Longrightarrow>
     \<forall>j < length B. ncase_eq ''content-length:'' (A @ B @ R) (length A + j) = Inr False \<Longrightarrow>
     \<exists>m. find_length n junk (length A) (datsz, A @ B @ R, sk)
       = find_length (Suc m) junk (length A + length B) (datsz, A @ B @ R, sk)"
proof (induction B arbitrary: A n)
  case Nil
  then obtain m where "n = Suc m" by (cases n) auto
  then show ?case by auto
next
  case (Cons b B)
  then obtain n' where n: "n = Suc n'" "length B < n'" by (cases n) auto
  let ?bp = "A @ (b # B) @ R"
  have b: "?bp ! length A = b" by simp
  have nm: "ncase_eq ''content-length:'' ?bp (length A) = Inr False" using Cons.prems(3) [rule_format, of 0] by simp
  have rest: "\<forall>j < length B. ncase_eq ''content-length:'' ((A @ [b]) @ B @ R) (length (A @ [b]) + j) = Inr False"
  proof (intro allI impI)
    fix j assume "j < length B"
    with Cons.prems(3) [rule_format, of "Suc j"]
    show "ncase_eq ''content-length:'' ((A @ [b]) @ B @ R) (length (A @ [b]) + j) = Inr False" by simp
  qed
  have IH: "\<exists>m. find_length k junk (Suc (length A)) (datsz, ?bp, sk)
      = find_length (Suc m) junk (Suc (length A) + length B) (datsz, ?bp, sk)" if "length B < k" for k
    using Cons.IH [OF that _ rest] Cons.prems(2) by simp
  show ?case
  proof (cases "b = CHR ''C'' \<or> b = CHR ''c''")
    case True
    then have "find_length n junk (length A) (datsz, ?bp, sk) = find_length n' junk (Suc (length A)) (datsz, ?bp, sk)"
      using scan_c_at [of "length A" ?bp datsz] b nm Cons.prems(2) unfolding n by (simp add: need_more_def)
    with IH [OF n(2)] show ?thesis by simp
  next
    case False
    then have "scan_c ?bp (length A) datsz = scan_c ?bp (Suc (length A)) datsz"
      using scan_c_skip [of "length A" ?bp datsz] b Cons.prems(2) by simp
    then have "find_length n junk (length A) (datsz, ?bp, sk) = find_length n junk (Suc (length A)) (datsz, ?bp, sk)"
      unfolding n by simp
    with IH [of n] n show ?thesis by simp
  qed
qed

lemma find_length_hit:
  assumes "map lower h = ''content-length:''" "list_all isspace sp" "list_all isdigit ds" "ds \<noteq> []" "NUL \<notin> set ds"
    and "\<not> isdigit c" "\<forall>d \<in> set ds. \<not> isspace d" "int (length A) < datsz"
  shows "find_length (Suc m) junk (length A) (datsz, A @ h @ sp @ ds @ c # R, sk)
    = Inr (Some (atoi ds, length A + 15 + length sp + length ds + 1, datsz, A @ h @ sp @ ds @ NUL # R, sk))"
proof -
  let ?bp = "A @ h @ sp @ ds @ c # R"
  have h: "length h = 15" using arg_cong [OF assms(1), of length] by simp
  then obtain x h' where hx: "h = x # h'" by (cases h) auto
  then have "lower x = CHR ''c''" using assms(1) by simp
  then have x: "x = CHR ''C'' \<or> x = CHR ''c''"
  proof -
    have "\<forall>x. lower x = CHR ''c'' \<longrightarrow> x = CHR ''C'' \<or> x = CHR ''c''" by code_simp
    with \<open>lower x = CHR ''c''\<close> show ?thesis by blast
  qed
  have 1: "scan_c ?bp (length A) datsz = Inr (length A)" by (rule scan_c_at) (use x hx in auto)
  have 2: "ncase_eq ''content-length:'' ?bp (length A) = Inr True"
    using ncase_eq_same [OF refl assms(1), of A "sp @ ds @ c # R"] by simp
  obtain d ds' where ds: "ds = d # ds'" using assms(4) by (cases ds) auto
  have 3: "skip_chars isspace ?bp (length A + 15) = Inr (length A + 15 + length sp)"
    using skip_chars_ok [of isspace sp d "length A + 15" "A @ h" "ds' @ c # R"] assms(2,7) h ds by simp
  have 4: "skip_chars isdigit ?bp (length A + 15 + length sp) = Inr (length A + 15 + length sp + length ds)"
    using skip_chars_ok [of isdigit ds c "length A + 15 + length sp" "A @ h @ sp" R] assms(3,6) h by simp
  have 5: "poke (length A + 15 + length sp + length ds) NUL ?bp = Inr (A @ h @ sp @ ds @ NUL # R)"
    using poke_ok [of "A @ h @ sp @ ds" NUL c R] h by (simp add: add.assoc)
  have 6: "cstr (drop (length A + 15 + length sp) (A @ h @ sp @ ds @ NUL # R)) = ds"
    using h cstr_append_nul [OF assms(5)] by (simp add: add.assoc)
  show ?thesis using 1 2 3 4 5 6 assms(8) by (simp add: need_more_def)
qed

definition END_MARK :: string where
  "END_MARK = [NEWLINE, CHR 0x0D, NEWLINE]"

lemma length_END_MARK [simp]: "length END_MARK = 3"
  by (simp add: END_MARK_def)

lemma scan_end_step:
  "int i < datsz - 2 \<Longrightarrow> datsz \<le> int (length bp) \<Longrightarrow> take 3 (drop i bp) \<noteq> END_MARK \<Longrightarrow>
     scan_end bp i datsz = scan_end bp (Suc i) datsz"
proof -
  assume a: "int i < datsz - 2" "datsz \<le> int (length bp)" "take 3 (drop i bp) \<noteq> END_MARK"
  then have l: "i + 2 < length bp" by linarith
  then have "take 3 (drop i bp) = [bp ! i, bp ! (i + 1), bp ! (i + 2)]"
    by (intro nth_equalityI) (auto simp: less_Suc_eq numeral_3_eq_3)
  with a l show ?thesis by (subst scan_end.simps) (auto simp: END_MARK_def)
qed

lemma scan_end_hit:
  "\<forall>j < length T. take 3 (drop j (T @ END_MARK)) \<noteq> END_MARK \<Longrightarrow> int (length A + length T) + 3 \<le> datsz \<Longrightarrow>
     datsz \<le> int (length (A @ T @ END_MARK @ R)) \<Longrightarrow>
     scan_end (A @ T @ END_MARK @ R) (length A) datsz = Inr (True, length A + length T + 3)"
proof (induction T arbitrary: A)
  case Nil
  then show ?case by (subst scan_end.simps) (simp add: END_MARK_def nth_append)
next
  case (Cons x T)
  let ?bp = "A @ (x # T) @ END_MARK @ R"
  have "take 3 (drop (length A) ?bp) = take 3 ((x # T) @ END_MARK)" by simp
  also have "\<dots> \<noteq> END_MARK" using Cons.prems(1) [rule_format, of 0] by simp
  finally have "scan_end ?bp (length A) datsz = scan_end ?bp (Suc (length A)) datsz"
    using Cons.prems(2,3) by (intro scan_end_step) simp_all
  moreover have "\<forall>j < length T. take 3 (drop j (T @ END_MARK)) \<noteq> END_MARK"
    using Cons.prems(1) by (auto dest: spec [of _ "Suc j" for j])
  then have "scan_end ((A @ [x]) @ T @ END_MARK @ R) (length (A @ [x])) datsz = Inr (True, length (A @ [x]) + length T + 3)"
    using Cons.prems(2,3) by (intro Cons.IH) simp_all
  ultimately show ?case by simp
qed

lemma scan_end_none:
  "\<forall>j. int j < datsz - 2 \<longrightarrow> i \<le> j \<longrightarrow> take 3 (drop j bp) \<noteq> END_MARK \<Longrightarrow> int i < datsz \<Longrightarrow> datsz \<le> int (length bp) \<Longrightarrow>
     \<exists>i'. scan_end bp i datsz = Inr (False, i') \<and> i \<le> i' \<and> int i' < datsz"
proof (induction "nat datsz - i" arbitrary: i)
  case 0
  then show ?case by simp
next
  case (Suc k)
  show ?case
  proof (cases "datsz - 2 \<le> int i")
    case True
    then show ?thesis using Suc.prems by (subst scan_end.simps) auto
  next
    case False
    have "scan_end bp i datsz = scan_end bp (Suc i) datsz"
      using False Suc.prems by (intro scan_end_step) auto
    moreover have "\<exists>i'. scan_end bp (Suc i) datsz = Inr (False, i') \<and> Suc i \<le> i' \<and> int i' < datsz"
      using Suc.hyps Suc.prems False by (intro Suc.hyps(1)) auto
    ultimately show ?thesis by auto
  qed
qed

text \<open>With unread data left but no end of the header in it, the search makes no progress.\<close>

lemma find_end_hangs:
  "\<forall>j. int j < datsz - 2 \<longrightarrow> i \<le> j \<longrightarrow> take 3 (drop j bp) \<noteq> END_MARK \<Longrightarrow> int i < datsz \<Longrightarrow> datsz \<le> int (length bp) \<Longrightarrow>
     find_end n junk i (datsz, bp, sk) = Inl Diverges"
proof (induction n arbitrary: i)
  case (Suc n)
  obtain i' where i': "scan_end bp i datsz = Inr (False, i')" "i \<le> i'" "int i' < datsz"
    using scan_end_none [OF Suc.prems] by blast
  have "find_end n junk i' (datsz, bp, sk) = Inl Diverges"
    using Suc.prems i' by (intro Suc.IH) auto
  with i' show ?case by (simp add: need_more_def)
qed simp

section \<open>A response\<close>

text \<open>A printer's answer: the status line, then headers \<open>pre\<close>, the Content-Length header, and the rest.\<close>

record answer =
  version :: string
  code :: string
  reason :: string
  pre :: string
  cl_name :: string
  cl_value :: string
  rest :: string

definition answer_bytes :: "answer \<Rightarrow> string" where
  "answer_bytes a = version a @ SPACE # code a @ SPACE # reason a @ CHR 0x0D # pre a @ cl_name a @ SPACE # cl_value a
     @ CHR 0x0D # rest a"

definition digits :: "string \<Rightarrow> bool" where
  "digits s \<longleftrightarrow> s \<noteq> [] \<and> list_all isdigit s"

text \<open>Well formed: the first header that looks like Content-Length is the one named.\<close>

definition answer_ok :: "answer \<Rightarrow> bool" where
  "answer_ok a \<longleftrightarrow> length (version a) = 8 \<and> digits (code a) \<and> 200 \<le> atoi (code a) \<and> atoi (code a) \<le> 299
     \<and> CHR 0x0D \<notin> set (reason a) \<and> NEWLINE \<notin> set (reason a)
     \<and> map lower (cl_name a) = ''content-length:'' \<and> digits (cl_value a) \<and> rest a \<noteq> []
     \<and> (\<forall>j < length (pre a). ncase_eq ''content-length:'' (pre a @ cl_name a @ SPACE # cl_value a) j = Inr False)
     \<and> length (answer_bytes a) \<le> IOBUFSZ"

lemma ncase_eq_first: "lower x \<noteq> p \<Longrightarrow> ncase_eq (p # ps) (A @ x # B) (length A) = Inr False"
  by simp

lemma ncase_eq_append: "ncase_eq ps s i = Inr False \<Longrightarrow> ncase_eq ps (A @ s @ R) (length A + i) = Inr False"
proof (induction ps arbitrary: i)
  case (Cons p ps)
  from Cons.IH [of "Suc i"] Cons.prems show ?case by (auto simp: nth_append split: if_splits)
qed simp

lemma digits_facts:
  assumes "digits s"
  shows "s \<noteq> []" "list_all isdigit s" "NUL \<notin> set s" "\<forall>d \<in> set s. \<not> isspace d" "\<not> isspace (hd s)"
proof -
  have d: "list_all isdigit s" "s \<noteq> []" using assms by (simp_all add: digits_def)
  have "\<forall>c. isdigit c \<longrightarrow> c \<noteq> NUL \<and> \<not> isspace c" by code_simp
  with d show "s \<noteq> []" "list_all isdigit s" "NUL \<notin> set s" "\<forall>d \<in> set s. \<not> isspace d" "\<not> isspace (hd s)"
    by (auto simp: list_all_iff)
qed

text \<open>The buffer when the search for the end of the header starts.\<close>

definition seen :: "answer \<Rightarrow> string" where
  "seen a = version a @ SPACE # code a @ NUL # reason a @ NUL # pre a @ cl_name a @ SPACE # cl_value a @ [NUL]"

lemma status_prefix:
  assumes ok: "answer_ok a" and n: "length (answer_bytes a) < n"
  shows "printer_status n junk jid (Bytes (answer_bytes a) # sk) =
    (let pad = replicate (IOBUFSZ - length (answer_bytes a)) junk; datsz = int (length (answer_bytes a));
         bp = seen a @ rest a @ pad; len = atoi (cl_value a) in
     rbind (find_end (n - 1) junk (length (seen a)) (datsz, bp, sk)) (\<lambda>r.
     case r of None \<Rightarrow> Inr False
     | Some (i, datsz, bp, sk) \<Rightarrow>
       rbind (need_more (datsz - int i < len) junk i (datsz, bp, sk)) (\<lambda>r.
       case r of None \<Rightarrow> Inr False
       | Some (datsz, bp, sk) \<Rightarrow>
           if length bp < i + 8 then Inl Fault
           else
             let st = of_be16 (drop (i + 2) bp); jobid = of_le32 (rev (take 4 (drop (i + 4) bp))) in
             Inr (jobid = jid \<and> st \<le> 0xff))))"
proof -
  let ?resp = "answer_bytes a" and ?pad = "replicate (IOBUFSZ - length (answer_bytes a)) junk"
  let ?datsz = "int (length ?resp)"
  obtain m where m: "n = Suc m" "length ?resp \<le> m" using n by (cases n) auto
  have v: "length (version a) = 8" and c: "digits (code a)" "200 \<le> atoi (code a)" "atoi (code a) \<le> 299"
    and r: "list_all (\<lambda>c. c \<noteq> CHR 0x0D \<and> c \<noteq> NEWLINE) (reason a)" and d: "digits (cl_value a)" and tl: "rest a \<noteq> []"
    and h: "map lower (cl_name a) = ''content-length:''"
    and miss: "\<forall>j < length (pre a). ncase_eq ''content-length:'' (pre a @ cl_name a @ SPACE # cl_value a) j = Inr False"
    and small: "length ?resp \<le> IOBUFSZ"
    using ok by (auto simp: answer_ok_def list_all_iff)
  have ne: "?resp \<noteq> []" by (simp add: answer_bytes_def)
  have rd: "tread (Bytes ?resp # sk) IOBUFSZ 5 = (RGot ?resp, sk)" using small by simp
  have buf: "?resp @ drop (length ?resp) (replicate IOBUFSZ junk) = ?resp @ ?pad" by simp
  let ?v = "version a" and ?c = "code a" and ?re = "reason a"
  let ?t = "pre a @ cl_name a @ SPACE # cl_value a @ CHR 0x0D # rest a @ ?pad"
  let ?b1 = "?v @ SPACE # ?c @ SPACE # ?re @ CHR 0x0D # ?t"
  let ?b2 = "?v @ SPACE # ?c @ NUL # ?re @ CHR 0x0D # ?t"
  let ?b3 = "?v @ SPACE # ?c @ NUL # ?re @ NUL # ?t"
  have sp: "isspace SPACE" "\<not> isdigit SPACE" "\<not> isdigit (CHR 0x0D)" by code_simp+
  have b1: "?resp @ ?pad = ?b1" by (simp add: answer_bytes_def)
  obtain x xs where cx: "?c = x # xs" using c(1) by (cases ?c) (auto simp: digits_def)
  have 1: "skip_chars isspace ?b1 8 = Inr 9"
    using skip_chars_ok [of isspace "[SPACE]" x 8 ?v "xs @ SPACE # ?re @ CHR 0x0D # ?t"] v sp(1) digits_facts(5) [OF c(1)] cx
    by simp
  have 2: "skip_chars isdigit ?b1 9 = Inr (9 + length ?c)"
    using skip_chars_ok [of isdigit ?c SPACE 9 "?v @ [SPACE]" "?re @ CHR 0x0D # ?t"] v sp(2) digits_facts(2) [OF c(1)] by simp
  have 3: "poke (9 + length ?c) NUL ?b1 = Inr ?b2"
    using poke_ok [of "?v @ SPACE # ?c" NUL SPACE "?re @ CHR 0x0D # ?t"] v by simp
  have 4: "skip_chars (\<lambda>c. c \<noteq> CHR 0x0D \<and> c \<noteq> NEWLINE) ?b2 (9 + length ?c + 1) = Inr (10 + length ?c + length ?re)"
    using skip_chars_ok [of "\<lambda>c. c \<noteq> CHR 0x0D \<and> c \<noteq> NEWLINE" ?re "CHR 0x0D" "10 + length ?c" "?v @ SPACE # ?c @ [NUL]" ?t] v r
    by simp
  have 5: "poke (10 + length ?c + length ?re) NUL ?b2 = Inr ?b3"
    using poke_ok [of "?v @ SPACE # ?c @ NUL # ?re" NUL "CHR 0x0D" ?t] v by (simp add: add.assoc)
  have 6: "cstr (drop 9 ?b3) = ?c"
    using v cstr_append_nul [OF digits_facts(3) [OF c(1)]] by simp
  let ?i = "10 + length ?c + length ?re"
  have "printer_status n junk jid (Bytes ?resp # sk) = ipp_response m junk jid ?i (?datsz, ?b3, sk)"
    using 1 2 3 4 5 6 c(2,3) cx rd ne
    unfolding printer_status_def m(1) status_loop.simps length_replicate rd prod.case rdres.case buf b1 Let_def
    by simp
  also have "\<dots> = rbind (find_length m junk ?i (?datsz, ?b3, sk)) (\<lambda>r.
     case r of None \<Rightarrow> Inr False
     | Some (len, i, datsz, bp, sk) \<Rightarrow>
     rbind (need_more (datsz \<le> int i) junk i (datsz, bp, sk)) (\<lambda>r.
     case r of None \<Rightarrow> Inr False
     | Some (datsz, bp, sk) \<Rightarrow>
     rbind (find_end m junk i (datsz, bp, sk)) (\<lambda>r.
     case r of None \<Rightarrow> Inr False
     | Some (i, datsz, bp, sk) \<Rightarrow>
     rbind (need_more (datsz - int i < len) junk i (datsz, bp, sk)) (\<lambda>r.
     case r of None \<Rightarrow> Inr False
     | Some (datsz, bp, sk) \<Rightarrow>
         if length bp < i + 8 then Inl Fault
         else
           let st = of_be16 (drop (i + 2) bp); jobid = of_le32 (rev (take 4 (drop (i + 4) bp))) in
           Inr (jobid = jid \<and> st \<le> 0xff)))))"
    by (simp only: ipp_response_def)
  also have "find_length m junk ?i (?datsz, ?b3, sk) =
      Inr (Some (atoi (cl_value a), length (seen a), ?datsz, seen a @ rest a @ ?pad, sk))"
  proof -
    let ?A = "?v @ SPACE # ?c @ NUL # ?re" and ?B = "NUL # pre a"
    let ?R = "cl_name a @ [SPACE] @ cl_value a @ CHR 0x0D # rest a @ ?pad"
    have hl: "length (cl_name a) = 15" using arg_cong [OF h, of length] by simp
    have b3: "?b3 = ?A @ ?B @ ?R" and iA: "?i = length ?A" using v by simp_all
    have fuel: "length ?B < m" using m(2) by (simp add: answer_bytes_def)
    have room: "int (length ?A + length ?B) < ?datsz" by (simp add: answer_bytes_def)
    have nomatch: "\<forall>j < length ?B. ncase_eq ''content-length:'' (?A @ ?B @ ?R) (length ?A + j) = Inr False"
    proof (intro allI impI)
      fix j assume j: "j < length ?B"
      have "lower NUL \<noteq> CHR ''c''" by code_simp
      from ncase_eq_first [OF this, of "''ontent-length:''" ?A "pre a @ ?R"]
      have 0: "ncase_eq ''content-length:'' (?A @ ?B @ ?R) (length ?A + 0) = Inr False"
        by (simp del: ncase_eq.simps)
      show "ncase_eq ''content-length:'' (?A @ ?B @ ?R) (length ?A + j) = Inr False"
      proof (cases j)
        case (Suc k)
        then have "ncase_eq ''content-length:'' (pre a @ cl_name a @ SPACE # cl_value a) k = Inr False"
          using miss j by simp
        from ncase_eq_append [OF this, of "?A @ [NUL]" "CHR 0x0D # rest a @ ?pad"] Suc show ?thesis
          by (simp del: ncase_eq.simps)
      qed (use 0 in \<open>simp del: ncase_eq.simps\<close>)
    qed
    obtain k where "find_length m junk (length ?A) (?datsz, ?A @ ?B @ ?R, sk)
        = find_length (Suc k) junk (length ?A + length ?B) (?datsz, ?A @ ?B @ ?R, sk)"
      using find_length_skip [OF fuel room nomatch] by blast
    also have "\<dots> = find_length (Suc k) junk (length (?A @ ?B)) (?datsz, (?A @ ?B) @ cl_name a @ [SPACE] @ cl_value a
        @ CHR 0x0D # rest a @ ?pad, sk)" by (simp del: find_length.simps add: add.assoc)
    also have "\<dots> = Inr (Some (atoi (cl_value a), length (?A @ ?B) + 15 + length [SPACE] + length (cl_value a) + 1, ?datsz,
        (?A @ ?B) @ cl_name a @ [SPACE] @ cl_value a @ NUL # rest a @ ?pad, sk))"
      using room by (intro find_length_hit [OF h]) (use digits_facts [OF d] sp in simp_all)
    finally show ?thesis using hl unfolding b3 iA by (simp add: seen_def)
  qed
  moreover have "int (length (seen a)) < ?datsz" using tl by (simp add: seen_def answer_bytes_def)
  then have step: "need_more (?datsz \<le> int (length (seen a))) junk (length (seen a)) st = Inr (Some st)" for st
    by (cases st) (simp add: need_more_def)
  ultimately show ?thesis
    unfolding m(1) Let_def by (simp only: rbind_Inr option.case prod.case step diff_Suc_1)
qed

section \<open>Properties\<close>

lemma header_end_found:
  assumes ok: "answer_ok a" and r: "rest a = T @ END_MARK @ body" and m: "0 < m"
    and first: "\<forall>j < length T. take 3 (drop j (T @ END_MARK)) \<noteq> END_MARK" and b: "body \<noteq> []"
  shows "find_end m junk (length (seen a)) (int (length (answer_bytes a)), seen a @ rest a @ pad, sk)
    = Inr (Some (length (seen a @ T @ END_MARK), int (length (answer_bytes a)), seen a @ rest a @ pad, sk))"
proof -
  let ?datsz = "int (length (answer_bytes a))"
  obtain m' where m': "m = Suc m'" using m by (cases m) auto
  have len: "?datsz = int (length (seen a) + length T) + 3 + int (length body)"
    using r by (simp add: answer_bytes_def seen_def)
  have "scan_end (seen a @ T @ END_MARK @ body @ pad) (length (seen a)) ?datsz
      = Inr (True, length (seen a) + length T + 3)"
    by (rule scan_end_hit [OF first]) (use len in simp_all)
  then show ?thesis using len b r unfolding m' by (simp add: need_more_def)
qed

text \<open>C12: an answer of the printer that arrives in one read is accepted exactly when its
  request id is the job's and its status is a success code, whatever else the headers hold.\<close>

theorem printer_status_correct:
  assumes ok: "answer_ok a" and r: "rest a = T @ END_MARK @ body"
    and first: "\<forall>j < length T. take 3 (drop j (T @ END_MARK)) \<noteq> END_MARK"
    and b: "8 \<le> length body" "atoi (cl_value a) \<le> int (length body)" and n: "length (answer_bytes a) < n"
  shows "printer_status n junk jid (Bytes (answer_bytes a) # sk)
    = Inr (of_le32 (rev (take 4 (drop 4 body))) = jid \<and> of_be16 (drop 2 body) \<le> 0xff)"
proof -
  let ?pad = "replicate (IOBUFSZ - length (answer_bytes a)) junk"
  have len: "int (length (answer_bytes a)) = int (length (seen a @ T @ END_MARK)) + int (length body)"
    using r by (simp add: answer_bytes_def seen_def)
  have m: "0 < n - 1" using n len b by linarith
  obtain b0 b1 b2 b3 b4 b5 b6 b7 bs where "body = b0 # b1 # b2 # b3 # b4 # b5 # b6 # b7 # bs"
    using b(1) by (auto simp: numeral_eq_Suc Suc_le_length_iff)
  then show ?thesis
    using header_end_found [OF ok r m first, of junk ?pad sk] b len
    by (simp add: status_prefix [OF ok n] Let_def need_more_def r of_be16_def)
qed

definition good_answer :: answer where
  "good_answer = \<lparr>version = ''HTTP/1.1'', code = ''200'', reason = ''OK'',
     pre = NEWLINE # ''Cache: no'' @ [CHR 0x0D, NEWLINE], cl_name = ''CONTENT-LENGTH:'', cl_value = ''8'',
     rest = NEWLINE # ''Server: x'' @ [CHR 0x0D] @ END_MARK @ map char_of [1::nat, 1, 0, 0, 0, 0, 0, 7]\<rparr>"

theorem printer_status_correct_witness:
  "printer_status 200 NUL 7 [Bytes (answer_bytes good_answer)] = Inr True
   \<and> printer_status 200 NUL 8 [Bytes (answer_bytes good_answer)] = Inr False"
proof -
  have ok: "answer_ok good_answer" by code_simp
  have r: "rest good_answer = (NEWLINE # ''Server: x'' @ [CHR 0x0D]) @ END_MARK @ map char_of [1::nat, 1, 0, 0, 0, 0, 0, 7]"
    by (simp add: good_answer_def)
  have f: "\<forall>j < length (NEWLINE # ''Server: x'' @ [CHR 0x0D]).
      take 3 (drop j ((NEWLINE # ''Server: x'' @ [CHR 0x0D]) @ END_MARK)) \<noteq> END_MARK" by code_simp
  have l: "atoi (cl_value good_answer) \<le> int (length (map (char_of :: nat \<Rightarrow> char) [1::nat, 1, 0, 0, 0, 0, 0, 7]))"
    "length (answer_bytes good_answer) < 200" by code_simp+
  note c = printer_status_correct [OF ok r f _ l, of NUL _ "[]"]
  show ?thesis using c [of 7] c [of 8] by (simp add: of_le32_def of_be16_def)
qed

text \<open>when the first read brings the Content-Length header but not the blank line, printer_status
  never returns, whatever the printer sends later: no amount of fuel ends the search for the end of the header.\<close>

theorem printer_status_hangs:
  assumes ok: "answer_ok a" and none: "\<forall>j < length (rest a). take 3 (drop j (rest a)) \<noteq> END_MARK"
    and n: "length (answer_bytes a) < n"
  shows "printer_status n junk jid (Bytes (answer_bytes a) # later) = Inl Diverges"
proof -
  let ?bp = "seen a @ rest a @ replicate (IOBUFSZ - length (answer_bytes a)) junk"
  let ?datsz = "int (length (answer_bytes a))"
  have len: "?datsz = int (length (seen a)) + int (length (rest a))"
    by (simp add: answer_bytes_def seen_def)
  have pos: "rest a \<noteq> []" using ok by (simp add: answer_ok_def)
  have "find_end (n - 1) junk (length (seen a)) (?datsz, ?bp, later) = Inl Diverges"
  proof (rule find_end_hangs)
    show "\<forall>j. int j < ?datsz - 2 \<longrightarrow> length (seen a) \<le> j \<longrightarrow> take 3 (drop j ?bp) \<noteq> END_MARK"
    proof (intro allI impI)
      fix j assume j: "int j < ?datsz - 2" "length (seen a) \<le> j"
      then obtain k where k: "j = length (seen a) + k" by (auto simp: le_iff_add)
      with j len have "k + 2 < length (rest a)" by linarith
      then have "take 3 (drop j ?bp) = take 3 (drop k (rest a))" using k by simp
      with none \<open>k + 2 < length (rest a)\<close> show "take 3 (drop j ?bp) \<noteq> END_MARK" by simp
    qed
  qed (use len pos in simp_all)
  then show ?thesis by (simp only: status_prefix [OF ok n] Let_def rbind_Inl)
qed

definition split_answer :: answer where
  "split_answer = \<lparr>version = ''HTTP/1.1'', code = ''200'', reason = ''OK'', pre = [NEWLINE],
     cl_name = ''Content-Length:'', cl_value = ''8'', rest = NEWLINE # ''Serv''\<rparr>"

theorem printer_status_hangs_witness:
  "\<forall>k. printer_status (200 + k) NUL 7 [Bytes (answer_bytes split_answer), Bytes (''er: x'' @ CHR 0x0D # END_MARK)] = Inl Diverges"
proof
  fix k
  have ok: "answer_ok split_answer" by code_simp
  have r: "rest split_answer = NEWLINE # ''Serv''" by (simp add: split_answer_def)
  have f: "\<forall>j < length (rest split_answer). take 3 (drop j (rest split_answer)) \<noteq> END_MARK"
    unfolding r by (auto simp: END_MARK_def less_Suc_eq)
  have "length (answer_bytes split_answer) < 200" by code_simp
  then have n: "length (answer_bytes split_answer) < 200 + k" by simp
  show "printer_status (200 + k) NUL 7 [Bytes (answer_bytes split_answer), Bytes (''er: x'' @ CHR 0x0D # END_MARK)] = Inl Diverges"
    by (rule printer_status_hangs [OF ok f n])
qed

end
