(* ===== verification/PrintConfig.thy ===== *)
theory PrintConfig imports Prelude begin

text \<open>
  The helpers of the print spooler: the configuration file (printer/util.c), connecting with exponential
  backoff (sockets/clconn2.c) and setting up a server socket (sockets/initsrv2.c). Name resolution
  (\<^verbatim>\<open>getaddrinfo\<close>) is an argument; a socket call's result comes from the environment.
\<close>

section \<open>The configuration file\<close>

definition MAXCFGLINE :: nat where "MAXCFGLINE = 512"
definition MAXKWLEN :: nat where "MAXKWLEN = 16"

text \<open>\<^verbatim>\<open>fgets\<close>: at most \<open>n\<close> bytes, up to and with the next newline.\<close>

fun take_line :: "nat \<Rightarrow> string \<Rightarrow> string \<times> string" where
  "take_line 0 s = ([], s)"
| "take_line (Suc n) [] = ([], [])"
| "take_line (Suc n) (c # s) =
     (if c = NEWLINE then ([c], s) else (let (a, b) = take_line n s in (c # a, b)))"

text \<open>The conversion \<open>%ns\<close> of \<^verbatim>\<open>sscanf\<close>: skip white space, then at most \<open>n\<close> other characters.\<close>

definition scan_word :: "nat \<Rightarrow> string \<Rightarrow> string \<times> string" where
  "scan_word n s = (let t = dropWhile isspace s; w = take n (takeWhile (\<lambda>c. \<not> isspace c) t) in (w, drop (length w) t))"

text \<open>The two words of a line, if \<^verbatim>\<open>sscanf\<close> returns 2.\<close>

definition scan_pair :: "string \<Rightarrow> (string \<times> string) option" where
  "scan_pair line =
     (let (keybuf, r) = scan_word (MAXKWLEN - 1) line; (valbuf, r') = scan_word (MAXCFGLINE - 1) r in
      if keybuf = [] \<or> valbuf = [] then None else Some (keybuf, valbuf))"

lemma take_line_shrinks: "take_line n s = (a, b) \<Longrightarrow> 0 < n \<Longrightarrow> s \<noteq> [] \<Longrightarrow> length b < length s"
proof (induction n s arbitrary: a b rule: take_line.induct)
  case (3 n c s)
  show ?case
  proof (cases "c = NEWLINE \<or> n = 0 \<or> s = []")
    case True
    with "3.prems" show ?thesis by (cases n) (auto split: if_splits prod.splits)
  next
    case False
    with "3.prems" 3 show ?thesis by (fastforce split: prod.splits)
  qed
qed auto

function scan_lines :: "string \<Rightarrow> string \<Rightarrow> string option" where
  "scan_lines keyword f =
     (if f = [] then None
      else
        let (line, f') = take_line (MAXCFGLINE - 1) f in
        case scan_pair (cstr line) of
          Some (keybuf, valbuf) \<Rightarrow> if keyword = keybuf then Some valbuf else scan_lines keyword f'
        | None \<Rightarrow> scan_lines keyword f')"
  by pat_completeness auto
termination
  by (relation "measure (\<lambda>(keyword, f). length f)")
     (auto dest: take_line_shrinks [OF sym] simp: MAXCFGLINE_def)

declare scan_lines.simps [simp del]

text \<open>\<open>conf\<close> is the content of the file, or \<open>None\<close> if it cannot be opened.\<close>

definition scan_configfile :: "string option \<Rightarrow> string \<Rightarrow> string option res" where
  "scan_configfile conf keyword =
     (case conf of None \<Rightarrow> Inl (Sys ''can't open /etc/printer.conf'') | Some f \<Rightarrow> Inr (scan_lines keyword f))"

definition get_printserver :: "string option \<Rightarrow> string option res" where
  "get_printserver conf = scan_configfile conf ''printserver''"

record addrinfo =
  ai_addr :: nat
  ai_canonname :: "string option"

definition get_printaddr ::
    "(string \<Rightarrow> string \<Rightarrow> int + addrinfo list) \<Rightarrow> string option \<Rightarrow> addrinfo list option res" where
  "get_printaddr getaddrlist conf =
     rbind (scan_configfile conf ''printer'') (\<lambda>p.
     case p of
       Some p \<Rightarrow> (case getaddrlist p ''ipp'' of Inl err \<Rightarrow> Inr None | Inr ailist \<Rightarrow> Inr (Some ailist))
     | None \<Rightarrow> Inr None)"

section \<open>Connecting\<close>

datatype net_event = Closed int | Slept nat

definition MAXSLEEP :: nat where "MAXSLEEP = 128"

text \<open>\<open>att numsec\<close> is what the attempt before a pause of \<open>numsec\<close> seconds meets: the descriptor
  \<^verbatim>\<open>socket\<close> returns, and whether \<^verbatim>\<open>connect\<close> succeeds.\<close>

fun connect_loop :: "nat \<Rightarrow> (nat \<Rightarrow> int \<times> bool) \<Rightarrow> nat \<Rightarrow> net_event list \<Rightarrow> (int \<times> net_event list) res" where
  "connect_loop 0 att numsec evs = Inl Diverges"
| "connect_loop (Suc n) att numsec evs =
     (if MAXSLEEP < numsec then Inr (-1, evs)
      else case att numsec of (fd, connected) \<Rightarrow>
        if fd < 0 then Inr (-1, evs)
        else if connected then Inr (fd, evs)
        else connect_loop n att (2 * numsec)
          (evs @ Closed fd # (if numsec \<le> MAXSLEEP div 2 then [Slept numsec] else [])))"

text \<open>Eight attempts and the final test.\<close>

definition connect_retry :: "(nat \<Rightarrow> int \<times> bool) \<Rightarrow> (int \<times> net_event list) res" where
  "connect_retry att = connect_loop 9 att 1 []"

text \<open>\<^verbatim>\<open>initserver\<close>: the arguments are the descriptor of \<^verbatim>\<open>socket\<close> and the error numbers of the other
  calls (0 for success); the result is its value, \<^verbatim>\<open>errno\<close>, and what it closed. \<open>close_err\<close> is what
  \<^verbatim>\<open>close\<close> leaves in \<^verbatim>\<open>errno\<close>.\<close>

definition initserver :: "bool \<Rightarrow> int \<Rightarrow> int \<Rightarrow> int \<Rightarrow> int \<Rightarrow> int \<Rightarrow> int \<Rightarrow> int \<times> int \<times> net_event list" where
  "initserver stream fd sock_err opt_err bind_err listen_err close_err =
     (let errout = (\<lambda>e. let err = e; er = close_err; er = err in (-1, er, [Closed fd])) in
      if fd < 0 then (-1, sock_err, [])
      else if opt_err \<noteq> 0 then errout opt_err
      else if bind_err \<noteq> 0 then errout bind_err
      else if stream \<and> listen_err \<noteq> 0 then errout listen_err
      else (fd, 0, []))"

section \<open>Lemmas\<close>

lemma take_line_newline:
  "NEWLINE \<notin> set a \<Longrightarrow> length a < n \<Longrightarrow> take_line n (a @ NEWLINE # b) = (a @ [NEWLINE], b)"
proof (induction a arbitrary: n)
  case Nil
  then show ?case by (cases n) simp_all
next
  case (Cons c a)
  then obtain m where "n = Suc m" "length a < m" by (cases n) auto
  with Cons show ?case by auto
qed

definition word_ok :: "nat \<Rightarrow> string \<Rightarrow> bool" where
  "word_ok n w \<longleftrightarrow> w \<noteq> [] \<and> length w \<le> n \<and> NUL \<notin> set w \<and> (\<forall>c \<in> set w. \<not> isspace c)"

lemma scan_word_ok: "word_ok n w \<Longrightarrow> isspace c \<Longrightarrow> scan_word n (w @ c # t) = (w, c # t)"
  by (cases w) (auto simp: scan_word_def word_ok_def takeWhile_append2 Let_def)

lemma scan_word_space: "isspace c \<Longrightarrow> scan_word n (c # t) = scan_word n t"
  by (simp add: scan_word_def)

definition config_line :: "string \<times> string \<Rightarrow> string" where
  "config_line kv = fst kv @ SPACE # snd kv @ [NEWLINE]"

definition config_ok :: "string \<times> string \<Rightarrow> bool" where
  "config_ok kv \<longleftrightarrow> word_ok 15 (fst kv) \<and> word_ok 494 (snd kv)"

lemma isspace_blank [simp]: "isspace SPACE" "isspace NEWLINE"
  by code_simp+

lemma scan_pair_line: "config_ok kv \<Longrightarrow> scan_pair (cstr (config_line kv)) = Some kv"
proof -
  assume a: "config_ok kv"
  obtain k v where kv: "kv = (k, v)" by (cases kv)
  have ok: "word_ok 15 k" "word_ok 511 v" "k \<noteq> []" "v \<noteq> []" "NUL \<notin> set k" "NUL \<notin> set v"
    using a by (auto simp: kv config_ok_def word_ok_def)
  have "cstr (config_line kv) = config_line kv" using ok by (intro cstr_id) (simp add: kv config_line_def)
  then show ?thesis
    using scan_word_ok [OF ok(1) isspace_blank(1), of "v @ [NEWLINE]"] scan_word_ok [OF ok(2) isspace_blank(2), of "[]"] ok(3,4)
    by (simp add: scan_pair_def kv config_line_def MAXKWLEN_def MAXCFGLINE_def scan_word_space)
qed

lemma take_line_config:
  "config_ok kv \<Longrightarrow> take_line 511 (config_line kv @ f) = (config_line kv, f)"
proof -
  assume a: "config_ok kv"
  have "\<forall>c. \<not> isspace c \<longrightarrow> c \<noteq> NEWLINE" by (metis isspace_blank(2))
  with a have "NEWLINE \<notin> set (fst kv @ SPACE # snd kv)" by (auto simp: config_ok_def word_ok_def)
  from take_line_newline [OF this, of 511 f] a show ?thesis
    by (simp add: config_line_def config_ok_def word_ok_def)
qed

lemma scan_lines_config:
  "\<forall>kv \<in> set kvs. config_ok kv \<Longrightarrow> scan_lines keyword (concat (map config_line kvs)) = map_of kvs keyword"
proof (induction kvs)
  case Nil
  show ?case by (simp add: scan_lines.simps)
next
  case (Cons kv kvs)
  have ok: "config_ok kv" using Cons.prems by simp
  have "config_line kv \<noteq> []" by (simp add: config_line_def)
  with Cons show ?case
    by (subst scan_lines.simps)
       (auto simp: take_line_config [OF ok] scan_pair_line [OF ok] MAXCFGLINE_def split: prod.splits)
qed

definition slept :: "net_event list \<Rightarrow> nat list" where
  "slept evs = concat (map (\<lambda>e. case e of Slept k \<Rightarrow> [k] | _ \<Rightarrow> []) evs)"

definition closed :: "net_event list \<Rightarrow> int list" where
  "closed evs = concat (map (\<lambda>e. case e of Closed k \<Rightarrow> [k] | _ \<Rightarrow> []) evs)"

lemma slept_simps [simp]: "slept [] = []" "slept (Closed k # evs) = slept evs" "slept (Slept j # evs) = j # slept evs"
  "slept (a @ b) = slept a @ slept b"
  by (simp_all add: slept_def)

lemma closed_simps [simp]: "closed [] = []" "closed (Closed k # evs) = k # closed evs" "closed (Slept j # evs) = closed evs"
  "closed (a @ b) = closed a @ closed b"
  by (simp_all add: closed_def)

text \<open>The loop after \<open>k\<close> failed attempts.\<close>

lemma connect_loop_from:
  assumes "k \<le> 8" "n = 9 - k"
  shows "\<exists>m r evs'. k \<le> m \<and> m \<le> 8 \<and> connect_loop n att (2 ^ k) evs = Inr (r, evs @ evs')
    \<and> closed evs' = map (\<lambda>i. fst (att (2 ^ i))) [k..<m] \<and> slept evs' = map (\<lambda>i. 2 ^ i) [k..<min m 7]
    \<and> (\<forall>i. k \<le> i \<longrightarrow> i < m \<longrightarrow> 0 \<le> fst (att (2 ^ i)) \<and> \<not> snd (att (2 ^ i)))
    \<and> (if m < 8 \<and> 0 \<le> fst (att (2 ^ m)) then snd (att (2 ^ m)) \<and> r = fst (att (2 ^ m)) else r = -1)"
  using assms
proof (induction "8 - k" arbitrary: k n evs)
  case 0
  then show ?case by (intro exI [of _ 8] exI [of _ "-1"] exI [of _ "[]"]) (auto simp: MAXSLEEP_def)
next
  case (Suc d)
  have k: "k < 8" "n = Suc (8 - k)" using Suc.hyps(2) Suc.prems by auto
  have "(2::nat) ^ k \<le> 2 ^ 7" using k by (intro power_increasing) auto
  then have sm: "\<not> MAXSLEEP < 2 ^ k" by (simp add: MAXSLEEP_def)
  obtain fd c where t: "att (2 ^ k) = (fd, c)" by (cases "att (2 ^ k)")
  show ?case
  proof (cases "fd < 0 \<or> c")
    case True
    then show ?thesis using k sm t
      by (intro exI [of _ k] exI [of _ "if fd < 0 then -1 else fd"] exI [of _ "[]"]) auto
  next
    case False
    let ?e = "Closed fd # (if 2 ^ k \<le> MAXSLEEP div 2 then [Slept (2 ^ k)] else [])"
    have pause: "2 ^ k \<le> MAXSLEEP div 2 \<longleftrightarrow> k < 7"
      using power_increasing_iff [of "2::nat" k 6] by (auto simp: MAXSLEEP_def)
    have step: "connect_loop n att (2 ^ k) evs = connect_loop (8 - k) att (2 ^ Suc k) (evs @ ?e)"
      using k sm t False by simp
    have d: "d = 8 - Suc k" "Suc k \<le> 8" "8 - k = 9 - Suc k" using Suc.hyps(2) k by auto
    obtain m r evs' where m: "Suc k \<le> m" "m \<le> 8" "connect_loop (8 - k) att (2 ^ Suc k) (evs @ ?e) = Inr (r, (evs @ ?e) @ evs')"
      "closed evs' = map (\<lambda>i. fst (att (2 ^ i))) [Suc k..<m]" "slept evs' = map (\<lambda>i. 2 ^ i) [Suc k..<min m 7]"
      "\<forall>i. Suc k \<le> i \<longrightarrow> i < m \<longrightarrow> 0 \<le> fst (att (2 ^ i)) \<and> \<not> snd (att (2 ^ i))"
      "if m < 8 \<and> 0 \<le> fst (att (2 ^ m)) then snd (att (2 ^ m)) \<and> r = fst (att (2 ^ m)) else r = -1"
      using Suc.hyps(1) [OF d] by blast
    have u: "[k..<m] = k # [Suc k..<m]" "k < 7 \<Longrightarrow> [k..<min m 7] = k # [Suc k..<min m 7]"
      "\<not> k < 7 \<Longrightarrow> [k..<min m 7] = [] \<and> [Suc k..<min m 7] = []"
      using m(1) by (simp_all add: upt_conv_Cons)
    have "\<forall>i. k \<le> i \<longrightarrow> i < m \<longrightarrow> 0 \<le> fst (att (2 ^ i)) \<and> \<not> snd (att (2 ^ i))"
      using m(6) t False by (metis Suc_leI fst_conv le_eq_less_or_eq not_less snd_conv)
    then show ?thesis using m u t pause unfolding step
      by (intro exI [of _ m] exI [of _ r] exI [of _ "?e @ evs'"]) (auto split: if_splits)
  qed
qed

section \<open>Properties\<close>

text \<open>\<^verbatim>\<open>scan_configfile\<close> finds the value of the first line with the keyword in a file of lines of
  the form "keyword value", and nothing when there is none.\<close>

theorem config_lookup:
  assumes "\<forall>kv \<in> set kvs. config_ok kv"
  shows "scan_configfile (Some (concat (map config_line kvs))) keyword = Inr (map_of kvs keyword)"
  using scan_lines_config [OF assms] by (simp add: scan_configfile_def)

theorem config_lookup_witness:
  "get_printserver (Some (concat (map config_line [(''printer'', ''lp''), (''printserver'', ''blade'')]))) = Inr (Some ''blade'')"
proof -
  have "\<forall>kv \<in> set [(''printer'', ''lp''), (''printserver'', ''blade'')]. config_ok kv" by code_simp
  from config_lookup [OF this, of "''printserver''"] show ?thesis by (simp add: get_printserver_def)
qed

text \<open>\<^verbatim>\<open>connect_retry\<close> returns after at most eight attempts and pauses of 127 seconds in all; it
  returns the descriptor of the first attempt that connects, or -1; it closes every other descriptor it
  opened, and the pauses double from one second.\<close>

theorem connect_retry_backoff:
  "\<exists>m r evs. m \<le> 8 \<and> connect_retry att = Inr (r, evs) \<and> slept evs = map (\<lambda>i. 2 ^ i) [0..<min m 7] \<and> sum_list (slept evs) \<le> 127
    \<and> closed evs = map (\<lambda>i. fst (att (2 ^ i))) [0..<m]
    \<and> list_all (\<lambda>i. 0 \<le> fst (att (2 ^ i)) \<and> \<not> snd (att (2 ^ i))) [0..<m]
    \<and> (if m < 8 \<and> 0 \<le> fst (att (2 ^ m)) then snd (att (2 ^ m)) \<and> r = fst (att (2 ^ m)) else r = -1)"
proof -
  obtain m r evs where m: "m \<le> 8" "connect_retry att = Inr (r, evs)"
    "closed evs = map (\<lambda>i. fst (att (2 ^ i))) [0..<m]" "slept evs = map (\<lambda>i. 2 ^ i) [0..<min m 7]"
    "\<forall>i. i < m \<longrightarrow> 0 \<le> fst (att (2 ^ i)) \<and> \<not> snd (att (2 ^ i))"
    "if m < 8 \<and> 0 \<le> fst (att (2 ^ m)) then snd (att (2 ^ m)) \<and> r = fst (att (2 ^ m)) else r = -1"
    using connect_loop_from [of 0 9 att "[]"] by (auto simp: connect_retry_def)
  have "sum_list (map (\<lambda>i. 2 ^ i) [0..<k]) < (2 :: nat) ^ k" for k by (induction k) auto
  from this [of "min m 7"] have "sum_list (slept evs) < 2 ^ min m 7" using m(4) by simp
  also have "\<dots> \<le> 2 ^ 7" by (intro power_increasing) auto
  finally have "sum_list (slept evs) \<le> 127" by simp
  moreover have "list_all (\<lambda>i. 0 \<le> fst (att (2 ^ i)) \<and> \<not> snd (att (2 ^ i))) [0..<m]"
    using m(5) by (simp add: list_all_iff)
  ultimately show ?thesis using m by (intro exI [of _ m] exI [of _ r] exI [of _ evs] conjI)
qed

end
