(* ===== verification/PrintServer.thy ===== *)
theory PrintServer imports PrintWorkers PrintStatus PrintConfig begin

text \<open>
  The threads of the print spooler daemon (printer/printd.c) over its bookkeeping: \<^verbatim>\<open>client_thread\<close>
  receives a job into the spool directory, \<^verbatim>\<open>build_qonstart\<close> finds it again after a restart, and
  \<^verbatim>\<open>printer_thread\<close> sends it to the printer. Each call on a file of the spool directory meets an
  outcome of the environment, in the order of the calls; an empty list lets them all succeed.
\<close>

section \<open>The spool directory\<close>

datatype fcall = Works | Refused int | Partial nat

fun next_call :: "fcall list \<Rightarrow> fcall \<times> fcall list" where
  "next_call [] = (Works, [])"
| "next_call (x # os) = (x, os)"

definition EIO :: int where "EIO = 5"

definition spool_name :: "string \<Rightarrow> string \<Rightarrow> string" where
  "spool_name dir entry = SPOOLDIR @ ''/'' @ dir @ ''/'' @ entry"

definition job_file :: "string \<Rightarrow> 32 word \<Rightarrow> string" where
  "job_file dir jid = spool_name dir (show_int (sint jid))"

text \<open>\<^verbatim>\<open>creat\<close>: the error number if it fails.\<close>

definition f_creat :: "string \<Rightarrow> fcall list \<Rightarrow> printd \<Rightarrow> int option \<times> fcall list \<times> printd" where
  "f_creat name os s =
     (case next_call os of
        (Refused e, os) \<Rightarrow> (Some e, os, s)
      | (_, os) \<Rightarrow> (None, os, s\<lparr>spool := (spool s)(name \<mapsto> [])\<rparr>))"

text \<open>\<^verbatim>\<open>write\<close> at the end of a file the caller created: its value and \<^verbatim>\<open>errno\<close>.\<close>

definition f_append :: "string \<Rightarrow> string \<Rightarrow> printd \<Rightarrow> printd" where
  "f_append name bs s = s\<lparr>spool := (spool s)(name := map_option (\<lambda>f. f @ bs) (spool s name))\<rparr>"

definition f_write :: "string \<Rightarrow> string \<Rightarrow> fcall list \<Rightarrow> printd \<Rightarrow> int \<times> int \<times> fcall list \<times> printd" where
  "f_write name bs os s =
     (case next_call os of
        (Refused e, os) \<Rightarrow> (-1, e, os, s)
      | (Partial k, os) \<Rightarrow> (int (min k (length bs)), 0, os, f_append name (take k bs) s)
      | (Works, os) \<Rightarrow> (int (length bs), 0, os, f_append name bs s))"

definition f_unlink :: "string \<Rightarrow> printd \<Rightarrow> printd" where
  "f_unlink name s = s\<lparr>spool := (spool s)(name := None)\<rparr>"

section \<open>client_thread\<close>

definition MSGLEN_MAX :: nat where "MSGLEN_MAX = 512"

record printresp =
  retcode :: "32 word"
  res_jobid :: "32 word"
  msg :: string

definition encode_resp :: "printresp \<Rightarrow> string" where
  "encode_resp r = le32 (retcode r) @ le32 (res_jobid r) @ msg r"

text \<open>What a client thread meets: the results of \<^verbatim>\<open>malloc\<close>, the bytes on its socket, the outcomes of its
  calls on files, and what the stack holds where \<^verbatim>\<open>res.msg\<close> and \<^verbatim>\<open>buf\<close> are. \<open>strerror\<close> is the libc function.\<close>

record client_env =
  worker_mem :: "addr option"
  job_mem :: "addr option"
  from_client :: source
  file_calls :: "fcall list"
  old_msg :: string
  old_buf :: string
  strerror :: "int \<Rightarrow> string"

text \<open>The reply to a failure. The message is that of the error number in network byte order, as the code
  passes it.\<close>

definition reject :: "client_env \<Rightarrow> int \<Rightarrow> printd \<Rightarrow> printd" where
  "reject E err s =
     (let rc = htonl (word_of_int err) in
      event (Reply (encode_resp \<lparr>retcode = rc, res_jobid = 0,
        msg = c_strncpy (old_msg E) (strerror E (sint rc)) MSGLEN_MAX\<rparr>)) s)"

text \<open>The loop that stores the data: \<open>Some e\<close> if a write failed with error \<open>e\<close>, and the flags.\<close>

function recv_data ::
    "string \<Rightarrow> source \<Rightarrow> fcall list \<Rightarrow> bool \<Rightarrow> string \<Rightarrow> 32 word \<Rightarrow> printd \<Rightarrow> int option \<times> 32 word \<times> fcall list \<times> printd" where
  "recv_data name src os first buf flags s =
     (case tread src IOBUFSZ 20 of
        (RErr e, src') \<Rightarrow> (None, flags, os, s)
      | (RGot bs, src') \<Rightarrow>
          if bs = [] then (None, flags, os, s)
          else
            let buf = bs @ drop (length bs) buf;
                flags = (if first \<and> take 4 buf \<noteq> ''%!PS'' then flags OR PR_TEXT else flags) in
            case f_write name bs os s of (nw, e, os, s) \<Rightarrow>
              if nw \<noteq> int (length bs) then (Some (if nw < 0 then e else EIO), flags, os, s)
              else recv_data name src' os False buf flags s)"
  by pat_completeness auto
termination
  by (relation "measure (\<lambda>(name, src, r). length (t_avail 20 20 src))")
     (auto dest!: tread_got [OF sym, where t = 20] simp: IOBUFSZ_def)

declare recv_data.simps [simp del]

text \<open>The thread; the result is whether the job was queued.\<close>

definition client_exit :: "nat \<Rightarrow> nat \<Rightarrow> printd \<Rightarrow> (bool \<times> printd) res" where
  "client_exit n t s = rbind (client_cleanup n t s) (\<lambda>s. Inr (False, s))"

text \<open>The part from \<^verbatim>\<open>creat\<close> of the control file on.\<close>

definition queue_job :: "client_env \<Rightarrow> nat \<Rightarrow> nat \<Rightarrow> 32 word \<Rightarrow> printreq \<Rightarrow> fcall list \<Rightarrow> printd \<Rightarrow> (bool \<times> printd) res" where
  "queue_job E n t jid r os s =
     (let name = job_file REQDIR jid; data = job_file DATADIR jid in
      case f_creat name os s of
        (Some e, os, s) \<Rightarrow>
          client_exit n t (f_unlink data (reject E e (event (Log (''client_thread: can't create '' @ name)) s)))
      | (None, os, s) \<Rightarrow>
          (case f_write name (encode_req r) os s of (nw, e, os, s) \<Rightarrow>
            if nw \<noteq> int REQSZ then
              client_exit n t (f_unlink data (f_unlink name (reject E (if nw < 0 then e else EIO)
                (event (Log (''client_thread: can't write '' @ name)) s))))
            else
              let s = event (Reply (encode_resp \<lparr>retcode = 0, res_jobid = htonl jid,
                msg = c_strcpy (old_msg E) (''request ID '' @ show_int (sint jid))\<rparr>)) s in
              rbind (add_job (job_mem E) r jid s) (\<lambda>s.
              rbind (client_cleanup n t s) (\<lambda>s. Inr (True, s)))))"

text \<open>The part from \<^verbatim>\<open>creat\<close> of the data file on.\<close>

definition store_job :: "client_env \<Rightarrow> nat \<Rightarrow> nat \<Rightarrow> source \<Rightarrow> 32 word \<Rightarrow> printreq \<Rightarrow> printd \<Rightarrow> (bool \<times> printd) res" where
  "store_job E n t src jid r s =
     (let name = job_file DATADIR jid in
      case f_creat name (file_calls E) s of
        (Some e, os, s) \<Rightarrow> client_exit n t (reject E e (event (Log (''client_thread: can't create '' @ name)) s))
      | (None, os, s) \<Rightarrow>
          (case recv_data name src os True (old_buf E) (req_flags r) s of
             (Some e, flags, os, s) \<Rightarrow>
               client_exit n t (f_unlink name (reject E e (event (Log (''client_thread: can't write '' @ name)) s)))
           | (None, flags, os, s) \<Rightarrow> queue_job E n t jid (r\<lparr>req_flags := flags\<rparr>) os s))"

text \<open>The request in host byte order.\<close>

definition host_order :: "printreq \<Rightarrow> printreq" where
  "host_order r = r\<lparr>req_size := htonl (req_size r), req_flags := htonl (req_flags r)\<rparr>"

definition receive_job :: "client_env \<Rightarrow> nat \<Rightarrow> nat \<Rightarrow> printd \<Rightarrow> (bool \<times> printd) res" where
  "receive_job E n t s =
     (case treadn (from_client E) REQSZ 10 of (cnt, err, bs, src) \<Rightarrow>
      if cnt \<noteq> int REQSZ then client_exit n t (reject E (if cnt < 0 then err else EIO) s)
      else rbind (get_newjobno s) (\<lambda>(jid, s). store_job E n t src jid (host_order (decode_req bs)) s))"

definition client_thread :: "client_env \<Rightarrow> nat \<Rightarrow> nat \<Rightarrow> int \<Rightarrow> printd \<Rightarrow> (bool \<times> printd) res" where
  "client_thread E n t fd s =
     rbind (add_worker (worker_mem E) t fd s) (\<lambda>w.
     case w of
       None \<Rightarrow> client_exit n t (event (Log ''add_worker: can't malloc'') s)
     | Some s \<Rightarrow> receive_job E n t s)"

section \<open>build_qonstart\<close>

text \<open>The loop over the entries of the directory of requests. For an entry the environment decides on
  \<^verbatim>\<open>open\<close> and \<^verbatim>\<open>read\<close>; \<open>mems\<close> are the results of \<^verbatim>\<open>malloc\<close>.\<close>

fun requeue :: "string list \<Rightarrow> fcall list \<Rightarrow> addr option list \<Rightarrow> printd \<Rightarrow> printd res" where
  "requeue [] os mems s = Inr s"
| "requeue (d # ds) os mems s =
     (if d = ''.'' \<or> d = ''..'' then requeue ds os mems s
      else
        rbind (store_str FILENMSZ (spool_name REQDIR d) []) (\<lambda>fname.
        case (next_call os, spool s fname) of
          ((Refused e, os), _) \<Rightarrow> requeue ds os mems s
        | ((_, os), None) \<Rightarrow> requeue ds os mems s
        | ((_, os), Some f) \<Rightarrow>
            (case next_call os of (c, os) \<Rightarrow>
             let nr = (case c of Refused e \<Rightarrow> -1 | Partial k \<Rightarrow> int (min k (min (length f) REQSZ)) | Works \<Rightarrow> int (min (length f) REQSZ)) in
             if nr \<noteq> int REQSZ then
               let s = event (Log (''build_qonstart: can't read '' @ fname)) s in
               requeue ds os mems (f_unlink (spool_name DATADIR d) (f_unlink fname s))
             else
               let jid = word_of_int (atol d) in
               rbind (add_job (case mems of [] \<Rightarrow> None | m # ms \<Rightarrow> m) (decode_req (take REQSZ f)) jid
                 (event (Log (''adding job '' @ show_int (sint jid) @ '' to queue'')) s)) (\<lambda>s.
               requeue ds os (drop 1 mems) s))))"

text \<open>\<open>entries\<close> is what \<^verbatim>\<open>readdir\<close> returns, in any order, or \<open>None\<close> if the directory cannot be opened.\<close>

definition build_qonstart :: "string list option \<Rightarrow> fcall list \<Rightarrow> addr option list \<Rightarrow> printd \<Rightarrow> printd res" where
  "build_qonstart entries os mems s = (case entries of None \<Rightarrow> Inr s | Some ds \<Rightarrow> requeue ds os mems s)"

section \<open>printer_thread\<close>

text \<open>\<^verbatim>\<open>init_printer\<close>; without an address it calls \<^verbatim>\<open>exit\<close>.\<close>

definition init_printer :: "addrinfo list option res \<Rightarrow> printd \<Rightarrow> printd res" where
  "init_printer printaddr s =
     rbind printaddr (\<lambda>printer.
     case printer of
       None \<Rightarrow> Inl (Quit ''no printer'')
     | Some [] \<Rightarrow> Inl Fault
     | Some (a # _) \<Rightarrow>
         let name = (case ai_canonname a of None \<Rightarrow> ''printer'' | Some nm \<Rightarrow> nm) in
         Inr (event (Log (''printer is '' @ name)) (s\<lparr>pname := Some name\<rparr>)))"

text \<open>What the printer thread meets: the result of \<^verbatim>\<open>get_printaddr\<close> if it has to read the configuration
  again, \<^verbatim>\<open>fstat\<close> and the reads of the data file, the attempts to connect, how the printer takes what is
  written to it, and its answer.\<close>

record print_env =
  printaddr :: "addrinfo list option res"
  data_calls :: "fcall list"
  attempts :: "nat \<Rightarrow> int \<times> bool"
  takes :: "outcome list"
  answers :: source
  heap_junk :: char
  status_fuel :: nat

text \<open>The loop that copies the file to the printer: whether it got to the end.\<close>

function send_file :: "fcall list \<Rightarrow> string \<Rightarrow> sink \<Rightarrow> bool \<times> sink" where
  "send_file os data k =
     (case next_call os of
        (Refused e, os) \<Rightarrow> (False, k)
      | (_, os) \<Rightarrow>
          let buf = take IOBUFSZ data in
          if buf = [] then (True, k)
          else case writen k buf of (nw, e, k) \<Rightarrow>
            if nw \<noteq> int (length buf) then (False, k) else send_file os (drop IOBUFSZ data) k)"
  by pat_completeness auto
termination by (relation "measure (\<lambda>(os, data, k). length data)") (auto simp: IOBUFSZ_def)

declare send_file.simps [simp del]

definition is_text :: "printreq \<Rightarrow> bool" where
  "is_text r \<longleftrightarrow> req_flags r AND PR_TEXT \<noteq> 0"

text \<open>Writing the headers and the document: whether all of it was written, and what the printer got.\<close>

definition send_job :: "print_env \<Rightarrow> 32 word \<Rightarrow> printreq \<Rightarrow> string \<Rightarrow> string \<Rightarrow> (bool \<times> string) res" where
  "send_job E jid r printer data =
     rbind (ipp_header jid r printer) (\<lambda>ibuf.
     let extra = (if is_text r then 1 else 0) in
     rbind (http_header (int (length data) + int (length ibuf) + extra) printer) (\<lambda>hbuf.
     case os_write (takes E, []) (hbuf @ ibuf) of
       (WErr e, k) \<Rightarrow> Inr (False, snd k)
     | (WGot n, k) \<Rightarrow>
         if n \<noteq> length hbuf + length ibuf then Inr (False, snd k)
         else
           case (if is_text r then os_write k [byte 8] else (WGot 1, k)) of
             (WErr e, k) \<Rightarrow> Inr (False, snd k)
           | (WGot n, k) \<Rightarrow>
               if n \<noteq> 1 then Inr (False, snd k)
               else case send_file (drop 1 (data_calls E)) data k of (ok, k) \<Rightarrow> Inr (ok, snd k)))"

datatype verdict = Printed | Canceled | Deferred

text \<open>The code at the label \<open>defer\<close>: \<open>jp\<close> is the null pointer when the job was printed.\<close>

definition end_job :: "int \<Rightarrow> addr option \<Rightarrow> printd \<Rightarrow> printd res" where
  "end_job sfd jp s =
     (let s = (if 0 \<le> sfd then event (Close sfd) s else s) in
      case jp of None \<Rightarrow> Inr s | Some p \<Rightarrow> rbind (replace_job p s) (\<lambda>s. Inr (event (Sleep 60) s)))"

definition free_job :: "addr \<Rightarrow> printd \<Rightarrow> printd" where
  "free_job jp s = s\<lparr>jobs := (jobs s)(jp := None)\<rparr>"

text \<open>From opening the data file to the end of the loop's body; with the verdict comes what the printer
  got.\<close>

definition print_job :: "print_env \<Rightarrow> addr \<Rightarrow> printd \<Rightarrow> (verdict \<times> string \<times> printd) res" where
  "print_job E jp s =
     rbind (job_at s jp) (\<lambda>j.
     let name = job_file DATADIR (jobid j) in
     case spool s name of
       None \<Rightarrow> Inr (Canceled, [], free_job jp (event (Log (''job canceled - can't open '' @ name)) s))
     | Some data \<Rightarrow>
     (case next_call (data_calls E) of
       (Refused e, _) \<Rightarrow> Inr (Canceled, [], free_job jp (event (Log (''job canceled - can't fstat '' @ name)) s))
     | _ \<Rightarrow>
     rbind (connect_retry (attempts E)) (\<lambda>(sfd, evs).
     if sfd < 0 then
       rbind (end_job sfd (Some jp) (event (Log ''job deferred - can't contact printer'') s)) (\<lambda>s. Inr (Deferred, [], s))
     else
       case pname s of None \<Rightarrow> Inl Fault
       | Some printer \<Rightarrow>
       rbind (send_job E (jobid j) (req j) printer data) (\<lambda>(ok, sent).
       if \<not> ok then
         rbind (end_job sfd (Some jp) (event (Log ''can't write to printer'') s)) (\<lambda>s. Inr (Deferred, sent, s))
       else
         rbind (printer_status (status_fuel E) (heap_junk E) (jobid j) (answers E)) (\<lambda>success.
         if success then
           rbind (end_job sfd None (free_job jp (f_unlink (job_file REQDIR (jobid j)) (f_unlink name s)))) (\<lambda>s.
           Inr (Printed, sent, s))
         else
           rbind (end_job sfd (Some jp) s) (\<lambda>s. Inr (Deferred, sent, s)))))))"

text \<open>One round of the loop; \<open>None\<close> if the thread has to wait for a job.\<close>

definition printer_step :: "print_env \<Rightarrow> printd \<Rightarrow> ((verdict \<times> string) option \<times> printd) res" where
  "printer_step E s =
     rbind (pick_job s) (\<lambda>(jp, s).
     case jp of
       None \<Rightarrow> Inr (None, s)
     | Some jp \<Rightarrow>
         let s = update_jobno s in
         rbind (lock Configlock s) (\<lambda>s.
         rbind (if reread s then init_printer (printaddr E) (unlock Configlock (s\<lparr>pname := None, reread := False\<rparr>))
                else Inr (unlock Configlock s)) (\<lambda>s.
         rbind (print_job E jp s) (\<lambda>(v, sent, s).
         Inr (Some (v, sent), s)))))"

end
