(* ===== verification/PrintProps.thy ===== *)
theory PrintProps imports PrintWorkers begin

text \<open>
  The properties of the bookkeeping of the print spooler daemon (printer/printd.c): the job
  queue, the worker list and the job numbers.
\<close>

text \<open>A daemon that has just started.\<close>

definition idle :: printd where
  "idle = \<lparr>jobs = Map.empty, jobhead = None, jobtail = None, nextjob = 1, jobfile = [], threads = Map.empty,
     workers = None, reread = False, held = {}, spool = Map.empty, pname = None, events = []\<rparr>"

lemma idle_rel: "jobs_rel idle []" "linked_workers idle []" "Joblock \<notin> held idle" "Workerlock \<notin> held idle"
  by (simp_all add: idle_def jobs_rel_def linked_jobs_def linked_workers_def dlist_def)

text \<open>C13: Jobs are picked up by the printer thread in the order in which \<^verbatim>\<open>add_job\<close> queued them, each
  once, with the number and the request they were queued with.\<close>

theorem jobs_printed_in_order:
  assumes "jobs_rel s []" "distinct (map fst js)"
  shows "\<exists>s' s''. add_jobs js s = Inr s' \<and> pick_jobs (length js) s' = Inr (map (\<lambda>(p, r, i). (i, r)) js, s'')
    \<and> jobs_rel s'' []"
proof -
  obtain s' where 1: "add_jobs js s = Inr s'" "jobs_rel s' (map fst js)"
    "\<forall>q. job_of s' q = (case map_of js q of None \<Rightarrow> job_of s q | Some (r, i) \<Rightarrow> Some (i, r))"
    using add_jobs_ok [OF assms(1)] assms(2) by auto
  have eq: "map (\<lambda>p. the (job_of s' p)) (map fst js) = map (\<lambda>(p, r, i). (i, r)) js"
    using 1(3) assms(2) by (auto simp: map_of_is_SomeI split_beta)
  obtain s'' where "pick_jobs (length (map fst js)) s' = Inr (map (\<lambda>p. the (job_of s' p)) (map fst js), s'')"
    "jobs_rel s'' []"
    using pick_jobs_ok [OF 1(2)] by blast
  with 1(1) show ?thesis unfolding eq by auto
qed

definition sample_req :: "nat \<Rightarrow> printreq" where
  "sample_req n = \<lparr>req_size = of_nat n, req_flags = 0, usernm = ''sar'', jobnm = ''paper''\<rparr>"

theorem jobs_printed_in_order_witness:
  "\<exists>s' s''. add_jobs [(8, sample_req 5, 1), (4, sample_req 7, 2)] idle = Inr s'
    \<and> pick_jobs 2 s' = Inr ([(1, sample_req 5), (2, sample_req 7)], s'')"
  using jobs_printed_in_order [OF idle_rel(1), of "[(8, sample_req 5, 1), (4, sample_req 7, 2)]"]
  by (auto simp: numeral_2_eq_2)

text \<open>A job the printer thread picked up and could not print goes back to the head of the queue: the
  queue, the numbers and the requests are as before, and the other jobs keep their order.\<close>

theorem deferred_job_first:
  assumes "jobs_rel s (p # L)"
  shows "\<exists>s' s''. pick_job s = Inr (Some p, s') \<and> jobs_rel s' L \<and> replace_job p s' = Inr s''
    \<and> jobs_rel s'' (p # L) \<and> job_of s'' = job_of s"
proof -
  obtain s' where 1: "pick_job s = Inr (Some p, s')" "jobs_rel s' L" "job_of s' = job_of s" "p \<in> dom (jobs s')"
    using pick_job_ok [OF assms] by blast
  have "p \<notin> set L" using job_queue.rel_distinct [OF assms] by simp
  with replace_job_ok [OF 1(2) _ 1(4)] 1 show ?thesis by auto
qed

theorem deferred_job_first_witness:
  "\<exists>s s' s''. add_job (Some 8) (sample_req 5) 1 idle = Inr s \<and> pick_job s = Inr (Some 8, s')
    \<and> replace_job 8 s' = Inr s'' \<and> jobs_rel s'' [8]"
proof -
  obtain s where s: "add_job (Some 8) (sample_req 5) 1 idle = Inr s" "jobs_rel s [8]"
    using add_job_ok [OF idle_rel(1), of 8 "sample_req 5" 1] by auto
  with deferred_job_first [OF s(2)] show ?thesis by blast
qed

text \<open>When a client thread ends, \<^verbatim>\<open>client_cleanup\<close> takes exactly its node out of a well linked
  worker list, frees it and closes its socket once; the threads before and after it stay
  linked.\<close>

theorem client_cleanup_correct:
  assumes "linked_workers s (A @ p # B)" "threads s p = Some w" "tid w \<notin> set (tids s A)" "Workerlock \<notin> held s"
  shows "\<exists>s'. client_cleanup (Suc (length A)) (tid w) s = Inr s' \<and> linked_workers s' (A @ B)
    \<and> threads s' p = None \<and> events s' = Close (sockfd w) # events s"
  using client_cleanup_ok [OF assms] by blast

theorem client_cleanup_correct_witness:
  "\<exists>s s'. add_worker (Some 8) 100 5 idle = Inr (Some s) \<and> client_cleanup 1 100 s = Inr s'
    \<and> linked_workers s' [] \<and> events s' = [Close 5]"
proof -
  obtain s where s: "add_worker (Some 8) 100 5 idle = Inr (Some s)" "linked_workers s [8]"
    "threads s 8 = Some \<lparr>w_next = None, w_prev = None, tid = 100, sockfd = 5\<rparr>" "events s = events idle" "held s = held idle"
    using add_worker_first [OF idle_rel(2,4)] by blast
  with client_cleanup_correct [of s "[]" 8 "[]"] show ?thesis
    by (fastforce simp: tids_def idle_def)
qed

text \<open>While one worker is on the list, \<^verbatim>\<open>add_worker\<close> does not put a second one on it (the branch for
  a non-empty list forgets to set \<^verbatim>\<open>workers\<close>): \<^verbatim>\<open>kill_workers\<close> cancels only the first thread,
  and when that thread ends, \<^verbatim>\<open>workers\<close> points to its freed node, so that the next
  connection writes through a dangling pointer.\<close>

theorem second_worker_lost:
  assumes "distinct [p, q, r]" "t1 \<noteq> t2"
  shows "\<exists>s1 s2 s3. add_worker (Some p) t1 fd1 idle = Inr (Some s1) \<and> add_worker (Some q) t2 fd2 s1 = Inr (Some s2)
    \<and> kill_workers 2 s2 = Inr (s2\<lparr>events := [Cancel t1]\<rparr>)
    \<and> client_cleanup 2 t2 s2 = Inr s2
    \<and> client_cleanup 2 t1 s2 = Inr s3 \<and> workers s3 = Some p \<and> threads s3 p = None
    \<and> add_worker (Some r) t3 fd3 s3 = Inl Fault"
  using assms
  by (simp add: add_worker_def kill_workers_def client_cleanup_def lock_def unlock_def set_worker_def worker_at_def
    event_def idle_def Let_def numeral_2_eq_2)

theorem second_worker_lost_witness:
  "\<exists>s1 s2 s3. add_worker (Some 8) 100 5 idle = Inr (Some s1) \<and> add_worker (Some 4) 101 6 s1 = Inr (Some s2)
    \<and> client_cleanup 2 100 s2 = Inr s3 \<and> add_worker (Some 12) 102 7 s3 = Inl Fault"
  using second_worker_lost [of 8 4 12 100 101 5 6 102 7] by auto

text \<open>From a positive start, the numbers \<^verbatim>\<open>get_newjobno\<close> hands out run through 1 to 2147483647 and
  start again at 1: the k-th is determined by the first, all are positive, and no two of
  2147483647 successive ones are equal.\<close>

theorem job_numbers_cycle:
  assumes "0 < sint (nextjob s)" "Joblock \<notin> held s"
  shows "\<exists>js s'. job_numbers n s = Inr (js, s') \<and> length js = n
    \<and> (\<forall>k < n. sint (js ! k) = (sint (nextjob s) - 1 + int k) mod (2 ^ 31 - 1) + 1)
    \<and> (\<forall>k < n. \<forall>l < n. k < l \<and> l < k + (2 ^ 31 - 1) \<longrightarrow> js ! k \<noteq> js ! l)"
proof -
  obtain js s' where 1: "job_numbers n s = Inr (js, s')" "length js = n"
    "\<forall>k < n. sint (js ! k) = (sint (nextjob s) - 1 + int k) mod (2 ^ 31 - 1) + 1"
    using job_numbers_ok [OF assms] by blast
  have "js ! k \<noteq> js ! l" if kl: "k < n" "l < n" "k < l" "l < k + (2 ^ 31 - 1)" for k l
  proof
    assume "js ! k = js ! l"
    then have "sint (js ! k) = sint (js ! l)" by simp
    moreover have "sint (js ! k) = (sint (nextjob s) - 1 + int k) mod (2 ^ 31 - 1) + 1"
      "sint (js ! l) = (sint (nextjob s) - 1 + int l) mod (2 ^ 31 - 1) + 1" using 1(3) kl by blast+
    ultimately have "(sint (nextjob s) - 1 + int k) mod (2 ^ 31 - 1) = (sint (nextjob s) - 1 + int l) mod (2 ^ 31 - 1)"
      by linarith
    then have "(2 ^ 31 - 1) dvd (int l - int k)" by (simp add: mod_eq_dvd_iff dvd_diff_commute algebra_simps)
    then have "2 ^ 31 - 1 \<le> int l - int k" using kl(3) by (intro zdvd_imp_le) auto
    with kl(4) show False by simp
  qed
  with 1 show ?thesis by blast
qed

theorem job_numbers_cycle_witness:
  "\<exists>js s'. job_numbers 3 (idle\<lparr>nextjob := 0x7fffffff\<rparr>) = Inr (js, s') \<and> map sint js = [2147483647, 1, 2]"
proof -
  obtain js s' where 1: "job_numbers 3 (idle\<lparr>nextjob := 0x7fffffff\<rparr>) = Inr (js, s')" "length js = 3"
    "\<forall>k < 3. sint (js ! k) = (sint (0x7fffffff :: 32 word) - 1 + int k) mod (2 ^ 31 - 1) + 1"
    using job_numbers_cycle [of "idle\<lparr>nextjob := 0x7fffffff\<rparr>" 3] by (auto simp: idle_def)
  have "map sint js = [sint (js ! 0), sint (js ! 1), sint (js ! 2)]"
    using 1(2) by (intro nth_equalityI) (auto simp: less_Suc_eq numeral_3_eq_3 numeral_2_eq_2)
  with 1 show ?thesis by auto
qed

text \<open>A daemon that starts after \<^verbatim>\<open>update_jobno\<close> goes on with the same next job number, although
  \<^verbatim>\<open>init_request\<close> parses a buffer without a terminating null (what is left of the file's name
  in it ends the number). The file must not be longer than the number written to it, which
  holds until the numbers wrap around.\<close>

theorem job_number_restart:
  assumes "0 < sint (nextjob s)" "length (jobfile s) \<le> length (show_nat (nat (sint (nextjob s))))"
  shows "init_request False False junk (update_jobno s) = Inr ((update_jobno s)\<lparr>nextjob := nextjob s\<rparr>)"
  by (rule init_update [OF assms])

theorem job_number_restart_witness:
  "init_request False False [] (update_jobno (idle\<lparr>nextjob := 17, jobfile := ''16''\<rparr>))
    = Inr ((update_jobno (idle\<lparr>nextjob := 17, jobfile := ''16''\<rparr>))\<lparr>nextjob := 17\<rparr>)"
proof -
  have "show_nat 17 = ''17''" by code_simp
  then show ?thesis
    using job_number_restart [of "idle\<lparr>nextjob := 17, jobfile := ''16''\<rparr>" "[]"] by (simp add: idle_def)
qed

end
