(* ===== verification/PrintClient.thy ===== *)
theory PrintClient imports PrintServer PrintProps "HOL-Library.Multiset" begin

text \<open>
  What the client threads of the print spooler daemon and its restart do to the spool directory and the
  queue of jobs.
\<close>

section \<open>What the bookkeeping leaves alone\<close>

definition queue_part :: "printd \<Rightarrow> (string \<rightharpoonup> string) \<times> (addr \<rightharpoonup> job) \<times> addr option \<times> addr option" where
  "queue_part s = (spool s, jobs s, jobhead s, jobtail s)"

lemma queue_part_upd [simp]:
  "queue_part (event e s) = queue_part s" "queue_part (unlock m s) = queue_part s"
  "queue_part (s\<lparr>held := H\<rparr>) = queue_part s" "queue_part (s\<lparr>threads := T\<rparr>) = queue_part s"
  "queue_part (s\<lparr>workers := W\<rparr>) = queue_part s" "queue_part (s\<lparr>nextjob := N\<rparr>) = queue_part s"
  "queue_part (s\<lparr>events := V\<rparr>) = queue_part s"
  by (simp_all add: queue_part_def event_def unlock_def)

lemma queue_part_spool: "queue_part s' = queue_part s \<Longrightarrow> queue_part (s'\<lparr>spool := S\<rparr>) = queue_part (s\<lparr>spool := S\<rparr>)"
  by (simp add: queue_part_def)

definition same_jobs :: "printd \<Rightarrow> printd \<Rightarrow> bool" where
  "same_jobs s s' \<longleftrightarrow> jobs s' = jobs s \<and> jobhead s' = jobhead s \<and> jobtail s' = jobtail s"

lemma jobs_rel_same: "same_jobs s s' \<Longrightarrow> Joblock \<notin> held s' \<Longrightarrow> jobs_rel s L \<Longrightarrow> jobs_rel s' L"
proof -
  assume a: "same_jobs s s'" "Joblock \<notin> held s'" "jobs_rel s L"
  then have "nxt s' = nxt s" "prv s' = prv s" by (simp_all add: fun_eq_iff same_jobs_def nxt_def prv_def)
  with a show ?thesis by (simp add: same_jobs_def jobs_rel_def linked_jobs_def)
qed

lemma job_of_same: "same_jobs s s' \<Longrightarrow> job_of s' = job_of s"
  by (simp add: fun_eq_iff same_jobs_def job_of_def)

definition keeps :: "printd \<Rightarrow> printd \<Rightarrow> bool" where
  "keeps s s' \<longleftrightarrow> queue_part s' = queue_part s \<and> nextjob s' = nextjob s \<and> held s' - {Workerlock} = held s - {Workerlock}"

lemma keeps_refl [simp]: "keeps s s"
  by (simp add: keeps_def)

lemma keeps_trans: "keeps s s' \<Longrightarrow> keeps s' s'' \<Longrightarrow> keeps s s''"
  by (simp add: keeps_def)

lemmas keeps_inv = rbind_eq_Inr set_worker_def worker_at_def lock_def unlock_def event_def keeps_def queue_part_def

lemma unlink_worker_keeps: "unlink_worker n t h s = Inr (p, s') \<Longrightarrow> keeps s s'"
proof (induction n t h s rule: unlink_worker.induct)
  case (3 n t wtp s)
  then show ?case
    by (auto simp: rbind_eq_Inr set_worker_def worker_at_def keeps_def queue_part_def split: option.splits if_splits)
qed auto

lemma client_cleanup_keeps: "post (keeps s) (client_cleanup n t s)"
proof (unfold post_def, intro allI impI)
  fix x assume "client_cleanup n t s = Inr x"
  then obtain p s2 where u: "unlink_worker n t (workers s) (s\<lparr>held := insert Workerlock (held s)\<rparr>) = Inr (p, s2)"
    and x: "(case p of None \<Rightarrow> Inr (unlock Workerlock s2)
      | Some p \<Rightarrow> rbind (worker_at (unlock Workerlock s2) p) (\<lambda>w.
          let s = event (Close (sockfd w)) (unlock Workerlock s2) in Inr (s\<lparr>threads := (threads s)(p := None)\<rparr>))) = Inr x"
    by (auto simp: client_cleanup_def lock_def Let_def rbind_eq_Inr split: if_splits)
  have k: "keeps s s2" using unlink_worker_keeps [OF u] by (simp add: keeps_def queue_part_def)
  show "keeps s x"
  proof (cases p)
    case None
    then have x': "x = unlock Workerlock s2" using x by simp
    show ?thesis using k unfolding x' by (simp add: keeps_def unlock_def)
  next
    case (Some q)
    have th: "threads (unlock Workerlock s2) = threads s2" by (simp add: unlock_def)
    obtain w where "threads s2 q = Some w"
      using x Some by (cases "threads s2 q") (simp_all add: worker_at_def th)
    then have x': "x = (event (Close (sockfd w)) (unlock Workerlock s2))\<lparr>threads :=
        (threads (event (Close (sockfd w)) (unlock Workerlock s2)))(q := None)\<rparr>"
      using x Some by (simp add: worker_at_def th Let_def)
    show ?thesis using k unfolding x' by (simp add: keeps_def event_def unlock_def)
  qed
qed

lemma add_worker_keeps: "post (\<lambda>r. case r of None \<Rightarrow> True | Some s' \<Rightarrow> keeps s s') (add_worker m t fd s)"
  unfolding add_worker_def by (auto simp: post_def Let_def keeps_inv split: option.splits if_splits)

lemma get_newjobno_part:
  "post (\<lambda>(j, s'). j = nextjob s \<and> queue_part s' = queue_part s \<and> held s' = held s) (get_newjobno s)"
  by (auto simp: get_newjobno_def lock_def Let_def unlock_def queue_part_def)

section \<open>Receiving\<close>

lemma queue_part_unlink: "queue_part (f_unlink name s) = ((spool s)(name := None), jobs s, jobhead s, jobtail s)"
  by (simp add: queue_part_def f_unlink_def)

lemma queue_part_reject [simp]: "queue_part (reject E e s) = queue_part s" "held (reject E e s) = held s"
  by (simp_all add: reject_def Let_def) (simp add: event_def)

lemma spool_reject [simp]: "spool (reject E e s) = spool s" "jobs (reject E e s) = jobs s"
    "jobhead (reject E e s) = jobhead s" "jobtail (reject E e s) = jobtail s"
  using queue_part_reject(1) [of E e s] by (simp_all add: queue_part_def)

lemma event_fields [simp]: "spool (event e s) = spool s" "jobs (event e s) = jobs s" "jobhead (event e s) = jobhead s"
    "jobtail (event e s) = jobtail s" "held (event e s) = held s" "threads (event e s) = threads s"
    "workers (event e s) = workers s" "nextjob (event e s) = nextjob s" "pname (event e s) = pname s"
  by (simp_all add: event_def)


lemma f_creat_cases:
  "f_creat name os s = (r, os', s') \<Longrightarrow>
     (if r = None then s' = s\<lparr>spool := (spool s)(name \<mapsto> [])\<rparr> else s' = s) \<and> (os = [] \<longrightarrow> r = None \<and> os' = [])"
  by (cases os) (auto simp: f_creat_def split: prod.splits fcall.splits)

lemma f_append_simps [simp]: "f_append name [] s = s" "f_append name e (f_append name d s) = f_append name (d @ e) s"
  by (simp_all add: f_append_def option.map_ident option.map_comp o_def)

lemma f_write_cases:
  "f_write name bs os s = (nw, e, os', s') \<Longrightarrow>
     (\<exists>d. s' = f_append name d s \<and> (nw = int (length bs) \<longrightarrow> d = bs)) \<and> (os = [] \<longrightarrow> nw = int (length bs) \<and> os' = [])"
proof -
  assume a: "f_write name bs os s = (nw, e, os', s')"
  obtain c os1 where c: "next_call os = (c, os1)" by (cases "next_call os")
  have o: "c = Works \<and> os1 = []" if "os = []" using c that by auto
  show ?thesis
  proof (cases c)
    case Works
    with a c o show ?thesis by (auto simp: f_write_def)
  next
    case (Refused e')
    with a c o show ?thesis by (auto simp: f_write_def intro!: exI [of _ "[]"])
  next
    case (Partial k)
    with a c o show ?thesis by (auto simp: f_write_def min_def split: if_splits)
  qed
qed

text \<open>What the first read decides: whether the document is plain text.\<close>

definition sniffed :: "string \<Rightarrow> source \<Rightarrow> 32 word \<Rightarrow> 32 word" where
  "sniffed buf src flags =
     (case fst (tread src IOBUFSZ 20) of
        RErr e \<Rightarrow> flags
      | RGot bs \<Rightarrow>
          if bs = [] \<or> take 4 (bs @ drop (length bs) buf) = ''%!PS'' then flags else flags OR PR_TEXT)"

lemma recv_data_result:
  "recv_data name src os first buf flags s = (r, fl, os', s') \<Longrightarrow>
     (\<exists>d. s' = f_append name d s \<and> (os = [] \<longrightarrow> r = None \<and> os' = [] \<and> d = t_avail 20 20 src))
     \<and> fl = (if first then sniffed buf src flags else flags)"
proof (induction name src os first buf flags s rule: recv_data.induct)
  case (1 name src os first buf flags s)
  have stay: "\<exists>d. s = f_append name d s \<and> (os = [] \<longrightarrow> d = t_avail 20 20 src)" if "t_avail 20 20 src = []"
    using that by (intro exI [of _ "[]"]) simp
  obtain x src' where t: "tread src IOBUFSZ 20 = (x, src')" by (cases "tread src IOBUFSZ 20")
  show ?case
  proof (cases x)
    case (RErr e)
    then have "recv_data name src os first buf flags s = (None, flags, os, s)" using t by (subst recv_data.simps) simp
    then have r: "r = None" "fl = flags" "os' = os" "s' = s" using "1.prems" by simp_all
    have "t_avail 20 20 src = []" using tread_err [of src IOBUFSZ 20 e src' 20] RErr t by (simp add: IOBUFSZ_def)
    from stay [OF this] show ?thesis using RErr t unfolding r by (simp add: sniffed_def)
  next
    case (RGot bs)
    show ?thesis
    proof (cases "bs = []")
      case True
      then have "recv_data name src os first buf flags s = (None, flags, os, s)" using RGot t by (subst recv_data.simps) simp
      then have r: "r = None" "fl = flags" "os' = os" "s' = s" using "1.prems" by simp_all
      have "t_avail 20 20 src = []" using tread_end [of src IOBUFSZ 20 src' 20] RGot t True by (simp add: IOBUFSZ_def)
      from stay [OF this] show ?thesis using RGot t True unfolding r by (simp add: sniffed_def)
    next
      case False
      let ?buf = "bs @ drop (length bs) buf"
      let ?fl = "if first \<and> take 4 ?buf \<noteq> ''%!PS'' then flags OR PR_TEXT else flags"
      have sn: "?fl = (if first then sniffed buf src flags else flags)" using t RGot False by (simp add: sniffed_def)
      obtain nw e os1 s1 where w: "f_write name bs os s = (nw, e, os1, s1)" by (cases "f_write name bs os s")
      obtain d where d: "s1 = f_append name d s" "nw = int (length bs) \<Longrightarrow> d = bs"
        "os = [] \<Longrightarrow> nw = int (length bs) \<and> os1 = []"
        using f_write_cases [OF w] by auto
      have g: "t_avail 20 20 src = bs @ t_avail 20 20 src'"
        using tread_got [of src IOBUFSZ 20 bs src' 20] t RGot False by (simp add: IOBUFSZ_def)
      have eq: "recv_data name src os first buf flags s = (if nw \<noteq> int (length bs)
          then (Some (if nw < 0 then e else EIO), ?fl, os1, s1) else recv_data name src' os1 False ?buf ?fl s1)"
        using t RGot False w by (subst recv_data.simps) (simp add: Let_def)
      show ?thesis
      proof (cases "nw = int (length bs)")
        case False
        with eq "1.prems" d sn show ?thesis by (intro conjI exI [of _ d]) auto
      next
        case True
        have "recv_data name src' os1 False ?buf ?fl s1 = (r, fl, os', s')" using eq "1.prems" True by simp
        from "1.IH" [OF t [symmetric] RGot False refl refl w [symmetric] refl refl _ this] True
        obtain d' where d': "s' = f_append name d' s1"
          "os1 = [] \<Longrightarrow> r = None \<and> os' = [] \<and> d' = t_avail 20 20 src'" "fl = ?fl" by auto
        show ?thesis using d d' g sn True by (intro conjI exI [of _ "d @ d'"]) auto
      qed
    qed
  qed
qed

section \<open>A client thread\<close>

lemma job_files_differ [simp]: "job_file DATADIR i \<noteq> job_file REQDIR j" "job_file REQDIR i \<noteq> job_file DATADIR j"
  by (simp_all add: job_file_def spool_name_def DATADIR_def REQDIR_def)

lemma queue_part_eq: "queue_part s' = queue_part s \<longleftrightarrow> spool s' = spool s \<and> same_jobs s s'"
  by (auto simp: queue_part_def same_jobs_def)

lemma same_jobs_simps [simp]:
  "same_jobs s (event e s') = same_jobs s s'" "same_jobs s (reject E err s') = same_jobs s s'"
  "same_jobs s (f_unlink name s') = same_jobs s s'" "same_jobs s (f_append name bs s') = same_jobs s s'"
  "same_jobs s (s'\<lparr>spool := S\<rparr>) = same_jobs s s'"
  by (simp_all add: same_jobs_def f_unlink_def f_append_def)


lemma spool_f_append: "spool s name = Some f \<Longrightarrow> spool (f_append name bs s) = (spool s)(name \<mapsto> f @ bs)"
  by (simp add: f_append_def)





section \<open>An accepted job\<close>

lemma set_job_frame: "set_job p f s = Inr s' \<Longrightarrow> spool s' = spool s \<and> threads s' = threads s \<and> workers s' = workers s
    \<and> held s' = held s \<and> events s' = events s \<and> nextjob s' = nextjob s"
  by (auto simp: set_job_def split: option.splits)

lemma add_job_frame: "add_job m r i s = Inr s' \<Longrightarrow> spool s' = spool s \<and> threads s' = threads s \<and> workers s' = workers s
    \<and> nextjob s' = nextjob s \<and> events s' = Cond_signal # events s"
  by (auto simp: add_job_def rbind_eq_Inr lock_def unlock_def event_def Let_def dest!: set_job_frame
      split: option.splits if_splits)

lemma linked_workers_cong: "threads s' = threads s \<Longrightarrow> workers s' = workers s \<Longrightarrow> linked_workers s L \<Longrightarrow> linked_workers s' L"
proof -
  assume a: "threads s' = threads s" "workers s' = workers s" "linked_workers s L"
  then have "wnx s' = wnx s" "wpv s' = wpv s" by (simp_all add: fun_eq_iff wnx_def wpv_def)
  with a show ?thesis by (simp add: linked_workers_def)
qed

lemma client_cleanup_first:
  "workers s = Some p \<Longrightarrow> threads s p = Some w \<Longrightarrow> client_cleanup (Suc n) (tid w) s = client_cleanup (Suc 0) (tid w) s"
  by (simp add: client_cleanup_def lock_def worker_at_def)

lemma length_treadn: "treadn src n t = (int n, e, bs, src') \<Longrightarrow> length bs = n"
proof -
  assume a: "treadn src n t = (int n, e, bs, src')"
  obtain e' s' where "treadn src n t = (if 0 < n \<and> t_avail t t src = [] \<and> t_ending t t src \<noteq> None then -1
      else int (length (take n (t_avail t t src))), e', take n (t_avail t t src), s')"
    using timed.read_loop_result [of n n t src "[]"] unfolding treadn_def by (fastforce simp: min_def)
  with a show ?thesis by (auto split: if_splits)
qed

lemma req_wf_decode: "length bs = REQSZ \<Longrightarrow> req_wf (decode_req bs)"
  by (simp add: req_wf_def decode_req_def REQSZ_def USERNM_MAX_def JOBNM_MAX_def)

lemma held_unlock_lock [simp]: "m \<notin> H \<Longrightarrow> insert m H - {m} = H"
  by auto

lemma get_newjobno_frame: "get_newjobno s = Inr (j, s') \<Longrightarrow> threads s' = threads s \<and> workers s' = workers s"
  by (auto simp: get_newjobno_def rbind_eq_Inr lock_def unlock_def Let_def split: if_splits)

lemma get_newjobno_events: "get_newjobno s = Inr (j, s') \<Longrightarrow> events s' = events s"
  by (auto simp: get_newjobno_def rbind_eq_Inr lock_def unlock_def Let_def split: if_splits)

text \<open>The end of a thread that is alone on the list.\<close>

definition success_resp :: "client_env \<Rightarrow> 32 word \<Rightarrow> printresp" where
  "success_resp E jid = \<lparr>retcode = 0, res_jobid = htonl jid,
     msg = c_strcpy (old_msg E) (''request ID '' @ show_int (sint jid))\<rparr>"

lemma queue_job_accepts:
  assumes w: "linked_workers s [a]" "threads s a = Some wt" "tid wt = t" "Workerlock \<notin> held s" "0 < n"
    and j: "jobs_rel s L" "p \<notin> set L" "job_mem E = Some p" and r: "req_wf r"
  shows "\<exists>s'. queue_job E n t jid r [] s = Inr (True, s') \<and> jobs_rel s' (L @ [p]) \<and> job_of s' = (job_of s)(p \<mapsto> (jid, r))
    \<and> spool s' = (spool s)(job_file REQDIR jid \<mapsto> encode_req r) \<and> linked_workers s' []
    \<and> events s' = [Close (sockfd wt), Cond_signal, Reply (encode_resp (success_resp E jid))] @ events s"
proof -
  let ?R = "job_file REQDIR jid"
  obtain x os2 s2 where c: "f_creat ?R [] s = (x, os2, s2)" by (cases "f_creat ?R [] s")
  have s2: "x = None" "os2 = []" "s2 = s\<lparr>spool := (spool s)(?R \<mapsto> [])\<rparr>" using f_creat_cases [OF c] by (auto split: if_splits)
  obtain nw err os3 s3 where v: "f_write ?R (encode_req r) os2 s2 = (nw, err, os3, s3)"
    by (cases "f_write ?R (encode_req r) os2 s2")
  have s3: "nw = int REQSZ" "s3 = f_append ?R (encode_req r) s2"
    using f_write_cases [OF v] s2(2) length_encode_req [OF r] by auto
  let ?s4 = "event (Reply (encode_resp (success_resp E jid))) s3"
  have s4: "spool ?s4 = (spool s)(?R \<mapsto> encode_req r)" "same_jobs s ?s4" "held ?s4 = held s" "threads ?s4 = threads s"
      "workers ?s4 = workers s"
    by (simp_all add: s3 s2 f_append_def same_jobs_def)
  have e4: "events ?s4 = Reply (encode_resp (success_resp E jid)) # events s" by (simp add: s3 s2 f_append_def event_def)
  note job4 = job_of_same [OF s4(2)]
  have "jobs_rel ?s4 L" by (rule jobs_rel_same [OF s4(2) _ j(1)]) (use j(1) s4(3) in \<open>simp add: jobs_rel_def\<close>)
  from add_job_ok [OF this j(2), of r jid] obtain s5 where s5: "add_job (Some p) r jid ?s4 = Inr s5"
    "jobs_rel s5 (L @ [p])" "job_of s5 = (job_of ?s4)(p \<mapsto> (jid, r))" "held s5 = held s" unfolding s4(3) by blast
  note f5 = add_job_frame [OF s5(1)]
  have l5: "linked_workers s5 ([] @ a # [])" using linked_workers_cong [OF _ _ w(1)] f5 s4 by simp
  have t5: "threads s5 a = Some wt" "Workerlock \<notin> held s5" using f5 s4 w(2,4) s5(4) by simp_all
  obtain s6 where s6: "client_cleanup (Suc 0) (tid wt) s5 = Inr s6" "linked_workers s6 []" "events s6 = Close (sockfd wt) # events s5"
    "held s6 = held s5"
    using client_cleanup_ok [OF l5 t5(1) _ t5(2)] by (auto simp: tids_def)
  have wh: "workers s5 = Some a" using l5 by (auto simp: linked_workers_def dlist_def)
  obtain m where m: "n = Suc m" using w(5) by (cases n) auto
  have cl: "client_cleanup n t s5 = Inr s6" using client_cleanup_first [OF wh t5(1), of m] s6(1) w(3) m by simp
  have k: "queue_part s6 = queue_part s5" using postD [OF client_cleanup_keeps cl] by (simp add: keeps_def)
  have same: "same_jobs s5 s6" using k by (simp add: queue_part_eq)
  have "jobs_rel s6 (L @ [p])"
    by (rule jobs_rel_same [OF same _ s5(2)]) (use s5(2) s6(4) in \<open>simp add: jobs_rel_def\<close>)
  moreover note job_of_same [OF same]
  moreover have "queue_job E n t jid r [] s = Inr (True, s6)"
    using c v s2 s3 s5(1) cl j(3) unfolding queue_job_def Let_def success_resp_def by simp
  moreover have "spool s6 = (spool s)(?R \<mapsto> encode_req r)" using k f5 s4(1) by (simp add: queue_part_def)
  ultimately show ?thesis using s5(3) job4 s6 f5 e4 by auto
qed

lemma job_accepted_ok:
  assumes w: "linked_workers s []" "Workerlock \<notin> held s" "worker_mem E = Some a" "0 < n"
    and j: "jobs_rel s L" "p \<notin> set L" "job_mem E = Some p"
    and io: "file_calls E = []" "treadn (from_client E) REQSZ 10 = (int REQSZ, e, bs, src)"
    and r: "r = (host_order (decode_req bs))\<lparr>req_flags := sniffed (old_buf E) src (htonl (req_flags (decode_req bs)))\<rparr>"
  shows "\<exists>s'. client_thread E n t fd s = Inr (True, s') \<and> jobs_rel s' (L @ [p])
    \<and> job_of s' = (job_of s)(p \<mapsto> (nextjob s, r))
    \<and> spool s' = (spool s)(job_file DATADIR (nextjob s) \<mapsto> t_avail 20 20 src, job_file REQDIR (nextjob s) \<mapsto> encode_req r)
    \<and> linked_workers s' [] \<and> events s' = [Close fd, Cond_signal, Reply (encode_resp (success_resp E (nextjob s)))] @ events s"
proof -
  let ?D = "job_file DATADIR (nextjob s)" and ?r = "host_order (decode_req bs)"
  obtain s1 where s1: "add_worker (Some a) t fd s = Inr (Some s1)" "linked_workers s1 [a]"
    "threads s1 a = Some \<lparr>w_next = None, w_prev = None, tid = t, sockfd = fd\<rparr>" "held s1 = held s" "events s1 = events s"
    using add_worker_first [OF w(1,2)] by blast
  have k1: "spool s1 = spool s" "same_jobs s s1" "nextjob s1 = nextjob s"
    using postD [OF add_worker_keeps s1(1)] by (auto simp: keeps_def queue_part_eq)
  have nj: "Joblock \<notin> held s" using j(1) by (simp add: jobs_rel_def)
  obtain s2 where s2: "get_newjobno s1 = Inr (nextjob s, s2)"
    using nj s1(4) k1(3) by (auto simp: get_newjobno_def lock_def Let_def)
  note f2 = postD [OF get_newjobno_part s2]
  have k2: "spool s2 = spool s" "same_jobs s s2" "held s2 = held s"
    using f2 k1 s1(4) by (auto simp: queue_part_eq same_jobs_def)
  note g2 = get_newjobno_frame [OF s2]
  obtain x os3 s3 where c: "f_creat ?D [] s2 = (x, os3, s3)" by (cases "f_creat ?D [] s2")
  have s3: "x = None" "os3 = []" "s3 = s2\<lparr>spool := (spool s)(?D \<mapsto> [])\<rparr>"
    using f_creat_cases [OF c] k2(1) by (auto split: if_splits)
  obtain y fl os4 s4 where v: "recv_data ?D src os3 True (old_buf E) (req_flags ?r) s3 = (y, fl, os4, s4)"
    by (cases "recv_data ?D src os3 True (old_buf E) (req_flags ?r) s3")
  have s4: "y = None" "os4 = []" "s4 = f_append ?D (t_avail 20 20 src) s3" "fl = sniffed (old_buf E) src (req_flags ?r)"
    using recv_data_result [OF v] s3(2) by auto
  have m4: "spool s4 = (spool s)(?D \<mapsto> t_avail 20 20 src)" "same_jobs s s4" "held s4 = held s" "threads s4 = threads s1"
      "workers s4 = workers s1"
    using s3 s4 k2 g2 by (simp_all add: f_append_def)
  have rr: "?r\<lparr>req_flags := fl\<rparr> = r" by (simp add: r s4(4) host_order_def)
  have wf: "req_wf r" using req_wf_decode [OF length_treadn [OF io(2)]] by (simp add: r host_order_def req_wf_def)
  have jr: "jobs_rel s4 L" by (rule jobs_rel_same [OF m4(2) _ j(1)]) (use nj m4(3) in simp)
  have lw: "linked_workers s4 [a]" by (rule linked_workers_cong [OF m4(4,5) s1(2)])
  obtain s' where q: "queue_job E n t (nextjob s) r [] s4 = Inr (True, s')" "jobs_rel s' (L @ [p])"
    "job_of s' = (job_of s4)(p \<mapsto> (nextjob s, r))" "spool s' = (spool s4)(job_file REQDIR (nextjob s) \<mapsto> encode_req r)"
    "linked_workers s' []" "events s' = [Close fd, Cond_signal, Reply (encode_resp (success_resp E (nextjob s)))] @ events s4"
    using queue_job_accepts [OF lw _ refl _ w(4) jr j(2,3) wf, of _ "nextjob s"] s1(3) m4(3,4) w(2) by fastforce
  have "store_job E n t src (nextjob s) ?r s2 = Inr (True, s')"
    unfolding store_job_def Let_def io(1) c using v s3(1) s4(1,2) rr q(1) by simp
  then have "client_thread E n t fd s = Inr (True, s')"
    by (simp add: client_thread_def w(3) s1(1) receive_job_def io(2) s2)
  moreover have "events s4 = events s"
    using s3 s4 get_newjobno_events [OF s2] s1(5) by (simp add: f_append_def)
  ultimately show ?thesis using q job_of_same [OF m4(2)] m4(1) by auto
qed

text \<open>A client thread whose calls succeed queues exactly one job, last, under the next job number; the
  control file holds the request as queued and the data file every byte the client sent in time; the text
  flag is set unless the first read begins with the PostScript magic; the socket is closed and the thread
  off the worker list.\<close>

theorem job_accepted:
  assumes "linked_workers s []" "Workerlock \<notin> held s" "worker_mem E = Some a" "0 < n"
    and "jobs_rel s L" "p \<notin> set L" "job_mem E = Some p"
    and "file_calls E = []" "treadn (from_client E) REQSZ 10 = (int REQSZ, e, bs, src)"
    and "r = (host_order (decode_req bs))\<lparr>req_flags := sniffed (old_buf E) src (htonl (req_flags (decode_req bs)))\<rparr>"
  shows "\<exists>s'. client_thread E n t fd s = Inr (True, s') \<and> jobs_rel s' (L @ [p])
    \<and> job_of s' = (job_of s)(p \<mapsto> (nextjob s, r))
    \<and> spool s' = (spool s)(job_file DATADIR (nextjob s) \<mapsto> t_avail 20 20 src, job_file REQDIR (nextjob s) \<mapsto> encode_req r)
    \<and> linked_workers s' [] \<and> events s' = [Close fd, Cond_signal, Reply (encode_resp (success_resp E (nextjob s)))] @ events s"
  by (rule job_accepted_ok [OF assms])

section \<open>After a restart\<close>

text \<open>Every job of the queue has its number, its control file and its data file.\<close>

definition spooled :: "printd \<Rightarrow> addr list \<Rightarrow> bool" where
  "spooled s L \<longleftrightarrow> (\<forall>p \<in> set L. \<exists>j r. job_of s p = Some (j, r) \<and> 0 < sint j \<and> req_wf r
     \<and> spool s (job_file REQDIR j) = Some (encode_req r) \<and> spool s (job_file DATADIR j) \<noteq> None)"

lemma requeue_dots: "requeue ds os mems s = requeue (filter (\<lambda>d. d \<noteq> ''.'' \<and> d \<noteq> ''..'') ds) os mems s"
proof (induction ds arbitrary: os mems s)
  case (Cons d ds)
  then show ?case by (auto intro!: rbind_cong split: fcall.splits option.splits prod.splits simp: Let_def)
qed simp

lemma add_job_spool: "add_job m r i s = Inr s' \<Longrightarrow> spool s' = spool s"
  using add_job_frame by blast

lemma requeue_ok:
  "jobs_rel s L \<Longrightarrow> distinct (L @ ps) \<Longrightarrow> length ps = length ds \<Longrightarrow>
    (\<forall>d \<in> set ds. d \<noteq> ''.'' \<and> d \<noteq> ''..'' \<and> length (spool_name REQDIR d) < FILENMSZ
       \<and> (\<exists>r. req_wf r \<and> spool s (spool_name REQDIR d) = Some (encode_req r))) \<Longrightarrow>
    \<exists>s'. requeue ds [] (map Some ps) s = Inr s' \<and> jobs_rel s' (L @ ps) \<and> spool s' = spool s
      \<and> map (job_of s') ps
        = map (\<lambda>d. Some (word_of_int (atol d), decode_req (the (spool s (spool_name REQDIR d))))) ds
      \<and> (\<forall>q. q \<notin> set ps \<longrightarrow> job_of s' q = job_of s q)"
proof (induction ds arbitrary: s L ps)
  case (Cons d ds)
  obtain p qs where ps: "ps = p # qs" "length qs = length ds" using Cons.prems(3) by (cases ps) auto
  obtain r where r: "req_wf r" "spool s (spool_name REQDIR d) = Some (encode_req r)" using Cons.prems(4) by auto
  have d: "d \<noteq> ''.''" "d \<noteq> ''..''" "length (spool_name REQDIR d) < FILENMSZ" using Cons.prems(4) by auto
  let ?j = "word_of_int (atol d) :: 32 word"
  let ?s1 = "event (Log (''adding job '' @ show_int (sint ?j) @ '' to queue'')) s"
  have rel1: "jobs_rel ?s1 L" using Cons.prems(1)
    by (intro jobs_rel_same [OF _ _ Cons.prems(1)]) (simp_all add: same_jobs_def jobs_rel_def)
  obtain s2 where s2: "add_job (Some p) r ?j ?s1 = Inr s2" "jobs_rel s2 (L @ [p])" "job_of s2 = (job_of ?s1)(p \<mapsto> (?j, r))"
    using add_job_ok [OF rel1, of p r ?j] Cons.prems(2) ps(1) by auto
  have sp: "spool s2 = spool s" using add_job_spool [OF s2(1)] by simp
  have j1: "job_of ?s1 = job_of s" by (rule job_of_same) (simp add: same_jobs_def)
  have "\<forall>d \<in> set ds. d \<noteq> ''.'' \<and> d \<noteq> ''..'' \<and> length (spool_name REQDIR d) < FILENMSZ
       \<and> (\<exists>r. req_wf r \<and> spool s2 (spool_name REQDIR d) = Some (encode_req r))" using Cons.prems(4) sp by simp
  from Cons.IH [OF s2(2) _ ps(2) this] obtain s3 where s3: "requeue ds [] (map Some qs) s2 = Inr s3"
    "jobs_rel s3 (L @ ps)" "spool s3 = spool s"
    "map (job_of s3) qs = map (\<lambda>d. Some (word_of_int (atol d), decode_req (the (spool s (spool_name REQDIR d))))) ds"
    "\<forall>q. q \<notin> set qs \<longrightarrow> job_of s3 q = job_of s2 q"
    using Cons.prems(2) ps(1) sp by auto
  have "requeue (d # ds) [] (map Some ps) s = Inr s3"
    using d r s2(1) s3(1) length_encode_req [OF r(1)]
    by (simp add: ps(1) store_str_def Let_def)
  moreover have "job_of s3 p = Some (?j, r)" using s3(5) s2(3) ps(1) Cons.prems(2) by auto
  ultimately show ?case using s3 s2(3) r ps(1) j1 by auto
qed simp

lemma show_job_number:
  assumes "0 < sint (j :: 32 word)"
  shows "atol (show_int (sint j)) = sint j" "show_int (sint j) \<noteq> ''.''" "show_int (sint j) \<noteq> ''..''"
    "length (spool_name REQDIR (show_int (sint j))) < FILENMSZ"
proof -
  let ?n = "nat (sint j)"
  have lt: "sint j < 2 ^ 31" using sint_lt [of j] by simp
  have sh: "show_int (sint j) = show_nat ?n" using assms by (simp add: show_int_def)
  show "atol (show_int (sint j)) = sint j" using atol_show_nat [of ?n] assms lt unfolding sh by simp
  have "length (show_nat ?n) \<le> 10" using assms lt by (intro length_show_nat) simp_all
  then show "length (spool_name REQDIR (show_int (sint j))) < FILENMSZ"
    unfolding sh by (simp add: spool_name_def SPOOLDIR_def REQDIR_def FILENMSZ_def)
  have "\<not> isdigit (CHR ''.'')" by code_simp
  then show "show_int (sint j) \<noteq> ''.''" "show_int (sint j) \<noteq> ''..''"
    using show_nat_digits [of ?n] unfolding sh by auto
qed

definition job_entry :: "printd \<Rightarrow> addr \<Rightarrow> string" where
  "job_entry s p = show_int (sint (fst (the (job_of s p))))"

text \<open>C9: A daemon that starts with the spool directory of one that stopped queues the same jobs, with
  their numbers and requests, in the order in which the directory lists them.\<close>

theorem restart_restores_queue:
  assumes sp: "spooled s L" "mset L' = mset L" and new: "jobs_rel s1 []" "spool s1 = spool s"
    and ps: "distinct ps" "length ps = length L"
    and ds: "filter (\<lambda>d. d \<noteq> ''.'' \<and> d \<noteq> ''..'') ds = map (job_entry s) L'"
  shows "\<exists>s2. build_qonstart (Some ds) [] (map Some ps) s1 = Inr s2 \<and> jobs_rel s2 ps
    \<and> map (job_of s2) ps = map (job_of s) L' \<and> spool s2 = spool s"
proof -
  have L': "set L' = set L" "length L' = length L" using sp(2) by (metis set_mset_mset, metis size_mset)
  have job: "\<exists>j r. job_of s p = Some (j, r) \<and> 0 < sint j \<and> req_wf r \<and> job_entry s p = show_int (sint j)
      \<and> spool s1 (spool_name REQDIR (job_entry s p)) = Some (encode_req r)" if "p \<in> set L'" for p
    using sp(1) that L'(1) new(2) unfolding spooled_def job_file_def job_entry_def by fastforce
  have "\<forall>d \<in> set (map (job_entry s) L'). d \<noteq> ''.'' \<and> d \<noteq> ''..'' \<and> length (spool_name REQDIR d) < FILENMSZ
       \<and> (\<exists>r. req_wf r \<and> spool s1 (spool_name REQDIR d) = Some (encode_req r))"
  proof
    fix d assume "d \<in> set (map (job_entry s) L')"
    then obtain p where p: "p \<in> set L'" "d = job_entry s p" by auto
    obtain j :: "32 word" and r where "0 < sint j" "req_wf r" "d = show_int (sint j)" "spool s1 (spool_name REQDIR d) = Some (encode_req r)"
      using job [OF p(1)] unfolding p(2) by blast
    with show_job_number [of j] show "d \<noteq> ''.'' \<and> d \<noteq> ''..'' \<and> length (spool_name REQDIR d) < FILENMSZ
       \<and> (\<exists>r. req_wf r \<and> spool s1 (spool_name REQDIR d) = Some (encode_req r))" by auto
  qed
  with requeue_ok [OF new(1), of ps "map (job_entry s) L'"] ps L'(2) obtain s2 where
    s2: "requeue (map (job_entry s) L') [] (map Some ps) s1 = Inr s2" "jobs_rel s2 ps" "spool s2 = spool s1"
    "map (job_of s2) ps = map (\<lambda>d. Some (word_of_int (atol d), decode_req (the (spool s1 (spool_name REQDIR d)))))
      (map (job_entry s) L')" by auto
  have "map (\<lambda>d. Some (word_of_int (atol d), decode_req (the (spool s1 (spool_name REQDIR d))))) (map (job_entry s) L')
      = map (job_of s) L'"
    unfolding map_map by (rule map_cong [OF refl]) (use job show_job_number(1) in fastforce)
  with s2 new(2) show ?thesis by (auto simp: build_qonstart_def requeue_dots [of ds] ds)
qed

definition sample_env :: "source \<Rightarrow> client_env" where
  "sample_env src = \<lparr>worker_mem = Some 16, job_mem = Some 8, from_client = src, file_calls = [],
     old_msg = replicate 512 NUL, old_buf = replicate IOBUFSZ NUL, strerror = (\<lambda>e. ''error'')\<rparr>"

definition wire_req :: printreq where
  "wire_req = submit_request (Some ''sar'') ''paper'' 10 False (replicate 64 NUL) (replicate 256 NUL)"

lemma wire_req_wf: "req_wf wire_req"
  unfolding wire_req_def by (rule submit_request_wf) (simp_all add: USERNM_MAX_def JOBNM_MAX_def)

lemma treadn_request:
  assumes "length a = REQSZ" "b \<noteq> []"
  shows "treadn [Bytes (a @ b)] REQSZ 10 = (int REQSZ, 0, a, [Bytes b])"
proof -
  have "a \<noteq> []" using assms(1) by (auto simp: REQSZ_def)
  with assms show ?thesis
    unfolding treadn_def by (subst read_loop.simps, subst read_loop.simps) (simp add: REQSZ_def)
qed


theorem job_accepted_witness:
  "\<exists>s'. client_thread (sample_env [Bytes (encode_req wire_req @ ''%!PS-Adobe'')]) 1 7 3 idle = Inr (True, s')
    \<and> jobs_rel s' [8] \<and> spool s' (job_file DATADIR 1) = Some ''%!PS-Adobe''"
proof -
  let ?E = "sample_env [Bytes (encode_req wire_req @ ''%!PS-Adobe'')]"
  have "treadn (from_client ?E) REQSZ 10 = (int REQSZ, 0, encode_req wire_req, [Bytes ''%!PS-Adobe''])"
    unfolding sample_env_def using treadn_request [OF length_encode_req [OF wire_req_wf]] by simp
  from job_accepted [OF idle_rel(2,4) _ _ idle_rel(1) _ _ _ this refl, of 16 1 8 7 3]
  show ?thesis by (auto simp: sample_env_def idle_def)
qed

theorem restart_restores_queue_witness:
  "\<exists>s2. build_qonstart (Some [''.'', ''1'', ''..'']) [] [Some 4]
      (idle\<lparr>spool := [job_file REQDIR 1 \<mapsto> encode_req wire_req, job_file DATADIR 1 \<mapsto> ''x'']\<rparr>) = Inr s2
    \<and> jobs_rel s2 [4] \<and> job_of s2 4 = Some (1, wire_req)"
proof -
  let ?S = "[job_file REQDIR 1 \<mapsto> encode_req wire_req, job_file DATADIR 1 \<mapsto> ''x'']"
  let ?s = "idle\<lparr>spool := ?S, jobs := [8 \<mapsto> \<lparr>job_next = None, job_prev = None, jobid = 1, req = wire_req\<rparr>]\<rparr>"
  have job: "job_of ?s 8 = Some (1, wire_req)" by (simp add: job_of_def)
  have one: "show_int (sint (1 :: 32 word)) = ''1''" "0 < sint (1 :: 32 word)" by code_simp+
  have sp: "spooled ?s [8]" using wire_req_wf job one(2) by (simp add: spooled_def)
  have e: "job_entry ?s 8 = ''1''" using job one(1) by (simp add: job_entry_def)
  have rel: "jobs_rel (idle\<lparr>spool := ?S\<rparr>) []"
    by (rule jobs_rel_same [OF _ _ idle_rel(1)]) (simp_all add: same_jobs_def idle_def)
  from restart_restores_queue [OF sp refl rel, of "[4]" "[''.'', ''1'', ''..'']"] e job show ?thesis by auto
qed

end
