(* ===== verification/PrintDeliver.thy ===== *)
theory PrintDeliver imports PrintClient begin

text \<open>
  Delivery of a job to the printer (printer/printd.c): what reaches the printer, and what a round of
  \<^verbatim>\<open>printer_thread\<close> does to the queue and the spool directory.
\<close>

section \<open>What is sent\<close>

definition sends :: "string \<Rightarrow> sink \<Rightarrow> bool \<Rightarrow> sink \<Rightarrow> bool" where
  "sends bs k ok k' \<longleftrightarrow> (\<exists>d. snd k' = snd k @ d \<and> take (length d) bs = d \<and> (ok \<longrightarrow> d = bs))"

lemma sends_nothing: "sends bs k False k"
  by (simp add: sends_def)

lemma sends_append: "sends a k True k' \<Longrightarrow> sends b k' ok k'' \<Longrightarrow> sends (a @ b) k ok k''"
  by (auto simp: sends_def)

lemma sends_part: "sends a k False k' \<Longrightarrow> sends (a @ b) k False k'"
  by (auto simp: sends_def) (metis append_take_drop_id length_take min.absorb2 nle_le take_all take_append)

lemma os_write_sends: "os_write k bs = (WGot n, k') \<Longrightarrow> sends bs k (n = length bs) k'"
  by (cases "(k, bs)" rule: os_write.cases) (auto simp: sends_def min_def)

lemma os_write_fails: "os_write k bs = (WErr e, k') \<Longrightarrow> sends bs k False k'"
  by (cases "(k, bs)" rule: os_write.cases) (auto simp: sends_def)

lemma writen_sends: "writen k bs = (n, e, k') \<Longrightarrow> sends bs k (n = int (length bs)) k'"
proof -
  assume a: "writen k bs = (n, e, k')"
  obtain sc out where k: "k = (sc, out)" by (cases k)
  obtain sc' where w: "write_loop (length bs) k bs =
     (if bs \<noteq> [] \<and> taken sc (length bs) = 0 \<and> stopped_by sc (length bs) \<noteq> None then -1 else int (taken sc (length bs)),
      (case stopped_by sc (length bs) of None \<Rightarrow> 0 | Some e \<Rightarrow> e), (sc', out @ take (taken sc (length bs)) bs))"
    using write_loop_result [of bs "length bs" k sc out] k by auto
  have "taken sc (length bs) \<le> length bs" by (rule taken_le)
  with a w k show ?thesis by (auto simp: writen_def sends_def split: if_splits)
qed

lemma send_file_sends: "send_file os data k = (ok, k') \<Longrightarrow> sends data k ok k'"
proof (induction os data k rule: send_file.induct)
  case (1 os data k)
  obtain c os' where c: "next_call os = (c, os')" by (cases "next_call os")
  let ?buf = "take IOBUFSZ data"
  obtain nw e k1 where w: "writen k ?buf = (nw, e, k1)" by (cases "writen k ?buf")
  have split: "data = ?buf @ drop IOBUFSZ data" by simp
  show ?case
  proof (cases "\<exists>e. c = Refused e")
    case True
    with c "1.prems" show ?thesis by (subst (asm) send_file.simps) (auto simp: sends_nothing)
  next
    case False
    then have eq: "send_file os data k = (if ?buf = [] then (True, k)
        else if nw \<noteq> int (length ?buf) then (False, k1) else send_file os' (drop IOBUFSZ data) k1)"
      using c w by (subst send_file.simps) (auto simp: Let_def split: fcall.split)
    show ?thesis
    proof (cases "?buf = [] \<or> nw \<noteq> int (length ?buf)")
      case True
      have "sends ?buf k False k1" if "nw \<noteq> int (length ?buf)" using writen_sends [OF w] that by simp
      from sends_part [OF this, of "drop IOBUFSZ data"] True eq "1.prems" show ?thesis
        by (auto simp: sends_def IOBUFSZ_def split: if_splits)
    next
      case neq: False
      then have "send_file os' (drop IOBUFSZ data) k1 = (ok, k')" using eq "1.prems" by simp
      then have "sends (drop IOBUFSZ data) k1 ok k'" using "1.IH" c w neq False by (cases c) auto
      moreover have "sends ?buf k True k1" using writen_sends [OF w] neq by simp
      ultimately show ?thesis using sends_append [of ?buf k k1 "drop IOBUFSZ data" ok k'] by simp
    qed
  qed
qed

lemma http_header_eq:
  "http_header len printer = Inr h \<Longrightarrow>
     h = ''POST /ipp HTTP/1.1'' @ CRLF @ ''Content-Length: '' @ show_int len @ CRLF @ ''Content-Type: application/ipp'' @ CRLF
       @ ''Host: '' @ printer @ '':631'' @ CRLF @ CRLF"
  by (auto simp: http_header_def rbind_eq_Inr store_str_def store_def split: if_splits)

lemma send_job_sends:
  assumes run: "send_job E jid r printer data = Inr (ok, sent)"
    and ib: "ipp_header jid r printer = Inr ibuf"
    and hb: "http_header (int (length data) + int (length ibuf) + (if is_text r then 1 else 0)) printer = Inr hbuf"
  shows "sends ((hbuf @ ibuf) @ (if is_text r then [byte 8] else []) @ data) (takes E, []) ok (takes E, sent)"
proof -
  let ?mark = "if is_text r then [byte 8] else []" and ?k = "(takes E, [])"
  note run = run [unfolded send_job_def ib rbind_Inr Let_def hb]
  obtain x k1 where w: "os_write ?k (hbuf @ ibuf) = (x, k1)" by (cases "os_write ?k (hbuf @ ibuf)")
  obtain y k2 where w2: "(if is_text r then os_write k1 [byte 8] else (WGot 1, k1)) = (y, k2)"
    by (cases "if is_text r then os_write k1 [byte 8] else (WGot 1, k1)")
  obtain ok3 k3 where w3: "send_file (drop 1 (data_calls E)) data k2 = (ok3, k3)"
    by (cases "send_file (drop 1 (data_calls E)) data k2")
  consider "x \<noteq> WGot (length (hbuf @ ibuf))" | "x = WGot (length (hbuf @ ibuf))" "y \<noteq> WGot 1"
    | "x = WGot (length (hbuf @ ibuf))" "y = WGot 1" by blast
  then show ?thesis
  proof cases
    case 1
    have "sends (hbuf @ ibuf) ?k False k1"
      using os_write_sends [of _ _ _ k1] os_write_fails [of _ _ _ k1] w 1 by (cases x) fastforce+
    from sends_part [OF this, of "?mark @ data"] show ?thesis
      using run w 1 by (auto simp: sends_def split: wrres.splits if_splits)
  next
    case 2
    then have s1: "sends (hbuf @ ibuf) ?k True k1"
      using os_write_sends [of ?k "hbuf @ ibuf" "length (hbuf @ ibuf)" k1] w by simp
    have "is_text r" using w2 2(2) by (auto split: if_splits)
    then have "sends ?mark k1 False k2"
      using os_write_sends [of k1 "[byte 8]" _ k2] os_write_fails [of k1 "[byte 8]" _ k2] w2 2(2) by (cases y) auto
    from sends_append [OF s1 sends_part [OF this, of data]] show ?thesis
      using run w w2 2 by (auto simp: sends_def split: wrres.splits if_splits)
  next
    case 3
    then have s1: "sends (hbuf @ ibuf) ?k True k1"
      using os_write_sends [of ?k "hbuf @ ibuf" "length (hbuf @ ibuf)" k1] w by simp
    have "sends ?mark k1 True k2"
      using os_write_sends [of k1 "[byte 8]" 1 k2] w2 3(2) by (auto simp: sends_def split: if_splits)
    from sends_append [OF s1 sends_append [OF this send_file_sends [OF w3]]] show ?thesis
      using run w w2 w3 3 by (auto simp: sends_def)
  qed
qed

text \<open>C11: What the printer gets for a job is a prefix of one HTTP message: a header whose Content-Length is
  the number of bytes after it, the IPP header, a backspace for a text job, and the whole document; when
  \<^verbatim>\<open>printer_thread\<close> goes on to read the answer, all of it was sent.\<close>

theorem job_message:
  assumes "send_job E jid r printer data = Inr (ok, sent)"
  shows "\<exists>ibuf tail body. ipp_header jid r printer = Inr ibuf
    \<and> body = ibuf @ (if is_text r then [byte 8] else []) @ data
    \<and> (let message = ''POST /ipp HTTP/1.1'' @ CRLF @ ''Content-Length: '' @ show_int (int (length body)) @ CRLF @ tail @ CRLF @ CRLF @ body
       in take (length sent) message = sent \<and> (ok \<longrightarrow> sent = message))"
proof -
  obtain ibuf where ib: "ipp_header jid r printer = Inr ibuf"
    using assms by (cases "ipp_header jid r printer") (simp_all add: send_job_def)
  let ?len = "int (length data) + int (length ibuf) + (if is_text r then 1 else 0)"
  obtain hbuf where hb: "http_header ?len printer = Inr hbuf"
    using assms ib by (cases "http_header ?len printer") (simp_all add: send_job_def Let_def)
  let ?body = "ibuf @ (if is_text r then [byte 8] else []) @ data"
  have "?len = int (length ?body)" by simp
  then have "hbuf = ''POST /ipp HTTP/1.1'' @ CRLF @ ''Content-Length: '' @ show_int (int (length ?body)) @ CRLF
      @ (''Content-Type: application/ipp'' @ CRLF @ ''Host: '' @ printer @ '':631'') @ CRLF @ CRLF"
    using http_header_eq [OF hb] by (simp only:) simp
  then show ?thesis using send_job_sends [OF assms ib hb] ib
    by (intro exI [of _ ibuf] exI [of _ "''Content-Type: application/ipp'' @ CRLF @ ''Host: '' @ printer @ '':631''"]
        exI [of _ ?body]) (auto simp: sends_def Let_def)
qed

section \<open>A round of the printer thread\<close>






lemma job_of_event [simp]: "job_of (event e s) = job_of s"
  by (rule job_of_same) (simp add: same_jobs_def)











definition sample_print :: print_env where
  "sample_print = \<lparr>printaddr = Inr None, data_calls = [], attempts = (\<lambda>k. (-1, False)), takes = [], answers = [],
     heap_junk = NUL, status_fuel = 0\<rparr>"




theorem job_message_witness:
  "\<exists>ibuf sent. send_job sample_print 7 (sample_req 4) ''lp'' ''%!PS'' = Inr (True, sent) \<and> ipp_header 7 (sample_req 4) ''lp'' = Inr ibuf
     \<and> drop (length sent - length ibuf - 4) sent = ibuf @ ''%!PS''"
proof -
  have t: "\<not> is_text (sample_req 4)" by code_simp
  have c: "cstr ''sar'' = ''sar''" "cstr ''paper'' = ''paper''" by code_simp+
  have ib: "ipp_header 7 (sample_req 4) ''lp'' = Inr (ipp_bytes 7 (sample_req 4) ''lp'')"
    using t c by (simp add: ipp_header_eq mime_type_def is_text_def sample_req_def)
  let ?len = "int (length ''%!PS'') + int (length (ipp_bytes 7 (sample_req 4) ''lp'')) + 0"
  have "length (ipp_bytes 7 (sample_req 4) ''lp'') = 192" using t c
    by (simp add: ipp_bytes_def ipp_attrs_def mime_type_def is_text_def sample_req_def)
  moreover have "show_int 196 = ''196''" by code_simp
  ultimately obtain hb where hb: "http_header ?len ''lp'' = Inr hb"
    by (simp add: http_header_def store_str_def store_def CRLF_def HBUFSZ_def)
  have w: "writen ([], x) ''%!PS'' = (4, 0, ([], x @ ''%!PS''))" for x
    unfolding writen_def by (simp add: write_loop.simps)
  have f: "send_file [] ''%!PS'' ([], x) = (True, ([], x @ ''%!PS''))" for x
    by (simp add: send_file.simps IOBUFSZ_def w)
  have s: "send_job sample_print 7 (sample_req 4) ''lp'' ''%!PS''
      = Inr (True, hb @ ipp_bytes 7 (sample_req 4) ''lp'' @ ''%!PS'')"
    using hb ib t f by (simp add: send_job_def sample_print_def Let_def)
  from job_message [OF s] s ib t show ?thesis by (auto simp: Let_def)
qed

end
