(* ===== verification/PrintSubmit.thy ===== *)
theory PrintSubmit imports PrintDeliver begin

text \<open>
  The \<^verbatim>\<open>print\<close> command (printer/print.c): \<^verbatim>\<open>main\<close> after option parsing and \<^verbatim>\<open>submit_file\<close>; and the
  composition of the command with a client thread of the daemon.
\<close>

section \<open>submit_file\<close>

datatype said = Job_id int | Rejected_job string

text \<open>What the command meets: the name \<^verbatim>\<open>getpwuid\<close> finds, the old content of the arrays of the request,
  the outcomes of the reads of the file, how the server takes what is written, and its reply.\<close>

record submit_env =
  user_name :: "string option"
  old_usernm :: string
  old_jobnm :: string
  reads :: "fcall list"
  server_takes :: "outcome list"
  server_reply :: source

text \<open>The loop that sends the file. After a failed read it calls \<^verbatim>\<open>writen\<close> with a length of -1, which as an
  unsigned length runs past the buffer.\<close>

function copy_file :: "fcall list \<Rightarrow> string \<Rightarrow> sink \<Rightarrow> unit res \<times> sink" where
  "copy_file os data k =
     (case next_call os of
        (Refused e, os) \<Rightarrow> (Inl Fault, k)
      | (_, os) \<Rightarrow>
          let buf = take IOBUFSZ data in
          if buf = [] then (Inr (), k)
          else case writen k buf of (nw, e, k) \<Rightarrow>
            if nw \<noteq> int (length buf) then
              (Inl (if nw < 0 then Sys ''can't write to print server'' else Quit ''short write to print server''), k)
            else copy_file os (drop IOBUFSZ data) k)"
  by pat_completeness auto
termination by (relation "measure (\<lambda>(os, data, k). length data)") (auto simp: IOBUFSZ_def)

declare copy_file.simps [simp del]

definition RESPSZ :: nat where
  "RESPSZ = 8 + MSGLEN_MAX"

definition decode_resp :: "string \<Rightarrow> printresp" where
  "decode_resp bs = \<lparr>retcode = of_le32 (take 4 bs), res_jobid = of_le32 (take 4 (drop 4 bs)), msg = drop 8 bs\<rparr>"

definition submit_file :: "submit_env \<Rightarrow> string \<Rightarrow> string \<Rightarrow> nat \<Rightarrow> bool \<Rightarrow> said res \<times> sink" where
  "submit_file S data fname nbytes text =
     (let r = submit_request (user_name S) fname nbytes text (old_usernm S) (old_jobnm S);
          hdr = encode_req r in
      case writen (server_takes S, []) hdr of (nw, e, k) \<Rightarrow>
      if nw \<noteq> int (length hdr) then
        (Inl (if nw < 0 then Sys ''can't write to print server'' else Quit ''short write to print server''), k)
      else
        case copy_file (reads S) data k of (Inl err, k) \<Rightarrow> (Inl err, k)
        | (Inr _, k) \<Rightarrow>
            (case readn (server_reply S) RESPSZ of (nr, e, bs, src) \<Rightarrow>
             if nr \<noteq> int RESPSZ then (Inl (Sys ''can't read response from server''), k)
             else
               let res = decode_resp bs in
               if retcode res \<noteq> 0 then (Inr (Rejected_job (cstr (msg res))), k)
               else (Inr (Job_id (int (unat (htonl (res_jobid res))))), k)))"

text \<open>\<^verbatim>\<open>main\<close> after \<^verbatim>\<open>getopt\<close>, with its findings (an unknown option, the flag -t, the operands) as arguments.
  \<open>fstat\<close> is \<open>None\<close> if the call fails, else whether the file is a regular one; \<open>dial\<close> is what the attempts
  to connect to an address meet.\<close>

fun dial_servers :: "(addrinfo \<Rightarrow> nat \<Rightarrow> int \<times> bool) \<Rightarrow> addrinfo list \<Rightarrow> (addrinfo \<times> int) option res" where
  "dial_servers dial [] = Inr None"
| "dial_servers dial (aip # ais) =
     rbind (connect_retry (dial aip)) (\<lambda>(sfd, evs).
     if sfd < 0 then dial_servers dial ais else Inr (Some (aip, sfd)))"

definition print_main ::
    "bool \<Rightarrow> bool \<Rightarrow> string list \<Rightarrow> (string \<rightharpoonup> string) \<Rightarrow> (string \<rightharpoonup> bool) \<Rightarrow> string option
     \<Rightarrow> (string \<Rightarrow> string \<Rightarrow> int + addrinfo list) \<Rightarrow> (addrinfo \<Rightarrow> nat \<Rightarrow> int \<times> bool) \<Rightarrow> (addrinfo \<Rightarrow> submit_env) \<Rightarrow> said res" where
  "print_main bad_option text operands files fstat conf getaddrlist dial serve =
     (if bad_option then Inl (Quit ''usage: print [-t] filename'')
      else case operands of
        [fname] \<Rightarrow>
          (case files fname of
             None \<Rightarrow> Inl (Sys (''print: can't open '' @ fname))
           | Some data \<Rightarrow>
               (case fstat fname of
                  None \<Rightarrow> Inl (Sys (''print: can't stat '' @ fname))
                | Some regular \<Rightarrow>
                    if \<not> regular then Inl (Quit (''print: '' @ fname @ '' must be a regular file''))
                    else
                      rbind (get_printserver conf) (\<lambda>host.
                      case host of
                        None \<Rightarrow> Inl (Quit ''print: no print server defined'')
                      | Some host \<Rightarrow>
                          (case getaddrlist host ''print'' of
                             Inl e \<Rightarrow> Inl (Quit ''print: getaddrinfo error'')
                           | Inr ailist \<Rightarrow>
                               rbind (dial_servers dial ailist) (\<lambda>r.
                               case r of
                                 None \<Rightarrow> Inl (Sys (''print: can't contact '' @ host))
                               | Some (aip, sfd) \<Rightarrow> fst (submit_file (serve aip) data fname (length data) text))))))
      | _ \<Rightarrow> Inl (Quit ''usage: print [-t] filename''))"

section \<open>Lemmas\<close>

lemma writen_all: "writen ([], out) bs = (int (length bs), 0, ([], out @ bs))"
  using write_loop_result [of bs "length bs" "([], out)" "[]" out] by (cases bs) (auto simp: writen_def write_loop.simps)

lemma copy_file_all: "copy_file [] data ([], out) = (Inr (), ([], out @ data))"
proof (induction "length data" arbitrary: data out rule: less_induct)
  case less
  show ?case
  proof (cases "take IOBUFSZ data = []")
    case True
    then have "data = []" by (cases data) (simp_all add: IOBUFSZ_def)
    then show ?thesis by (subst copy_file.simps) simp
  next
    case False
    then have ne: "data \<noteq> []" by auto
    have "length (drop IOBUFSZ data) < length data" using ne by (simp add: IOBUFSZ_def)
    from less [OF this, of "out @ take IOBUFSZ data"] False show ?thesis
      by (subst copy_file.simps) (simp add: Let_def writen_all)
  qed
qed

lemma decode_encode_resp: "decode_resp (encode_resp r) = r"
  by (simp add: decode_resp_def encode_resp_def)

lemma readn_one: "length bs = n \<Longrightarrow> bs \<noteq> [] \<Longrightarrow> readn [Bytes bs] n = (int n, 0, bs, [])"
  unfolding readn_def by (cases bs) (auto simp: read_loop.simps)

lemma submit_file_reply:
  assumes "reads S = []" "server_takes S = []" "server_reply S = [Bytes (encode_resp r)]" "length (msg r) = MSGLEN_MAX"
  shows "submit_file S data fname nbytes text
    = (Inr (if retcode r \<noteq> 0 then Rejected_job (cstr (msg r)) else Job_id (int (unat (htonl (res_jobid r))))),
       ([], encode_req (submit_request (user_name S) fname nbytes text (old_usernm S) (old_jobnm S)) @ data))"
proof -
  have "length (encode_resp r) = RESPSZ" using assms(4) by (simp add: encode_resp_def RESPSZ_def)
  moreover have "encode_resp r \<noteq> []" by (simp add: encode_resp_def le32_def Let_def)
  ultimately show ?thesis
    using assms(1-3) readn_one [of "encode_resp r" RESPSZ]
    by (simp add: submit_file_def Let_def writen_all copy_file_all decode_encode_resp)
qed

text \<open>Bytes in pieces, and then silence, as the daemon sees a client that waits for the reply.\<close>

definition pieces :: "string list \<Rightarrow> source" where
  "pieces cs = map Bytes cs @ [Idle 20]"

lemma t_avail_pieces: "\<forall>c \<in> set cs. c \<noteq> [] \<Longrightarrow> t \<le> 20 \<Longrightarrow> w \<le> 20 \<Longrightarrow> t_avail t w (pieces cs) = concat cs"
  by (induction cs arbitrary: w) (auto simp: pieces_def)

lemma read_loop_pieces:
  "\<forall>c \<in> set cs. c \<noteq> [] \<Longrightarrow> nleft \<le> length (concat cs) \<Longrightarrow> nleft \<le> n \<Longrightarrow>
     \<exists>cs'. read_loop (\<lambda>s n. tread s n 10) n (pieces cs) nleft got = (int n, 0, got @ take nleft (concat cs), pieces cs')
       \<and> concat cs' = drop nleft (concat cs) \<and> (\<forall>c \<in> set cs'. c \<noteq> [])"
proof (induction nleft arbitrary: cs got rule: less_induct)
  case (less nleft)
  show ?case
  proof (cases "nleft = 0")
    case True
    with less.prems show ?thesis by (subst read_loop.simps) (auto intro!: exI [of _ cs])
  next
    case False
    then obtain c ds where cs: "cs = c # ds" using less.prems(2) by (cases cs) auto
    have c: "c \<noteq> []" "\<forall>c \<in> set ds. c \<noteq> []" using less.prems(1) cs by auto
    show ?thesis
    proof (cases "length c \<le> nleft")
      case True
      have "nleft - length c < nleft" using c(1) False by (cases c) auto
      moreover have "nleft - length c \<le> length (concat ds)" "nleft - length c \<le> n"
        using less.prems(2,3) by (auto simp: cs)
      ultimately obtain cs' where
        "read_loop (\<lambda>s n. tread s n 10) n (pieces ds) (nleft - length c) (got @ c)
          = (int n, 0, (got @ c) @ take (nleft - length c) (concat ds), pieces cs')"
        "concat cs' = drop (nleft - length c) (concat ds)" "\<forall>c \<in> set cs'. c \<noteq> []"
        using less.IH [OF _ c(2), of "nleft - length c" "got @ c"] by blast
      then show ?thesis using c(1) False True unfolding cs
        by (subst read_loop.simps) (auto simp: pieces_def intro!: exI [of _ cs'])
    next
      case len: False
      have "read_loop (\<lambda>s n. tread s n 10) n (pieces cs) nleft got
          = read_loop (\<lambda>s n. tread s n 10) n (pieces (drop nleft c # ds)) 0 (got @ take nleft c)"
        using len False c(1) unfolding cs by (subst read_loop.simps) (auto simp: pieces_def)
      also have "\<dots> = (int n, 0, got @ take nleft c, pieces (drop nleft c # ds))" by (subst read_loop.simps) simp
      finally show ?thesis using len False c by (auto simp: cs intro!: exI [of _ "drop nleft c # ds"])
    qed
  qed
qed

section \<open>Properties\<close>

text \<open>C7: From the command to the queue: whatever pieces the bytes arrive in, a job submitted with
  \<^verbatim>\<open>print\<close> ends up last in the daemon's queue, with the user and file name of the request and the whole
  document in the spool directory, and the command prints the number under which it was queued.\<close>

theorem print_end_to_end:
  assumes daemon: "linked_workers s []" "Workerlock \<notin> held s" "jobs_rel s L" "p \<notin> set L" "0 < sint (nextjob s)"
    and env: "worker_mem E = Some a" "job_mem E = Some p" "file_calls E = []" "length (old_msg E) = MSGLEN_MAX" "0 < n"
    and cmd: "reads S = []" "server_takes S = []" "length (old_usernm S) = USERNM_MAX" "length (old_jobnm S) = JOBNM_MAX"
      "user_name S = Some nm" "NUL \<notin> set nm" "NUL \<notin> set fname" "length fname < JOBNM_MAX"
    and wire: "concat cs = snd (snd (submit_file S data fname (length data) text))" "\<forall>c \<in> set cs. c \<noteq> []"
      "from_client E = pieces cs" "server_reply S = [Bytes (encode_resp (success_resp E (nextjob s)))]"
  shows "\<exists>s' r. client_thread E n t fd s = Inr (True, s') \<and> jobs_rel s' (L @ [p]) \<and> job_of s' p = Some (nextjob s, r)
    \<and> cstr (usernm r) = take 63 nm \<and> cstr (jobnm r) = fname \<and> req_size r = of_nat (length data) \<and> (text \<longrightarrow> is_text r)
    \<and> spool s' (job_file DATADIR (nextjob s)) = Some data \<and> Reply (encode_resp (success_resp E (nextjob s))) \<in> set (events s')
    \<and> fst (submit_file S data fname (length data) text) = Inr (Job_id (sint (nextjob s)))"
proof -
  let ?q = "submit_request (Some nm) fname (length data) text (old_usernm S) (old_jobnm S)"
  have wf: "req_wf ?q" by (rule submit_request_wf) (use cmd in auto)
  have lt: "sint (nextjob s) < 2 ^ 31" using sint_lt [of "nextjob s"] by simp
  have "length (show_nat (nat (sint (nextjob s)))) \<le> 10" using daemon(5) lt by (intro length_show_nat) simp_all
  then have m: "length (msg (success_resp E (nextjob s))) = MSGLEN_MAX"
    using env(4) daemon(5) by (simp add: success_resp_def length_c_strcpy show_int_def MSGLEN_MAX_def)
  have u: "int (unat (nextjob s)) = sint (nextjob s)"
    using daemon(5) lt by (simp add: uint_sint take_bit_int_eq_self flip: uint_nat)
  have sub: "submit_file S data fname (length data) text = (Inr (Job_id (sint (nextjob s))), ([], encode_req ?q @ data))"
    using submit_file_reply [OF cmd(1,2) wire(4) m, of data fname "length data" "text"] u cmd(5)
    by (simp add: success_resp_def)
  have bytes: "concat cs = encode_req ?q @ data" using wire(1) sub by simp
  obtain cs' where cs': "treadn (from_client E) REQSZ 10 = (int REQSZ, 0, encode_req ?q, pieces cs')" "concat cs' = data"
    "\<forall>c \<in> set cs'. c \<noteq> []"
    using read_loop_pieces [OF wire(2), of REQSZ REQSZ "[]"] length_encode_req [OF wf] bytes
    unfolding treadn_def wire(3) by auto
  let ?r = "(host_order (decode_req (encode_req ?q)))\<lparr>req_flags :=
      sniffed (old_buf E) (pieces cs') (htonl (req_flags (decode_req (encode_req ?q))))\<rparr>"
  have "htonl 0 = 0" "PR_TEXT AND PR_TEXT \<noteq> 0" "(PR_TEXT OR PR_TEXT) AND PR_TEXT \<noteq> 0" by code_simp+
  then have istext: "is_text ?r" if "text"
    using that wf by (auto simp: is_text_def submit_request_def sniffed_def split: rdres.split)
  have "t_avail 20 20 (pieces cs') = data" using t_avail_pieces [OF cs'(3), of 20 20] cs'(2) by simp
  with job_accepted_ok [OF daemon(1,2) env(1,5) daemon(3,4) env(2,3) cs'(1) refl, of t fd]
  obtain s' where "client_thread E n t fd s = Inr (True, s')" "jobs_rel s' (L @ [p])" "job_of s' p = Some (nextjob s, ?r)"
    "spool s' (job_file DATADIR (nextjob s)) = Some data" "Reply (encode_resp (success_resp E (nextjob s))) \<in> set (events s')"
    by auto
  moreover have "cstr (usernm ?r) = take 63 nm" "cstr (jobnm ?r) = fname" "req_size ?r = of_nat (length data)"
    using wf submit_request_user [OF cmd(3), of "Some nm"] submit_request_job [OF cmd(7)] cmd(6,8)
    by (simp_all add: host_order_def) (simp add: submit_request_def)
  ultimately show ?thesis using istext sub by (intro exI [of _ s'] exI [of _ ?r]) auto
qed

definition sample_submit :: submit_env where
  "sample_submit = \<lparr>user_name = Some ''sar'', old_usernm = replicate 64 NUL, old_jobnm = replicate 256 NUL, reads = [],
     server_takes = [], server_reply = [Bytes (encode_resp (success_resp (sample_env []) 1))]\<rparr>"

definition sample_bytes :: string where
  "sample_bytes = encode_req (submit_request (Some ''sar'') ''paper.ps'' 4 True (replicate 64 NUL) (replicate 256 NUL)) @ ''text''"

theorem print_end_to_end_witness:
  "\<exists>s' r. client_thread (sample_env (pieces [take 100 sample_bytes, drop 100 sample_bytes])) 1 7 3 idle = Inr (True, s')
    \<and> job_of s' 8 = Some (1, r) \<and> cstr (usernm r) = ''sar'' \<and> cstr (jobnm r) = ''paper.ps'' \<and> is_text r
    \<and> spool s' (job_file DATADIR 1) = Some ''text'' \<and> fst (submit_file sample_submit ''text'' ''paper.ps'' 4 True) = Inr (Job_id 1)"
proof -
  let ?cs = "[take 100 sample_bytes, drop 100 sample_bytes]" and ?E = "sample_env (pieces [take 100 sample_bytes, drop 100 sample_bytes])"
  have one: "sint (1 :: 32 word) = 1" by code_simp
  then have "show_int (sint (1 :: 32 word)) = ''1''" by code_simp
  then have m: "length (msg (success_resp (sample_env []) 1)) = MSGLEN_MAX"
    by (simp add: success_resp_def sample_env_def c_strcpy_def MSGLEN_MAX_def)
  have "submit_file sample_submit ''text'' ''paper.ps'' 4 True
      = (Inr (Job_id (int (unat (htonl (res_jobid (success_resp (sample_env []) 1)))))), ([], sample_bytes))"
    using submit_file_reply [of sample_submit "success_resp (sample_env []) 1"] m
    by (simp add: sample_submit_def success_resp_def sample_bytes_def)
  then have w: "concat ?cs = snd (snd (submit_file sample_submit ''text'' ''paper.ps'' (length ''text'') True))" by (simp add: eval_nat_numeral)
  have "length sample_bytes = 332" unfolding sample_bytes_def
    using length_encode_req [OF submit_request_wf, of "replicate 64 NUL" "replicate 256 NUL" "Some ''sar''" "''paper.ps''" 4 True]
    by (simp add: USERNM_MAX_def JOBNM_MAX_def REQSZ_def)
  then have ne: "\<forall>c \<in> set ?cs. c \<noteq> []" by auto
  have nj: "nextjob idle = 1" by (simp add: idle_def)
  have r: "server_reply sample_submit = [Bytes (encode_resp (success_resp ?E (nextjob idle)))]"
    by (simp add: sample_submit_def success_resp_def sample_env_def nj)
  have four: "length ''text'' = 4" by simp
  from print_end_to_end [OF idle_rel(2,4,1) _ _ _ _ _ _ _ _ _ _ _ _ _ _ _ w ne _ r, of 8 16 1 "''sar''" 7 3] one
  show ?thesis
    unfolding four by (auto simp: sample_env_def sample_submit_def nj MSGLEN_MAX_def USERNM_MAX_def JOBNM_MAX_def)
qed

end
