(* ===== verification/PrintMain.thy ===== *)
theory PrintMain imports PrintServer PrintProps begin

text \<open>
  The start of the print spooler daemon, \<^verbatim>\<open>main\<close> of printer/printd.c: signals, sockets, the change to an unprivileged
  user, the threads, and the loop that accepts connections.
\<close>

section \<open>The process\<close>

text \<open>What \<^verbatim>\<open>main\<close> does besides setting up the process: the calls of the other functions and the threads it makes.\<close>

datatype main_act = Init_request | Init_printer | Starts string | Rebuilds | Client int

text \<open>\<open>acts\<close> has every act with the user, whether SIGPIPE is ignored, and whether SIGHUP and SIGTERM are blocked at that time,
  the latest first.\<close>

record pmain =
  muid :: int
  mgid :: int
  pipe_ignored :: bool
  hup_term_blocked :: bool
  rendezvous :: "int list"
  maxfd :: int
  acts :: "(main_act \<times> int \<times> bool \<times> bool) list"

definition act :: "main_act \<Rightarrow> pmain \<Rightarrow> pmain" where
  "act x m = m\<lparr>acts := (x, muid m, pipe_ignored m, hup_term_blocked m) # acts m\<rparr>"

text \<open>The answers to the calls of \<^verbatim>\<open>main\<close>, in their order: \<open>servers\<close> is what \<^verbatim>\<open>getaddrlist\<close> finds, as the results of \<^verbatim>\<open>initserver\<close>
  for its addresses, and \<open>pwd\<close> the entry of the user \<^verbatim>\<open>lp\<close>. The last four are those of \<^verbatim>\<open>init_request\<close>, \<^verbatim>\<open>init_printer\<close> and
  \<^verbatim>\<open>build_qonstart\<close>.\<close>

record main_ans =
  argc :: int
  sigaction_ok :: bool
  sigmask_err :: int
  host_malloc :: bool
  hostname_ok :: bool
  servers :: "int + int list"
  pwd :: "(int \<times> int) option"
  setgid_ok :: bool
  setuid_ok :: bool
  printer_thr :: int
  signal_thr :: int
  job_locked :: bool
  job_fails :: bool
  job_junk :: string
  printer_addr :: "addrinfo list option res"
  spool_dir :: "string list option"
  spool_calls :: "fcall list"
  job_mems :: "addr option list"

section \<open>main\<close>

text \<open>The loop over the addresses.\<close>

fun listen_all :: "int list \<Rightarrow> pmain \<Rightarrow> pmain" where
  "listen_all [] m = m"
| "listen_all (fd # fds) m =
     listen_all fds (if 0 \<le> fd then
        let m = m\<lparr>rendezvous := rendezvous m @ [fd]\<rparr> in if maxfd m < fd then m\<lparr>maxfd := fd\<rparr> else m
      else m)"

definition drop_privileges :: "main_ans \<Rightarrow> pmain \<Rightarrow> pmain res" where
  "drop_privileges a m =
     (case pwd a of
        None \<Rightarrow> Inl (Sys ''can't find user lp'')
      | Some (uid, gid) \<Rightarrow>
        if uid = 0 then Inl (Quit ''user lp is privileged'')
        else if \<not> setgid_ok a \<or> \<not> setuid_ok a then Inl (Sys ''can't change IDs to user lp'')
        else Inr (m\<lparr>mgid := gid, muid := uid\<rparr>))"

definition listens :: "main_ans \<Rightarrow> pmain \<Rightarrow> pmain res" where
  "listens a m =
     (case servers a of
        Inl err \<Rightarrow> Inl (Quit ''getaddrinfo error'')
      | Inr fds \<Rightarrow>
        let m = listen_all fds (m\<lparr>rendezvous := [], maxfd := -1\<rparr>) in
        if maxfd m = -1 then Inl (Quit ''service not enabled'') else Inr m)"

text \<open>Both threads, then the queue; a thread that cannot be made ends the process.\<close>

definition start_threads :: "main_ans \<Rightarrow> pmain \<Rightarrow> pmain res" where
  "start_threads a m =
     (let err = printer_thr a; m = (if err = 0 then act (Starts ''printer_thread'') m else m) in
      let (err, m) = (if err = 0 then (signal_thr a, if signal_thr a = 0 then act (Starts ''signal_thread'') m else m) else (err, m)) in
      if err \<noteq> 0 then Inl (Quit ''can't create thread'') else Inr m)"

text \<open>Up to the loop, with the state of the daemon.\<close>

definition printd_main :: "main_ans \<Rightarrow> pmain \<Rightarrow> printd \<Rightarrow> (pmain \<times> printd) res" where
  "printd_main a m s =
     (if argc a \<noteq> 1 then Inl (Quit ''usage: printd'')
      else if \<not> sigaction_ok a then Inl (Sys ''sigaction failed'')
      else
        let m = m\<lparr>pipe_ignored := True\<rparr> in
        if sigmask_err a \<noteq> 0 then Inl (Sys ''pthread_sigmask failed'')
        else
          let m = m\<lparr>hup_term_blocked := True\<rparr> in
          if \<not> host_malloc a then Inl (Sys ''malloc error'')
          else if \<not> hostname_ok a then Inl (Sys ''gethostname error'')
          else
            rbind (listens a m) (\<lambda>m. rbind (drop_privileges a m) (\<lambda>m.
            rbind (init_request (job_locked a) (job_fails a) (job_junk a) s) (\<lambda>s. let m = act Init_request m in
            rbind (init_printer (printer_addr a) s) (\<lambda>s. let m = act Init_printer m in
            rbind (start_threads a m) (\<lambda>m.
            rbind (build_qonstart (spool_dir a) (spool_calls a) (job_mems a) s) (\<lambda>s.
              Inr (act Rebuilds m, event (Log ''daemon initialized'') s))))))))"

text \<open>A turn of the loop: \<^verbatim>\<open>select\<close> fails, or tells which descriptors are ready; \<open>accepts i\<close> is what \<^verbatim>\<open>accept\<close> answers. A
  connection that was not accepted is logged, and gets a thread too.\<close>

definition accept_turn :: "int set option \<Rightarrow> (int \<Rightarrow> int) \<Rightarrow> pmain \<Rightarrow> printd \<Rightarrow> (pmain \<times> printd) res" where
  "accept_turn select accepts m s =
     (case select of
        None \<Rightarrow> Inl (Sys ''select failed'')
      | Some ready \<Rightarrow>
        Inr (fold (\<lambda>i (m, s).
          if i \<in> ready then (act (Client (accepts i)) m, if accepts i < 0 then event (Log ''accept failed'') s else s) else (m, s)) [0..maxfd m] (m, s)))"


text \<open>Turns, one after the other.\<close>

fun accept_turns :: "(int set option \<times> (int \<Rightarrow> int)) list \<Rightarrow> pmain \<Rightarrow> printd \<Rightarrow> (pmain \<times> printd) res" where
  "accept_turns [] m s = Inr (m, s)"
| "accept_turns ((select, accepts) # ts) m s = rbind (accept_turn select accepts m s) (\<lambda>(m, s). accept_turns ts m s)"

section \<open>The sockets\<close>

definition sockets_ok :: "pmain \<Rightarrow> bool" where
  "sockets_ok m \<longleftrightarrow> (\<forall>fd \<in> set (rendezvous m). 0 \<le> fd \<and> fd \<le> maxfd m) \<and> (maxfd m = -1 \<longleftrightarrow> rendezvous m = []) \<and> -1 \<le> maxfd m"

definition same_process :: "pmain \<Rightarrow> pmain \<Rightarrow> bool" where
  "same_process m m' \<longleftrightarrow> acts m' = acts m \<and> muid m' = muid m \<and> pipe_ignored m' = pipe_ignored m \<and> hup_term_blocked m' = hup_term_blocked m"

lemma listen_all_ok:
  "sockets_ok m \<Longrightarrow> sockets_ok (listen_all fds m) \<and> same_process m (listen_all fds m)
     \<and> rendezvous (listen_all fds m) = rendezvous m @ filter (\<lambda>fd. 0 \<le> fd) fds"
proof (induction fds arbitrary: m)
  case Nil
  then show ?case by (simp add: same_process_def)
next
  case (Cons fd fds)
  show ?case
  proof (cases "0 \<le> fd")
    case False
    then show ?thesis using Cons.IH [of m] Cons.prems by simp
  next
    case True
    define k where "k = (let m = m\<lparr>rendezvous := rendezvous m @ [fd]\<rparr> in if maxfd m < fd then m\<lparr>maxfd := fd\<rparr> else m)"
    have e: "listen_all (fd # fds) m = listen_all fds k" using True by (simp add: k_def)
    have "sockets_ok k" using Cons.prems True by (auto simp: k_def Let_def sockets_ok_def)
    moreover have "same_process m k" "rendezvous k = rendezvous m @ [fd]" by (simp_all add: k_def Let_def same_process_def)
    ultimately show ?thesis using Cons.IH [of k] True unfolding e by (simp add: same_process_def)
  qed
qed

section \<open>Properties\<close>

text \<open>What is in order once the daemon serves: the acts of a privileged process, or of one that may be killed by a signal, are none.\<close>

definition main_ok :: "pmain \<Rightarrow> bool" where
  "main_ok m \<longleftrightarrow> muid m \<noteq> 0 \<and> pipe_ignored m \<and> hup_term_blocked m \<and> rendezvous m \<noteq> []
     \<and> (\<forall>fd \<in> set (rendezvous m). 0 \<le> fd \<and> fd \<le> maxfd m) \<and> (\<forall>(x, uid, ign, blk) \<in> set (acts m). uid \<noteq> 0 \<and> ign \<and> blk)"

lemma act_ok: "main_ok m \<Longrightarrow> main_ok (act x m)"
  by (auto simp: main_ok_def act_def)

definition act_names :: "pmain \<Rightarrow> main_act list" where "act_names m = map fst (rev (acts m))"

lemma act_names_act [simp]: "act_names (act x m) = act_names m @ [x]"
  by (simp add: act_names_def act_def)

lemma main_started:
  assumes "printd_main a m s = Inr (m', s')" "acts m = []"
  shows "main_ok m' \<and> act_names m' = [Init_request, Init_printer, Starts ''printer_thread'', Starts ''signal_thread'', Rebuilds]
    \<and> (\<exists>fds. servers a = Inr fds \<and> rendezvous m' = filter (\<lambda>fd. 0 \<le> fd) fds)"
proof -
  define m0 where "m0 = m\<lparr>pipe_ignored := True, hup_term_blocked := True\<rparr>"
  obtain m1 m2 m3 s1 s2 s3 where l: "listens a m0 = Inr m1" and d: "drop_privileges a m1 = Inr m2"
    and t: "start_threads a (act Init_printer (act Init_request m2)) = Inr m3" and m': "m' = act Rebuilds m3"
    using assms(1) by (auto simp: printd_main_def rbind_eq_Inr Let_def m0_def split: if_splits)
  obtain fds where f: "servers a = Inr fds" "m1 = listen_all fds (m0\<lparr>rendezvous := [], maxfd := -1\<rparr>)" "maxfd m1 \<noteq> -1"
    using l by (auto simp: listens_def Let_def split: sum.splits if_splits)
  have "sockets_ok (m0\<lparr>rendezvous := [], maxfd := -1\<rparr>)" by (simp add: sockets_ok_def)
  from listen_all_ok [OF this, of fds] have k: "sockets_ok m1" "same_process (m0\<lparr>rendezvous := [], maxfd := -1\<rparr>) m1"
    "rendezvous m1 = filter (\<lambda>fd. 0 \<le> fd) fds" unfolding f(2) [symmetric] by simp_all
  have m1: "rendezvous m1 = filter (\<lambda>fd. 0 \<le> fd) fds" "rendezvous m1 \<noteq> []" "\<forall>fd \<in> set (rendezvous m1). 0 \<le> fd \<and> fd \<le> maxfd m1"
    "acts m1 = []" "pipe_ignored m1" "hup_term_blocked m1"
    using k f(3) assms(2) unfolding sockets_ok_def same_process_def by (simp_all add: m0_def)
  have m2: "muid m2 \<noteq> 0" "rendezvous m2 = rendezvous m1" "maxfd m2 = maxfd m1" "acts m2 = []" "pipe_ignored m2" "hup_term_blocked m2"
    using d m1(4-6) by (auto simp: drop_privileges_def split: option.splits if_splits)
  then have "main_ok m2" using m1(2,3) by (simp add: main_ok_def)
  moreover have "m3 = act (Starts ''signal_thread'') (act (Starts ''printer_thread'') (act Init_printer (act Init_request m2)))"
    using t by (auto simp: start_threads_def Let_def split: if_splits)
  ultimately have "main_ok m' \<and> act_names m' = act_names m2 @ [Init_request, Init_printer, Starts ''printer_thread'', Starts ''signal_thread'', Rebuilds]"
    by (simp add: m' act_ok)
  moreover have "rendezvous m' = rendezvous m2" using t by (auto simp: m' start_threads_def Let_def act_def split: if_splits)
  moreover have "act_names m2 = []" using m2(4) by (simp add: act_names_def)
  ultimately show ?thesis using f(1) m1(1) m2(2) by simp
qed

lemma accept_turn_clients:
  assumes "accept_turn select accepts m s = Inr (m', s')"
  shows "(main_ok m \<longrightarrow> main_ok m') \<and> (\<exists>ready. select = Some ready \<and>
    act_names m' = act_names m @ map (\<lambda>i. Client (accepts i)) (filter (\<lambda>i. i \<in> ready) [0..maxfd m]))"
proof -
  obtain ready where r: "select = Some ready" using assms by (auto simp: accept_turn_def split: option.splits)
  let ?f = "\<lambda>i (m, s). if i \<in> ready then (act (Client (accepts i)) m, if accepts i < 0 then event (Log ''accept failed'') s else s) else (m, s)"
  have "fold ?f is (m, s) = (m', s') \<Longrightarrow> (main_ok m \<longrightarrow> main_ok m')
      \<and> act_names m' = act_names m @ map (\<lambda>i. Client (accepts i)) (filter (\<lambda>i. i \<in> ready) is)" for "is" m s
    by (induction "is" arbitrary: m s) (auto simp: act_ok split: if_splits)
  then show ?thesis using assms r by (simp add: accept_turn_def)
qed

lemma accept_turns_ok: "accept_turns ts m s = Inr (m', s') \<Longrightarrow> main_ok m \<Longrightarrow> main_ok m'"
proof (induction ts m s rule: accept_turns.induct)
  case (2 select accepts ts m s)
  then obtain m1 s1 where "accept_turn select accepts m s = Inr (m1, s1)" "accept_turns ts m1 s1 = Inr (m', s')" by (auto simp: rbind_eq_Inr)
  then show ?case using "2.IH" "2.prems"(2) accept_turn_clients by (metis (no_types, lifting))
qed simp

text \<open>C39: \<^verbatim>\<open>main\<close> of the daemon opens no file of the spool directory, makes no thread and serves no client before it has
  given up the privileges of the superuser, for good, and before it ignores SIGPIPE and has SIGHUP and SIGTERM blocked,
  which the threads inherit; and it does not go on without a socket to listen on.\<close>

theorem printd_unprivileged:
  assumes "printd_main a m s = Inr (m1, s1)" "acts m = []" "accept_turns ts m1 s1 = Inr (m2, s2)"
  shows "muid m2 \<noteq> 0 \<and> rendezvous m1 \<noteq> [] \<and> (\<forall>(x, uid, ign, blk) \<in> set (acts m2). uid \<noteq> 0 \<and> ign \<and> blk)
    \<and> act_names m1 = [Init_request, Init_printer, Starts ''printer_thread'', Starts ''signal_thread'', Rebuilds]"
  using main_started [OF assms(1,2)] accept_turns_ok [OF assms(3)] by (simp add: main_ok_def)

definition lp_answers :: main_ans where
  "lp_answers = \<lparr>argc = 1, sigaction_ok = True, sigmask_err = 0, host_malloc = True, hostname_ok = True, servers = Inr [-1, 4], pwd = Some (7, 7),
     setgid_ok = True, setuid_ok = True, printer_thr = 0, signal_thr = 0, job_locked = False, job_fails = False, job_junk = [],
     printer_addr = Inr (Some [\<lparr>ai_addr = 2, ai_canonname = None\<rparr>]), spool_dir = None, spool_calls = [], job_mems = []\<rparr>"

definition root_process :: pmain where
  "root_process = \<lparr>muid = 0, mgid = 0, pipe_ignored = False, hup_term_blocked = False, rendezvous = [], maxfd = 0, acts = []\<rparr>"

theorem printd_unprivileged_witness:
  "\<exists>m1 s1 m2 s2. printd_main lp_answers root_process idle = Inr (m1, s1)
     \<and> accept_turns [(Some {4}, \<lambda>i. 9)] m1 s1 = Inr (m2, s2) \<and> muid m2 \<noteq> 0 \<and> rendezvous m1 \<noteq> []"
proof -
  obtain m1 s1 where 1: "printd_main lp_answers root_process idle = Inr (m1, s1)"
    by (simp add: printd_main_def lp_answers_def root_process_def idle_def listens_def drop_privileges_def init_request_def init_printer_def
        start_threads_def build_qonstart_def Let_def)
  have "\<exists>m2 s2. accept_turns [(Some {4}, \<lambda>i. 9)] m1 s1 = Inr (m2, s2)"
    by (simp add: accept_turn_def case_prod_beta)
  then obtain m2 s2 where 2: "accept_turns [(Some {4}, \<lambda>i. 9)] m1 s1 = Inr (m2, s2)" by blast
  have "acts root_process = []" by (simp add: root_process_def)
  from printd_unprivileged [OF 1 this 2] 1 2 show ?thesis by blast
qed

end
