(* ===== verification/RwQueue.thy ===== *)
theory RwQueue imports DList begin

text \<open>
  The job queue of threads/rwlock.c: jobs that threads insert, append and remove under a
  reader-writer lock, and that \<^verbatim>\<open>job_find\<close> searches for by thread id. It is another
  interpretation of \<open>deque\<close>.
\<close>

section \<open>Model\<close>

record rjob =
  j_next :: "addr option"
  j_prev :: "addr option"
  j_id :: nat

datatype rwlock = Unlocked | Readers nat | Writer

record queue =
  cells :: "addr \<rightharpoonup> rjob"
  q_head :: "addr option"
  q_tail :: "addr option"
  q_lock :: rwlock

definition wrlock :: "queue \<Rightarrow> queue res" where
  "wrlock q = (case q_lock q of Unlocked \<Rightarrow> Inr (q\<lparr>q_lock := Writer\<rparr>) | _ \<Rightarrow> Inl Diverges)"

definition rdlock :: "queue \<Rightarrow> queue res" where
  "rdlock q = (case q_lock q of
     Unlocked \<Rightarrow> Inr (q\<lparr>q_lock := Readers 1\<rparr>) | Readers n \<Rightarrow> Inr (q\<lparr>q_lock := Readers (n + 1)\<rparr>) | Writer \<Rightarrow> Inl Diverges)"

definition rw_unlock :: "queue \<Rightarrow> queue" where
  "rw_unlock q = q\<lparr>q_lock := (case q_lock q of Readers n \<Rightarrow> if n \<le> 1 then Unlocked else Readers (n - 1) | _ \<Rightarrow> Unlocked)\<rparr>"

text \<open>Access through a pointer; a null pointer or one to no job faults.\<close>

definition cell_at :: "queue \<Rightarrow> addr option \<Rightarrow> rjob res" where
  "cell_at q p = (case p of None \<Rightarrow> Inl Fault | Some a \<Rightarrow> (case cells q a of None \<Rightarrow> Inl Fault | Some j \<Rightarrow> Inr j))"

definition set_jcell :: "addr option \<Rightarrow> (rjob \<Rightarrow> rjob) \<Rightarrow> queue \<Rightarrow> queue res" where
  "set_jcell p f q =
     (case p of None \<Rightarrow> Inl Fault
      | Some a \<Rightarrow> (case cells q a of None \<Rightarrow> Inl Fault | Some j \<Rightarrow> Inr (q\<lparr>cells := (cells q)(a \<mapsto> f j)\<rparr>)))"

text \<open>\<open>err\<close> is the result of \<^verbatim>\<open>pthread_rwlock_init\<close>.\<close>

definition queue_init :: "int \<Rightarrow> queue \<Rightarrow> int \<times> queue" where
  "queue_init err q =
     (let q = q\<lparr>q_head := None, q_tail := None\<rparr> in
      if err \<noteq> 0 then (err, q) else (0, q\<lparr>q_lock := Unlocked\<rparr>))"

definition job_insert :: "addr \<Rightarrow> queue \<Rightarrow> queue res" where
  "job_insert jp q =
     rbind (wrlock q) (\<lambda>q.
     rbind (set_jcell (Some jp) (\<lambda>j. j\<lparr>j_next := q_head q\<rparr>) q) (\<lambda>q.
     rbind (set_jcell (Some jp) (\<lambda>j. j\<lparr>j_prev := None\<rparr>) q) (\<lambda>q.
     rbind (if q_head q \<noteq> None then set_jcell (q_head q) (\<lambda>j. j\<lparr>j_prev := Some jp\<rparr>) q
            else Inr (q\<lparr>q_tail := Some jp\<rparr>)) (\<lambda>q.
     Inr (rw_unlock (q\<lparr>q_head := Some jp\<rparr>))))))"

definition job_append :: "addr \<Rightarrow> queue \<Rightarrow> queue res" where
  "job_append jp q =
     rbind (wrlock q) (\<lambda>q.
     rbind (set_jcell (Some jp) (\<lambda>j. j\<lparr>j_next := None\<rparr>) q) (\<lambda>q.
     rbind (set_jcell (Some jp) (\<lambda>j. j\<lparr>j_prev := q_tail q\<rparr>) q) (\<lambda>q.
     rbind (if q_tail q \<noteq> None then set_jcell (q_tail q) (\<lambda>j. j\<lparr>j_next := Some jp\<rparr>) q
            else Inr (q\<lparr>q_head := Some jp\<rparr>)) (\<lambda>q.
     Inr (rw_unlock (q\<lparr>q_tail := Some jp\<rparr>))))))"

definition job_remove :: "addr \<Rightarrow> queue \<Rightarrow> queue res" where
  "job_remove jp q =
     rbind (wrlock q) (\<lambda>q.
     rbind (cell_at q (Some jp)) (\<lambda>j.
     rbind (if Some jp = q_head q then
              (let q = q\<lparr>q_head := j_next j\<rparr> in
               if q_tail q = Some jp then Inr (q\<lparr>q_tail := None\<rparr>)
               else set_jcell (j_next j) (\<lambda>n. n\<lparr>j_prev := j_prev j\<rparr>) q)
            else if Some jp = q_tail q then
              (let q = q\<lparr>q_tail := j_prev j\<rparr> in
               set_jcell (j_prev j) (\<lambda>p. p\<lparr>j_next := j_next j\<rparr>) q)
            else
              rbind (set_jcell (j_prev j) (\<lambda>p. p\<lparr>j_next := j_next j\<rparr>) q) (\<lambda>q.
              rbind (cell_at q (Some jp)) (\<lambda>j.
              set_jcell (j_next j) (\<lambda>n. n\<lparr>j_prev := j_prev j\<rparr>) q))) (\<lambda>q.
     Inr (rw_unlock q))))"

fun find_from :: "nat \<Rightarrow> addr option \<Rightarrow> nat \<Rightarrow> queue \<Rightarrow> addr option res" where
  "find_from n None t q = Inr None"
| "find_from 0 (Some p) t q = Inl Diverges"
| "find_from (Suc n) (Some p) t q =
     rbind (cell_at q (Some p)) (\<lambda>j. if j_id j = t then Inr (Some p) else find_from n (j_next j) t q)"

text \<open>\<open>err\<close> is whether \<^verbatim>\<open>pthread_rwlock_rdlock\<close> fails.\<close>

definition job_find :: "nat \<Rightarrow> bool \<Rightarrow> nat \<Rightarrow> queue \<Rightarrow> (addr option \<times> queue) res" where
  "job_find n err t q =
     (if err then Inr (None, q)
      else
        rbind (rdlock q) (\<lambda>q.
        rbind (find_from n (q_head q) t q) (\<lambda>jp.
        Inr (jp, rw_unlock q))))"

section \<open>The queue is well linked\<close>

definition jnx :: "queue \<Rightarrow> addr \<Rightarrow> addr option" where
  "jnx q p = (case cells q p of None \<Rightarrow> None | Some j \<Rightarrow> j_next j)"

definition jpv :: "queue \<Rightarrow> addr \<Rightarrow> addr option" where
  "jpv q p = (case cells q p of None \<Rightarrow> None | Some j \<Rightarrow> j_prev j)"

definition queue_rel :: "queue \<Rightarrow> addr list \<Rightarrow> bool" where
  "queue_rel q L \<longleftrightarrow> q_lock q = Unlocked \<and> set L \<subseteq> dom (cells q) \<and> dlist (jnx q) (jpv q) (q_head q) (q_tail q) L"

lemma jnx_upd [simp]:
  "jnx (q\<lparr>cells := J\<rparr>) p = (case J p of None \<Rightarrow> None | Some j \<Rightarrow> j_next j)" "jnx (q\<lparr>q_head := h\<rparr>) = jnx q"
  "jnx (q\<lparr>q_tail := h\<rparr>) = jnx q" "jnx (q\<lparr>q_lock := l\<rparr>) = jnx q"
  by (auto simp: jnx_def)

lemma jpv_upd [simp]:
  "jpv (q\<lparr>cells := J\<rparr>) p = (case J p of None \<Rightarrow> None | Some j \<Rightarrow> j_prev j)" "jpv (q\<lparr>q_head := h\<rparr>) = jpv q"
  "jpv (q\<lparr>q_tail := h\<rparr>) = jpv q" "jpv (q\<lparr>q_lock := l\<rparr>) = jpv q"
  by (auto simp: jpv_def)

lemma job_append_ok:
  assumes rel: "queue_rel q L" and p: "p \<notin> set L" "p \<in> dom (cells q)"
  shows "\<exists>q'. job_append p q = Inr q' \<and> queue_rel q' (L @ [p]) \<and> dom (cells q') = dom (cells q)"
proof -
  have dom: "set L \<subseteq> dom (cells q)" and dl: "dlist (jnx q) (jpv q) (q_head q) (q_tail q) L" and ul: "q_lock q = Unlocked"
    using rel by (simp_all add: queue_rel_def)
  obtain jp where jp: "cells q p = Some jp" using p(2) by auto
  have td: "x \<noteq> p \<and> (\<exists>j. cells q x = Some j)" if "q_tail q = Some x" for x
    using that dlist_tail [OF dl] dom p(1) last_subset [OF _ dom] by (auto split: if_splits)
  define J where "J = (\<lambda>x. if x = p then Some (jp\<lparr>j_next := None, j_prev := q_tail q\<rparr>)
     else if q_tail q = Some x then map_option (\<lambda>j. j\<lparr>j_next := Some p\<rparr>) (cells q x) else cells q x)"
  let ?q = "q\<lparr>cells := J, q_head := (if q_tail q = None then Some p else q_head q), q_tail := Some p\<rparr>"
  have "job_append p q = Inr ?q"
    using td ul jp
    by (cases "q_tail q")
      (auto simp: job_append_def wrlock_def rw_unlock_def set_jcell_def J_def fun_eq_iff intro!: queue.equality)
  moreover have "dlist (jnx ?q) (jpv ?q) (if q_tail q = None then Some p else q_head q) (Some p) (L @ [p])"
  proof (rule dlist_push_back [OF dl p(1)])
    fix x assume x: "x \<in> set L"
    then obtain j where "cells q x = Some j" using dom by auto
    with x p(1) show "jpv ?q x = jpv q x" "jnx ?q x = (if q_tail q = Some x then Some p else jnx q x)"
      by (auto simp: J_def jnx_def jpv_def)
  qed (simp_all add: J_def)
  moreover have "dom J = dom (cells q)" using jp by (auto simp: J_def split: if_splits)
  ultimately show ?thesis using dom ul p(2) by (auto simp: queue_rel_def)
qed

lemma job_insert_ok:
  assumes rel: "queue_rel q L" and p: "p \<notin> set L" "p \<in> dom (cells q)"
  shows "\<exists>q'. job_insert p q = Inr q' \<and> queue_rel q' (p # L) \<and> dom (cells q') = dom (cells q)"
proof -
  have dom: "set L \<subseteq> dom (cells q)" and dl: "dlist (jnx q) (jpv q) (q_head q) (q_tail q) L" and ul: "q_lock q = Unlocked"
    using rel by (simp_all add: queue_rel_def)
  obtain jp where jp: "cells q p = Some jp" using p(2) by auto
  have hd: "x \<noteq> p \<and> (\<exists>j. cells q x = Some j)" if "q_head q = Some x" for x
    using that dlist_head [OF dl] dom p(1) by (cases L) auto
  define J where "J = (\<lambda>x. if x = p then Some (jp\<lparr>j_next := q_head q, j_prev := None\<rparr>)
     else if q_head q = Some x then map_option (\<lambda>j. j\<lparr>j_prev := Some p\<rparr>) (cells q x) else cells q x)"
  let ?q = "q\<lparr>cells := J, q_head := Some p, q_tail := (if q_head q = None then Some p else q_tail q)\<rparr>"
  have "job_insert p q = Inr ?q"
    using hd ul jp
    by (cases "q_head q")
      (auto simp: job_insert_def wrlock_def rw_unlock_def set_jcell_def J_def fun_eq_iff intro!: queue.equality)
  moreover have "dlist (jnx ?q) (jpv ?q) (Some p) (if q_head q = None then Some p else q_tail q) (p # L)"
  proof (rule dlist_push_front [OF dl p(1)])
    fix x assume x: "x \<in> set L"
    then obtain j where "cells q x = Some j" using dom by auto
    with x p(1) show "jnx ?q x = jnx q x" "jpv ?q x = (if q_head q = Some x then Some p else jpv q x)"
      by (auto simp: J_def jnx_def jpv_def)
  qed (simp_all add: J_def)
  moreover have "dom J = dom (cells q)" using jp by (auto simp: J_def split: if_splits)
  ultimately show ?thesis using dom ul p(2) by (auto simp: queue_rel_def)
qed

lemma job_remove_ok:
  assumes rel: "queue_rel q (A @ p # B)"
  shows "\<exists>q'. job_remove p q = Inr q' \<and> queue_rel q' (A @ B) \<and> dom (cells q') = dom (cells q)"
proof -
  let ?L = "A @ p # B"
  have dom: "set ?L \<subseteq> dom (cells q)" and dl: "dlist (jnx q) (jpv q) (q_head q) (q_tail q) ?L" and ul: "q_lock q = Unlocked"
    using rel by (simp_all add: queue_rel_def)
  note at = dlist_at [OF dl] and dist = dlist_distinct [OF dl]
  obtain j where j: "cells q p = Some j" using dom by auto
  have n: "j_next j = (case B of [] \<Rightarrow> None | x # _ \<Rightarrow> Some x)" and v: "j_prev j = (if A = [] then None else Some (last A))"
    using at j by (simp_all add: jnx_def jpv_def)
  have nd: "x \<noteq> p \<and> (\<exists>j. cells q x = Some j)" if "j_next j = Some x" for x
    using that n dist dom by (cases B) auto
  have pd: "x \<noteq> p \<and> (\<exists>j. cells q x = Some j) \<and> j_next j \<noteq> Some x" if "j_prev j = Some x" for x
    using that n v dist dom last_subset [of A "dom (cells q)"] by (cases B) (auto split: if_splits)
  have hd: "q_head q = Some p \<longleftrightarrow> j_prev j = None"
    using dlist_head [OF dl] v dist by (cases A) auto
  have tl: "q_tail q = Some p \<longleftrightarrow> j_next j = None"
    using dlist_tail [OF dl] n dist by (cases B) auto
  define J where "J = (\<lambda>x. if j_next j = Some x then map_option (\<lambda>c. c\<lparr>j_prev := j_prev j\<rparr>) (cells q x)
     else if j_prev j = Some x then map_option (\<lambda>c. c\<lparr>j_next := j_next j\<rparr>) (cells q x) else cells q x)"
  have np: "jnx q p = j_next j" "jpv q p = j_prev j" using j by (simp_all add: jnx_def jpv_def)
  let ?q = "q\<lparr>cells := J, q_head := (if jpv q p = None then jnx q p else q_head q),
     q_tail := (if jnx q p = None then jpv q p else q_tail q)\<rparr>"
  have "job_remove p q = Inr ?q"
    using j nd pd np hd tl ul
    by (cases "j_next j"; cases "j_prev j")
      (auto simp: job_remove_def wrlock_def rw_unlock_def cell_at_def set_jcell_def J_def fun_eq_iff Let_def
        intro!: queue.equality)
  moreover have "dlist (jnx ?q) (jpv ?q) (if jpv q p = None then jnx q p else q_head q)
      (if jnx q p = None then jpv q p else q_tail q) (A @ B)"
  proof (rule dlist_remove [OF dl])
    fix x assume "x \<in> set (A @ B)"
    then obtain c where c: "cells q x = Some c" using dom by auto
    with pd [of x] show "jnx ?q x = (if jpv q p = Some x then jnx q p else jnx q x)"
      by (auto simp: J_def np jnx_def j)
    from c pd [of x] show "jpv ?q x = (if jnx q p = Some x then jpv q p else jpv q x)"
      by (auto simp: J_def np jpv_def j)
  qed
  moreover have "dom (cells ?q) = dom (cells q)" by (auto simp: J_def split: if_splits)
  ultimately show ?thesis using dom ul by (auto simp: queue_rel_def J_def)
qed

interpretation rw: deque queue_rel "\<lambda>q p. cells q p \<noteq> None" "\<lambda>q p. cells q p \<noteq> None" q_head
  "\<lambda>q p. job_append p q" "\<lambda>q p. job_insert p q" "\<lambda>q p. job_remove p q"
proof
  fix q L p
  show "queue_rel q L \<Longrightarrow> q_head q = (case L of [] \<Rightarrow> None | x # _ \<Rightarrow> Some x)"
    by (auto simp: queue_rel_def dest: dlist_head)
  show "queue_rel q L \<Longrightarrow> distinct L" by (auto simp: queue_rel_def dest: dlist_distinct)
  show "queue_rel q L \<Longrightarrow> cells q p \<noteq> None \<Longrightarrow> p \<notin> set L \<Longrightarrow>
      \<exists>q'. job_append p q = Inr q' \<and> queue_rel q' (L @ [p]) \<and> (\<forall>x. x \<noteq> p \<longrightarrow> (cells q' x \<noteq> None) = (cells q x \<noteq> None))"
    using job_append_ok [of q L p] by (metis domIff)
  show "queue_rel q L \<Longrightarrow> cells q p \<noteq> None \<Longrightarrow> p \<notin> set L \<Longrightarrow> \<exists>q'. job_insert p q = Inr q' \<and> queue_rel q' (p # L)"
    using job_insert_ok [of q L p] by (metis domIff)
next
  fix q A p B
  assume a: "queue_rel q (A @ p # B)"
  then have "p \<in> dom (cells q)" by (auto simp: queue_rel_def)
  with job_remove_ok [OF a] show "\<exists>q'. job_remove p q = Inr q' \<and> queue_rel q' (A @ B) \<and> cells q' p \<noteq> None"
    by (metis domIff)
qed

lemma find_from_ok:
  "dseg (jnx q) (jpv q) h b L t None \<Longrightarrow> set L \<subseteq> dom (cells q) \<Longrightarrow> length L \<le> n \<Longrightarrow>
     find_from n h i q = Inr (List.find (\<lambda>p. j_id (the (cells q p)) = i) L)"
proof (induction L arbitrary: n h b)
  case (Cons p L)
  obtain n' where n: "n = Suc n'" "length L \<le> n'" using Cons.prems(3) by (cases n) auto
  obtain j where "cells q p = Some j" using Cons.prems(2) by auto
  with Cons n show ?case by (auto simp: cell_at_def jnx_def)
qed simp

section \<open>Properties\<close>

text \<open>What threads do to the queue, and the same on a list of jobs: a job is put in only when it is not
  queued, and taken out only when it is.\<close>

datatype qop = Append addr | Insert addr | Remove addr

fun run_ops :: "qop list \<Rightarrow> queue \<Rightarrow> queue res" where
  "run_ops [] q = Inr q"
| "run_ops (Append p # os) q = rbind (job_append p q) (run_ops os)"
| "run_ops (Insert p # os) q = rbind (job_insert p q) (run_ops os)"
| "run_ops (Remove p # os) q = rbind (job_remove p q) (run_ops os)"

fun list_ops :: "addr set \<Rightarrow> qop list \<Rightarrow> addr list \<Rightarrow> addr list option" where
  "list_ops D [] L = Some L"
| "list_ops D (Append p # os) L = (if p \<in> D \<and> p \<notin> set L then list_ops D os (L @ [p]) else None)"
| "list_ops D (Insert p # os) L = (if p \<in> D \<and> p \<notin> set L then list_ops D os (p # L) else None)"
| "list_ops D (Remove p # os) L = (if p \<in> set L then list_ops D os (remove1 p L) else None)"

lemma run_ops_ok:
  "queue_rel q L \<Longrightarrow> list_ops (dom (cells q)) os L = Some L' \<Longrightarrow> \<exists>q'. run_ops os q = Inr q' \<and> queue_rel q' L'"
proof (induction os arbitrary: q L)
  case (Cons x os)
  show ?case
  proof (cases x)
    case (Append p)
    with Cons.prems obtain q1 where "job_append p q = Inr q1" "queue_rel q1 (L @ [p])" "dom (cells q1) = dom (cells q)"
      using job_append_ok [of q L p] by (auto split: if_splits)
    with Cons.IH [of q1 "L @ [p]"] Cons.prems(2) Append show ?thesis by (simp split: if_splits)
  next
    case (Insert p)
    with Cons.prems obtain q1 where "job_insert p q = Inr q1" "queue_rel q1 (p # L)" "dom (cells q1) = dom (cells q)"
      using job_insert_ok [of q L p] by (auto split: if_splits)
    with Cons.IH [of q1 "p # L"] Cons.prems(2) Insert show ?thesis by (simp split: if_splits)
  next
    case (Remove p)
    then obtain A B where L: "L = A @ p # B" "p \<notin> set A"
      using Cons.prems(2) by (auto split: if_splits dest: split_list_first)
    then obtain q1 where "job_remove p q = Inr q1" "queue_rel q1 (A @ B)" "dom (cells q1) = dom (cells q)"
      using job_remove_ok [of q A p B] Cons.prems(1) by auto
    with Cons.IH [of q1 "A @ B"] Cons.prems(2) Remove L show ?thesis by (simp add: remove1_append)
  qed
qed simp

text \<open>C14: Any sequence of appends, inserts and removals acts on the linked queue as on a list, leaves
  the links consistent in both directions, and never follows a null pointer.\<close>

theorem queue_refines_list:
  assumes "queue_rel q L" "list_ops (dom (cells q)) os L = Some L'"
  shows "\<exists>q'. run_ops os q = Inr q' \<and> queue_rel q' L'"
  by (rule run_ops_ok [OF assms])

definition three_jobs :: queue where
  "three_jobs = \<lparr>cells = (\<lambda>p. if p \<in> {4, 8, 12} then Some \<lparr>j_next = None, j_prev = None, j_id = p * 10\<rparr> else None),
     q_head = None, q_tail = None, q_lock = Unlocked\<rparr>"

lemma three_jobs_rel: "queue_rel three_jobs []" "dom (cells three_jobs) = {4, 8, 12}"
  by (auto simp: three_jobs_def queue_rel_def dlist_def split: if_splits)

theorem queue_refines_list_witness:
  "\<exists>q. run_ops [Append 4, Insert 8, Append 12, Remove 4] three_jobs = Inr q \<and> queue_rel q [8, 12]"
  using queue_refines_list [OF three_jobs_rel(1), of "[Append 4, Insert 8, Append 12, Remove 4]" "[8, 12]"]
  by (simp add: three_jobs_rel(2))

text \<open>\<^verbatim>\<open>job_find\<close> returns the first job of the queue that belongs to the thread, or the null
  pointer, after at most one step per job, and leaves the queue and its lock as they were.\<close>

theorem job_find_correct:
  assumes "queue_rel q L" "length L \<le> n"
  shows "job_find n False i q = Inr (List.find (\<lambda>p. j_id (the (cells q p)) = i) L, q)"
proof -
  have q: "q_lock q = Unlocked" "set L \<subseteq> dom (cells q)" "dseg (jnx q) (jpv q) (q_head q) None L (q_tail q) None"
    using assms(1) by (simp_all add: queue_rel_def dlist_def)
  let ?q = "q\<lparr>q_lock := Readers 1\<rparr>"
  have "find_from n (q_head q) i ?q = Inr (List.find (\<lambda>p. j_id (the (cells ?q p)) = i) L)"
    using q assms(2) by (intro find_from_ok [where b = None and t = "q_tail q"]) auto
  then show ?thesis using q(1) by (simp add: job_find_def rdlock_def rw_unlock_def)
qed

theorem job_find_correct_witness:
  "\<exists>q. run_ops [Append 4, Append 12] three_jobs = Inr q \<and> (\<exists>p. job_find 2 False 120 q = Inr (p, q))"
proof -
  obtain q where q: "run_ops [Append 4, Append 12] three_jobs = Inr q" "queue_rel q [4, 12]"
    using run_ops_ok [OF three_jobs_rel(1), of "[Append 4, Append 12]" "[4, 12]"] by (auto simp: three_jobs_rel(2))
  with job_find_correct [OF q(2), of 2 120] show ?thesis by simp
qed

end
