(* ===== verification/OpenArgs.thy ===== *)
theory OpenArgs imports StreamIO begin

text \<open>
  The pieces of the open server (ipc2/opend, ipc2/open) that come from the library: splitting a request
  into arguments (lib/bufargs.c), the protocol that passes a descriptor or an error over a stream pipe
  (lib/senderr.c, lib/sendfd.c, lib/recvfd.c), and the client's and server's ends of a request
  (open.c, cliargs.c, request.c).
\<close>

section \<open>buf_args\<close>

definition MAXARGC :: nat where "MAXARGC = 50"

definition white :: "char \<Rightarrow> bool" where
  "white c \<longleftrightarrow> c = SPACE \<or> c = CHR 0x09 \<or> c = NEWLINE"

text \<open>One call of \<^verbatim>\<open>strtok\<close>: the next token and the string the following call continues with.\<close>

definition strtok :: "string \<Rightarrow> (string \<times> string) option" where
  "strtok s =
     (let t = dropWhile white s in
      if t = [] then None
      else Some (takeWhile (\<lambda>c. \<not> white c) t, drop 1 (dropWhile (\<lambda>c. \<not> white c) t)))"

lemma strtok_shrinks: "strtok s = Some (t, r) \<Longrightarrow> length r < length s"
proof -
  assume a: "strtok s = Some (t, r)"
  let ?t = "dropWhile white s"
  have "?t \<noteq> []" "r = drop 1 (dropWhile (\<lambda>c. \<not> white c) ?t)" using a by (auto simp: strtok_def Let_def split: if_splits)
  moreover have "\<not> white (hd ?t)" using \<open>?t \<noteq> []\<close> by (rule hd_dropWhile)
  moreover have "length ?t \<le> length s" by (rule length_dropWhile_le)
  ultimately show ?thesis
    using length_dropWhile_le [of "\<lambda>c. \<not> white c" "tl ?t"] by (cases ?t) auto
qed

text \<open>The loop over the tokens after the first; \<open>None\<close> when there are too many.\<close>

function more_args :: "nat \<Rightarrow> string \<Rightarrow> string list option" where
  "more_args argc s =
     (case strtok s of
        None \<Rightarrow> Some []
      | Some (ptr, r) \<Rightarrow>
          if MAXARGC - 1 \<le> argc + 1 then None else map_option (\<lambda>as. ptr # as) (more_args (argc + 1) r))"
  by pat_completeness auto
termination by (relation "measure (\<lambda>(argc, s). length s)") (auto dest: strtok_shrinks)

declare more_args.simps [simp del]

text \<open>The first argument starts at the start of the buffer, not at the first token. The user's function
  works on a state.\<close>

definition buf_args :: "string \<Rightarrow> (string list \<Rightarrow> 's \<Rightarrow> int \<times> 's) \<Rightarrow> 's \<Rightarrow> int \<times> 's" where
  "buf_args buf optfunc st =
     (let s = cstr buf in
      case strtok s of
        None \<Rightarrow> (-1, st)
      | Some (t, r) \<Rightarrow>
          (case more_args 0 r of
             None \<Rightarrow> (-1, st)
           | Some as \<Rightarrow> optfunc ((takeWhile white s @ t) # as) st))"

section \<open>Passing descriptors\<close>

text \<open>What one \<^verbatim>\<open>write\<close> or \<^verbatim>\<open>sendmsg\<close> puts on the stream pipe: bytes, and perhaps a descriptor.\<close>

type_synonym chunk = "string \<times> int option"

text \<open>\<open>mem\<close> tells whether \<^verbatim>\<open>malloc\<close> finds the control buffer, \<open>ok\<close> whether \<^verbatim>\<open>sendmsg\<close> sends both bytes.\<close>

definition send_fd :: "bool \<Rightarrow> bool \<Rightarrow> int \<Rightarrow> int \<times> chunk list" where
  "send_fd mem ok fd_to_send =
     (if fd_to_send < 0 then
        (let b = nat ((- fd_to_send) mod 256); b = (if b = 0 then 1 else b) in
         if ok then (0, [([NUL, char_of b], None)]) else (-1, []))
      else if \<not> mem then (-1, [])
      else if ok then (0, [([NUL, NUL], Some fd_to_send)]) else (-1, []))"

text \<open>\<open>takes\<close> are the outcomes of the writes.\<close>

definition send_err :: "outcome list \<Rightarrow> bool \<Rightarrow> int \<Rightarrow> string \<Rightarrow> int \<times> chunk list" where
  "send_err takes ok errcode msg =
     (let n = length msg;
          (w, e, out) = (if 0 < n then writen (takes, []) msg else (int n, 0, (takes, [])));
          sent = (if snd out = [] then [] else [(snd out, None)]) in
      if 0 < n \<and> w \<noteq> int n then (-1, sent)
      else
        let errcode = (if 0 \<le> errcode then -1 else errcode);
            (r, fin) = send_fd True ok errcode in
        if r < 0 then (-1, sent @ fin) else (0, sent @ fin))"

text \<open>What one \<^verbatim>\<open>recvmsg\<close> returns, or that it fails or has no memory for its control buffer; the end of
  the list is the end of the connection.\<close>

datatype arriving = Arrives string "int option" | Recv_fails

text \<open>\<open>userfunc\<close> is the function that gets the data, as the value it returns; the second component of the
  result is what it was given.\<close>

fun recv_fd :: "(string \<Rightarrow> int) \<Rightarrow> arriving list \<Rightarrow> string list \<Rightarrow> (int \<times> string list) res" where
  "recv_fd userfunc [] given = Inr (-1, given)"
| "recv_fd userfunc (Recv_fails # ms) given = Inr (-1, given)"
| "recv_fd userfunc (Arrives buf control # ms) given =
     (if buf = [] then Inr (-1, given)
      else case split_at NUL buf of
        None \<Rightarrow>
          if userfunc buf \<noteq> int (length buf) then Inr (-1, given @ [buf])
          else recv_fd userfunc ms (given @ [buf])
      | Some (text, st) \<Rightarrow>
          if length st \<noteq> 1 then Inl (Dump ''message format error'')
          else
            let status = of_char (st ! 0) :: int in
            if status = 0 \<and> control = None then Inl (Dump ''status = 0 but no fd'')
            else
              let newfd = (if status = 0 then the control else - status) in
              if text = [] then Inr (newfd, given)
              else if userfunc text \<noteq> int (length text) then Inr (-1, given @ [text])
              else Inr (newfd, given @ [text]))"

section \<open>A request\<close>

definition MAXLINE :: nat where "MAXLINE = 4096"
definition CL_OPEN :: string where "CL_OPEN = ''open''"

text \<open>The globals a request sets.\<close>

record req_vars =
  errmsg :: string
  pathname :: string
  oflag :: int

definition cli_args :: "string list \<Rightarrow> req_vars \<Rightarrow> int \<times> req_vars" where
  "cli_args argv v =
     (if length argv \<noteq> 3 \<or> argv ! 0 \<noteq> CL_OPEN then (-1, v\<lparr>errmsg := ''usage: <pathname> <oflag>'' @ [NEWLINE]\<rparr>)
      else (0, v\<lparr>pathname := argv ! 1, oflag := atoi (argv ! 2)\<rparr>))"

text \<open>\<^verbatim>\<open>snprintf(errmsg, MAXLINE-1, ...)\<close> keeps at most two bytes less than the array has.\<close>

definition clip :: "string \<Rightarrow> string" where
  "clip s = take (MAXLINE - 2) s"

text \<open>The conversion \<open>%*.*s\<close> with both numbers \<open>n\<close>.\<close>

definition fmt_s :: "nat \<Rightarrow> string \<Rightarrow> string" where
  "fmt_s n s = replicate (n - length (take n s)) SPACE @ take n s"

text \<open>The operating system as a request meets it.\<close>

record open_env =
  open_file :: "string \<Rightarrow> int \<Rightarrow> int + int"
  strerr :: "int \<Rightarrow> string"
  err_takes :: "outcome list"
  send_ok :: bool
  control_mem :: bool

datatype log_entry = Request string nat | Sent int int string | Message string | Closed_by nat int | Connected nat int

text \<open>\<^verbatim>\<open>log_msg(errmsg)\<close> uses the message as a format: a conversion in it reads arguments that are not there.\<close>

definition log_format :: "string \<Rightarrow> log_entry list \<Rightarrow> log_entry list res" where
  "log_format m lg = (if CHR ''%'' \<in> set m then Inl Fault else Inr (lg @ [Message m]))"

text \<open>\<open>buf\<close> is the array, its first \<open>nread\<close> bytes just read. The result is what goes to the client, the
  variables and the log.\<close>

definition handle_request ::
    "open_env \<Rightarrow> string \<Rightarrow> nat \<Rightarrow> int \<Rightarrow> nat \<Rightarrow> req_vars \<Rightarrow> log_entry list \<Rightarrow> (chunk list \<times> req_vars \<times> log_entry list) res" where
  "handle_request E buf nread clifd uid v lg =
     (if buf ! (nread - 1) \<noteq> NUL then
        let v = v\<lparr>errmsg := clip (''request from uid '' @ show_int (int uid) @ '' not null terminated: '' @
                  fmt_s nread (cstr (take nread buf)) @ [NEWLINE])\<rparr> in
        Inr (snd (send_err (err_takes E) (send_ok E) (-1) (errmsg v)), v, lg)
      else
        let lg = lg @ [Request (cstr buf) uid] in
        case buf_args buf cli_args v of (r, v) \<Rightarrow>
        if r < 0 then
          rbind (log_format (errmsg v) lg) (\<lambda>lg.
          Inr (snd (send_err (err_takes E) (send_ok E) (-1) (errmsg v)), v, lg))
        else
          case open_file E (pathname v) (oflag v) of
            Inl err \<Rightarrow>
              let v = v\<lparr>errmsg := clip (''can't open '' @ pathname v @ '': '' @ strerr E err @ [NEWLINE])\<rparr> in
              rbind (log_format (errmsg v) lg) (\<lambda>lg.
              Inr (snd (send_err (err_takes E) (send_ok E) (-1) (errmsg v)), v, lg))
          | Inr newfd \<Rightarrow>
              (case send_fd (control_mem E) (send_ok E) newfd of (r, sent) \<Rightarrow>
               if r < 0 then Inl (Sys ''send_fd error'')
               else Inr (sent, v, lg @ [Sent newfd clifd (pathname v)])))"

text \<open>\<^verbatim>\<open>csopen\<close> of ipc2/open: the bytes it writes, in a buffer of 12 bytes for the flags.\<close>

definition csopen_request :: "string \<Rightarrow> int \<Rightarrow> string res" where
  "csopen_request name flags =
     rbind (store_str 12 ('' '' @ show_int flags) []) (\<lambda>buf. Inr (CL_OPEN @ '' '' @ name @ buf @ [NUL]))"

text \<open>The whole call: \<open>csfd\<close> is the descriptor kept from an earlier call, \<open>conn\<close> the result of \<^verbatim>\<open>cli_conn\<close>,
  \<open>written\<close> the result of \<^verbatim>\<open>writev\<close>, \<open>replies\<close> what arrives then. The result is the value, the new \<open>csfd\<close>
  and what was written to standard error.\<close>

definition csopen :: "int \<Rightarrow> int \<Rightarrow> nat \<Rightarrow> (string \<Rightarrow> int) \<Rightarrow> arriving list \<Rightarrow> string \<Rightarrow> int \<Rightarrow> (int \<times> int \<times> string list) res" where
  "csopen csfd conn written wr replies name flags =
     (let csfd = (if csfd < 0 then conn else csfd) in
      if csfd < 0 then Inr (-1, csfd, [])
      else
        rbind (csopen_request name flags) (\<lambda>req.
        if written \<noteq> length req then Inr (-1, csfd, [])
        else rbind (recv_fd wr replies []) (\<lambda>(r, given). Inr (r, csfd, given))))"

section \<open>Lemmas\<close>

fun split_words :: "string \<Rightarrow> string \<Rightarrow> string list" where
  "split_words acc [] = (if acc = [] then [] else [acc])"
| "split_words acc (c # s) =
     (if white c then (if acc = [] then split_words [] s else acc # split_words [] s) else split_words (acc @ [c]) s)"

lemma split_words_acc:
  "split_words acc s = (let w = acc @ takeWhile (\<lambda>c. \<not> white c) s; r = drop 1 (dropWhile (\<lambda>c. \<not> white c) s) in
     (if w = [] then [] else [w]) @ split_words [] r)"
  by (induction acc s rule: split_words.induct) (auto simp: Let_def)

lemma split_words_strtok:
  "split_words [] s = (case strtok s of None \<Rightarrow> [] | Some (t, r) \<Rightarrow> t # split_words [] r)"
proof (induction s)
  case (Cons c s)
  show ?case
  proof (cases "white c")
    case True
    then show ?thesis using Cons by (simp add: strtok_def)
  next
    case False
    then show ?thesis using split_words_acc [of "[c]" s] by (simp add: strtok_def Let_def)
  qed
qed (simp add: strtok_def)

lemma more_args_words:
  "more_args k s = (if k + length (split_words [] s) < MAXARGC - 1 then Some (split_words [] s)
     else if split_words [] s = [] then Some [] else None)"
proof (induction k s rule: more_args.induct)
  case (1 k s)
  show ?case
  proof (cases "strtok s")
    case None
    then show ?thesis by (subst more_args.simps) (simp add: split_words_strtok [of s])
  next
    case (Some p)
    then obtain t r where p: "strtok s = Some (t, r)" by (cases p) auto
    show ?thesis
    proof (cases "MAXARGC - 1 \<le> k + 1")
      case True
      then show ?thesis using p by (subst more_args.simps) (simp add: split_words_strtok [of s])
    next
      case False
      from "1.IH" [OF p refl] False p show ?thesis
        by (subst more_args.simps) (auto simp: split_words_strtok [of s])
    qed
  qed
qed

text \<open>A request without white space in front is split into its words, at most 49 of them.\<close>

lemma buf_args_words:
  assumes "cstr buf = [] \<or> \<not> white (hd (cstr buf))"
  shows "buf_args buf f st = (let ws = split_words [] (cstr buf) in
    if ws = [] \<or> MAXARGC \<le> length ws then (-1, st) else f ws st)"
proof (cases "strtok (cstr buf)")
  case None
  then show ?thesis by (simp add: buf_args_def split_words_strtok [of "cstr buf"])
next
  case (Some p)
  then obtain t r where p: "strtok (cstr buf) = Some (t, r)" by (cases p) auto
  have "takeWhile white (cstr buf) = []" using assms by (cases "cstr buf") auto
  then show ?thesis
    using more_args_words [of 0 r] p
    by (auto simp: buf_args_def split_words_strtok [of "cstr buf"] Let_def MAXARGC_def)
qed

lemma writen_whole: "writen ([], out) bs = (int (length bs), 0, ([], out @ bs))"
  using write_loop_result [of bs "length bs" "([], out)" "[]" out] by (cases bs) (auto simp: writen_def write_loop.simps)

lemma send_err_chunks:
  "send_err [] True e m = (0, (if m = [] then [] else [(m, None)]) @
     [([NUL, char_of (let b = nat ((- (if 0 \<le> e then -1 else e)) mod 256) in if b = 0 then 1 else b)], None)])"
  by (cases m) (auto simp: send_err_def send_fd_def writen_whole Let_def)

text \<open>Bytes without a null, in any pieces, before the last two bytes.\<close>

lemma recv_fd_pieces:
  assumes "\<forall>p \<in> set ps. p \<noteq> [] \<and> NUL \<notin> set p" "\<forall>s. u s = int (length s)" "NUL \<notin> set a" "st \<noteq> NUL \<or> ctl \<noteq> None"
  shows "recv_fd u (map (\<lambda>p. Arrives p None) ps @ [Arrives (a @ [NUL, st]) ctl]) given
    = Inr (if st = NUL then the ctl else - of_char st, given @ ps @ (if a = [] then [] else [a]))"
  using assms
proof (induction ps arbitrary: given)
  case Nil
  have "split_at NUL (a @ NUL # [st]) = Some (a, [st])" using Nil by (intro split_at_append) simp
  moreover have "(of_char st :: int) = 0 \<longleftrightarrow> st = NUL" using of_char_eq_iff [of st NUL, where ?'a = int] by simp
  ultimately show ?case using Nil by (auto simp: Let_def)
next
  case (Cons p ps)
  have "split_at NUL p = None" using Cons.prems(1) by (simp add: split_at_None)
  with Cons show ?case by simp
qed

lemma split_words_one:
  assumes "w \<noteq> []" "\<forall>c \<in> set w. \<not> white c"
  shows "split_words [] w = [w]" "white c \<Longrightarrow> split_words [] (w @ c # s) = w # split_words [] s"
proof -
  have tw: "takeWhile (\<lambda>c. \<not> white c) w = w" and dw: "dropWhile (\<lambda>c. \<not> white c) w = []"
    using assms(2) by (simp_all add: takeWhile_eq_all_conv dropWhile_eq_Nil_conv)
  show "split_words [] w = [w]" using assms(1) split_words_acc [of "[]" w] by (simp only: tw dw) simp
  show "split_words [] (w @ c # s) = w # split_words [] s" if "white c"
  proof -
    have "takeWhile (\<lambda>c. \<not> white c) (w @ c # s) = w" "dropWhile (\<lambda>c. \<not> white c) (w @ c # s) = c # s"
      using assms(2) that by simp_all
    then show ?thesis using assms(1) split_words_acc [of "[]" "w @ c # s"] by (simp add: Let_def)
  qed
qed

lemma show_int_plain: "c \<in> set (show_int i) \<Longrightarrow> \<not> white c \<and> c \<noteq> NUL \<and> c \<noteq> CHR ''%''"
  using show_nat_digits [of "nat i"] show_nat_digits [of "nat (- i)"]
  by (auto simp: show_int_def white_def isdigit_def split: if_splits)

lemma show_int_not_Nil [simp]: "show_int i \<noteq> []"
  by (simp add: show_int_def)

lemma request_words:
  assumes "name \<noteq> []" "\<forall>c \<in> set name. \<not> white c \<and> c \<noteq> NUL"
  shows "cstr (CL_OPEN @ '' '' @ name @ ('' '' @ show_int i) @ [NUL] @ junk) = CL_OPEN @ SPACE # name @ SPACE # show_int i"
    and "split_words [] (CL_OPEN @ SPACE # name @ SPACE # show_int i) = [CL_OPEN, name, show_int i]"
proof -
  let ?s = "CL_OPEN @ SPACE # name @ SPACE # show_int i"
  have "NUL \<notin> set ?s" using assms show_int_plain [of NUL i] by (auto simp: CL_OPEN_def)
  from cstr_append_nul [OF this, of junk]
  show "cstr (CL_OPEN @ '' '' @ name @ ('' '' @ show_int i) @ [NUL] @ junk) = ?s" by simp
  have w: "white SPACE" by (simp add: white_def)
  have o: "CL_OPEN \<noteq> []" "\<forall>c \<in> set CL_OPEN. \<not> white c" by (simp_all add: CL_OPEN_def white_def)
  have i: "\<forall>c \<in> set (show_int i). \<not> white c" using show_int_plain by blast
  show "split_words [] ?s = [CL_OPEN, name, show_int i]"
    using split_words_one(2) [OF o w, of "name @ SPACE # show_int i"]
      split_words_one(2) [OF assms(1) _ w, of "show_int i"] split_words_one(1) [OF show_int_not_Nil i] assms(2) by simp
qed

lemma request_parsed:
  assumes "name \<noteq> []" "\<forall>c \<in> set name. \<not> white c \<and> c \<noteq> NUL" "- (2 ^ 31) \<le> i" "i < 2 ^ 31"
  shows "buf_args (CL_OPEN @ '' '' @ name @ ('' '' @ show_int i) @ [NUL] @ junk) cli_args v
    = (0, v\<lparr>pathname := name, oflag := i\<rparr>)"
proof -
  note w = request_words [OF assms(1,2)]
  have "cstr (CL_OPEN @ '' '' @ name @ ('' '' @ show_int i) @ [NUL] @ junk) = []
      \<or> \<not> white (hd (cstr (CL_OPEN @ '' '' @ name @ ('' '' @ show_int i) @ [NUL] @ junk)))"
    unfolding w(1) by (simp add: CL_OPEN_def white_def)
  from buf_args_words [OF this, of cli_args v] show ?thesis
    unfolding w using atoi_show_int [OF assms(3,4)]
    by (simp add: Let_def MAXARGC_def cli_args_def numeral_2_eq_2)
qed

lemma handle_request_parsed:
  assumes "buf ! (nread - 1) = NUL" "buf_args buf cli_args v = (0, v')"
  shows "handle_request E buf nread clifd uid v lg =
    (let lg = lg @ [Request (cstr buf) uid] in
     case open_file E (pathname v') (oflag v') of
       Inl err \<Rightarrow>
         let v = v'\<lparr>errmsg := clip (''can't open '' @ pathname v' @ '': '' @ strerr E err @ [NEWLINE])\<rparr> in
         rbind (log_format (errmsg v) lg) (\<lambda>lg.
         Inr (snd (send_err (err_takes E) (send_ok E) (-1) (errmsg v)), v, lg))
     | Inr newfd \<Rightarrow>
         (case send_fd (control_mem E) (send_ok E) newfd of (r, sent) \<Rightarrow>
          if r < 0 then Inl (Sys ''send_fd error'')
          else Inr (sent, v', lg @ [Sent newfd clifd (pathname v')])))"
  using assms by (simp add: handle_request_def Let_def)

lemma request_handled:
  assumes "name \<noteq> []" "\<forall>c \<in> set name. \<not> white c \<and> c \<noteq> NUL" "length (show_int i) \<le> 10" "- (2 ^ 31) \<le> i" "i < 2 ^ 31"
  shows "\<exists>req lg'. csopen_request name i = Inr req \<and> handle_request E (req @ junk) (length req) clifd uid v lg =
    (case open_file E name i of
       Inl err \<Rightarrow>
         let v = v\<lparr>pathname := name, oflag := i, errmsg := clip (''can't open '' @ name @ '': '' @ strerr E err @ [NEWLINE])\<rparr> in
         rbind (log_format (errmsg v) lg') (\<lambda>lg.
         Inr (snd (send_err (err_takes E) (send_ok E) (-1) (errmsg v)), v, lg))
     | Inr newfd \<Rightarrow>
         (case send_fd (control_mem E) (send_ok E) newfd of (r, sent) \<Rightarrow>
          if r < 0 then Inl (Sys ''send_fd error'')
          else Inr (sent, v\<lparr>pathname := name, oflag := i\<rparr>, lg' @ [Sent newfd clifd name])))"
proof -
  let ?req = "CL_OPEN @ '' '' @ name @ ('' '' @ show_int i) @ [NUL]"
  have req: "csopen_request name i = Inr ?req" using assms(3) by (simp add: csopen_request_def store_str_def)
  have last: "(?req @ junk) ! (length ?req - 1) = NUL"
    using nth_append_length [of "CL_OPEN @ '' '' @ name @ '' '' @ show_int i" NUL junk] by simp
  have args: "buf_args (?req @ junk) cli_args v = (0, v\<lparr>pathname := name, oflag := i\<rparr>)"
    using request_parsed [OF assms(1,2,4,5), of junk v] by simp
  have sel: "pathname (v\<lparr>pathname := name, oflag := i\<rparr>) = name" "oflag (v\<lparr>pathname := name, oflag := i\<rparr>) = i"
    by simp_all
  from handle_request_parsed [OF last args, of E clifd uid lg, unfolded sel Let_def] show ?thesis
    by (intro exI [of _ ?req] exI [of _ "lg @ [Request (cstr (?req @ junk)) uid]"] conjI req) (simp only: Let_def)
qed

section \<open>Properties\<close>

text \<open>The status the client sees for an error code.\<close>

definition client_status :: "int \<Rightarrow> int" where
  "client_status e = (if 0 \<le> e \<or> (- e) mod 256 = 0 then -1 else - ((- e) mod 256))"

lemma send_err_status: "snd (send_err [] True e m) = (if m = [] then [] else [(m, None)]) @
    [([NUL, char_of (nat (- client_status e))], None)] \<and> 0 < - client_status e \<and> - client_status e < 256"
proof -
  have r: "0 \<le> (- e) mod 256" "(- e) mod 256 < 256" by simp_all
  show ?thesis using r unfolding send_err_chunks client_status_def by (auto simp: Let_def)
qed

text \<open>\<^verbatim>\<open>recv_fd\<close> undoes \<^verbatim>\<open>send_err\<close>: however the message is cut into pieces on the way (the last two
  bytes staying together), the client's function gets the whole message in order, and the client gets the
  error code, if it is between -255 and -1, and some negative status in any case.\<close>

theorem error_status_roundtrip:
  assumes "NUL \<notin> set m" "concat ps @ a = m" "\<forall>p \<in> set ps. p \<noteq> []" "\<forall>s. u s = int (length s)"
  shows "\<exists>st given. concat (map fst (snd (send_err [] True e m))) = m @ [NUL, st]
    \<and> recv_fd u (map (\<lambda>p. Arrives p None) ps @ [Arrives (a @ [NUL, st]) None]) [] = Inr (client_status e, given)
    \<and> concat given = m \<and> client_status e < 0 \<and> (- 256 < e \<and> e < 0 \<longrightarrow> client_status e = e)"
proof -
  let ?k = "- client_status e" and ?st = "char_of (nat (- client_status e)) :: char"
  note s = send_err_status [of e m]
  have oc: "(of_char ?st :: int) = ?k"
  proof -
    have "(of_char ?st :: nat) = nat ?k mod 256" by simp
    moreover have "nat ?k mod 256 = nat ?k" using s by (intro mod_less) (simp add: nat_less_iff)
    ultimately have "int (of_char ?st) = ?k" using s by simp
    then show ?thesis by (simp only: of_nat_of_char)
  qed
  have st: "?st \<noteq> NUL" using oc s by auto
  have "\<forall>p \<in> set ps. p \<noteq> [] \<and> NUL \<notin> set p" "NUL \<notin> set a" using assms(1-3) by auto
  from recv_fd_pieces [OF this(1) assms(4) this(2), of ?st None "[]"] st oc
  have "recv_fd u (map (\<lambda>p. Arrives p None) ps @ [Arrives (a @ [NUL, ?st]) None]) []
      = Inr (client_status e, ps @ (if a = [] then [] else [a]))" by simp
  moreover have "concat (ps @ (if a = [] then [] else [a])) = m" using assms(2) by auto
  moreover have "client_status e = e" if "- 256 < e" "e < 0" using that by (auto simp: client_status_def)
  ultimately show ?thesis using s by (intro exI [of _ ?st] exI [of _ "ps @ (if a = [] then [] else [a])"]) auto
qed

theorem error_status_roundtrip_witness:
  "\<exists>st given. recv_fd (\<lambda>s. int (length s)) (map (\<lambda>p. Arrives p None) [''no '', ''su''] @ [Arrives (''ch'' @ [NUL, st]) None]) []
    = Inr (-13, given) \<and> concat given = ''no such''"
proof -
  have c: "client_status (-13) = -13" by (simp add: client_status_def)
  have "NUL \<notin> set ''no such''" "concat [''no '', ''su''] @ ''ch'' = ''no such''" "\<forall>p \<in> set [''no '', ''su'']. p \<noteq> []"
    "\<forall>s. int (length s) = int (length s)" by simp_all
  from error_status_roundtrip [OF this, of "-13"] show ?thesis unfolding c by blast
qed


definition sample_open :: open_env where
  "sample_open = \<lparr>open_file = (\<lambda>n f. if n = ''motd'' then Inr 7 else Inl 2), strerr = (\<lambda>e. ''No such file''), err_takes = [],
     send_ok = True, control_mem = True\<rparr>"

definition no_vars :: req_vars where
  "no_vars = \<lparr>errmsg = [], pathname = [], oflag = 0\<rparr>"


text \<open>A client can make the server use its file name as a format: for a name with a percent sign that
  cannot be opened, \<^verbatim>\<open>handle_request\<close> passes the name to \<^verbatim>\<open>log_msg\<close> as the format string.\<close>

theorem open_format_string:
  assumes "name \<noteq> []" "\<forall>c \<in> set name. \<not> white c \<and> c \<noteq> NUL" "CHR ''%'' \<in> set name" "length name < 4000"
    and "length (show_int i) \<le> 10" "- (2 ^ 31) \<le> i" "i < 2 ^ 31" "open_file E name i = Inl e"
  shows "\<exists>req. csopen_request name i = Inr req \<and> handle_request E (req @ junk) (length req) clifd uid v lg = Inl Fault"
proof -
  have "CHR ''%'' \<in> set (clip (''can't open '' @ name @ '': '' @ strerr E e @ [NEWLINE]))"
    using assms(3,4) by (simp add: clip_def MAXLINE_def)
  with request_handled [OF assms(1,2,5,6,7), of E junk clifd uid v lg] assms(8) show ?thesis
    by (auto simp: Let_def log_format_def)
qed

theorem open_format_string_witness:
  "\<exists>req. csopen_request ''%s%n'' 0 = Inr req \<and> handle_request sample_open (req @ []) (length req) 4 205 no_vars [] = Inl Fault"
proof -
  have "length (show_int 0) \<le> 10" by code_simp
  from open_format_string [OF _ _ _ _ this, of "''%s%n''" sample_open 2 "[]" 4 205 no_vars "[]"] show ?thesis
    by (auto simp: sample_open_def white_def)
qed

end
