(* ===== verification/OpenServer.thy ===== *)
theory OpenServer imports OpenArgs begin

text \<open>
  The open server of ipc2/opend: the table of clients (client.c) and its two main loops, one on
  \<^verbatim>\<open>select\<close> (loop.select.c) and one on \<^verbatim>\<open>poll\<close> (loop.poll.c). Both are compared with one
  specification, which keeps a map from the connected descriptors to their owners.
\<close>

section \<open>The table of clients\<close>

definition NALLOC :: nat where "NALLOC = 10"

text \<open>\<open>None\<close> is a user that was never written.\<close>

record client =
  cfd :: int
  cuid :: "nat option"

text \<open>The empty list is the null pointer \<^verbatim>\<open>client\<close> starts with; \<open>mem\<close> tells whether there is memory.\<close>

definition client_alloc :: "bool \<Rightarrow> client list \<Rightarrow> client list res" where
  "client_alloc mem cl =
     (if \<not> mem then Inl (Sys ''can't alloc for client array'')
      else Inr (cl @ replicate NALLOC \<lparr>cfd = -1, cuid = None\<rparr>))"

fun find_fd :: "int \<Rightarrow> client list \<Rightarrow> nat option" where
  "find_fd fd [] = None"
| "find_fd fd (c # cl) = (if cfd c = fd then Some 0 else map_option Suc (find_fd fd cl))"

lemma find_fd_replicate: "find_fd (-1) (cl @ replicate NALLOC \<lparr>cfd = -1, cuid = None\<rparr>) \<noteq> None"
  by (induction cl) (auto simp: NALLOC_def numeral_eq_Suc)

text \<open>The loop of \<^verbatim>\<open>client_add\<close>, with its \<^verbatim>\<open>goto again\<close>.\<close>

function client_search :: "bool \<Rightarrow> int \<Rightarrow> nat \<Rightarrow> client list \<Rightarrow> (nat \<times> client list) res" where
  "client_search mem fd uid cl =
     (case find_fd (-1) cl of
        Some i \<Rightarrow> Inr (i, cl[i := \<lparr>cfd = fd, cuid = Some uid\<rparr>])
      | None \<Rightarrow> (case client_alloc mem cl of Inl e \<Rightarrow> Inl e | Inr cl \<Rightarrow> client_search mem fd uid cl))"
  by pat_completeness auto
termination
  by (relation "measure (\<lambda>(mem, fd, uid, cl). if find_fd (-1) cl = None then 1 else 0)")
    (auto simp: client_alloc_def find_fd_replicate [simplified] split: if_splits)

declare client_search.simps [simp del]

definition client_add :: "bool \<Rightarrow> int \<Rightarrow> nat \<Rightarrow> client list \<Rightarrow> (nat \<times> client list) res" where
  "client_add mem fd uid cl =
     rbind (if cl = [] then client_alloc mem cl else Inr cl) (client_search mem fd uid)"

definition client_del :: "int \<Rightarrow> client list \<Rightarrow> client list res" where
  "client_del fd cl =
     (case find_fd fd cl of
        None \<Rightarrow> Inl (Quit ''can't find client entry for fd'')
      | Some i \<Rightarrow> Inr (cl[i := (cl ! i)\<lparr>cfd := -1\<rparr>]))"

section \<open>Serving a client\<close>

text \<open>What both loops share: the variables of a request, the log, the buffer and what was sent on which
  descriptor.\<close>

record conv =
  vars :: req_vars
  oslog :: "log_entry list"
  obuf :: string
  osent :: "(int \<times> chunk list) list"

definition say :: "log_entry \<Rightarrow> conv \<Rightarrow> conv" where
  "say m c = c\<lparr>oslog := oslog c @ [m]\<rparr>"

text \<open>One turn of a main loop meets: whether the wait succeeds, which descriptors are then readable or
  hung up, what \<^verbatim>\<open>serv_accept\<close> returns, what each read returns (\<open>None\<close> is an error) and the system as
  each request meets it.\<close>

record turn =
  waits :: bool
  readable :: "int \<Rightarrow> bool"
  hung :: "int \<Rightarrow> bool"
  accepts :: "int \<times> nat"
  arrives :: "int \<Rightarrow> string option"
  envs :: "int \<Rightarrow> open_env"
  room :: bool

text \<open>A read of data into the buffer, and the request.\<close>

definition serve :: "turn \<Rightarrow> int \<Rightarrow> nat \<Rightarrow> string \<Rightarrow> conv \<Rightarrow> conv res" where
  "serve R fd uid data c =
     (let buf = data @ drop (length data) (obuf c) in
      rbind (handle_request (envs R fd) buf (length data) fd uid (vars c) (oslog c)) (\<lambda>(sent, v, lg).
      Inr (c\<lparr>vars := v, oslog := lg, obuf := buf, osent := osent c @ [(fd, sent)]\<rparr>)))"

section \<open>The loop on select\<close>

definition FD_SETSIZE :: int where "FD_SETSIZE = 1024"

record sel =
  sclients :: "client list"
  allset :: "int set"
  maxfd :: int
  maxi :: int
  sconv :: conv

fun select_scan :: "turn \<Rightarrow> int set \<Rightarrow> nat list \<Rightarrow> sel \<Rightarrow> sel res" where
  "select_scan R rset [] s = Inr s"
| "select_scan R rset (i # is) s =
     (if length (sclients s) \<le> i then Inl Fault
      else
        let clifd = cfd (sclients s ! i) in
        if clifd < 0 then select_scan R rset is s
        else if clifd \<in> rset then
          (case (arrives R clifd, cuid (sclients s ! i)) of
             (None, _) \<Rightarrow> Inl (Sys ''read error on fd'')
           | (_, None) \<Rightarrow> Inl Fault
           | (Some data, Some uid) \<Rightarrow>
               let data = take MAXLINE data in
               if data = [] then
                 rbind (client_del clifd (sclients s)) (\<lambda>cl.
                 select_scan R rset is (s\<lparr>sclients := cl, allset := allset s - {clifd}, sconv := say (Closed_by uid clifd) (sconv s)\<rparr>))
               else
                 rbind (serve R clifd uid data (sconv s)) (\<lambda>c. select_scan R rset is (s\<lparr>sconv := c\<rparr>)))
        else select_scan R rset is s)"

definition select_round :: "turn \<Rightarrow> int \<Rightarrow> sel \<Rightarrow> sel res" where
  "select_round R listenfd s =
     (if \<not> waits R then Inl (Sys ''select error'')
      else
        let rset = {fd \<in> allset s. fd \<le> maxfd s \<and> readable R fd} in
        if listenfd \<in> rset then
          case accepts R of (clifd, uid) \<Rightarrow>
            if clifd < 0 then Inl (Sys ''serv_accept error'')
            else rbind (client_add (room R) clifd uid (sclients s)) (\<lambda>(i, cl).
              if FD_SETSIZE \<le> clifd then Inl Fault
              else Inr (s\<lparr>sclients := cl, allset := insert clifd (allset s), maxfd := max clifd (maxfd s),
                maxi := max (int i) (maxi s), sconv := say (Connected uid clifd) (sconv s)\<rparr>))
        else select_scan R rset [0..<nat (maxi s + 1)] s)"

text \<open>The state before the first turn, and the loop over the turns.\<close>

definition select_start :: "int \<Rightarrow> conv \<Rightarrow> sel res" where
  "select_start listenfd c =
     (if listenfd < 0 then Inl (Sys ''serv_listen error'')
      else if FD_SETSIZE \<le> listenfd then Inl Fault
      else Inr \<lparr>sclients = [], allset = {listenfd}, maxfd = listenfd, maxi = -1, sconv = c\<rparr>)"

fun select_loop :: "turn list \<Rightarrow> int \<Rightarrow> sel \<Rightarrow> sel res" where
  "select_loop [] listenfd s = Inr s"
| "select_loop (R # Rs) listenfd s = rbind (select_round R listenfd s) (select_loop Rs listenfd)"

section \<open>The loop on poll\<close>

datatype poll_flag = POLLIN | POLLHUP

record pollfd =
  pfd :: int
  events :: "poll_flag set"
  revents :: "poll_flag set"

definition new_pollfd :: pollfd where
  "new_pollfd = \<lparr>pfd = -1, events = {POLLIN}, revents = {}\<rparr>"

record pol =
  pclients :: "client list"
  pollfds :: "pollfd list"
  numfd :: nat
  pconv :: conv

text \<open>The array's length is \<^verbatim>\<open>maxfd\<close>.\<close>

definition grow_pollfd :: "bool \<Rightarrow> pollfd list \<Rightarrow> pollfd list res" where
  "grow_pollfd mem pfds = (if \<not> mem then Inl (Sys ''realloc error'') else Inr (pfds @ replicate NALLOC new_pollfd))"

text \<open>What \<^verbatim>\<open>poll\<close> writes into an entry; a hang-up is always reported.\<close>

definition polled :: "turn \<Rightarrow> pollfd \<Rightarrow> pollfd" where
  "polled R e = e\<lparr>revents := (if pfd e < 0 then {} else
     (if readable R (pfd e) then {POLLIN} \<inter> events e else {}) \<union> (if hung R (pfd e) then {POLLHUP} else {}))\<rparr>"

text \<open>The code at \<^verbatim>\<open>hungup\<close>, with the index the loop goes on with.\<close>

definition poll_hungup :: "nat \<Rightarrow> pol \<Rightarrow> (nat \<times> pol) res" where
  "poll_hungup i p =
     (if length (pclients p) \<le> i then Inl Fault
      else case cuid (pclients p ! i) of
        None \<Rightarrow> Inl Fault
      | Some uid \<Rightarrow>
          let fd = pfd (pollfds p ! i); p = p\<lparr>pconv := say (Closed_by uid fd) (pconv p)\<rparr> in
          rbind (client_del fd (pclients p)) (\<lambda>cl.
          let p = p\<lparr>pclients := cl\<rparr> in
          if i < numfd p - 1 then
            Inr (i, p\<lparr>pollfds := (pollfds p)[i := pollfds p ! (numfd p - 1)], numfd := numfd p - 1\<rparr>)
          else Inr (i + 1, p\<lparr>numfd := numfd p - 1\<rparr>)))"

lemma poll_hungup_shrinks: "poll_hungup i p = Inr (j, q) \<Longrightarrow> i < numfd p \<Longrightarrow> numfd q - j < numfd p - i"
  by (auto simp: poll_hungup_def Let_def rbind_eq_Inr split: if_splits option.splits)

function poll_scan :: "turn \<Rightarrow> nat \<Rightarrow> pol \<Rightarrow> pol res" where
  "poll_scan R i p =
     (if numfd p \<le> i then Inr p
      else
        let e = pollfds p ! i in
        if POLLHUP \<in> revents e then
          (case poll_hungup i p of Inl a \<Rightarrow> Inl a | Inr (j, q) \<Rightarrow> poll_scan R j q)
        else if POLLIN \<in> revents e then
          (case arrives R (pfd e) of
             None \<Rightarrow> Inl (Sys ''read error on fd'')
           | Some data \<Rightarrow>
               if take MAXLINE data = [] then
                 (case poll_hungup i p of Inl a \<Rightarrow> Inl a | Inr (j, q) \<Rightarrow> poll_scan R j q)
               else if length (pclients p) \<le> i then Inl Fault
               else case cuid (pclients p ! i) of
                 None \<Rightarrow> Inl Fault
               | Some uid \<Rightarrow>
                   (case serve R (pfd e) uid (take MAXLINE data) (pconv p) of
                      Inl a \<Rightarrow> Inl a | Inr c \<Rightarrow> poll_scan R (i + 1) (p\<lparr>pconv := c\<rparr>)))
        else poll_scan R (i + 1) p)"
  by pat_completeness auto
termination
  by (relation "measure (\<lambda>(R, i, p). numfd p - i)") (auto dest: poll_hungup_shrinks)

declare poll_scan.simps [simp del]

definition poll_accept :: "turn \<Rightarrow> pol \<Rightarrow> pol res" where
  "poll_accept R p =
     (case accepts R of (clifd, uid) \<Rightarrow>
      if clifd < 0 then Inl (Sys ''serv_accept error'')
      else
        rbind (client_add (room R) clifd uid (pclients p)) (\<lambda>(_, cl).
        rbind (if numfd p = length (pollfds p) then grow_pollfd (room R) (pollfds p) else Inr (pollfds p)) (\<lambda>pfds.
        Inr (p\<lparr>pclients := cl, pollfds := pfds[numfd p := \<lparr>pfd = clifd, events = {POLLIN}, revents = {}\<rparr>],
          numfd := numfd p + 1, pconv := say (Connected uid clifd) (pconv p)\<rparr>))))"

definition poll_round :: "turn \<Rightarrow> pol \<Rightarrow> pol res" where
  "poll_round R p =
     (if \<not> waits R then Inl (Sys ''poll error'')
      else
        let p = p\<lparr>pollfds := map (polled R) (take (numfd p) (pollfds p)) @ drop (numfd p) (pollfds p)\<rparr> in
        rbind (if POLLIN \<in> revents (pollfds p ! 0) then poll_accept R p else Inr p) (poll_scan R 1))"

definition poll_start :: "bool \<Rightarrow> int \<Rightarrow> conv \<Rightarrow> pol res" where
  "poll_start mem listenfd c =
     (if \<not> mem then Inl (Sys ''malloc error'')
      else if listenfd < 0 then Inl (Sys ''serv_listen error'')
      else rbind (client_add mem listenfd 0 []) (\<lambda>(_, cl).
        Inr \<lparr>pclients = cl, pollfds = (replicate NALLOC new_pollfd)[0 := new_pollfd\<lparr>pfd := listenfd\<rparr>], numfd = 1, pconv = c\<rparr>))"

fun poll_loop :: "turn list \<Rightarrow> pol \<Rightarrow> pol res" where
  "poll_loop [] p = Inr p"
| "poll_loop (R # Rs) p = rbind (poll_round R p) (poll_loop Rs)"

section \<open>The connections\<close>

text \<open>The map a table of clients stands for: from the connected descriptors to their owners.\<close>

fun conns :: "client list \<Rightarrow> int \<rightharpoonup> nat" where
  "conns [] = Map.empty"
| "conns (c # cl) = (if cfd c < 0 then conns cl else (conns cl)(cfd c \<mapsto> the (cuid c)))"

fun wf_clients :: "client list \<Rightarrow> bool" where
  "wf_clients [] \<longleftrightarrow> True"
| "wf_clients (c # cl) \<longleftrightarrow> wf_clients cl \<and> -1 \<le> cfd c \<and> (0 \<le> cfd c \<longrightarrow> cuid c \<noteq> None \<and> conns cl (cfd c) = None)"

lemma conns_neg: "fd < 0 \<Longrightarrow> conns cl fd = None"
  by (induction cl) auto

lemma conns_nth: "wf_clients cl \<Longrightarrow> i < length cl \<Longrightarrow> 0 \<le> cfd (cl ! i) \<Longrightarrow> conns cl (cfd (cl ! i)) = cuid (cl ! i) \<and> cuid (cl ! i) \<noteq> None"
proof (induction cl arbitrary: i)
  case (Cons c cl)
  show ?case
  proof (cases i)
    case (Suc j)
    with Cons have "conns cl (cfd (cl ! j)) = cuid (cl ! j)" "cuid (cl ! j) \<noteq> None" by auto
    with Suc Cons.prems show ?thesis by (auto simp: fun_upd_def)
  qed (use Cons.prems in auto)
qed simp

lemma conns_Some: "conns cl fd \<noteq> None \<Longrightarrow> \<exists>i < length cl. cfd (cl ! i) = fd \<and> 0 \<le> fd"
proof (induction cl)
  case (Cons c cl)
  show ?case
  proof (cases "cfd c = fd \<and> 0 \<le> cfd c")
    case True
    then show ?thesis by (intro exI [of _ 0]) auto
  next
    case False
    with Cons.prems have "conns cl fd \<noteq> None" by (auto split: if_splits)
    with Cons.IH obtain i where "i < length cl" "cfd (cl ! i) = fd" "0 \<le> fd" by blast
    then show ?thesis by (intro exI [of _ "Suc i"]) auto
  qed
qed simp

lemma conns_inj:
  "wf_clients cl \<Longrightarrow> i < length cl \<Longrightarrow> j < length cl \<Longrightarrow> cfd (cl ! i) = cfd (cl ! j) \<Longrightarrow> 0 \<le> cfd (cl ! i) \<Longrightarrow> i = j"
proof (induction cl arbitrary: i j)
  case (Cons c cl)
  have "conns cl (cfd (cl ! k)) \<noteq> None" if "k < length cl" "0 \<le> cfd (cl ! k)" for k
    using conns_nth [of cl k] that Cons.prems(1) by auto
  with Cons show ?case by (cases i; cases j) (auto, metis option.distinct(1))+
qed simp

lemma conns_append: "conns (cl @ replicate n \<lparr>cfd = -1, cuid = None\<rparr>) = conns cl"
  by (induction cl) (simp, induction n, auto)

lemma wf_append: "wf_clients cl \<Longrightarrow> wf_clients (cl @ replicate n \<lparr>cfd = -1, cuid = None\<rparr>)"
  by (induction cl) (simp, induction n, auto simp: conns_append)

lemma find_fd_Some: "find_fd fd cl = Some i \<Longrightarrow> i < length cl \<and> cfd (cl ! i) = fd \<and> (\<forall>j < i. cfd (cl ! j) \<noteq> fd)"
proof (induction cl arbitrary: i)
  case (Cons c cl)
  show ?case
  proof (cases "cfd c = fd")
    case False
    with Cons.prems obtain k where "find_fd fd cl = Some k" "i = Suc k" by auto
    with Cons.IH [of k] False show ?thesis by (auto simp: nth_Cons split: nat.splits)
  qed (use Cons.prems in auto)
qed simp

lemma find_fd_None: "find_fd fd cl = None \<longleftrightarrow> (\<forall>c \<in> set cl. cfd c \<noteq> fd)"
  by (induction cl) auto

text \<open>The entry that is filled, and the entry that is freed.\<close>

lemma conns_fill:
  "find_fd (-1) cl = Some i \<Longrightarrow> conns cl fd = None \<Longrightarrow> 0 \<le> fd \<Longrightarrow>
   conns (cl[i := \<lparr>cfd = fd, cuid = Some uid\<rparr>]) = (conns cl)(fd \<mapsto> uid)
   \<and> (wf_clients cl \<longrightarrow> wf_clients (cl[i := \<lparr>cfd = fd, cuid = Some uid\<rparr>]))"
proof (induction cl arbitrary: i)
  case (Cons c cl)
  show ?case
  proof (cases "cfd c = -1")
    case True
    with Cons.prems show ?thesis by auto
  next
    case False
    with Cons.prems obtain k where k: "find_fd (-1) cl = Some k" "i = Suc k" by auto
    with Cons False show ?thesis by (auto simp: fun_upd_twist split: if_splits)
  qed
qed simp

lemma conns_free:
  "find_fd fd cl = Some i \<Longrightarrow> wf_clients cl \<Longrightarrow> 0 \<le> fd \<Longrightarrow>
   conns (cl[i := (cl ! i)\<lparr>cfd := -1\<rparr>]) = (conns cl)(fd := None) \<and> wf_clients (cl[i := (cl ! i)\<lparr>cfd := -1\<rparr>])"
proof (induction cl arbitrary: i)
  case (Cons c cl)
  show ?case
  proof (cases "cfd c = fd")
    case True
    with Cons.prems show ?thesis by (auto simp: fun_upd_idem)
  next
    case False
    with Cons.prems obtain k where k: "find_fd fd cl = Some k" "i = Suc k" by auto
    with Cons False show ?thesis by (auto simp: fun_upd_twist)
  qed
qed simp

lemma client_search_result:
  "\<exists>i cl' m. client_search True fd uid cl = Inr (i, cl'[i := \<lparr>cfd = fd, cuid = Some uid\<rparr>])
     \<and> find_fd (-1) cl' = Some i \<and> cl' = cl @ replicate m \<lparr>cfd = -1, cuid = None\<rparr>"
proof (cases "find_fd (-1) cl")
  case None
  obtain i where i: "find_fd (-1) (cl @ replicate NALLOC \<lparr>cfd = -1, cuid = None\<rparr>) = Some i"
    using find_fd_replicate by blast
  with None have "client_search True fd uid cl = Inr (i, (cl @ replicate NALLOC \<lparr>cfd = -1, cuid = None\<rparr>)[i := \<lparr>cfd = fd, cuid = Some uid\<rparr>])"
    by (simp add: client_search.simps client_alloc_def)
  with i show ?thesis by blast
next
  case (Some i)
  then show ?thesis by (subst client_search.simps) (auto intro!: exI [of _ 0])
qed

lemma client_add_result:
  "\<exists>i cl' m. client_add True fd uid cl = Inr (i, cl'[i := \<lparr>cfd = fd, cuid = Some uid\<rparr>])
     \<and> find_fd (-1) cl' = Some i \<and> cl' = cl @ replicate m \<lparr>cfd = -1, cuid = None\<rparr>"
proof (cases "cl = []")
  case True
  then show ?thesis
    using client_search_result [of fd uid "replicate NALLOC \<lparr>cfd = -1, cuid = None\<rparr>"]
    by (auto simp: client_add_def client_alloc_def replicate_add [symmetric])
next
  case False
  then show ?thesis using client_search_result [of fd uid cl] by (simp add: client_add_def)
qed

lemma client_search_mem: "client_search mem fd uid cl = Inr r \<Longrightarrow> client_search True fd uid cl = Inr r"
  by (cases mem) (auto simp: client_search.simps [of False] client_search.simps [of True fd uid cl] client_alloc_def split: option.splits)

lemma client_add_fails: "client_add mem fd uid cl = Inl a \<Longrightarrow> \<exists>m. a = Sys m"
  using client_add_result [of fd uid cl]
  by (cases mem) (auto simp: client_add_def client_alloc_def client_search.simps [of False] split: if_splits option.splits)

lemma client_add_mem: "client_add mem fd uid cl = Inr r \<Longrightarrow> client_add True fd uid cl = Inr r"
  by (auto simp: client_add_def client_alloc_def rbind_eq_Inr client_search_mem split: if_splits)

lemma client_add_conns:
  assumes "client_add mem fd uid cl = Inr (i, cl')" "conns cl fd = None" "0 \<le> fd" "wf_clients cl"
  shows "conns cl' = (conns cl)(fd \<mapsto> uid)" "wf_clients cl'" "i < length cl'" "length cl \<le> length cl'"
proof -
  obtain ca m where r: "cl' = ca[i := \<lparr>cfd = fd, cuid = Some uid\<rparr>]" "find_fd (-1) ca = Some i"
      "ca = cl @ replicate m \<lparr>cfd = -1, cuid = None\<rparr>"
    using client_add_result [of fd uid cl] client_add_mem [OF assms(1)] by auto
  have "conns ca = conns cl" "wf_clients ca" using r(3) assms(4) by (simp_all add: conns_append wf_append)
  with conns_fill [OF r(2), of fd uid] assms(2,3) r(1)
  show "conns cl' = (conns cl)(fd \<mapsto> uid)" "wf_clients cl'" by auto
  show "i < length cl'" "length cl \<le> length cl'" using find_fd_Some [OF r(2)] r(1,3) by auto
qed

lemma client_del_conns:
  assumes "conns cl fd \<noteq> None" "wf_clients cl"
  obtains i where "i < length cl" "cfd (cl ! i) = fd" "0 \<le> fd" "client_del fd cl = Inr (cl[i := (cl ! i)\<lparr>cfd := -1\<rparr>])"
    "conns (cl[i := (cl ! i)\<lparr>cfd := -1\<rparr>]) = (conns cl)(fd := None)" "wf_clients (cl[i := (cl ! i)\<lparr>cfd := -1\<rparr>])"
proof -
  from conns_Some [OF assms(1)] obtain j where j: "j < length cl" "cfd (cl ! j) = fd" "0 \<le> fd" by blast
  then have "find_fd fd cl \<noteq> None" by (auto simp: find_fd_None)
  then obtain i where i: "find_fd fd cl = Some i" by blast
  with find_fd_Some [OF i] conns_free [OF i assms(2) j(3)] j(3) show ?thesis
    by (intro that [of i]) (auto simp: client_del_def)
qed

section \<open>The specification of a turn\<close>

text \<open>The work of a turn: each pair is a descriptor and the user its work is attributed to. A descriptor
  that hung up or is at its end is disconnected, any other is served.\<close>

fun spec_work :: "(int \<Rightarrow> bool) \<Rightarrow> turn \<Rightarrow> (int \<times> nat) list \<Rightarrow> (int \<rightharpoonup> nat) \<Rightarrow> conv \<Rightarrow> ((int \<rightharpoonup> nat) \<times> conv) res" where
  "spec_work hup R [] K c = Inr (K, c)"
| "spec_work hup R ((fd, uid) # w) K c =
     (if hup fd then spec_work hup R w (K(fd := None)) (say (Closed_by uid fd) c)
      else case arrives R fd of
        None \<Rightarrow> Inl (Sys ''read error on fd'')
      | Some data \<Rightarrow>
          if take MAXLINE data = [] then spec_work hup R w (K(fd := None)) (say (Closed_by uid fd) c)
          else rbind (serve R fd uid (take MAXLINE data) c) (spec_work hup R w K))"

section \<open>The loop on select follows the specification\<close>

definition select_inv :: "int \<Rightarrow> sel \<Rightarrow> bool" where
  "select_inv listenfd s \<longleftrightarrow>
     wf_clients (sclients s) \<and> 0 \<le> listenfd \<and> conns (sclients s) listenfd = None
     \<and> allset s = insert listenfd (dom (conns (sclients s)))
     \<and> (\<forall>fd \<in> allset s. fd \<le> maxfd s) \<and> -1 \<le> maxi s \<and> maxi s < int (length (sclients s))
     \<and> (\<forall>i < length (sclients s). maxi s < int i \<longrightarrow> cfd (sclients s ! i) < 0)"

text \<open>The entries whose turn it is, with their owners.\<close>

definition select_work :: "int set \<Rightarrow> nat list \<Rightarrow> client list \<Rightarrow> (int \<times> nat) list" where
  "select_work rset is cl =
     map (\<lambda>i. (cfd (cl ! i), the (cuid (cl ! i)))) (filter (\<lambda>i. 0 \<le> cfd (cl ! i) \<and> cfd (cl ! i) \<in> rset) is)"

lemma select_work_other:
  "i \<notin> set is \<Longrightarrow> select_work rset is (cl[i := c]) = select_work rset is cl"
proof (induction "is")
  case (Cons j js)
  then have "select_work rset js (cl[i := c]) = select_work rset js cl" "i \<noteq> j" by auto
  then show ?case by (simp add: select_work_def)
qed (simp add: select_work_def)

lemma select_close_inv:
  assumes "select_inv l s" "i < length (sclients s)" "cfd (sclients s ! i) = fd" "0 \<le> fd"
  obtains "client_del fd (sclients s) = Inr ((sclients s)[i := (sclients s ! i)\<lparr>cfd := -1\<rparr>])"
    "conns ((sclients s)[i := (sclients s ! i)\<lparr>cfd := -1\<rparr>]) = (conns (sclients s))(fd := None)"
    "select_inv l (s\<lparr>sclients := (sclients s)[i := (sclients s ! i)\<lparr>cfd := -1\<rparr>], allset := allset s - {fd}, sconv := c\<rparr>)"
proof -
  have wf: "wf_clients (sclients s)" using assms(1) by (simp add: select_inv_def)
  have "conns (sclients s) fd \<noteq> None" using conns_nth [OF wf assms(2)] assms(3,4) by auto
  from client_del_conns [OF this wf] obtain j where j: "j < length (sclients s)" "cfd (sclients s ! j) = fd"
    "client_del fd (sclients s) = Inr ((sclients s)[j := (sclients s ! j)\<lparr>cfd := -1\<rparr>])"
    "conns ((sclients s)[j := (sclients s ! j)\<lparr>cfd := -1\<rparr>]) = (conns (sclients s))(fd := None)"
    "wf_clients ((sclients s)[j := (sclients s ! j)\<lparr>cfd := -1\<rparr>])" by metis
  have "i = j" using conns_inj [OF wf assms(2) j(1)] assms(3,4) j(2) by simp
  with j assms(1) \<open>conns (sclients s) fd \<noteq> None\<close> show ?thesis
    by (intro that) (auto simp: select_inv_def nth_list_update split: if_splits)
qed

text \<open>The scan does the work of the entries it passes, in their order, each attributed to its owner.\<close>

lemma select_scan_spec:
  assumes "select_inv l s" "distinct is" "\<forall>i \<in> set is. i < length (sclients s)"
  shows "case select_scan R rset is s of
      Inl a \<Rightarrow> spec_work (\<lambda>_. False) R (select_work rset is (sclients s)) (conns (sclients s)) (sconv s) = Inl a
    | Inr s' \<Rightarrow> select_inv l s' \<and> spec_work (\<lambda>_. False) R (select_work rset is (sclients s)) (conns (sclients s)) (sconv s)
        = Inr (conns (sclients s'), sconv s')"
  using assms
proof (induction "is" arbitrary: s)
  case Nil
  then show ?case by (simp add: select_work_def)
next
  case (Cons i "is")
  let ?fd = "cfd (sclients s ! i)"
  note IH = Cons.IH
  have i: "i < length (sclients s)" "i \<notin> set is" using Cons.prems by auto
  show ?case
  proof (cases "0 \<le> ?fd \<and> ?fd \<in> rset")
    case False
    then have "select_work rset (i # is) (sclients s) = select_work rset is (sclients s)" by (simp add: select_work_def)
    moreover have "select_scan R rset (i # is) s = select_scan R rset is s" using False i by (auto simp: Let_def)
    ultimately show ?thesis using IH [of s] Cons.prems by (simp del: select_scan.simps split: sum.splits)
  next
    case True
    then obtain uid where u: "cuid (sclients s ! i) = Some uid"
      using conns_nth [OF _ i(1)] Cons.prems(1) by (auto simp: select_inv_def)
    have w: "select_work rset (i # is) (sclients s) = (?fd, uid) # select_work rset is (sclients s)"
      using True u by (simp add: select_work_def)
    show ?thesis
    proof (cases "arrives R ?fd")
      case None
      then show ?thesis using True i(1) by (simp add: w Let_def)
    next
      case (Some data)
      show ?thesis
      proof (cases "take MAXLINE data = []")
        case e: True
        let ?cl = "(sclients s)[i := (sclients s ! i)\<lparr>cfd := -1\<rparr>]"
        let ?s = "s\<lparr>sclients := ?cl, allset := allset s - {?fd}, sconv := say (Closed_by uid ?fd) (sconv s)\<rparr>"
        from True have "0 \<le> ?fd" by blast
        from select_close_inv [OF Cons.prems(1) i(1) refl this, of "say (Closed_by uid ?fd) (sconv s)"]
        have d: "client_del ?fd (sclients s) = Inr ?cl" "conns ?cl = (conns (sclients s))(?fd := None)" "select_inv l ?s"
          by metis+
        have "select_scan R rset (i # is) s = select_scan R rset is ?s"
          using True i(1) Some e u d(1) by (simp add: Let_def)
        with IH [OF d(3)] Cons.prems Some e show ?thesis
          by (simp add: w d(2) select_work_other [OF i(2)] del: select_scan.simps split: sum.splits)
      next
        case ne: False
        have st: "select_scan R rset (i # is) s
            = rbind (serve R ?fd uid (take MAXLINE data) (sconv s)) (\<lambda>c. select_scan R rset is (s\<lparr>sconv := c\<rparr>))"
          using True i(1) Some ne u by (simp add: Let_def)
        show ?thesis
        proof (cases "serve R ?fd uid (take MAXLINE data) (sconv s)")
          case (Inl a)
          then show ?thesis using st Some ne by (simp add: w del: select_scan.simps)
        next
          case (Inr c)
          have "select_inv l (s\<lparr>sconv := c\<rparr>)" using Cons.prems(1) by (simp add: select_inv_def)
          from IH [OF this] Cons.prems Some ne Inr show ?thesis
            by (simp add: w st del: select_scan.simps split: sum.splits)
        qed
      qed
    qed
  qed
qed

lemma select_work_in_conns:
  assumes "wf_clients cl" "\<forall>i \<in> set is. i < length cl" "distinct is"
  shows "distinct (map fst (select_work rset is cl))"
    "(fd, uid) \<in> set (select_work rset is cl) \<Longrightarrow> conns cl fd = Some uid \<and> fd \<in> rset"
proof -
  show "distinct (map fst (select_work rset is cl))"
    using assms conns_inj [OF assms(1)]
    by (auto simp: select_work_def distinct_map inj_on_def comp_def)
  show "(fd, uid) \<in> set (select_work rset is cl) \<Longrightarrow> conns cl fd = Some uid \<and> fd \<in> rset"
    using assms conns_nth [OF assms(1)] by (fastforce simp: select_work_def)
qed

text \<open>All the readable connections are among the entries the loop passes.\<close>

lemma select_work_all:
  assumes "select_inv l s" "conns (sclients s) fd = Some uid" "fd \<in> rset"
  shows "(fd, uid) \<in> set (select_work rset [0..<nat (maxi s + 1)] (sclients s))"
proof -
  from conns_Some [of "sclients s" fd] assms(2)
  obtain i where i: "i < length (sclients s)" "cfd (sclients s ! i) = fd" "0 \<le> fd" by auto
  then have "int i \<le> maxi s" using assms(1) by (fastforce simp: select_inv_def)
  moreover have "cuid (sclients s ! i) = Some uid"
    using conns_nth [of "sclients s" i] i assms(1,2) by (auto simp: select_inv_def)
  ultimately show ?thesis using i assms(3)
    by (auto simp: select_work_def image_iff intro!: exI [of _ i])
qed

text \<open>The descriptor the system hands out for a connection is not open yet.\<close>

definition fresh_accept :: "int \<Rightarrow> (int \<rightharpoonup> nat) \<Rightarrow> turn \<Rightarrow> bool" where
  "fresh_accept l K R \<longleftrightarrow> (case accepts R of (fd, uid) \<Rightarrow> 0 \<le> fd \<longrightarrow> fd \<noteq> l \<and> K fd = None)"

inductive select_reach :: "int \<Rightarrow> conv \<Rightarrow> sel \<Rightarrow> bool" for l :: int and c :: conv where
  start: "select_start l c = Inr s \<Longrightarrow> select_reach l c s"
| turn: "select_reach l c s \<Longrightarrow> fresh_accept l (conns (sclients s)) R \<Longrightarrow> select_round R l s = Inr s' \<Longrightarrow> select_reach l c s'"

lemma select_start_inv: "select_start l c = Inr s \<Longrightarrow> select_inv l s"
  by (auto simp: select_start_def select_inv_def split: if_splits)

text \<open>A turn of the specification.\<close>

definition select_spec :: "turn \<Rightarrow> int \<Rightarrow> (int \<rightharpoonup> nat) \<times> conv \<Rightarrow> (int \<rightharpoonup> nat) \<times> conv \<Rightarrow> bool" where
  "select_spec R l = (\<lambda>(K, c) (K', c').
     if readable R l then \<exists>fd uid. accepts R = (fd, uid) \<and> 0 \<le> fd \<and> K' = K(fd \<mapsto> uid) \<and> c' = say (Connected uid fd) c
     else \<exists>w. distinct (map fst w) \<and> (\<forall>fd uid. (fd, uid) \<in> set w \<longleftrightarrow> K fd = Some uid \<and> readable R fd)
       \<and> spec_work (\<lambda>_. False) R w K c = Inr (K', c'))"

lemma select_round_spec:
  assumes inv: "select_inv l s" and fresh: "fresh_accept l (conns (sclients s)) R" and r: "select_round R l s = Inr s'"
  shows "select_inv l s' \<and> select_spec R l (conns (sclients s), sconv s) (conns (sclients s'), sconv s')"
proof -
  let ?rset = "{fd \<in> allset s. fd \<le> maxfd s \<and> readable R fd}"
  have wt: "waits R" using r by (auto simp: select_round_def split: if_splits)
  have l: "l \<in> ?rset \<longleftrightarrow> readable R l" using inv by (auto simp: select_inv_def)
  show ?thesis
  proof (cases "readable R l")
    case True
    obtain fd uid where a: "accepts R = (fd, uid)" by fastforce
    then obtain i cl where add: "client_add (room R) fd uid (sclients s) = Inr (i, cl)" "0 \<le> fd"
        and s': "s' = s\<lparr>sclients := cl, allset := insert fd (allset s), maxfd := max fd (maxfd s),
          maxi := max (int i) (maxi s), sconv := say (Connected uid fd) (sconv s)\<rparr>"
      using r True wt l by (auto simp: select_round_def Let_def rbind_eq_Inr split: if_splits)
    have K: "conns (sclients s) fd = None" "fd \<noteq> l" "wf_clients (sclients s)"
      using fresh a add(2) inv by (auto simp: fresh_accept_def select_inv_def)
    note c = client_add_conns [OF add(1) K(1) add(2) K(3)]
    obtain ca m where ca: "cl = ca[i := \<lparr>cfd = fd, cuid = Some uid\<rparr>]" "ca = sclients s @ replicate m \<lparr>cfd = -1, cuid = None\<rparr>"
      using client_add_result [of fd uid "sclients s"] client_add_mem [OF add(1)] by auto
    have "cfd (cl ! j) < 0" if "j < length cl" "max (int i) (maxi s) < int j" for j
      using that ca inv by (auto simp: select_inv_def nth_list_update nth_append)
    moreover have "\<forall>fd' \<in> allset s'. fd' \<le> maxfd s'" using inv by (auto simp: select_inv_def s' le_max_iff_disj)
    ultimately have "select_inv l s'" using inv c K by (simp add: select_inv_def s' insert_commute less_max_iff_disj)
    then show ?thesis using True a add(2) c(1) by (simp add: s' select_spec_def)
  next
    case False
    let ?is = "[0..<nat (maxi s + 1)]"
    have sc: "select_scan R ?rset ?is s = Inr s'" using r wt l False by (simp add: select_round_def Let_def)
    have b: "\<forall>i \<in> set ?is. i < length (sclients s)" using inv by (auto simp: select_inv_def)
    have wf: "wf_clients (sclients s)" using inv by (simp add: select_inv_def)
    note w = select_work_in_conns [OF wf b distinct_upt, where rset = ?rset]
    have m: "(fd, uid) \<in> set (select_work ?rset ?is (sclients s)) \<longleftrightarrow> conns (sclients s) fd = Some uid \<and> readable R fd" for fd uid
      using w(2) [of fd uid] select_work_all [OF inv, of fd uid ?rset] inv by (auto simp: select_inv_def)
    have "select_inv l s' \<and> spec_work (\<lambda>_. False) R (select_work ?rset ?is (sclients s)) (conns (sclients s)) (sconv s)
        = Inr (conns (sclients s'), sconv s')"
      using select_scan_spec [OF inv distinct_upt b, of R ?rset] unfolding sc by simp
    with w(1) m False show ?thesis unfolding select_spec_def by auto
  qed
qed

lemma select_reach_inv: "select_reach l c s \<Longrightarrow> select_inv l s"
  by (induction rule: select_reach.induct) (use select_start_inv select_round_spec in blast)+

section \<open>The loop on poll does the same work\<close>

definition pfd_at :: "pol \<Rightarrow> nat \<Rightarrow> int" where
  "pfd_at p j = pfd (pollfds p ! j)"

text \<open>The first \<open>numfd\<close> entries are the connected descriptors, each once, the listening one first. The
  users of the first \<open>h\<close> clients are written, and \<open>numfd\<close> is at most \<open>h\<close>.\<close>

definition users_written :: "client list \<Rightarrow> bool" where
  "users_written cl \<longleftrightarrow> (\<exists>h \<le> length cl. \<forall>i < length cl. (i < h \<longrightarrow> cuid (cl ! i) \<noteq> None) \<and> (0 \<le> cfd (cl ! i) \<longrightarrow> i < h))"

definition poll_inv :: "int \<Rightarrow> pol \<Rightarrow> bool" where
  "poll_inv l p \<longleftrightarrow>
     wf_clients (pclients p) \<and> 0 \<le> l \<and> 0 < numfd p \<and> numfd p \<le> length (pollfds p) \<and> pfd_at p 0 = l
     \<and> inj_on (pfd_at p) {..<numfd p} \<and> pfd_at p ` {..<numfd p} = dom (conns (pclients p))
     \<and> (\<forall>e \<in> set (take (numfd p) (pollfds p)). events e = {POLLIN})
     \<and> users_written (pclients p)"

lemma client_add_users:
  assumes "client_add mem fd uid cl = Inr (i, cl')" "users_written cl" "wf_clients cl"
  shows "users_written cl'"
proof -
  obtain ca m where r: "cl' = ca[i := \<lparr>cfd = fd, cuid = Some uid\<rparr>]" "find_fd (-1) ca = Some i"
      "ca = cl @ replicate m \<lparr>cfd = -1, cuid = None\<rparr>"
    using client_add_result [of fd uid cl] client_add_mem [OF assms(1)] by auto
  obtain h where h: "h \<le> length cl" "\<forall>i < length cl. (i < h \<longrightarrow> cuid (cl ! i) \<noteq> None) \<and> (0 \<le> cfd (cl ! i) \<longrightarrow> i < h)"
    using assms(2) unfolding users_written_def by blast
  have nth: "ca ! k = (if k < length cl then cl ! k else \<lparr>cfd = -1, cuid = None\<rparr>)" if "k < length ca" for k
    using that by (simp add: r(3) nth_append)
  note i = find_fd_Some [OF r(2)]
  have neg: "-1 \<le> cfd c" if "c \<in> set cl" for c using that assms(3) by (induction cl) auto
  have act: "0 \<le> cfd (cl ! k)" if k: "k < length cl" "k < i" for k
  proof -
    have "cfd (cl ! k) \<noteq> -1" using i nth [of k] k r(3) by (auto simp: nth_append)
    moreover have "-1 \<le> cfd (cl ! k)" using neg k(1) by simp
    ultimately show ?thesis by simp
  qed
  have "i \<le> h"
  proof (rule ccontr)
    assume "\<not> i \<le> h"
    moreover have "i \<le> length cl"
    proof (rule ccontr)
      assume "\<not> i \<le> length cl"
      then have "length cl < i" by simp
      then show False using i nth [of "length cl"] by fastforce
    qed
    ultimately have "h < i" "h < length cl" by simp_all
    then show False using act [of h] h(2) [rule_format, of h] by simp
  qed
  then have "max h (i + 1) \<le> length cl'" using h(1) i by (simp add: r)
  moreover have "(k < max h (i + 1) \<longrightarrow> cuid (cl' ! k) \<noteq> None) \<and> (0 \<le> cfd (cl' ! k) \<longrightarrow> k < max h (i + 1))" if k: "k < length cl'" for k
  proof (cases "k = i")
    case False
    then have "cl' ! k = ca ! k" "k < length ca" using k r(1) by auto
    then show ?thesis using nth [of k] h False \<open>i \<le> h\<close> by (auto simp: less_max_iff_disj)
  qed (use k in \<open>simp add: r(1) less_max_iff_disj\<close>)
  ultimately show ?thesis unfolding users_written_def by blast
qed

lemma card_conns: "wf_clients cl \<Longrightarrow> card (dom (conns cl)) = length (filter (\<lambda>c. 0 \<le> cfd c) cl)"
proof (induction cl)
  case (Cons c cl)
  have "finite (dom (conns cl))" by (induction cl) auto
  moreover have "cfd c \<notin> dom (conns cl)" "dom (conns (c # cl)) = insert (cfd c) (dom (conns cl))" if "0 \<le> cfd c"
    using Cons.prems that by (auto simp: dom_def)
  moreover have "conns (c # cl) = conns cl" if "\<not> 0 \<le> cfd c" using that by simp
  ultimately show ?case using Cons by (cases "0 \<le> cfd c") (simp_all del: conns.simps)
qed simp

lemma active_below:
  "\<forall>i < length cl. 0 \<le> cfd (cl ! i) \<longrightarrow> i < h \<Longrightarrow> length (filter (\<lambda>c. 0 \<le> cfd c) cl) \<le> h"
proof -
  assume a: "\<forall>i < length cl. 0 \<le> cfd (cl ! i) \<longrightarrow> i < h"
  have "\<not> 0 \<le> cfd c" if "c \<in> set (drop h cl)" for c
  proof -
    from that obtain i where "i < length cl - h" "c = cl ! (h + i)" by (auto simp: in_set_conv_nth)
    then show ?thesis using a [rule_format, of "h + i"] by (auto simp: less_diff_conv add.commute)
  qed
  then have "filter (\<lambda>c. 0 \<le> cfd c) (drop h cl) = []" by (simp add: filter_empty_conv)
  moreover have "filter (\<lambda>c. 0 \<le> cfd c) cl = filter (\<lambda>c. 0 \<le> cfd c) (take h cl) @ filter (\<lambda>c. 0 \<le> cfd c) (drop h cl)"
    by (metis append_take_drop_id filter_append)
  moreover have "length (filter (\<lambda>c. 0 \<le> cfd c) (take h cl)) \<le> h"
    by (rule order_trans [OF length_filter_le]) simp
  ultimately show ?thesis by simp
qed

text \<open>So the user that is read for an entry is one that was written, if not always its own.\<close>

lemma poll_inv_user:
  assumes "poll_inv l p" "i < numfd p"
  shows "i < length (pclients p)" "\<exists>u. cuid (pclients p ! i) = Some u"
proof -
  obtain h where h: "h \<le> length (pclients p)"
    "\<forall>i < length (pclients p). (i < h \<longrightarrow> cuid (pclients p ! i) \<noteq> None) \<and> (0 \<le> cfd (pclients p ! i) \<longrightarrow> i < h)"
    using assms(1) by (auto simp: poll_inv_def users_written_def)
  have "numfd p = card (dom (conns (pclients p)))"
    using assms(1) card_image [of "pfd_at p" "{..<numfd p}"] by (simp add: poll_inv_def)
  also have "\<dots> \<le> h" using assms(1) active_below [of "pclients p" h] h by (auto simp: poll_inv_def card_conns)
  finally have "i < h" using assms(2) by simp
  with h show "i < length (pclients p)" "\<exists>u. cuid (pclients p ! i) = Some u" by auto
qed

text \<open>Removing an entry moves the last one into its place, or nothing when it is the last.\<close>

lemma pack_fds:
  fixes f :: "nat \<Rightarrow> 'a"
  assumes inj: "inj_on f {..<n}" and i: "i < n"
  defines "g \<equiv> \<lambda>k. if k = i then f (n - 1) else f k"
  shows "inj_on g {..<n - 1}" "g ` {..<n - 1} = f ` {..<n} - {f i}"
    "g ` {(if i < n - 1 then i else i + 1)..<n - 1} = f ` {Suc i..<n}"
proof -
  have eq: "a = b" if "f a = f b" "a < n" "b < n" for a b using inj that by (auto simp: inj_on_def)
  have g: "g i = f (n - 1)" "k \<noteq> i \<Longrightarrow> g k = f k" for k by (simp_all add: g_def)
  show "inj_on g {..<n - 1}"
    by (rule inj_onI) (auto simp: g_def dest!: eq split: if_splits)
  show "g ` {..<n - 1} = f ` {..<n} - {f i}"
  proof (intro equalityI subsetI)
    fix x assume "x \<in> g ` {..<n - 1}"
    then obtain k where "k < n - 1" "k < n" "n - 1 < n" "x = g k" by fastforce
    then show "x \<in> f ` {..<n} - {f i}" using i eq [of k i] eq [of "n - 1" i] by (cases "k = i") (auto simp: g_def)
  next
    fix x assume "x \<in> f ` {..<n} - {f i}"
    then obtain m where m: "m < n" "x = f m" "m \<noteq> i" by blast
    show "x \<in> g ` {..<n - 1}"
    proof (cases "m = n - 1")
      case True
      then show ?thesis using m i g(1) by (intro image_eqI [of _ _ i]) auto
    qed (use m g(2) in \<open>auto intro!: image_eqI [of _ _ m]\<close>)
  qed
  show "g ` {(if i < n - 1 then i else i + 1)..<n - 1} = f ` {Suc i..<n}"
  proof (cases "i < n - 1")
    case True
    have "g ` {i..<n - 1} = f ` {Suc i..<n}"
    proof (intro equalityI subsetI)
      fix x assume "x \<in> g ` {i..<n - 1}"
      then obtain k where "i \<le> k" "k < n - 1" "x = g k" by auto
      then show "x \<in> f ` {Suc i..<n}" by (cases "k = i") (auto simp: g_def)
    next
      fix x assume "x \<in> f ` {Suc i..<n}"
      then obtain m where m: "i < m" "m < n" "x = f m" by (auto simp: Suc_le_eq)
      show "x \<in> g ` {i..<n - 1}"
      proof (cases "m = n - 1")
        case True
        then show ?thesis using m g(1) by (intro image_eqI [of _ _ i]) auto
      qed (use m g(2) in \<open>auto intro!: image_eqI [of _ _ m]\<close>)
    qed
    with True show ?thesis by simp
  qed (use i in auto)
qed

lemma poll_hungup_result:
  assumes inv: "poll_inv l p" and i: "1 \<le> i" "i < numfd p"
  obtains u j q where "poll_hungup i p = Inr (j, q)" "poll_inv l q" "1 \<le> j"
    "conns (pclients q) = (conns (pclients p))(pfd_at p i := None)" "pconv q = say (Closed_by u (pfd_at p i)) (pconv p)"
    "pfd_at q ` {j..<numfd q} = pfd_at p ` {Suc i..<numfd p}"
    "\<forall>k. j \<le> k \<and> k < numfd q \<longrightarrow> (\<exists>m. i < m \<and> m < numfd p \<and> pollfds q ! k = pollfds p ! m)"
proof -
  obtain u where u: "i < length (pclients p)" "cuid (pclients p ! i) = Some u" using poll_inv_user [OF inv i(2)] by blast
  let ?fd = "pfd_at p i" and ?n = "numfd p"
  have wf: "wf_clients (pclients p)" using inv by (simp add: poll_inv_def)
  have K: "conns (pclients p) ?fd \<noteq> None" using inv i(2) by (auto simp: poll_inv_def)
  from client_del_conns [OF K wf] obtain d where d: "d < length (pclients p)" "cfd (pclients p ! d) = ?fd" "0 \<le> ?fd"
    and cl: "client_del ?fd (pclients p) = Inr ((pclients p)[d := (pclients p ! d)\<lparr>cfd := -1\<rparr>])"
      "conns ((pclients p)[d := (pclients p ! d)\<lparr>cfd := -1\<rparr>]) = (conns (pclients p))(?fd := None)"
      "wf_clients ((pclients p)[d := (pclients p ! d)\<lparr>cfd := -1\<rparr>])" by metis
  let ?cl = "(pclients p)[d := (pclients p ! d)\<lparr>cfd := -1\<rparr>]"
  let ?fds = "(pollfds p)[i := pollfds p ! (?n - 1)]"
  let ?j = "if i < ?n - 1 then i else i + 1"
  obtain q where q: "q = p\<lparr>pconv := say (Closed_by u ?fd) (pconv p), pclients := ?cl,
    pollfds := (if i < ?n - 1 then ?fds else pollfds p), numfd := ?n - 1\<rparr>" by simp
  have q': "numfd q = ?n - 1" "pclients q = ?cl" "pconv q = say (Closed_by u ?fd) (pconv p)"
    "length (pollfds q) = length (pollfds p)" by (simp_all add: q)
  have len: "?n \<le> length (pollfds p)" using inv by (simp add: poll_inv_def)
  have h: "poll_hungup i p = Inr (?j, q)"
    using u cl(1) by (auto simp: poll_hungup_def Let_def pfd_at_def q)
  have nth: "pollfds q ! k = (if k = i then pollfds p ! (?n - 1) else pollfds p ! k)" if "k < ?n - 1" for k
    using that i len by (auto simp: q)
  let ?g = "\<lambda>k. if k = i then pfd_at p (?n - 1) else pfd_at p k"
  have at: "pfd_at q k = ?g k" if "k < ?n - 1" for k using nth [OF that] by (simp add: pfd_at_def)
  have inj: "inj_on (pfd_at p) {..<?n}" using inv by (simp add: poll_inv_def)
  note pk = pack_fds [OF inj i(2)]
  have img: "pfd_at q ` A = ?g ` A" if "\<forall>k \<in> A. k < ?n - 1" for A using that at by (intro image_cong) auto
  have "poll_inv l q"
  proof -
    have "users_written ?cl" using inv d(1) by (auto simp: poll_inv_def users_written_def nth_list_update)
    moreover have "inj_on (pfd_at q) {..<?n - 1}" using pk(1) at by (subst inj_on_cong [of _ _ ?g]) auto
    moreover have "pfd_at q ` {..<?n - 1} = dom (conns ?cl)"
      using pk(2) inv by (subst img) (simp_all add: cl(2) poll_inv_def)
    moreover have "pfd_at q 0 = l" using at [of 0] i inv by (auto simp: poll_inv_def)
    moreover have "\<forall>e \<in> set (take (?n - 1) (pollfds q)). events e = {POLLIN}"
    proof
      fix e assume "e \<in> set (take (?n - 1) (pollfds q))"
      then obtain k where k: "k < ?n - 1" "e = pollfds q ! k" by (auto simp: in_set_conv_nth)
      then obtain m where "m < ?n" "e = pollfds p ! m"
        using nth [OF k(1)] that [of "?n - 1"] that [of k] by (cases "k = i") auto
      then show "events e = {POLLIN}" using inv len by (auto simp: poll_inv_def in_set_conv_nth Ball_def)
    qed
    ultimately show ?thesis using inv i len cl(3) unfolding poll_inv_def q' by auto
  qed
  moreover have "pfd_at q ` {?j..<numfd q} = pfd_at p ` {Suc i..<?n}" unfolding q'(1) pk(3) [symmetric] by (rule img) auto
  moreover have "\<forall>k. ?j \<le> k \<and> k < numfd q \<longrightarrow> (\<exists>m. i < m \<and> m < ?n \<and> pollfds q ! k = pollfds p ! m)"
  proof (intro allI impI)
    fix k assume k: "?j \<le> k \<and> k < numfd q"
    then show "\<exists>m. i < m \<and> m < ?n \<and> pollfds q ! k = pollfds p ! m"
      using nth [of k] by (intro exI [of _ "if k = i then ?n - 1 else k"]) (auto simp: q' split: if_splits)
  qed
  ultimately show ?thesis using h cl(2) i by (intro that [of ?j q u]) (simp_all add: q'(2,3))
qed

text \<open>The entries from \<open>i\<close> on for which \<open>g\<close> has an event.\<close>

definition todo :: "(int \<Rightarrow> poll_flag set) \<Rightarrow> nat \<Rightarrow> pol \<Rightarrow> int set" where
  "todo g i p = {fd \<in> pfd_at p ` {i..<numfd p}. g fd \<noteq> {}}"

definition spec_from :: "(int \<Rightarrow> poll_flag set) \<Rightarrow> turn \<Rightarrow> int set \<Rightarrow> (int \<rightharpoonup> nat) \<Rightarrow> conv \<Rightarrow> ((int \<rightharpoonup> nat) \<times> conv) res \<Rightarrow> bool" where
  "spec_from g R T K c r \<longleftrightarrow>
     (\<exists>w. distinct (map fst w) \<and> set (map fst w) = T \<and> spec_work (\<lambda>fd. POLLHUP \<in> g fd) R w K c = r)"

lemma spec_from_empty: "spec_from g R {} K c (Inr (K, c))"
  unfolding spec_from_def by (rule exI [of _ "[]"]) simp

lemma spec_from_closed:
  assumes "spec_from g R T (K(fd := None)) (say (Closed_by u fd) c) r" "fd \<notin> T"
    and "POLLHUP \<in> g fd \<or> (\<exists>data. arrives R fd = Some data \<and> take MAXLINE data = [])"
  shows "spec_from g R (insert fd T) K c r"
proof -
  from assms(1) obtain w where w: "distinct (map fst w)" "set (map fst w) = T"
    "spec_work (\<lambda>fd. POLLHUP \<in> g fd) R w (K(fd := None)) (say (Closed_by u fd) c) = r" unfolding spec_from_def by blast
  then show ?thesis using assms(2,3) unfolding spec_from_def by (intro exI [of _ "(fd, u) # w"]) auto
qed

lemma spec_from_served:
  assumes "serve R fd u (take MAXLINE data) c = Inr c'" "spec_from g R T K c' r" "fd \<notin> T"
    and "POLLHUP \<notin> g fd" "arrives R fd = Some data" "take MAXLINE data \<noteq> []"
  shows "spec_from g R (insert fd T) K c r"
proof -
  from assms(2) obtain w where w: "distinct (map fst w)" "set (map fst w) = T"
    "spec_work (\<lambda>fd. POLLHUP \<in> g fd) R w K c' = r" unfolding spec_from_def by blast
  then show ?thesis using assms unfolding spec_from_def by (intro exI [of _ "(fd, u) # w"]) auto
qed

text \<open>A request or a read that ends the server ends it in the specification.\<close>

lemma spec_from_ends:
  assumes "finite T" "fd \<notin> T" "spec_work (\<lambda>fd. POLLHUP \<in> g fd) R [(fd, u)] K c = Inl a"
  shows "spec_from g R (insert fd T) K c (Inl a)"
proof -
  obtain xs where xs: "set xs = T" "distinct xs" using finite_distinct_list [OF assms(1)] by blast
  have "map (fst \<circ> (\<lambda>x. (x, 0 :: nat))) xs = xs" by (simp add: comp_def)
  moreover have "spec_work (\<lambda>fd. POLLHUP \<in> g fd) R ((fd, u) # map (\<lambda>x. (x, 0)) xs) K c = Inl a"
    using assms(3) by (auto simp: rbind_def split: if_splits option.splits sum.splits)
  ultimately show ?thesis using xs assms(2) unfolding spec_from_def
    by (intro exI [of _ "(fd, u) # map (\<lambda>x. (x, 0)) xs"]) auto
qed

lemma todo_step:
  assumes "inj_on (pfd_at p) {..<numfd p}" "i < numfd p"
  shows "todo g i p = (if g (pfd_at p i) = {} then todo g (Suc i) p else insert (pfd_at p i) (todo g (Suc i) p))"
    "pfd_at p i \<notin> todo g (Suc i) p" "finite (todo g i p)"
proof -
  have "{i..<numfd p} = insert i {Suc i..<numfd p}" using assms(2) by auto
  then show "todo g i p = (if g (pfd_at p i) = {} then todo g (Suc i) p else insert (pfd_at p i) (todo g (Suc i) p))"
    by (auto simp: todo_def)
  show "pfd_at p i \<notin> todo g (Suc i) p" using assms unfolding todo_def inj_on_def by fastforce
qed (simp add: todo_def)

text \<open>The scan disconnects and serves each ready descriptor once, the moved ones included.\<close>

lemma poll_scan_spec:
  assumes "poll_inv l p" "1 \<le> i" "\<forall>k. i \<le> k \<and> k < numfd p \<longrightarrow> revents (pollfds p ! k) = g (pfd_at p k)"
  shows "case poll_scan R i p of
      Inl a \<Rightarrow> spec_from g R (todo g i p) (conns (pclients p)) (pconv p) (Inl a)
    | Inr p' \<Rightarrow> poll_inv l p' \<and> spec_from g R (todo g i p) (conns (pclients p)) (pconv p) (Inr (conns (pclients p'), pconv p'))"
  using assms
proof (induction R i p rule: poll_scan.induct)
  case (1 R i p)
  let ?fd = "pfd_at p i" and ?e = "pollfds p ! i"
  show ?case
  proof (cases "numfd p \<le> i")
    case True
    then show ?thesis using "1.prems"(1) by (simp add: poll_scan.simps todo_def spec_from_empty)
  next
    case False
    then have i: "i < numfd p" by simp
    have ev: "revents ?e = g ?fd" using "1.prems"(3) i by simp
    have fd: "pfd ?e = ?fd" by (simp add: pfd_at_def)
    note inj = "1.prems"(1) [unfolded poll_inv_def, THEN conjunct2, THEN conjunct2, THEN conjunct2, THEN conjunct2, THEN conjunct2, THEN conjunct1]
    note td = todo_step [OF inj i, of g]
    have fin: "finite (todo g (Suc i) p)" by (simp add: todo_def)
    from poll_hungup_result [OF "1.prems"(1,2) i] obtain u j q where h: "poll_hungup i p = Inr (j, q)" "poll_inv l q" "1 \<le> j"
      "conns (pclients q) = (conns (pclients p))(?fd := None)" "pconv q = say (Closed_by u ?fd) (pconv p)"
      "pfd_at q ` {j..<numfd q} = pfd_at p ` {Suc i..<numfd p}"
      "\<forall>k. j \<le> k \<and> k < numfd q \<longrightarrow> (\<exists>m. i < m \<and> m < numfd p \<and> pollfds q ! k = pollfds p ! m)" by metis
    have q: "todo g j q = todo g (Suc i) p" using h(6) by (simp add: todo_def)
    have qr: "\<forall>k. j \<le> k \<and> k < numfd q \<longrightarrow> revents (pollfds q ! k) = g (pfd_at q k)"
      using h(7) "1.prems"(3) unfolding pfd_at_def by (metis less_imp_le)
    have closes: ?thesis if go: "poll_scan R i p = poll_scan R j q" and ne: "g ?fd \<noteq> {}"
      and cl: "POLLHUP \<in> g ?fd \<or> (\<exists>data. arrives R ?fd = Some data \<and> take MAXLINE data = [])"
      and IH: "poll_inv l q \<Longrightarrow> 1 \<le> j \<Longrightarrow> \<forall>k. j \<le> k \<and> k < numfd q \<longrightarrow> revents (pollfds q ! k) = g (pfd_at q k) \<Longrightarrow>
        case poll_scan R j q of
          Inl a \<Rightarrow> spec_from g R (todo g j q) (conns (pclients q)) (pconv q) (Inl a)
        | Inr p' \<Rightarrow> poll_inv l p' \<and> spec_from g R (todo g j q) (conns (pclients q)) (pconv q) (Inr (conns (pclients p'), pconv p'))"
    proof -
      have "spec_from g R (insert ?fd (todo g (Suc i) p)) (conns (pclients p)) (pconv p) r"
        if "spec_from g R (todo g (Suc i) p) ((conns (pclients p))(?fd := None)) (say (Closed_by u ?fd) (pconv p)) r" for r
        by (rule spec_from_closed [OF that td(2)]) (rule cl)
      with IH [OF h(2,3) qr] ne show ?thesis unfolding td(1) go q h(4,5) by (auto split: sum.splits)
    qed
    show ?thesis
    proof (cases "POLLHUP \<in> revents ?e")
      case hup: True
      have "poll_scan R i p = poll_scan R j q" using i hup h(1) by (subst poll_scan.simps) (simp add: Let_def)
      from this _ _ "1.IH"(1) [OF False refl hup h(1) refl] show ?thesis by (rule closes) (use hup ev in auto)
    next
      case nhup: False
      show ?thesis
      proof (cases "POLLIN \<in> revents ?e")
        case nin: False
        have "poll_scan R i p = poll_scan R (i + 1) p" using i nhup nin by (subst poll_scan.simps) (simp add: Let_def)
        moreover have "g ?fd = {}" using nhup nin ev by (metis all_not_in_conv poll_flag.exhaust)
        ultimately show ?thesis using "1.IH"(4) [OF False refl nhup nin] "1.prems" by (simp add: td(1) split: sum.splits)
      next
        case pin: True
        have ne: "g ?fd \<noteq> {}" using pin ev by auto
        show ?thesis
        proof (cases "arrives R ?fd")
          case None
          have "poll_scan R i p = Inl (Sys ''read error on fd'')"
            using i nhup pin None fd by (subst poll_scan.simps) (simp add: Let_def)
          moreover have "spec_work (\<lambda>fd. POLLHUP \<in> g fd) R [(?fd, 0)] (conns (pclients p)) (pconv p) = Inl (Sys ''read error on fd'')"
            using nhup ev None by simp
          ultimately show ?thesis using spec_from_ends [OF fin td(2)] ne by (simp add: td(1))
        next
          case (Some data)
          have a: "arrives R (pfd ?e) = Some data" using Some fd by simp
          show ?thesis
          proof (cases "take MAXLINE data = []")
            case e: True
            have "poll_scan R i p = poll_scan R j q" using i nhup pin a e h(1) by (subst poll_scan.simps) (simp add: Let_def)
            from this ne _ "1.IH"(2) [OF False refl nhup pin a e h(1) refl] show ?thesis by (rule closes) (use Some e in auto)
          next
            case d: False
            obtain v where v: "i < length (pclients p)" "cuid (pclients p ! i) = Some v"
              using poll_inv_user [OF "1.prems"(1) i] by blast
            have nl: "\<not> length (pclients p) \<le> i" using v(1) by simp
            show ?thesis
            proof (cases "serve R ?fd v (take MAXLINE data) (pconv p)")
              case (Inl b)
              have "poll_scan R i p = Inl b" using i nhup pin a d v Inl fd by (subst poll_scan.simps) (simp add: Let_def)
              moreover have "spec_work (\<lambda>fd. POLLHUP \<in> g fd) R [(?fd, v)] (conns (pclients p)) (pconv p) = Inl b"
                using nhup ev Some d Inl by simp
              ultimately show ?thesis using spec_from_ends [OF fin td(2)] ne by (simp add: td(1))
            next
              case (Inr c)
              let ?p = "p\<lparr>pconv := c\<rparr>"
              have "poll_scan R i p = poll_scan R (i + 1) ?p"
                using i nhup pin a d v Inr fd by (subst poll_scan.simps) (simp add: Let_def)
              moreover have "poll_inv l ?p" "pfd_at ?p = pfd_at p" using "1.prems"(1) by (simp_all add: poll_inv_def pfd_at_def [abs_def])
              moreover have "todo g (i + 1) ?p = todo g (Suc i) p" by (simp add: todo_def pfd_at_def [abs_def])
              moreover have "spec_from g R (insert ?fd (todo g (Suc i) p)) K (pconv p) r"
                if "spec_from g R (todo g (Suc i) p) K c r" for K r
                by (rule spec_from_served [OF Inr that td(2) _ Some d]) (use nhup ev in simp)
              moreover have "serve R (pfd ?e) v (take MAXLINE data) (pconv p) = Inr c" using Inr fd by simp
              note IH = "1.IH"(3) [OF False refl nhup pin a d nl v(2) this]
              ultimately show ?thesis using IH "1.prems"(2,3) ne by (simp add: td(1) split: sum.splits)
            qed
          qed
        qed
      qed
    qed
  qed
qed

lemma poll_accept_fails:
  assumes "poll_accept R p = Inl a"
  shows "\<exists>m. a = Sys m"
proof -
  obtain fd uid where ac: "accepts R = (fd, uid)" by fastforce
  show ?thesis
  proof (cases "client_add (room R) fd uid (pclients p)")
    case (Inl b)
    with assms client_add_fails [OF Inl] ac show ?thesis by (auto simp: poll_accept_def split: if_splits)
  next
    case (Inr x)
    with assms ac show ?thesis by (cases x) (auto simp: poll_accept_def grow_pollfd_def split: if_splits)
  qed
qed

lemma poll_accept_inv:
  assumes inv: "poll_inv l p" and fresh: "fresh_accept l (conns (pclients p)) R" and r: "poll_accept R p = Inr q"
  obtains fd uid where "accepts R = (fd, uid)" "0 \<le> fd" "poll_inv l q" "conns (pclients q) = (conns (pclients p))(fd \<mapsto> uid)"
    "pconv q = say (Connected uid fd) (pconv p)" "numfd q = numfd p + 1" "conns (pclients p) fd = None" "pfd_at q (numfd p) = fd"
    "revents (pollfds q ! numfd p) = {}" "\<forall>k < numfd p. pollfds q ! k = pollfds p ! k"
proof -
  obtain fd uid where a: "accepts R = (fd, uid)" by fastforce
  let ?new = "\<lparr>pfd = fd, events = {POLLIN}, revents = {}\<rparr>"
  from r a obtain i cl pfds where add: "client_add (room R) fd uid (pclients p) = Inr (i, cl)" "0 \<le> fd"
    and g: "(if numfd p = length (pollfds p) then grow_pollfd (room R) (pollfds p) else Inr (pollfds p)) = Inr pfds"
    and q: "q = p\<lparr>pclients := cl, pollfds := pfds[numfd p := ?new], numfd := numfd p + 1, pconv := say (Connected uid fd) (pconv p)\<rparr>"
    unfolding poll_accept_def by (auto simp: rbind_eq_Inr simp del: rbind_cong split: if_splits)
  have pf: "numfd p < length pfds" "take (numfd p) pfds = take (numfd p) (pollfds p)"
    using g inv by (auto simp: grow_pollfd_def NALLOC_def poll_inv_def split: if_splits)
  have wf: "wf_clients (pclients p)" using inv by (simp add: poll_inv_def)
  have K: "conns (pclients p) fd = None" using fresh a add(2) by (simp add: fresh_accept_def)
  note c = client_add_conns [OF add(1) K add(2) wf]
  have len: "numfd p \<le> length (pollfds p)" using inv by (simp add: poll_inv_def)
  have old: "pollfds q ! k = pollfds p ! k" if "k < numfd p" for k
  proof -
    have "pfds ! k = pollfds p ! k" using that arg_cong [OF pf(2), of "\<lambda>xs. xs ! k"] by simp
    then show ?thesis using that by (simp add: q)
  qed
  have new: "pollfds q ! numfd p = ?new" using pf(1) by (simp add: q)
  have at: "pfd_at q k = (if k < numfd p then pfd_at p k else fd)" if "k < numfd p + 1" for k
  proof (cases "k < numfd p")
    case False
    with that have "k = numfd p" by simp
    then show ?thesis using new by (simp add: pfd_at_def)
  qed (simp add: pfd_at_def old)
  have img: "pfd_at q ` {..<numfd p} = pfd_at p ` {..<numfd p}" by (intro image_cong) (simp_all add: at)
  have fdn: "fd \<notin> pfd_at p ` {..<numfd p}" using K inv by (auto simp: poll_inv_def)
  have "inj_on (pfd_at q) {..<numfd p + 1}"
  proof -
    have "inj_on (pfd_at q) {..<numfd p}" using inv by (subst inj_on_cong [of _ _ "pfd_at p"]) (auto simp: at poll_inv_def)
    then show ?thesis using fdn by (simp add: lessThan_Suc at img)
  qed
  moreover have "pfd_at q ` {..<numfd p + 1} = dom (conns cl)"
    using inv by (simp add: lessThan_Suc at img c(1) poll_inv_def)
  moreover have "\<forall>e \<in> set (take (numfd p + 1) (pollfds q)). events e = {POLLIN}"
  proof
    fix e assume "e \<in> set (take (numfd p + 1) (pollfds q))"
    then obtain k where k: "k < numfd p + 1" "e = pollfds q ! k" by (auto simp: in_set_conv_nth)
    have "e = ?new \<or> (\<exists>k < numfd p. e = pollfds p ! k)" using k new old [of k] by (cases "k < numfd p") (auto simp: less_Suc_eq)
    then show "events e = {POLLIN}" using inv len by (auto simp: poll_inv_def in_set_conv_nth Ball_def)
  qed
  moreover have "users_written cl" using client_add_users [OF add(1) _ wf] inv by (simp add: poll_inv_def)
  ultimately have "poll_inv l q"
    using inv c(2) at [of 0] pf(1) unfolding poll_inv_def by (simp add: q)
  then show ?thesis using a add(2) c(1) K new old at [of "numfd p"] by (intro that [of fd uid]) (auto simp: q)
qed

text \<open>A turn of the specification, the new connection first. The users in \<open>w\<close> are not fixed.\<close>

definition poll_spec :: "turn \<Rightarrow> int \<Rightarrow> (int \<rightharpoonup> nat) \<times> conv \<Rightarrow> (int \<rightharpoonup> nat) \<times> conv \<Rightarrow> bool" where
  "poll_spec R l = (\<lambda>(K, c) (K', c').
     \<exists>w. distinct (map fst w) \<and> set (map fst w) = {fd. fd \<noteq> l \<and> K fd \<noteq> None \<and> (readable R fd \<or> hung R fd)}
       \<and> (if readable R l then \<exists>fd uid. accepts R = (fd, uid) \<and> 0 \<le> fd
            \<and> spec_work (hung R) R w (K(fd \<mapsto> uid)) (say (Connected uid fd) c) = Inr (K', c')
          else spec_work (hung R) R w K c = Inr (K', c')))"

lemma spec_work_cong: "\<forall>fd \<in> set (map fst w). h fd = h' fd \<Longrightarrow> spec_work h R w K c = spec_work h' R w K c"
proof (induction w arbitrary: K c)
  case (Cons x w)
  then have "spec_work h R w = spec_work h' R w" by (intro ext) auto
  with Cons.prems show ?case by (cases x) (auto split: option.split)
qed simp

inductive poll_reach :: "int \<Rightarrow> conv \<Rightarrow> pol \<Rightarrow> bool" for l :: int and c :: conv where
  start: "poll_start mem l c = Inr p \<Longrightarrow> poll_reach l c p"
| turn: "poll_reach l c p \<Longrightarrow> fresh_accept l (conns (pclients p)) R \<Longrightarrow> poll_round R p = Inr p' \<Longrightarrow> poll_reach l c p'"

lemma poll_start_inv:
  assumes "poll_start mem l c = Inr p"
  shows "poll_inv l p"
proof -
  have l: "0 \<le> l" using assms by (auto simp: poll_start_def split: if_splits)
  obtain i cl where add: "client_add mem l 0 [] = Inr (i, cl)" "\<not> l < 0"
    and p: "p = \<lparr>pclients = cl, pollfds = (replicate NALLOC new_pollfd)[0 := new_pollfd\<lparr>pfd := l\<rparr>], numfd = 1, pconv = c\<rparr>"
    using assms by (auto simp: poll_start_def rbind_eq_Inr split: if_splits)
  have "users_written []" by (simp add: users_written_def)
  from client_add_users [OF add(1) this] client_add_conns [OF add(1)] add(2)
  have "users_written cl" "conns cl = [l \<mapsto> 0]" "wf_clients cl" by auto
  then show ?thesis using l by (auto simp: poll_inv_def p pfd_at_def NALLOC_def new_pollfd_def numeral_eq_Suc lessThan_Suc)
qed

lemma polled_inv:
  fixes R :: turn
  assumes "poll_inv l p"
  defines "q \<equiv> p\<lparr>pollfds := map (polled R) (take (numfd p) (pollfds p)) @ drop (numfd p) (pollfds p)\<rparr>"
  shows "poll_inv l q" "\<forall>k < numfd p. pollfds q ! k = polled R (pollfds p ! k) \<and> pfd_at q k = pfd_at p k"
proof -
  have len: "numfd p \<le> length (pollfds p)" using assms(1) by (simp add: poll_inv_def)
  then show nth: "\<forall>k < numfd p. pollfds q ! k = polled R (pollfds p ! k) \<and> pfd_at q k = pfd_at p k"
    by (simp add: q_def nth_append pfd_at_def polled_def)
  have "inj_on (pfd_at q) {..<numfd p} \<longleftrightarrow> inj_on (pfd_at p) {..<numfd p}" using nth by (intro inj_on_cong) simp
  moreover have "pfd_at q ` {..<numfd p} = pfd_at p ` {..<numfd p}" using nth by (intro image_cong) simp_all
  moreover have "pfd_at q 0 = pfd_at p 0" using nth assms(1) by (simp add: poll_inv_def)
  moreover have "take (numfd p) (pollfds q) = map (polled R) (take (numfd p) (pollfds p))" using len by (simp add: q_def)
  then have "\<forall>e \<in> set (take (numfd p) (pollfds q)). events e = {POLLIN}" using assms(1) by (auto simp: poll_inv_def polled_def)
  moreover have "pclients q = pclients p" "numfd q = numfd p" "length (pollfds q) = length (pollfds p)" using len by (simp_all add: q_def)
  ultimately show "poll_inv l q" using assms(1) unfolding poll_inv_def by simp
qed

lemma polled_revents:
  "0 \<le> pfd e \<Longrightarrow> events e = {POLLIN} \<Longrightarrow> revents (polled R e) = (if readable R (pfd e) then {POLLIN} else {}) \<union> (if hung R (pfd e) then {POLLHUP} else {})"
  by (simp add: polled_def)

text \<open>What the entries hold after \<^verbatim>\<open>poll\<close>; the connection accepted in the turn has no events yet.\<close>

definition flags :: "turn \<Rightarrow> (int \<rightharpoonup> nat) \<Rightarrow> int \<Rightarrow> poll_flag set" where
  "flags R K fd = (if K fd = None then {} else (if readable R fd then {POLLIN} else {}) \<union> (if hung R fd then {POLLHUP} else {}))"

lemma spec_from_hung:
  assumes "spec_from (flags R K) R T K1 c r" "\<forall>fd \<in> T. K fd \<noteq> None"
  shows "\<exists>w. distinct (map fst w) \<and> set (map fst w) = T \<and> spec_work (hung R) R w K1 c = r"
proof -
  from assms(1) obtain w where w: "distinct (map fst w)" "set (map fst w) = T"
    "spec_work (\<lambda>fd. POLLHUP \<in> flags R K fd) R w K1 c = r" unfolding spec_from_def by blast
  have "\<forall>fd \<in> set (map fst w). (POLLHUP \<in> flags R K fd) = hung R fd" using assms(2) w(2) by (auto simp: flags_def)
  from spec_work_cong [OF this] w show ?thesis by auto
qed

lemma poll_scan_round:
  assumes inv: "poll_inv l p"
    and rev: "\<forall>k. 1 \<le> k \<and> k < numfd p \<longrightarrow> revents (pollfds p ! k) = flags R K (pfd_at p k)"
    and K: "\<forall>fd. K fd \<noteq> None \<longrightarrow> conns (pclients p) fd \<noteq> None"
  shows "case poll_scan R 1 p of
      Inl a \<Rightarrow> \<exists>w K c. spec_work (hung R) R w K c = Inl a
    | Inr p' \<Rightarrow> poll_inv l p' \<and> (\<exists>w. distinct (map fst w)
        \<and> set (map fst w) = {fd. fd \<noteq> l \<and> K fd \<noteq> None \<and> (readable R fd \<or> hung R fd)}
        \<and> spec_work (hung R) R w (conns (pclients p)) (pconv p) = Inr (conns (pclients p'), pconv p'))"
proof -
  have f: "flags R K fd \<noteq> {} \<longleftrightarrow> K fd \<noteq> None \<and> (readable R fd \<or> hung R fd)" for fd by (simp add: flags_def)
  have at: "pfd_at p ` {1..<numfd p} = dom (conns (pclients p)) - {l}"
  proof -
    have i: "inj_on (pfd_at p) {..<numfd p}" "pfd_at p ` {..<numfd p} = dom (conns (pclients p))" "0 < numfd p" "pfd_at p 0 = l"
      using inv unfolding poll_inv_def by blast+
    have "{..<numfd p} = insert 0 {1..<numfd p}" using i(3) by auto
    then have "dom (conns (pclients p)) = insert l (pfd_at p ` {1..<numfd p})" using i(2,4) by simp
    moreover have "l \<notin> pfd_at p ` {1..<numfd p}"
    proof
      assume "l \<in> pfd_at p ` {1..<numfd p}"
      then obtain k where k: "1 \<le> k" "k < numfd p" "pfd_at p k = pfd_at p 0" using i(4) by auto
      with inj_onD [OF i(1), of k 0] i(3) show False by simp
    qed
    ultimately show ?thesis by blast
  qed
  have T: "todo (flags R K) 1 p = {fd. fd \<noteq> l \<and> K fd \<noteq> None \<and> (readable R fd \<or> hung R fd)}"
    unfolding todo_def at f by (intro Collect_cong) (use K in auto)
  have TK: "\<forall>fd \<in> {fd. fd \<noteq> l \<and> K fd \<noteq> None \<and> (readable R fd \<or> hung R fd)}. K fd \<noteq> None" by blast
  note sp = poll_scan_spec [OF inv order_refl rev, of R, unfolded T]
  show ?thesis
  proof (cases "poll_scan R 1 p")
    case (Inl a)
    with sp have "spec_from (flags R K) R {fd. fd \<noteq> l \<and> K fd \<noteq> None \<and> (readable R fd \<or> hung R fd)} (conns (pclients p)) (pconv p) (Inl a)"
      by simp
    from spec_from_hung [OF this TK] Inl show ?thesis by auto
  next
    case (Inr p')
    with sp have "poll_inv l p'" and s: "spec_from (flags R K) R {fd. fd \<noteq> l \<and> K fd \<noteq> None \<and> (readable R fd \<or> hung R fd)}
        (conns (pclients p)) (pconv p) (Inr (conns (pclients p'), pconv p'))" by simp_all
    with spec_from_hung [OF s TK] Inr show ?thesis by simp
  qed
qed

lemma poll_round_spec:
  assumes inv: "poll_inv l p" and fresh: "fresh_accept l (conns (pclients p)) R"
  shows "case poll_round R p of
      Inl a \<Rightarrow> (\<exists>m. a = Sys m) \<or> (\<exists>w K c. spec_work (hung R) R w K c = Inl a)
    | Inr p' \<Rightarrow> poll_inv l p' \<and> poll_spec R l (conns (pclients p), pconv p) (conns (pclients p'), pconv p')"
proof -
  let ?K = "conns (pclients p)"
  define q where "q = p\<lparr>pollfds := map (polled R) (take (numfd p) (pollfds p)) @ drop (numfd p) (pollfds p)\<rparr>"
  note qi = polled_inv [OF inv, of R, folded q_def]
  have q: "pclients q = pclients p" "pconv q = pconv p" "numfd q = numfd p" by (simp_all add: q_def)
  have fl: "revents (pollfds q ! k) = flags R ?K (pfd_at q k)" if "k < numfd p" for k
  proof -
    have "pfd_at p k \<in> dom ?K" "pollfds p ! k \<in> set (take (numfd p) (pollfds p))"
      using that inv by (auto simp: poll_inv_def in_set_conv_nth)
    moreover from this have "0 \<le> pfd_at p k" using conns_Some [of "pclients p" "pfd_at p k"] by auto
    ultimately show ?thesis using that inv qi(2) polled_revents [of "pollfds p ! k" R]
      by (auto simp: poll_inv_def flags_def pfd_at_def)
  qed
  have l: "pfd_at q 0 = l" "0 < numfd p" "?K l \<noteq> None" using qi(1) inv by (auto simp: poll_inv_def)
  have r0: "POLLIN \<in> revents (pollfds q ! 0) \<longleftrightarrow> readable R l" using fl [OF l(2)] l by (simp add: flags_def)
  have step: "poll_round R p = (if \<not> waits R then Inl (Sys ''poll error'')
      else rbind (if readable R l then poll_accept R q else Inr q) (poll_scan R 1))"
    unfolding poll_round_def Let_def q_def [symmetric] r0 by simp
  show ?thesis
  proof (cases "waits R \<and> readable R l")
    case False
    have rv: "\<forall>k. 1 \<le> k \<and> k < numfd q \<longrightarrow> revents (pollfds q ! k) = flags R ?K (pfd_at q k)" using fl q by simp
    have "\<forall>x. ?K x \<noteq> None \<longrightarrow> conns (pclients q) x \<noteq> None" by (simp add: q)
    from poll_scan_round [OF qi(1) rv this] show ?thesis
      using False unfolding step poll_spec_def by (auto simp: q split: sum.splits)
  next
    case True
    show ?thesis
    proof (cases "poll_accept R q")
      case (Inl a)
      from poll_accept_fails [OF this] show ?thesis using Inl True by (simp add: step)
    next
      case (Inr s)
      from fresh have "fresh_accept l (conns (pclients q)) R" by (simp add: q)
      from poll_accept_inv [OF qi(1) this Inr] obtain fd uid where s: "accepts R = (fd, uid)" "0 \<le> fd" "poll_inv l s"
        "conns (pclients s) = ?K(fd \<mapsto> uid)" "pconv s = say (Connected uid fd) (pconv p)" "numfd s = numfd p + 1"
        "?K fd = None" "pfd_at s (numfd p) = fd" "revents (pollfds s ! numfd p) = {}"
        "\<forall>k < numfd p. pollfds s ! k = pollfds q ! k" unfolding q by metis
      have rv: "\<forall>k. 1 \<le> k \<and> k < numfd s \<longrightarrow> revents (pollfds s ! k) = flags R ?K (pfd_at s k)"
      proof (intro allI impI)
        fix k assume k: "1 \<le> k \<and> k < numfd s"
        then consider "k < numfd p" | "k = numfd p" using s(6) by linarith
        then show "revents (pollfds s ! k) = flags R ?K (pfd_at s k)"
          using fl [of k] s(7-10) by cases (simp_all add: pfd_at_def flags_def)
      qed
      have "\<forall>x. ?K x \<noteq> None \<longrightarrow> conns (pclients s) x \<noteq> None" by (simp add: s(4))
      from poll_scan_round [OF s(3) rv this] show ?thesis
        using True Inr s(1,2) unfolding step poll_spec_def by (auto simp: s(4,5) split: sum.splits)
    qed
  qed
qed

section \<open>Properties\<close>

lemma serve_no_quit: "serve R fd uid data c \<noteq> Inl (Quit m)"
proof -
  have "handle_request E buf n clifd u v lg \<noteq> Inl (Quit m)" for E buf n clifd u v lg
    by (auto simp: handle_request_def log_format_def Let_def rbind_def split: prod.splits sum.splits if_splits)
  then show ?thesis by (auto simp: serve_def Let_def rbind_def split: sum.splits)
qed

lemma spec_work_no_quit: "spec_work h R w K c \<noteq> Inl (Quit m)"
proof (induction w arbitrary: K c)
  case (Cons x w)
  then show ?case by (cases x) (auto simp: rbind_def serve_no_quit split: option.splits sum.splits)
qed simp

lemma poll_reach_inv: "poll_reach l c p \<Longrightarrow> poll_inv l p"
proof (induction rule: poll_reach.induct)
  case (turn p R p')
  with poll_round_spec [of l p R] show ?case by simp
qed (rule poll_start_inv)

text \<open>C15: In every reachable state of the select loop, a turn accepts one connection, or works on exactly
  the connections that are readable, each once and each under the user that connected on it: requests are
  served and logged for that user, and a connection at its end leaves the map.\<close>

theorem select_turn_attributes:
  assumes "select_reach l c s" "fresh_accept l (conns (sclients s)) R" "select_round R l s = Inr s'"
  shows "select_spec R l (conns (sclients s), sconv s) (conns (sclients s'), sconv s')"
  using select_round_spec [OF select_reach_inv [OF assms(1)] assms(2,3)] by blast

text \<open>Turns in which a client connects, sends, or disconnects.\<close>

definition quiet :: turn where
  "quiet = \<lparr>waits = True, readable = (\<lambda>_. False), hung = (\<lambda>_. False), accepts = (-1, 0), arrives = (\<lambda>_. None),
     envs = (\<lambda>_. sample_open), room = True\<rparr>"

definition connect_turn :: "int \<Rightarrow> nat \<Rightarrow> turn" where
  "connect_turn fd uid = quiet\<lparr>readable := (\<lambda>x. x = 3), accepts := (fd, uid)\<rparr>"

definition data_turn :: "int \<Rightarrow> string \<Rightarrow> turn" where
  "data_turn fd s = quiet\<lparr>readable := (\<lambda>x. x = fd), arrives := (\<lambda>_. Some s)\<rparr>"

definition no_conv :: conv where
  "no_conv = \<lparr>vars = no_vars, oslog = [], obuf = replicate MAXLINE NUL, osent = []\<rparr>"

lemma sample_request: "serve (data_turn 6 (''open motd 0'' @ [NUL])) 6 u (''open motd 0'' @ [NUL]) c
  = Inr (c\<lparr>vars := (vars c)\<lparr>pathname := ''motd'', oflag := 0\<rparr>,
      oslog := oslog c @ [Request ''open motd 0'' u, Sent 7 6 ''motd''], obuf := ''open motd 0'' @ NUL # drop 12 (obuf c), osent := osent c @ [(6, [([NUL, NUL], Some 7)])]\<rparr>)"
proof -
  let ?b = "''open motd 0'' @ NUL # drop 12 (obuf c)"
  have z: "show_int 0 = ''0''" by code_simp
  have "buf_args (CL_OPEN @ '' '' @ ''motd'' @ ('' '' @ show_int 0) @ [NUL] @ drop 12 (obuf c)) cli_args (vars c)
      = (0, (vars c)\<lparr>pathname := ''motd'', oflag := 0\<rparr>)"
    by (rule request_parsed) (auto simp: white_def)
  then have a: "buf_args ?b cli_args (vars c) = (0, (vars c)\<lparr>pathname := ''motd'', oflag := 0\<rparr>)"
    unfolding z by (simp add: CL_OPEN_def)
  have "cstr (''open motd 0'' @ NUL # drop 12 (obuf c)) = ''open motd 0''" by (rule cstr_append_nul) simp
  then have b: "cstr ?b = ''open motd 0''" .
  have n: "?b ! (12 - 1) = NUL" by simp
  have "handle_request sample_open ?b 12 6 u (vars c) (oslog c) =
      Inr ([([NUL, NUL], Some 7)], (vars c)\<lparr>pathname := ''motd'', oflag := 0\<rparr>, oslog c @ [Request ''open motd 0'' u, Sent 7 6 ''motd''])"
    unfolding handle_request_parsed [OF n a] b by (simp add: sample_open_def send_fd_def)
  moreover have "length (''open motd 0'' @ [NUL]) = 12" "(''open motd 0'' @ [NUL]) @ drop 12 (obuf c) = ?b" by simp_all
  moreover have "envs (data_turn 6 (''open motd 0'' @ [NUL])) 6 = sample_open" by (simp add: data_turn_def quiet_def)
  ultimately show ?thesis by (simp only: serve_def Let_def rbind_Inr prod.case)
qed

lemma accept_round:
  assumes "client_add True fd uid (sclients s) = Inr (i, cl)" "allset s = insert 3 A" "3 \<le> maxfd s" "0 \<le> fd" "fd < FD_SETSIZE"
  shows "select_round (connect_turn fd uid) 3 s = Inr (s\<lparr>sclients := cl, allset := insert fd (allset s), maxfd := max fd (maxfd s),
    maxi := max (int i) (maxi s), sconv := say (Connected uid fd) (sconv s)\<rparr>)"
  using assms by (simp add: select_round_def connect_turn_def quiet_def)

text \<open>The table after a first client, by position.\<close>

definition one_client :: "int \<Rightarrow> nat \<Rightarrow> client list" where
  "one_client fd uid = \<lparr>cfd = fd, cuid = Some uid\<rparr> # replicate 9 \<lparr>cfd = -1, cuid = None\<rparr>"

definition two_clients :: "int \<Rightarrow> nat \<Rightarrow> int \<Rightarrow> nat \<Rightarrow> client list" where
  "two_clients fd uid fd' uid' = \<lparr>cfd = fd, cuid = Some uid\<rparr> # \<lparr>cfd = fd', cuid = Some uid'\<rparr> # replicate 8 \<lparr>cfd = -1, cuid = None\<rparr>"

lemma client_add_first: "client_add True fd uid [] = Inr (0, one_client fd uid)"
  by (simp add: client_add_def client_alloc_def client_search.simps one_client_def NALLOC_def numeral_eq_Suc)

lemma client_add_second: "0 \<le> fd \<Longrightarrow> client_add True fd' uid' (one_client fd uid) = Inr (1, two_clients fd uid fd' uid')"
  by (simp add: client_add_def client_search.simps one_client_def two_clients_def numeral_eq_Suc)

theorem select_turn_attributes_witness:
  "\<exists>s s'. conns (sclients s) = [6 \<mapsto> 205] \<and> select_round (data_turn 6 (''open motd 0'' @ [NUL])) 3 s = Inr s'
    \<and> select_spec (data_turn 6 (''open motd 0'' @ [NUL])) 3 (conns (sclients s), sconv s) (conns (sclients s'), sconv s')
    \<and> Request ''open motd 0'' 205 \<in> set (oslog (sconv s'))"
proof -
  let ?R = "data_turn 6 (''open motd 0'' @ [NUL])"
  define s0 where "s0 = \<lparr>sclients = [], allset = {3}, maxfd = 3, maxi = -1, sconv = no_conv\<rparr>"
  define s where "s = \<lparr>sclients = one_client 6 205, allset = {6, 3}, maxfd = 6, maxi = 0, sconv = say (Connected 205 6) no_conv\<rparr>"
  have "select_start 3 no_conv = Inr s0" by (simp add: select_start_def s0_def FD_SETSIZE_def)
  then have 0: "select_reach 3 no_conv s0" by (rule select_reach.start)
  have "select_round (connect_turn 6 205) 3 s0 = Inr s"
    using client_add_first [of 6 205] by (subst accept_round [where cl = "one_client 6 205" and i = 0 and A = "{}"]) (simp_all add: s0_def s_def FD_SETSIZE_def)
  moreover have "fresh_accept 3 (conns (sclients s0)) (connect_turn 6 205)" by (simp add: fresh_accept_def connect_turn_def quiet_def s0_def)
  ultimately have reach: "select_reach 3 no_conv s" using 0 by (blast intro: select_reach.turn)
  have fresh: "fresh_accept 3 (conns (sclients s)) ?R" by (simp add: fresh_accept_def data_turn_def quiet_def)
  have "[0..<nat (maxi s + 1)] = [0]" by (simp add: s_def)
  then obtain s' where s': "select_round ?R 3 s = Inr s'" "Request ''open motd 0'' 205 \<in> set (oslog (sconv s'))"
    using sample_request [of 205 "sconv s"]
    by (simp add: select_round_def s_def one_client_def data_turn_def quiet_def Let_def MAXLINE_def say_def)
  have "conns (sclients s) = [6 \<mapsto> 205]" by (simp add: s_def one_client_def numeral_eq_Suc)
  with select_turn_attributes [OF reach fresh s'(1)] s' show ?thesis by blast
qed

text \<open>C16: In every reachable state of the poll loop, a turn accepts at most one connection and then works on
  exactly the connections that were there and are readable or hung up, each once although entries are
  moved while the loop passes over them; and the server never fails to find a client it disconnects.\<close>

theorem poll_turn_work:
  assumes "poll_reach l c p" "fresh_accept l (conns (pclients p)) R"
  shows "(\<forall>m. poll_round R p \<noteq> Inl (Quit m))
    \<and> (\<forall>p'. poll_round R p = Inr p' \<longrightarrow> poll_spec R l (conns (pclients p), pconv p) (conns (pclients p'), pconv p'))"
  using poll_round_spec [OF poll_reach_inv [OF assms(1)] assms(2)] spec_work_no_quit by (auto split: sum.splits)

theorem poll_turn_work_witness:
  "\<exists>p p'. poll_reach 3 no_conv p \<and> poll_round (connect_turn 5 100) p = Inr p'
    \<and> poll_spec (connect_turn 5 100) 3 ([3 \<mapsto> 0], no_conv) ([3 \<mapsto> 0, 5 \<mapsto> 100], say (Connected 100 5) no_conv)"
proof -
  define p where "p = \<lparr>pclients = one_client 3 0, pollfds = \<lparr>pfd = 3, events = {POLLIN}, revents = {}\<rparr> # replicate 9 new_pollfd,
    numfd = 1, pconv = no_conv\<rparr>"
  have p: "poll_start True 3 no_conv = Inr p" "conns (pclients p) = [3 \<mapsto> 0]" "pconv p = no_conv"
    by (simp_all add: poll_start_def client_add_first one_client_def numeral_eq_Suc p_def new_pollfd_def NALLOC_def)
  have reach: "poll_reach 3 no_conv p" using p(1) by (rule poll_reach.start)
  have fresh: "fresh_accept 3 (conns (pclients p)) (connect_turn 5 100)" by (simp add: fresh_accept_def connect_turn_def quiet_def p(2))
  define p' where "p' = \<lparr>pclients = two_clients 3 0 5 100, pollfds = \<lparr>pfd = 3, events = {POLLIN}, revents = {POLLIN}\<rparr>
    # \<lparr>pfd = 5, events = {POLLIN}, revents = {}\<rparr> # replicate 8 new_pollfd, numfd = 2, pconv = say (Connected 100 5) no_conv\<rparr>"
  have p': "poll_round (connect_turn 5 100) p = Inr p'" "conns (pclients p') = [3 \<mapsto> 0, 5 \<mapsto> 100]"
    "pconv p' = say (Connected 100 5) no_conv"
  proof -
    have "replicate 9 new_pollfd = new_pollfd # replicate 8 new_pollfd" by (simp add: numeral_eq_Suc)
    then show "poll_round (connect_turn 5 100) p = Inr p'"
      by (simp add: p_def p'_def client_add_second poll_round_def poll_accept_def poll_scan.simps polled_def connect_turn_def quiet_def Let_def)
    show "conns (pclients p') = [3 \<mapsto> 0, 5 \<mapsto> 100]" by (simp add: p'_def two_clients_def numeral_eq_Suc fun_upd_twist)
  qed (simp add: p'_def)
  from poll_turn_work [OF reach fresh] p'(1)
  have "poll_spec (connect_turn 5 100) 3 (conns (pclients p), pconv p) (conns (pclients p'), pconv p')" by blast
  then have "poll_spec (connect_turn 5 100) 3 ([3 \<mapsto> 0], no_conv) ([3 \<mapsto> 0, 5 \<mapsto> 100], say (Connected 100 5) no_conv)"
    unfolding p(2,3) p'(2,3) .
  with reach p'(1) show ?thesis by blast
qed

text \<open>The poll loop after a client of user \<open>a\<close> and a client of user \<open>b\<close> have connected and the first one
  has left: the second client's entry is now the first of the array, but its user is still the second.\<close>

definition moved :: "nat \<Rightarrow> nat \<Rightarrow> conv \<Rightarrow> pol" where
  "moved a b c = \<lparr>pclients = [\<lparr>cfd = 3, cuid = Some 0\<rparr>, \<lparr>cfd = -1, cuid = Some a\<rparr>, \<lparr>cfd = 6, cuid = Some b\<rparr>]
       @ replicate 7 \<lparr>cfd = -1, cuid = None\<rparr>,
     pollfds = [\<lparr>pfd = 3, events = {POLLIN}, revents = {}\<rparr>, \<lparr>pfd = 6, events = {POLLIN}, revents = {}\<rparr>,
       \<lparr>pfd = 6, events = {POLLIN}, revents = {}\<rparr>] @ replicate 7 new_pollfd, numfd = 2, pconv = c\<rparr>"

lemma poll_first_turns:
  "rbind (poll_start True 3 c) (poll_loop [connect_turn 5 a, connect_turn 6 b, data_turn 5 []])
    = Inr (moved a b (c\<lparr>oslog := oslog c @ [Connected a 5, Connected b 6, Closed_by a 5]\<rparr>))"
  by (simp add: poll_start_def client_add_def client_alloc_def client_search.simps client_del_def NALLOC_def numeral_eq_Suc
      poll_round_def poll_accept_def poll_scan.simps poll_hungup_def polled_def connect_turn_def data_turn_def quiet_def
      new_pollfd_def say_def moved_def Let_def)

lemma poll_moved_request:
  "poll_round (data_turn 6 (''open motd 0'' @ [NUL])) (moved a b c) = rbind (serve (data_turn 6 (''open motd 0'' @ [NUL])) 6 a (''open motd 0'' @ [NUL]) c)
     (\<lambda>c. Inr (moved a b c\<lparr>pollfds := [\<lparr>pfd = 3, events = {POLLIN}, revents = {}\<rparr>, \<lparr>pfd = 6, events = {POLLIN}, revents = {POLLIN}\<rparr>,
       \<lparr>pfd = 6, events = {POLLIN}, revents = {}\<rparr>] @ replicate 7 new_pollfd\<rparr>))"
proof -
  define d where "d = ''open motd 0'' @ [NUL]"
  define R where "R = data_turn 6 d"
  have R: "waits R" "readable R x \<longleftrightarrow> x = 6" "\<not> hung R x" "arrives R x = Some d" for x
    by (simp_all add: R_def data_turn_def quiet_def)
  have d: "take MAXLINE d = d" "d \<noteq> []" by (simp_all add: d_def MAXLINE_def)
  have "poll_round R (moved a b c) = rbind (serve R 6 a d c)
     (\<lambda>c. Inr (moved a b c\<lparr>pollfds := [\<lparr>pfd = 3, events = {POLLIN}, revents = {}\<rparr>, \<lparr>pfd = 6, events = {POLLIN}, revents = {POLLIN}\<rparr>,
       \<lparr>pfd = 6, events = {POLLIN}, revents = {}\<rparr>] @ replicate 7 new_pollfd\<rparr>))"
    using R d by (simp add: poll_round_def moved_def polled_def poll_scan.simps numeral_eq_Suc Let_def rbind_def split: sum.split)
  then show ?thesis by (simp add: R_def d_def)
qed

text \<open>The poll loop can serve a client as another user: when a client that connected before it has left,
  the request of user \<open>b\<close> is logged and served as one of user \<open>a\<close>, although \<open>b\<close> is the user that connected on
  the descriptor.\<close>

theorem poll_wrong_user:
  "\<exists>p. rbind (poll_start True 3 no_conv) (poll_loop [connect_turn 5 a, connect_turn 6 b, data_turn 5 [],
      data_turn 6 (''open motd 0'' @ [NUL])]) = Inr p
    \<and> conns (pclients p) = [3 \<mapsto> 0, 6 \<mapsto> b]
    \<and> oslog (pconv p) = [Connected a 5, Connected b 6, Closed_by a 5, Request ''open motd 0'' a, Sent 7 6 ''motd'']"
proof -
  have split: "rbind r (poll_loop [t1, t2, t3, t4]) = rbind (rbind r (poll_loop [t1, t2, t3])) (poll_round t4)" for r t1 t2 t3 t4
    by (auto simp: rbind_def split: sum.splits)
  show ?thesis
    unfolding split poll_first_turns rbind_Inr poll_moved_request sample_request by (auto simp: moved_def no_conv_def numeral_eq_Suc)
qed

end
