(* ===== verification/OpenConn.thy ===== *)
theory OpenConn imports OpenArgs begin

text \<open>
  How the ends of a connection find each other (lib/servlisten.c, lib/cliconn.c, lib/servaccept.c), and
  the open server that a client starts itself (ipc2/opend.fe, ipc2/open.fe), with the program that uses
  it (main.c).
\<close>

section \<open>Unix domain sockets\<close>

definition SUN_PATH :: nat where "SUN_PATH = 108"

text \<open>What a call leaves behind, in order.\<close>

datatype sock_act = Unlink string | Close int | Bind string | Chmod string | Listen int | Connect string

text \<open>\<open>sock\<close> is the result of \<^verbatim>\<open>socket\<close>, \<open>bound\<close> and \<open>listens\<close> tell whether \<^verbatim>\<open>bind\<close> and \<^verbatim>\<open>listen\<close> succeed.\<close>

definition serv_listen :: "int \<Rightarrow> bool \<Rightarrow> bool \<Rightarrow> string \<Rightarrow> int \<times> sock_act list" where
  "serv_listen sock bound listens name =
     (if SUN_PATH \<le> length name then (-1, [])
      else if sock < 0 then (-2, [])
      else if \<not> bound then (-3, [Unlink name, Close sock])
      else if \<not> listens then (-4, [Unlink name, Bind name, Close sock])
      else (sock, [Unlink name, Bind name, Listen sock]))"










section \<open>The server started by its client\<close>

text \<open>\<^verbatim>\<open>handle_request\<close> of opend.fe, which keeps no log.\<close>

definition handle_request_fe :: "open_env \<Rightarrow> string \<Rightarrow> nat \<Rightarrow> req_vars \<Rightarrow> (chunk list \<times> req_vars) res" where
  "handle_request_fe E buf nread v =
     (let refuse = (\<lambda>v. Inr (snd (send_err (err_takes E) (send_ok E) (-1) (errmsg v)), v)) in
      if buf ! (nread - 1) \<noteq> NUL then
        refuse (v\<lparr>errmsg := clip (''request not null terminated: '' @ fmt_s nread (cstr (take nread buf)) @ [NEWLINE])\<rparr>)
      else
        case buf_args buf cli_args v of (r, v) \<Rightarrow>
        if r < 0 then refuse v
        else
          case open_file E (pathname v) (oflag v) of
            Inl err \<Rightarrow> refuse (v\<lparr>errmsg := clip (''can't open '' @ pathname v @ '': '' @ strerr E err @ [NEWLINE])\<rparr>)
          | Inr newfd \<Rightarrow>
              (case send_fd (control_mem E) (send_ok E) newfd of (r, sent) \<Rightarrow>
               if r < 0 then Inl (Sys ''send_fd error'') else Inr (sent, v)))"

text \<open>Its main loop: each element is what one read returns (\<open>None\<close> is an error), with the system as the
  request meets it; the loop ends at the end of the pipe.\<close>

fun opend_fe :: "(string option \<times> open_env) list \<Rightarrow> string \<Rightarrow> req_vars \<Rightarrow> chunk list \<Rightarrow> chunk list res" where
  "opend_fe [] buf v sent = Inr sent"
| "opend_fe ((None, E) # rs) buf v sent = Inl (Sys ''read error on stream pipe'')"
| "opend_fe ((Some data, E) # rs) buf v sent =
     (let data = take MAXLINE data; buf = data @ drop (length data) buf in
      if data = [] then Inr sent
      else rbind (handle_request_fe E buf (length data) v) (\<lambda>(out, v). opend_fe rs buf v (sent @ out)))"

text \<open>\<^verbatim>\<open>csopen\<close> of open.fe: \<open>fd0\<close> is the descriptor kept from an earlier call, \<open>pipe\<close> the end \<^verbatim>\<open>fd_pipe\<close>
  returns for the client (\<open>None\<close> when it fails), \<open>forks\<close> whether \<^verbatim>\<open>fork\<close> succeeds. The buffer for the
  flags has ten bytes.\<close>

definition csopen_fe :: "int \<Rightarrow> int option \<Rightarrow> bool \<Rightarrow> nat \<Rightarrow> (string \<Rightarrow> int) \<Rightarrow> arriving list \<Rightarrow> string \<Rightarrow> int \<Rightarrow> (int \<times> int \<times> string list) res" where
  "csopen_fe fd0 pipe forks written wr replies name flags =
     (if fd0 < 0 \<and> pipe = None then Inr (-1, fd0, [])
      else
        let fd = (if fd0 < 0 then the pipe else fd0) in
        if fd0 < 0 \<and> \<not> forks then Inr (-1, fd, [])
        else
          rbind (store_str 10 ('' '' @ show_int flags) []) (\<lambda>buf.
          let req = CL_OPEN @ '' '' @ name @ buf @ [NUL] in
          if written \<noteq> length req then Inr (-1, fd, [])
          else rbind (recv_fd wr replies []) (\<lambda>(r, given). Inr (r, fd, given))))"

section \<open>Properties\<close>





text \<open>The server a client starts itself answers a null-terminated request exactly as the daemon does:
  the same bytes and descriptor, and the same variables afterwards.\<close>

theorem fe_answers_alike:
  assumes "buf ! (nread - 1) = NUL" "handle_request E buf nread clifd uid v lg = Inr (sent, v', lg')"
  shows "handle_request_fe E buf nread v = Inr (sent, v')"
  using assms by (auto simp: handle_request_def handle_request_fe_def Let_def rbind_eq_Inr split: prod.splits sum.splits if_splits)

theorem fe_answers_alike_witness:
  "\<exists>v'. handle_request_fe sample_open (''open motd 0'' @ [NUL]) 12 no_vars = Inr ([([NUL, NUL], Some 7)], v')"
proof -
  have n: "(''open motd 0'' @ [NUL]) ! (12 - 1) = NUL" by simp
  have h: "handle_request sample_open (''open motd 0'' @ [NUL]) 12 4 205 no_vars [] =
     Inr ([([NUL, NUL], Some 7)], no_vars\<lparr>pathname := ''motd'', oflag := 0\<rparr>, [Request ''open motd 0'' 205, Sent 7 4 ''motd''])"
    by code_simp
  from fe_answers_alike [OF n h] show ?thesis by blast
qed

end
