(* ===== verification/MemStream.thy ===== *)
theory MemStream imports Prelude begin

text \<open>
  The memory streams of exercises/fmemopen.c: a stream whose file is a buffer in memory. Sizes and
  positions are \<^verbatim>\<open>size_t\<close>, but the functions pass them through \<^verbatim>\<open>int\<close> variables.
\<close>

section \<open>The stream\<close>

datatype ms_flag = MS_READ | MS_WRITE | MS_APPEND | MS_TRUNCATE | MS_MYBUF

text \<open>\<open>mbuf\<close> is the memory \<^verbatim>\<open>buf\<close> points to.\<close>

record memstream =
  mbuf :: string
  rsize :: nat
  vsize :: nat
  curpos :: nat
  flags :: "ms_flag set"

text \<open>Assignment to an \<^verbatim>\<open>int\<close>, and a \<^verbatim>\<open>size_t\<close> difference.\<close>

definition to_int :: "int \<Rightarrow> int" where "to_int i = sint (word_of_int i :: 32 word)"
definition to_size :: "int \<Rightarrow> int" where "to_size i = i mod 2 ^ 64"

fun type_flags :: "string \<Rightarrow> ms_flag set \<Rightarrow> ms_flag set" where
  "type_flags [] fl = fl"
| "type_flags (c # cp) fl =
     (if c = CHR ''r'' then (if fl \<noteq> {} then {} else type_flags cp (fl \<union> {MS_READ}))
      else if c = CHR ''w'' then (if fl \<noteq> {} then {} else type_flags cp (fl \<union> {MS_WRITE, MS_TRUNCATE}))
      else if c = CHR ''a'' then (if fl \<noteq> {} then {} else type_flags cp (fl \<union> {MS_APPEND}))
      else if c = CHR ''+'' then (if fl = {} then {} else type_flags cp (fl \<union> {MS_READ, MS_WRITE}))
      else if c = CHR ''b'' then (if fl = {} then {} else type_flags cp fl)
      else {})"

definition type_to_flags :: "string \<Rightarrow> ms_flag set" where
  "type_to_flags type = type_flags (cstr type) {}"

function find_end :: "string \<Rightarrow> nat \<Rightarrow> nat \<Rightarrow> nat" where
  "find_end buf len off = (if off < len then if buf ! off = NUL then off else find_end buf len (off + 1) else off)"
  by pat_completeness auto
termination by (relation "measure (\<lambda>(buf, len, off). len - off)") auto

declare find_end.simps [simp del]

text \<open>\<open>mem\<close> and \<open>mem'\<close> tell whether the two calls of \<^verbatim>\<open>malloc\<close> succeed, \<open>fresh\<close> is what the second one
  returns, \<open>funerr\<close> is the error of \<^verbatim>\<open>funopen\<close>, if it fails. An error is \<^verbatim>\<open>errno\<close>.\<close>

definition fmemopen :: "bool \<Rightarrow> bool \<Rightarrow> string \<Rightarrow> int option \<Rightarrow> string option \<Rightarrow> nat \<Rightarrow> string \<Rightarrow> int + memstream" where
  "fmemopen mem mem' fresh funerr buf sz type =
     (if sz = 0 then Inl EINVAL
      else if \<not> mem then Inl ENOMEM
      else
        let fl = type_to_flags type in
        if fl = {} then Inl EINVAL
        else
          let r = (case buf of
              None \<Rightarrow>
                if \<not> {MS_READ, MS_WRITE} \<subseteq> fl then Inl EINVAL
                else if \<not> mem' then Inl ENOMEM
                else Inr (take sz fresh, 0, fl \<union> {MS_MYBUF})
            | Some b \<Rightarrow> Inr (b, if MS_APPEND \<in> fl then find_end b sz 0 else 0, fl)) in
          case r of
            Inl e \<Rightarrow> Inl e
          | Inr (b, pos, fl) \<Rightarrow>
              let v = (if MS_APPEND \<in> fl then pos else if MS_TRUNCATE \<in> fl then 0 else sz) in
              (case funerr of Some e \<Rightarrow> Inl e
               | None \<Rightarrow> Inr \<lparr>mbuf = b, rsize = sz, vsize = v, curpos = pos, flags = fl\<rparr>))"

text \<open>Reading: the value returned, \<^verbatim>\<open>errno\<close> and the bytes.\<close>

definition mstream_read :: "memstream \<Rightarrow> nat \<Rightarrow> (int \<times> int \<times> string \<times> memstream) res" where
  "mstream_read m len =
     (if MS_READ \<notin> flags m then Inr (-1, EBADF, [], m)
      else if vsize m \<le> curpos m then Inr (0, 0, [], m)
      else
        let nr = to_int (min (int len) (to_size (int (vsize m) - int (curpos m)))) in
        if nr < 0 \<or> int (length (mbuf m)) < int (curpos m) + nr then Inl Fault
        else Inr (nr, 0, window (mbuf m) (curpos m) (nat nr), m\<lparr>curpos := curpos m + nat nr\<rparr>))"

text \<open>\<^verbatim>\<open>*(ms->buf + i) = 0\<close>.\<close>

definition put_nul :: "nat \<Rightarrow> memstream \<Rightarrow> memstream res" where
  "put_nul i m = (if i < length (mbuf m) then Inr (m\<lparr>mbuf := (mbuf m)[i := NUL]\<rparr>) else Inl Fault)"

text \<open>The copy into the buffer.\<close>

definition mstream_copy :: "memstream \<Rightarrow> string \<Rightarrow> (int \<times> memstream) res" where
  "mstream_copy m buf =
     (let off = to_int (int (if MS_APPEND \<in> flags m then vsize m else curpos m));
          nw = to_int (min (int (length buf)) (to_size (int (rsize m) - off))) in
      if off < 0 \<or> nw < 0 \<or> int (length (mbuf m)) < off + nw then Inl Fault
      else Inr (nw, m\<lparr>mbuf := splice (mbuf m) (nat off) (take (nat nw) buf), curpos := nat (off + nw)\<rparr>))"

text \<open>The null that a longer stream gets in update mode, and the one every write ends with in write-only
  mode.\<close>

definition mstream_grow :: "memstream \<Rightarrow> memstream res" where
  "mstream_grow m =
     (if vsize m < curpos m then
        let m = m\<lparr>vsize := curpos m\<rparr> in
        if {MS_READ, MS_WRITE} \<subseteq> flags m \<and> vsize m < rsize m then put_nul (vsize m) m else Inr m
      else Inr m)"

definition mstream_end :: "memstream \<Rightarrow> memstream res" where
  "mstream_end m =
     (if flags m \<inter> {MS_WRITE, MS_APPEND} \<noteq> {} \<and> MS_READ \<notin> flags m then
        if curpos m < rsize m then put_nul (curpos m) m else put_nul (rsize m - 1) m
      else Inr m)"

definition mstream_write :: "memstream \<Rightarrow> string \<Rightarrow> (int \<times> int \<times> memstream) res" where
  "mstream_write m buf =
     (if flags m \<inter> {MS_APPEND, MS_WRITE} = {} then Inr (-1, EBADF, m)
      else rbind (mstream_copy m buf) (\<lambda>(nw, m).
           rbind (mstream_grow m) (\<lambda>m.
           rbind (mstream_end m) (\<lambda>m. Inr (nw, 0, m)))))"

datatype whence = SEEK_SET | SEEK_END | SEEK_CUR

definition mstream_seek :: "memstream \<Rightarrow> int \<Rightarrow> whence \<Rightarrow> int \<times> int \<times> memstream" where
  "mstream_seek m pos whence =
     (let off = to_int (case whence of SEEK_SET \<Rightarrow> pos | SEEK_END \<Rightarrow> int (vsize m) + pos | SEEK_CUR \<Rightarrow> int (curpos m) + pos) in
      if off < 0 \<or> int (vsize m) < off then (-1, EINVAL, m)
      else (off, 0, m\<lparr>curpos := nat off\<rparr>))"

text \<open>\<^verbatim>\<open>mstream_close\<close>: whether the buffer is freed.\<close>

definition mstream_close :: "memstream \<Rightarrow> int \<times> bool" where
  "mstream_close m = (0, MS_MYBUF \<in> flags m)"

section \<open>Its specification\<close>

text \<open>A stream is the bytes written so far and a position; \<open>cap\<close> is the room there is.\<close>

datatype ms_op = Get nat | Put string | Go int whence

type_synonym ms_out = "int \<times> int \<times> string"

fun ms_spec :: "nat \<Rightarrow> bool \<Rightarrow> ms_op \<Rightarrow> string \<times> nat \<Rightarrow> ms_out \<times> (string \<times> nat)" where
  "ms_spec cap app (Get n) (c, p) = (let d = window c p n in ((int (length d), 0, d), (c, p + length d)))"
| "ms_spec cap app (Put s) (c, p) =
     (let off = (if app then length c else p); d = take (cap - off) s in
      ((int (length d), 0, []), (splice c off d, off + length d)))"
| "ms_spec cap app (Go i w) (c, p) =
     (let off = to_int (case w of SEEK_SET \<Rightarrow> i | SEEK_END \<Rightarrow> int (length c) + i | SEEK_CUR \<Rightarrow> int p + i) in
      if off < 0 \<or> int (length c) < off then ((-1, EINVAL, []), (c, p)) else ((off, 0, []), (c, nat off)))"

fun ms_step :: "ms_op \<Rightarrow> memstream \<Rightarrow> (ms_out \<times> memstream) res" where
  "ms_step (Get n) m = rbind (mstream_read m n) (\<lambda>(r, e, d, m). Inr ((r, e, d), m))"
| "ms_step (Put s) m = rbind (mstream_write m s) (\<lambda>(r, e, m). Inr ((r, e, []), m))"
| "ms_step (Go i w) m = (case mstream_seek m i w of (r, e, m) \<Rightarrow> Inr ((r, e, []), m))"

fun ms_run :: "ms_op list \<Rightarrow> memstream \<Rightarrow> (ms_out list \<times> memstream) res" where
  "ms_run [] m = Inr ([], m)"
| "ms_run (x # xs) m = rbind (ms_step x m) (\<lambda>(o', m). rbind (ms_run xs m) (\<lambda>(os, m). Inr (o' # os, m)))"

fun ms_spec_run :: "nat \<Rightarrow> bool \<Rightarrow> ms_op list \<Rightarrow> string \<times> nat \<Rightarrow> ms_out list \<times> (string \<times> nat)" where
  "ms_spec_run cap app [] s = ([], s)"
| "ms_spec_run cap app (x # xs) s =
     (case ms_spec cap app x s of (o', s) \<Rightarrow> case ms_spec_run cap app xs s of (os, s) \<Rightarrow> (o' # os, s))"

definition ms_inv :: "memstream \<Rightarrow> bool" where
  "ms_inv m \<longleftrightarrow> curpos m \<le> vsize m \<and> vsize m \<le> rsize m \<and> 0 < rsize m \<and> rsize m = length (mbuf m) \<and> rsize m < 2 ^ 31"

definition ms_abs :: "memstream \<Rightarrow> string \<times> nat" where
  "ms_abs m = (take (vsize m) (mbuf m), curpos m)"

section \<open>The functions follow the specification\<close>

lemma to_int_id: "0 \<le> i \<Longrightarrow> i < 2 ^ 31 \<Longrightarrow> to_int i = i"
  unfolding to_int_def by (rule sint_word32_id) simp_all

lemma to_size_id: "0 \<le> i \<Longrightarrow> i < 2 ^ 31 \<Longrightarrow> to_size i = i"
  unfolding to_size_def by (rule mod_pos_pos_trivial) simp_all

lemma mstream_read_ok:
  assumes "ms_inv m" "MS_READ \<in> flags m"
  shows "mstream_read m n = (let d = window (take (vsize m) (mbuf m)) (curpos m) n in
    Inr (int (length d), 0, d, m\<lparr>curpos := curpos m + length d\<rparr>))"
proof (cases "vsize m \<le> curpos m")
  case True
  with assms show ?thesis by (simp add: mstream_read_def ms_inv_def window_def Let_def)
next
  case False
  have i: "curpos m \<le> vsize m" "vsize m \<le> length (mbuf m)" "int (vsize m) < 2 ^ 31" using assms(1) by (auto simp: ms_inv_def)
  have k: "to_size (int (vsize m) - int (curpos m)) = int (vsize m - curpos m)"
    using i False by (subst to_size_id) (auto simp: of_nat_diff)
  have nr: "to_int (min (int n) (int (vsize m - curpos m))) = int (min n (vsize m - curpos m))"
    using i by (subst to_int_id) auto
  have d: "window (take (vsize m) (mbuf m)) (curpos m) n = window (mbuf m) (curpos m) (min n (vsize m - curpos m))"
    using i by (auto simp: window_def drop_take min_def)
  have l: "length (window (take (vsize m) (mbuf m)) (curpos m) n) = min n (vsize m - curpos m)"
    using i by (simp add: length_window)
  show ?thesis unfolding mstream_read_def k nr Let_def using False assms(2) i d l by (auto simp: min_def)
qed

lemma mstream_seek_ok:
  assumes "ms_inv m" "mstream_seek m i w = (r, e, m')"
  shows "ms_inv m' \<and> flags m' = flags m \<and> rsize m' = rsize m \<and> ms_spec cap app (Go i w) (ms_abs m) = ((r, e, []), ms_abs m')"
proof -
  have "length (take (vsize m) (mbuf m)) = vsize m" using assms(1) by (simp add: ms_inv_def)
  with assms show ?thesis
    unfolding mstream_seek_def ms_abs_def ms_spec.simps Let_def by (cases w) (auto simp: ms_inv_def split: if_splits)
qed

text \<open>The copy of a write.\<close>

lemma mstream_copy_ok:
  fixes buf :: string
  assumes "ms_inv m"
  defines "off \<equiv> if MS_APPEND \<in> flags m then vsize m else curpos m"
  defines "d \<equiv> take (rsize m - off) buf"
  shows "mstream_copy m buf = Inr (int (length d), m\<lparr>mbuf := splice (mbuf m) off d, curpos := off + length d\<rparr>)"
    "off + length d \<le> length (mbuf m)" "off \<le> vsize m"
proof -
  have i: "off \<le> rsize m" "int (rsize m) < 2 ^ 31" "rsize m = length (mbuf m)" using assms(1) by (auto simp: ms_inv_def off_def)
  have o: "to_int (int off) = int off" using i by (intro to_int_id) auto
  have k: "to_size (int (rsize m) - int off) = int (rsize m - off)" using i by (subst to_size_id) auto
  have nw: "to_int (min (int (length buf)) (int (rsize m - off))) = int (length d)"
    using i by (subst to_int_id) (auto simp: d_def)
  have t: "take (length d) buf = d" by (simp add: d_def min_def)
  show le: "off + length d \<le> length (mbuf m)" using i by (auto simp: d_def)
  show "off \<le> vsize m" using assms(1) by (simp add: ms_inv_def off_def)
  show "mstream_copy m buf = Inr (int (length d), m\<lparr>mbuf := splice (mbuf m) off d, curpos := off + length d\<rparr>)"
    using le unfolding mstream_copy_def off_def [symmetric] o k nw Let_def
    by (simp add: t nat_int_add)
qed

lemma take_splice:
  assumes "off \<le> v" "v \<le> length b" "off + length d \<le> length b"
  shows "take (max v (off + length d)) (splice b off d) = splice (take v b) off d"
proof (cases "v \<le> off + length d")
  case True
  moreover have "d = []" if "length b \<le> off" using that assms(3) by (cases d) auto
  ultimately show ?thesis using assms by (auto simp: splice_def max_def min_def)
next
  case False
  then show ?thesis using assms by (simp add: splice_def max_def min_def drop_take)
qed

lemma length_splice_short: "off \<le> length c \<Longrightarrow> length (splice c off d) = max (length c) (off + length d)"
  by (auto simp: splice_def max_def)

text \<open>A write in update mode.\<close>

lemma mstream_write_update:
  assumes inv: "ms_inv m" and fl: "{MS_READ, MS_WRITE} \<subseteq> flags m"
  shows "\<exists>m'. ms_step (Put s) m = Inr (fst (ms_spec (rsize m) (MS_APPEND \<in> flags m) (Put s) (ms_abs m)), m')
    \<and> ms_inv m' \<and> flags m' = flags m \<and> rsize m' = rsize m
    \<and> snd (ms_spec (rsize m) (MS_APPEND \<in> flags m) (Put s) (ms_abs m)) = ms_abs m'"
proof -
  define off where "off = (if MS_APPEND \<in> flags m then vsize m else curpos m)"
  define d where "d = take (rsize m - off) s"
  let ?b = "splice (mbuf m) off d" and ?v = "max (vsize m) (off + length d)"
  note c = mstream_copy_ok(1,2) [OF inv, where buf = s] mstream_copy_ok(3) [OF inv]
  note c = c [folded off_def, folded d_def]
  have i: "vsize m \<le> length (mbuf m)" "length (mbuf m) = rsize m" "rsize m < 2 ^ 31" "0 < rsize m" using inv by (auto simp: ms_inv_def)
  have lb: "length ?b = rsize m" using c(2) i by (simp add: length_splice_in)
  have vr: "?v \<le> rsize m" using c(2) i by simp
  let ?m = "m\<lparr>mbuf := ?b, curpos := off + length d\<rparr>"
  have g: "mstream_grow ?m = Inr (?m\<lparr>mbuf := (if vsize m < off + length d \<and> off + length d < rsize m then ?b[off + length d := NUL] else ?b), vsize := ?v\<rparr>)"
    using fl lb by (auto simp: mstream_grow_def put_nul_def Let_def max_def)
  let ?m' = "?m\<lparr>mbuf := (if vsize m < off + length d \<and> off + length d < rsize m then ?b[off + length d := NUL] else ?b), vsize := ?v\<rparr>"
  have "ms_inv ?m'" using i vr lb by (simp add: ms_inv_def)
  moreover have "ms_abs ?m' = (splice (take (vsize m) (mbuf m)) off d, off + length d)"
    using take_splice [OF c(3) i(1) c(2)] by (auto simp: ms_abs_def max_def)
  moreover have "length (take (vsize m) (mbuf m)) = vsize m" using i by simp
  moreover have "flags m \<inter> {MS_APPEND, MS_WRITE} \<noteq> {}" "MS_READ \<in> flags m" using fl by auto
  then have "ms_step (Put s) m = Inr ((int (length d), 0, []), ?m')"
    by (simp add: mstream_write_def c(1) g mstream_end_def)
  moreover have "ms_spec (rsize m) (MS_APPEND \<in> flags m) (Put s) (ms_abs m) = ((int (length d), 0, []), (splice (take (vsize m) (mbuf m)) off d, off + length d))"
    using i(1) by (simp add: ms_abs_def Let_def off_def d_def)
  ultimately show ?thesis by (intro exI [of _ ?m']) simp
qed

lemma ms_step_ok:
  assumes inv: "ms_inv m" and fl: "{MS_READ, MS_WRITE} \<subseteq> flags m"
  shows "\<exists>m'. ms_step x m = Inr (fst (ms_spec (rsize m) (MS_APPEND \<in> flags m) x (ms_abs m)), m')
    \<and> ms_inv m' \<and> flags m' = flags m \<and> rsize m' = rsize m
    \<and> snd (ms_spec (rsize m) (MS_APPEND \<in> flags m) x (ms_abs m)) = ms_abs m'"
proof (cases x)
  case (Get n)
  have "MS_READ \<in> flags m" using fl by simp
  note r = mstream_read_ok [OF inv this, of n]
  have "curpos m + length (window (take (vsize m) (mbuf m)) (curpos m) n) \<le> vsize m"
    using inv by (auto simp: length_window ms_inv_def)
  with inv show ?thesis by (auto simp: Get r Let_def ms_abs_def ms_inv_def)
next
  case (Put s)
  then show ?thesis using mstream_write_update [OF inv fl] by blast
next
  case (Go i w)
  obtain r e m' where s: "mstream_seek m i w = (r, e, m')" by (metis prod_cases3)
  from mstream_seek_ok [OF inv s] show ?thesis by (simp add: Go s del: ms_spec.simps)
qed

lemma ms_run_ok:
  assumes "ms_inv m" "{MS_READ, MS_WRITE} \<subseteq> flags m"
  shows "\<exists>m'. ms_run xs m = Inr (fst (ms_spec_run (rsize m) (MS_APPEND \<in> flags m) xs (ms_abs m)), m') \<and> ms_inv m'
    \<and> snd (ms_spec_run (rsize m) (MS_APPEND \<in> flags m) xs (ms_abs m)) = ms_abs m'"
  using assms
proof (induction xs arbitrary: m)
  case (Cons x xs)
  from ms_step_ok [OF Cons.prems, of x] obtain m' where m': "ms_step x m = Inr (fst (ms_spec (rsize m) (MS_APPEND \<in> flags m) x (ms_abs m)), m')"
    "ms_inv m'" "flags m' = flags m" "rsize m' = rsize m" "snd (ms_spec (rsize m) (MS_APPEND \<in> flags m) x (ms_abs m)) = ms_abs m'" by blast
  from Cons.IH [OF m'(2)] Cons.prems(2) m'(3,4) obtain m2 where
    "ms_run xs m' = Inr (fst (ms_spec_run (rsize m) (MS_APPEND \<in> flags m) xs (ms_abs m')), m2)" "ms_inv m2"
    "snd (ms_spec_run (rsize m) (MS_APPEND \<in> flags m) xs (ms_abs m')) = ms_abs m2" by auto
  with m'(1,5) show ?case by (auto simp del: ms_step.simps ms_spec.simps split: prod.splits)
qed simp

lemma find_end_result: "len \<le> length b \<Longrightarrow> off \<le> len \<Longrightarrow> find_end b len off = off + length (cstr (drop off (take len b)))"
proof (induction b len off rule: find_end.induct)
  case (1 b len off)
  show ?case
  proof (cases "off < len")
    case False
    then show ?thesis using "1.prems" by (subst find_end.simps) (simp add: cstr_def)
  next
    case True
    have d: "drop off (take len b) = b ! off # drop (Suc off) (take len b)"
      using True "1.prems" by (subst Cons_nth_drop_Suc [symmetric]) auto
    show ?thesis
    proof (cases "b ! off = NUL")
      case True
      then show ?thesis using \<open>off < len\<close> d by (subst find_end.simps) (simp add: cstr_def)
    next
      case False
      then show ?thesis using "1.IH" [OF True False] "1.prems" True d by (subst find_end.simps) (simp add: cstr_def)
    qed
  qed
qed

section \<open>Properties\<close>

text \<open>What a stream over the buffer \<open>b\<close> holds when it is opened.\<close>

definition ms_start :: "string \<Rightarrow> string \<Rightarrow> string \<times> nat" where
  "ms_start type b =
     (if hd type = CHR ''r'' then (b, 0) else if hd type = CHR ''w'' then ([], 0) else (cstr b, length (cstr b)))"

lemma type_to_flags_modes:
  "type_to_flags ''r+'' = {MS_READ, MS_WRITE}" "type_to_flags ''w+'' = {MS_READ, MS_WRITE, MS_TRUNCATE}"
  "type_to_flags ''a+'' = {MS_READ, MS_WRITE, MS_APPEND}" "type_to_flags ''w'' = {MS_WRITE, MS_TRUNCATE}" "type_to_flags ''a'' = {MS_APPEND}"
  by (auto simp: type_to_flags_def cstr_def)

lemma take_cstr: "take (length (cstr b)) b = cstr b"
  unfolding cstr_def by (rule takeWhile_eq_take [symmetric])

lemma length_cstr_le: "length (cstr b) \<le> length b"
  unfolding cstr_def by (rule length_takeWhile_le)

lemma fmemopen_start:
  assumes "type \<in> {''r+'', ''w+'', ''a+'', ''w'', ''a''}" "b \<noteq> []" "length b < 2 ^ 31"
  obtains m where "fmemopen True mem' fresh None (Some b) (length b) type = Inr m" "ms_inv m" "ms_abs m = ms_start type b"
    "flags m = type_to_flags type" "rsize m = length b" "mbuf m = b"
proof -
  have f: "find_end b (length b) 0 = length (cstr b)" by (simp add: find_end_result)
  let ?m = "\<lparr>mbuf = b, rsize = length b, vsize = (if hd type = CHR ''r'' then length b else if hd type = CHR ''w'' then 0 else length (cstr b)),
    curpos = snd (ms_start type b), flags = type_to_flags type\<rparr>"
  have "fmemopen True mem' fresh None (Some b) (length b) type = Inr ?m"
    using assms(1,2) by (auto simp: fmemopen_def Let_def type_to_flags_modes f ms_start_def)
  moreover have "ms_inv ?m" "ms_abs ?m = ms_start type b"
    using assms length_cstr_le [of b] by (auto simp: ms_inv_def ms_abs_def ms_start_def take_cstr)
  ultimately show ?thesis by (intro that [of ?m]) simp_all
qed

text \<open>C20: A stream opened for update on a buffer follows its specification through any sequence of reads,
  writes and seeks: every call returns what the specification returns, and no call touches memory outside
  the buffer.\<close>

theorem memstream_refines:
  assumes "type \<in> {''r+'', ''w+'', ''a+''}" "b \<noteq> []" "length b < 2 ^ 31"
  shows "\<exists>m m' outs. fmemopen True mem' fresh None (Some b) (length b) type = Inr m
    \<and> ms_run xs m = Inr (outs, m') \<and> ms_spec_run (length b) (hd type = CHR ''a'') xs (ms_start type b) = (outs, ms_abs m')"
proof -
  from assms(1) have ty: "type \<in> {''r+'', ''w+'', ''a+'', ''w'', ''a''}" by blast
  obtain m where m: "fmemopen True mem' fresh None (Some b) (length b) type = Inr m" "ms_inv m" "ms_abs m = ms_start type b"
    "flags m = type_to_flags type" "rsize m = length b" by (rule fmemopen_start [OF ty assms(2,3)])
  have "{MS_READ, MS_WRITE} \<subseteq> flags m" "MS_APPEND \<in> flags m \<longleftrightarrow> hd type = CHR ''a''"
  proof -
    from assms(1) have ty: "type = ''r+'' \<or> type = ''w+'' \<or> type = ''a+''" by blast
    show "{MS_READ, MS_WRITE} \<subseteq> flags m" using ty unfolding m(4) by (elim disjE; simp only: type_to_flags_modes) simp_all
    show "MS_APPEND \<in> flags m \<longleftrightarrow> hd type = CHR ''a''"
      using ty unfolding m(4) by (elim disjE; simp only: type_to_flags_modes) simp_all
  qed
  from ms_run_ok [OF m(2) this(1), of xs, unfolded this(2) m(3,5)] obtain m' where
    "ms_run xs m = Inr (fst (ms_spec_run (length b) (hd type = CHR ''a'') xs (ms_start type b)), m')"
    "snd (ms_spec_run (length b) (hd type = CHR ''a'') xs (ms_start type b)) = ms_abs m'" by blast
  with m(1) show ?thesis by (metis prod.collapse)
qed

theorem memstream_refines_witness:
  "\<exists>m m'. fmemopen True True [] None (Some (replicate 8 NUL)) 8 ''w+'' = Inr m
    \<and> ms_run [Put ''abc'', Go 1 SEEK_SET, Get 9] m = Inr ([(3, 0, []), (1, 0, []), (2, 0, ''bc'')], m')"
proof -
  have p: "''w+'' \<in> {''r+'', ''w+'', ''a+''}" "replicate 8 NUL \<noteq> []" "length (replicate 8 NUL) < 2 ^ 31" by simp_all
  have s: "fst (ms_spec_run 8 False [Put ''abc'', Go 1 SEEK_SET, Get 9] (ms_start ''w+'' (replicate 8 NUL)))
      = [(3, 0, []), (1, 0, []), (2, 0, ''bc'')]" by code_simp
  from memstream_refines [OF p, of True "[]" "[Put ''abc'', Go 1 SEEK_SET, Get 9]"] obtain m m' outs where
    "fmemopen True True [] None (Some (replicate 8 NUL)) (length (replicate 8 NUL)) ''w+'' = Inr m"
    "ms_run [Put ''abc'', Go 1 SEEK_SET, Get 9] m = Inr (outs, m')"
    "ms_spec_run (length (replicate 8 NUL)) (hd ''w+'' = CHR ''a'') [Put ''abc'', Go 1 SEEK_SET, Get 9] (ms_start ''w+'' (replicate 8 NUL)) = (outs, ms_abs m')"
    by blast
  with s show ?thesis by (simp del: ms_spec_run.simps ms_run.simps)
qed

text \<open>Any write, in any mode.\<close>

lemma mstream_write_safe:
  assumes inv: "ms_inv m"
  shows "\<exists>r e m'. mstream_write m s = Inr (r, e, m') \<and> ms_inv m'"
proof (cases "flags m \<inter> {MS_APPEND, MS_WRITE} = {}")
  case True
  then show ?thesis using inv by (simp add: mstream_write_def)
next
  case False
  define off where "off = (if MS_APPEND \<in> flags m then vsize m else curpos m)"
  define d where "d = take (rsize m - off) s"
  note c = mstream_copy_ok(1,2) [OF inv, where buf = s, folded off_def, folded d_def]
  let ?m = "m\<lparr>mbuf := splice (mbuf m) off d, curpos := off + length d\<rparr>"
  have lb: "length (splice (mbuf m) off d) = rsize m" using c(2) inv by (simp add: length_splice_in ms_inv_def)
  have le: "off + length d \<le> rsize m" "vsize m \<le> rsize m" "0 < rsize m" "rsize m < 2 ^ 31" using c(2) inv by (auto simp: ms_inv_def)
  have g: "\<exists>m1. mstream_grow ?m = Inr m1 \<and> curpos m1 = off + length d \<and> curpos m1 \<le> vsize m1 \<and> vsize m1 \<le> rsize m1
      \<and> rsize m1 = rsize m \<and> length (mbuf m1) = rsize m \<and> flags m1 = flags m"
    using lb le by (auto simp: mstream_grow_def put_nul_def Let_def)
  then obtain m1 where m1: "mstream_grow ?m = Inr m1" "curpos m1 \<le> vsize m1" "vsize m1 \<le> rsize m1" "rsize m1 = rsize m" "length (mbuf m1) = rsize m"
    by blast
  have "\<exists>m2. mstream_end m1 = Inr m2 \<and> ms_inv m2" using m1(2-5) le(3,4) by (auto simp: mstream_end_def put_nul_def ms_inv_def)
  with c(1) m1(1) False show ?thesis by (auto simp: mstream_write_def)
qed

lemma ms_step_safe: "ms_inv m \<Longrightarrow> \<exists>o' m'. ms_step x m = Inr (o', m') \<and> ms_inv m'"
proof (cases x)
  case (Get n)
  assume inv: "ms_inv m"
  have "ms_inv (m\<lparr>curpos := curpos m + length (window (take (vsize m) (mbuf m)) (curpos m) n)\<rparr>)"
    using inv by (auto simp: length_window ms_inv_def)
  with inv mstream_read_ok [OF inv, of n] show ?thesis
    by (cases "MS_READ \<in> flags m") (simp_all add: Get Let_def mstream_read_def [of _ n])
next
  case (Put s)
  assume "ms_inv m"
  with mstream_write_safe [of m s] show ?thesis by (auto simp: Put)
next
  case (Go i w)
  assume inv: "ms_inv m"
  obtain r e m' where s: "mstream_seek m i w = (r, e, m')" by (metis prod_cases3)
  from mstream_seek_ok [OF inv s] show ?thesis by (simp add: Go s)
qed

text \<open>C21: Whatever the mode and whatever is read, written or sought, no call on a stream that was opened touches
  memory outside its buffer, and the stream stays well formed: its position is within the data, the data
  within the buffer.\<close>

theorem memstream_safe:
  assumes "fmemopen mem mem' fresh funerr buf sz type = Inr m" "case buf of None \<Rightarrow> sz \<le> length fresh | Some b \<Rightarrow> length b = sz" "sz < 2 ^ 31"
  shows "\<exists>outs m'. ms_run xs m = Inr (outs, m') \<and> ms_inv m'"
proof -
  have run: "ms_inv m \<Longrightarrow> \<exists>outs m'. ms_run xs m = Inr (outs, m') \<and> ms_inv m'" for m
  proof (induction xs arbitrary: m)
    case (Cons x xs)
    from ms_step_safe [OF Cons.prems, of x] obtain o' m' where m': "ms_step x m = Inr (o', m')" "ms_inv m'" by blast
    with Cons.IH [OF m'(2)] show ?case by auto
  qed simp
  have "find_end b sz 0 \<le> sz" if "length b = sz" for b using that find_end_result [of sz b 0] length_cstr_le [of "take sz b"] by simp
  then have "ms_inv m" using assms by (auto simp: fmemopen_def Let_def ms_inv_def split: if_splits option.splits)
  then show ?thesis by (rule run)
qed

theorem memstream_safe_witness:
  "\<exists>m outs m'. fmemopen True True ''abc'' None None 3 ''w+b'' = Inr m \<and> ms_run [Put ''abcd'', Go (-1) SEEK_END, Get 5] m = Inr (outs, m') \<and> ms_inv m'"
proof -
  have "type_to_flags ''w+b'' = {MS_READ, MS_WRITE, MS_TRUNCATE}" by (auto simp: type_to_flags_def cstr_def)
  then obtain m where m: "fmemopen True True ''abc'' None None 3 ''w+b'' = Inr m" by (simp add: fmemopen_def)
  from memstream_safe [OF m, of "[Put ''abcd'', Go (-1) SEEK_END, Get 5]"] m show ?thesis by auto
qed

text \<open>A write in write-only mode at the end of the stream, with room left for the null.\<close>

lemma mstream_write_end:
  assumes inv: "ms_inv m" and fl: "MS_READ \<notin> flags m" "flags m \<inter> {MS_APPEND, MS_WRITE} \<noteq> {}"
    and e: "curpos m = vsize m" "vsize m + length s < rsize m"
  obtains m' where "mstream_write m s = Inr (int (length s), 0, m')" "ms_inv m'" "flags m' = flags m" "rsize m' = rsize m"
    "curpos m' = vsize m'" "vsize m' = vsize m + length s" "take (vsize m') (mbuf m') = take (vsize m) (mbuf m) @ s"
    "mbuf m' ! vsize m' = NUL" "length (mbuf m') = length (mbuf m)"
proof -
  have l: "rsize m = length (mbuf m)" using inv by (simp add: ms_inv_def)
  have d: "take (rsize m - vsize m) s = s" using e(2) by simp
  have c: "mstream_copy m s = Inr (int (length s), m\<lparr>mbuf := splice (mbuf m) (vsize m) s, curpos := vsize m + length s\<rparr>)"
    using mstream_copy_ok(1) [OF inv, where buf = s] unfolding e(1) if_cancel d .
  let ?b = "splice (mbuf m) (vsize m) s"
  let ?m = "m\<lparr>mbuf := ?b[vsize m + length s := NUL], curpos := vsize m + length s, vsize := vsize m + length s\<rparr>"
  have lb: "length ?b = rsize m" "length (splice (mbuf m) (vsize m) []) = rsize m" using e(2) l by (simp_all add: length_splice_in)
  have "flags m \<inter> {MS_WRITE, MS_APPEND} \<noteq> {}" using fl(2) by blast
  then have w: "mstream_write m s = Inr (int (length s), 0, ?m)"
    using fl e lb by (simp add: mstream_write_def c mstream_grow_def mstream_end_def put_nul_def Let_def)
  have "take (vsize m + length s) (?b[vsize m + length s := NUL]) = take (vsize m) (mbuf m) @ s"
    using e(2) l by (simp add: splice_def)
  moreover have "ms_inv ?m" using inv e(2) lb by (auto simp: ms_inv_def)
  moreover have "?b[vsize m + length s := NUL] ! (vsize m + length s) = NUL" using e(2) lb by simp
  ultimately show ?thesis using w lb(1) l by (intro that [of ?m]) simp_all
qed

lemma mstream_writes_end:
  assumes "ms_inv m" "MS_READ \<notin> flags m" "flags m \<inter> {MS_APPEND, MS_WRITE} \<noteq> {}" "curpos m = vsize m"
    and "vsize m + length (concat ss) < rsize m" "ss \<noteq> []"
  shows "\<exists>m'. ms_run (map Put ss) m = Inr (map (\<lambda>s. (int (length s), 0, [])) ss, m') \<and> ms_inv m'
    \<and> take (vsize m') (mbuf m') = take (vsize m) (mbuf m) @ concat ss \<and> vsize m' < rsize m' \<and> mbuf m' ! vsize m' = NUL
    \<and> length (mbuf m') = length (mbuf m)"
  using assms
proof (induction ss arbitrary: m)
  case (Cons s ss)
  from Cons.prems(5) have "vsize m + length s < rsize m" by simp
  from mstream_write_end [OF Cons.prems(1-4) this] obtain m' where m': "mstream_write m s = Inr (int (length s), 0, m')" "ms_inv m'"
    "flags m' = flags m" "rsize m' = rsize m" "curpos m' = vsize m'" "vsize m' = vsize m + length s"
    "take (vsize m') (mbuf m') = take (vsize m) (mbuf m) @ s" "mbuf m' ! vsize m' = NUL" "length (mbuf m') = length (mbuf m)" by metis
  show ?case
  proof (cases "ss = []")
    case True
    then show ?thesis using m' Cons.prems(5) by simp
  next
    case False
    from Cons.IH [OF m'(2) _ _ m'(5) _ False] m'(3,4,6) Cons.prems(2,3,5) obtain m2 where
      "ms_run (map Put ss) m' = Inr (map (\<lambda>s. (int (length s), 0, [])) ss, m2)" "ms_inv m2"
      "take (vsize m2) (mbuf m2) = take (vsize m') (mbuf m') @ concat ss" "vsize m2 < rsize m2" "mbuf m2 ! vsize m2 = NUL" "length (mbuf m2) = length (mbuf m')" by auto
    then show ?thesis using m'(1,7,9) by simp
  qed
qed simp

text \<open>After any writes to a stream opened for writing or appending that leave room for the null, the buffer
  is the C string of what was there (nothing, or the old string when appending) followed by what was
  written.\<close>

theorem memstream_text:
  assumes "type \<in> {''w'', ''a''}" "length b < 2 ^ 31" "ss \<noteq> []" "NUL \<notin> set (concat ss)"
    and "length (if type = ''a'' then cstr b else []) + length (concat ss) < length b"
  shows "\<exists>m m'. fmemopen True mem' fresh None (Some b) (length b) type = Inr m
    \<and> ms_run (map Put ss) m = Inr (map (\<lambda>s. (int (length s), 0, [])) ss, m')
    \<and> length (mbuf m') = length b \<and> cstr (mbuf m') = (if type = ''a'' then cstr b else []) @ concat ss"
proof -
  have ty: "type \<in> {''r+'', ''w+'', ''a+'', ''w'', ''a''}" "b \<noteq> []" using assms(1,5) by auto
  obtain m where m: "fmemopen True mem' fresh None (Some b) (length b) type = Inr m" "ms_inv m" "ms_abs m = ms_start type b"
    "flags m = type_to_flags type" "rsize m = length b" by (rule fmemopen_start [OF ty assms(2)])
  have t: "type = ''w'' \<or> type = ''a''" using assms(1) by blast
  let ?c = "if type = ''a'' then cstr b else []"
  have st: "ms_start type b = (?c, length ?c)" using t by (elim disjE) (simp_all add: ms_start_def)
  have f: "MS_READ \<notin> flags m" "flags m \<inter> {MS_APPEND, MS_WRITE} \<noteq> {}"
    using t unfolding m(4) by (elim disjE; simp only: type_to_flags_modes; simp)+
  have "take (vsize m) (mbuf m) = ?c" "curpos m = length ?c" using m(3) st by (simp_all add: ms_abs_def)
  moreover have "length (take (vsize m) (mbuf m)) = vsize m" using m(2) by (simp add: ms_inv_def)
  ultimately have c: "take (vsize m) (mbuf m) = ?c" "curpos m = vsize m" "vsize m = length ?c" by argo+
  have "vsize m + length (concat ss) < rsize m" using assms(5) c(3) m(5) by simp
  from mstream_writes_end [OF m(2) f c(2) this assms(3)] obtain m' where m':
    "ms_run (map Put ss) m = Inr (map (\<lambda>s. (int (length s), 0, [])) ss, m')" "ms_inv m'"
    "take (vsize m') (mbuf m') = ?c @ concat ss" "vsize m' < rsize m'" "mbuf m' ! vsize m' = NUL" "length (mbuf m') = length (mbuf m)" using c(1) by auto
  have b: "mbuf m' = (?c @ concat ss) @ NUL # drop (Suc (vsize m')) (mbuf m')"
    using m'(2-5) id_take_nth_drop [of "vsize m'" "mbuf m'"] by (simp add: ms_inv_def)
  have "NUL \<notin> set (?c @ concat ss)" using assms(4) cstr_no_nul [of b] by auto
  from cstr_append_nul [OF this] b have "cstr (mbuf m') = ?c @ concat ss" by metis
  moreover have "length (mbuf m') = length b" using m'(6) m(2,5) by (simp add: ms_inv_def)
  ultimately show ?thesis using m(1) m'(1) by blast
qed

theorem memstream_text_witness:
  "\<exists>m m'. fmemopen True True [] None (Some (''ab'' @ replicate 6 NUL)) 8 ''a'' = Inr m
    \<and> ms_run [Put ''c'', Put ''de''] m = Inr ([(1, 0, []), (2, 0, [])], m') \<and> cstr (mbuf m') = ''abcde''"
proof -
  let ?b = "''ab'' @ replicate 6 NUL"
  have c: "cstr ?b = ''ab''" by (simp add: cstr_def numeral_eq_Suc)
  have "length (if ''a'' = ''a'' then cstr ?b else []) + length (concat [''c'', ''de'']) < length ?b" unfolding c by simp
  with memstream_text [of "''a''" ?b "[''c'', ''de'']" True "[]"] show ?thesis unfolding c by (auto simp del: ms_run.simps)
qed

end
