(* ===== verification/Semaph.thy ===== *)
theory Semaph imports Prelude begin

text \<open>
  The semaphores of lib/semaph.c on top of System V semaphore sets. Several processes run the functions
  at the same time; a step of a process is one system call, so the places between two calls of a function
  are the values of its program counter.
\<close>

section \<open>Semaphore sets\<close>

text \<open>An operation: the member, the amount and whether \<^verbatim>\<open>SEM_UNDO\<close> is set.\<close>

type_synonym sembuf = "nat \<times> int \<times> bool"

definition BIGCOUNT :: int where "BIGCOUNT = 10000"

definition op_lock :: "sembuf list" where "op_lock = [(2, 0, False), (2, 1, True)]"
definition op_endcreate :: "sembuf list" where "op_endcreate = [(1, -1, True), (2, -1, True)]"
definition op_open :: "sembuf list" where "op_open = [(1, -1, True)]"
definition op_close :: "sembuf list" where "op_close = [(2, 0, False), (2, 1, True), (1, 1, True)]"
definition op_unlock :: "sembuf list" where "op_unlock = [(2, -1, True)]"
definition op_op :: "int \<Rightarrow> sembuf list" where "op_op value = [(0, value, True)]"

text \<open>A set: the values of its members and, for each process, what its exit adds to them.\<close>

record semset =
  vals :: "nat \<Rightarrow> int"
  undo :: "nat \<Rightarrow> nat \<Rightarrow> int"

definition new_set :: semset where "new_set = \<lparr>vals = (\<lambda>_. 0), undo = (\<lambda>_ _. 0)\<rparr>"

text \<open>All operations happen or, when one of them has to wait, none.\<close>

fun sem_vals :: "sembuf list \<Rightarrow> (nat \<Rightarrow> int) \<Rightarrow> (nat \<Rightarrow> int) option" where
  "sem_vals [] v = Some v"
| "sem_vals ((n, d, u) # ops) v =
     (if d = 0 then (if v n = 0 then sem_vals ops v else None)
      else if 0 \<le> v n + d then sem_vals ops (v(n := v n + d)) else None)"

fun sem_undo :: "sembuf list \<Rightarrow> (nat \<Rightarrow> int) \<Rightarrow> nat \<Rightarrow> int" where
  "sem_undo [] a = a"
| "sem_undo ((n, d, u) # ops) a = sem_undo ops (if u then a(n := a n - d) else a)"

definition semop :: "nat \<Rightarrow> sembuf list \<Rightarrow> semset \<Rightarrow> semset option" where
  "semop p ops ss = (case sem_vals ops (vals ss) of
     None \<Rightarrow> None
   | Some v \<Rightarrow> Some \<lparr>vals = v, undo = (undo ss)(p := sem_undo ops (undo ss p))\<rparr>)"

text \<open>\<^verbatim>\<open>SETVAL\<close> also clears what exits would add.\<close>

definition setval :: "nat \<Rightarrow> int \<Rightarrow> semset \<Rightarrow> semset" where
  "setval n v ss = \<lparr>vals = (vals ss)(n := v), undo = (\<lambda>p. (undo ss p)(n := 0))\<rparr>"

section \<open>Processes\<close>

text \<open>Where a process is. \<open>Create_wait\<close> has found the lock taken, and waits in \<^verbatim>\<open>semop\<close>.\<close>

datatype pc =
    Idle | Ret int | Died string
  | Create int int | Create_lock int int nat | Create_wait int int nat | Create_get int nat | Create_set0 int nat
  | Create_set1 nat | Create_end nat
  | Open int | Open_dec nat
  | Close nat | Close_get nat | Close_rm nat | Close_unlock nat
  | Op nat int | Rm nat

text \<open>\<open>has p sid\<close> counts how often \<open>p\<close> has the semaphore \<open>sid\<close> open.\<close>

record sys =
  keys :: "int \<Rightarrow> nat option"
  sets :: "nat \<Rightarrow> semset option"
  next_id :: nat
  pcs :: "nat \<Rightarrow> pc"
  has :: "nat \<Rightarrow> nat \<Rightarrow> nat"

definition go :: "nat \<Rightarrow> pc \<Rightarrow> sys \<Rightarrow> sys" where
  "go p c s = s\<lparr>pcs := (pcs s)(p := c)\<rparr>"

definition put_set :: "nat \<Rightarrow> semset \<Rightarrow> sys \<Rightarrow> sys" where
  "put_set sid ss s = s\<lparr>sets := (sets s)(sid := Some ss)\<rparr>"

definition opened :: "nat \<Rightarrow> nat \<Rightarrow> sys \<Rightarrow> sys" where
  "opened p sid s = s\<lparr>has := (has s)(p := (has s p)(sid := has s p sid + 1))\<rparr>"

definition closed :: "nat \<Rightarrow> nat \<Rightarrow> sys \<Rightarrow> sys" where
  "closed p sid s = s\<lparr>has := (has s)(p := (has s p)(sid := has s p sid - 1))\<rparr>"

text \<open>The end of a process, its own or by \<^verbatim>\<open>err_sys\<close> and the like.\<close>

definition undone :: "nat \<Rightarrow> semset \<Rightarrow> semset" where
  "undone p ss = \<lparr>vals = (\<lambda>n. max 0 (vals ss n + undo ss p n)), undo = (undo ss)(p := \<lambda>_. 0)\<rparr>"

definition sem_exit :: "nat \<Rightarrow> string \<Rightarrow> sys \<Rightarrow> sys" where
  "sem_exit p m s = s\<lparr>sets := (\<lambda>sid. map_option (undone p) (sets s sid)), pcs := (pcs s)(p := Died m), has := (has s)(p := \<lambda>_. 0)\<rparr>"

definition removed :: "nat \<Rightarrow> sys \<Rightarrow> sys" where
  "removed sid s = s\<lparr>sets := (sets s)(sid := None), keys := (\<lambda>k. if keys s k = Some sid then None else keys s k)\<rparr>"

text \<open>A system call on a set: what follows when the set does not exist, and when the call does not wait.\<close>

definition on_set :: "nat \<Rightarrow> sys \<Rightarrow> sys option \<Rightarrow> (semset \<Rightarrow> semset option) \<Rightarrow> (sys \<Rightarrow> sys) \<Rightarrow> sys option" where
  "on_set sid s gone f after =
     (case sets s sid of None \<Rightarrow> gone | Some ss \<Rightarrow> map_option (\<lambda>ss. after (put_set sid ss s)) (f ss))"

definition IPC_PRIVATE :: int where "IPC_PRIVATE = 0"

definition bad_key :: "int \<Rightarrow> bool" where
  "bad_key key \<longleftrightarrow> key = IPC_PRIVATE \<or> key = -1"

definition create_step :: "bool \<Rightarrow> nat \<Rightarrow> int \<Rightarrow> int \<Rightarrow> sys \<Rightarrow> sys" where
  "create_step ok p key initval s =
     (if bad_key key \<or> \<not> ok then go p (Ret (-1)) s
      else case keys s key of
        Some sid \<Rightarrow> go p (Create_lock key initval sid) s
      | None \<Rightarrow> go p (Create_lock key initval (next_id s))
          (s\<lparr>keys := (keys s)(key := Some (next_id s)), sets := (sets s)(next_id s := Some new_set), next_id := next_id s + 1\<rparr>))"

text \<open>The next call of a process in each of the functions; \<open>None\<close> when it waits. \<open>ok\<close> tells whether
  \<^verbatim>\<open>semget\<close> succeeds where it can.\<close>

definition sem_create :: "bool \<Rightarrow> nat \<Rightarrow> pc \<Rightarrow> sys \<Rightarrow> sys option" where
  "sem_create ok p c s =
     (case c of
        Create key initval \<Rightarrow> Some (create_step ok p key initval s)
      | Create_lock key initval sid \<Rightarrow>
          (case sets s sid of
             None \<Rightarrow> Some (go p (Create key initval) s)
           | Some ss \<Rightarrow>
               (case semop p op_lock ss of
                  None \<Rightarrow> Some (go p (Create_wait key initval sid) s)
                | Some ss \<Rightarrow> Some (go p (Create_get initval sid) (put_set sid ss s))))
      | Create_wait key initval sid \<Rightarrow>
          on_set sid s (Some (sem_exit p ''can't lock'' s)) (semop p op_lock) (go p (Create_get initval sid))
      | Create_get initval sid \<Rightarrow>
          (case sets s sid of
             None \<Rightarrow> Some (sem_exit p ''can't GETVAL'' s)
           | Some ss \<Rightarrow> Some (go p (if vals ss 1 = 0 then Create_set0 initval sid else Create_end sid) s))
      | Create_set0 initval sid \<Rightarrow>
          on_set sid s (Some (sem_exit p ''can SETVAL[0]'' s)) (\<lambda>ss. Some (setval 0 initval ss)) (go p (Create_set1 sid))
      | Create_set1 sid \<Rightarrow>
          on_set sid s (Some (sem_exit p ''can SETVAL[1]'' s)) (\<lambda>ss. Some (setval 1 BIGCOUNT ss)) (go p (Create_end sid))
      | Create_end sid \<Rightarrow>
          on_set sid s (Some (sem_exit p ''can't end create'' s)) (semop p op_endcreate) (\<lambda>s. opened p sid (go p (Ret (int sid)) s))
      | _ \<Rightarrow> None)"

definition sem_open :: "bool \<Rightarrow> nat \<Rightarrow> pc \<Rightarrow> sys \<Rightarrow> sys option" where
  "sem_open ok p c s =
     (case c of
        Open key \<Rightarrow>
          if bad_key key \<or> \<not> ok then Some (go p (Ret (-1)) s)
          else (case keys s key of None \<Rightarrow> Some (go p (Ret (-1)) s) | Some sid \<Rightarrow> Some (go p (Open_dec sid) s))
      | Open_dec sid \<Rightarrow>
          on_set sid s (Some (sem_exit p ''can't open'' s)) (semop p op_open) (\<lambda>s. opened p sid (go p (Ret (int sid)) s))
      | _ \<Rightarrow> None)"

definition sem_rm :: "nat \<Rightarrow> nat \<Rightarrow> sys \<Rightarrow> sys option" where
  "sem_rm p sid s =
     (case sets s sid of
        None \<Rightarrow> Some (sem_exit p ''can't IPC_RMID'' s) | Some ss \<Rightarrow> Some (go p (Ret 0) (removed sid s)))"

definition sem_close :: "nat \<Rightarrow> pc \<Rightarrow> sys \<Rightarrow> sys option" where
  "sem_close p c s =
     (case c of
        Close sid \<Rightarrow>
          on_set sid s (Some (sem_exit p ''can't semop'' s)) (semop p op_close) (\<lambda>s. closed p sid (go p (Close_get sid) s))
      | Close_get sid \<Rightarrow>
          (case sets s sid of
             None \<Rightarrow> Some (sem_exit p ''can't GETVAL'' s)
           | Some ss \<Rightarrow>
               if BIGCOUNT < vals ss 1 then Some (sem_exit p ''sem[1] > BIGCOUNT'' s)
               else Some (go p (if vals ss 1 = BIGCOUNT then Close_rm sid else Close_unlock sid) s))
      | Close_rm sid \<Rightarrow> sem_rm p sid s
      | Close_unlock sid \<Rightarrow>
          on_set sid s (Some (sem_exit p ''can't unlock'' s)) (semop p op_unlock) (go p (Ret 0))
      | _ \<Rightarrow> None)"

definition sem_op :: "nat \<Rightarrow> nat \<Rightarrow> int \<Rightarrow> sys \<Rightarrow> sys option" where
  "sem_op p sid value s =
     (if value = 0 then Some (sem_exit p ''can't have value == 0'' s)
      else on_set sid s (Some (sem_exit p ''sem_op error'' s)) (semop p (op_op value)) (go p (Ret 0)))"

definition sem_step :: "bool \<Rightarrow> nat \<Rightarrow> sys \<Rightarrow> sys option" where
  "sem_step ok p s =
     (case pcs s p of
        Open key \<Rightarrow> sem_open ok p (pcs s p) s | Open_dec sid \<Rightarrow> sem_open ok p (pcs s p) s
      | Close sid \<Rightarrow> sem_close p (pcs s p) s | Close_get sid \<Rightarrow> sem_close p (pcs s p) s
      | Close_rm sid \<Rightarrow> sem_close p (pcs s p) s | Close_unlock sid \<Rightarrow> sem_close p (pcs s p) s
      | Op sid value \<Rightarrow> sem_op p sid value s
      | Rm sid \<Rightarrow> sem_rm p sid s
      | c \<Rightarrow> sem_create ok p c s)"

lemmas sem_step_defs = sem_step_def sem_create_def sem_open_def sem_close_def sem_op_def sem_rm_def

text \<open>A run: a process calls a function, takes a step, or exits. \<^verbatim>\<open>sem_wait\<close> and \<^verbatim>\<open>sem_signal\<close> are
  \<open>Op sid (-1)\<close> and \<open>Op sid 1\<close>.\<close>

definition sem_wait :: "nat \<Rightarrow> pc" where "sem_wait sid = Op sid (-1)"
definition sem_signal :: "nat \<Rightarrow> pc" where "sem_signal sid = Op sid 1"

datatype sem_act = Calls nat pc | Steps nat | Exits nat

fun sem_run :: "sem_act list \<Rightarrow> sys \<Rightarrow> sys option" where
  "sem_run [] s = Some s"
| "sem_run (Calls p c # as) s = sem_run as (go p c s)"
| "sem_run (Steps p # as) s = (case sem_step True p s of None \<Rightarrow> None | Some s \<Rightarrow> sem_run as s)"
| "sem_run (Exits p # as) s = sem_run as (sem_exit p ''exit'' s)"

definition sem_start :: sys where
  "sem_start = \<lparr>keys = (\<lambda>_. None), sets = (\<lambda>_. None), next_id = 0, pcs = (\<lambda>_. Idle), has = (\<lambda>_ _. 0)\<rparr>"

text \<open>A process may start a call when it is in none. Here all users create the semaphore before they use it, and close
  it at most as often as they opened it.\<close>

definition may_call :: "nat \<Rightarrow> pc \<Rightarrow> sys \<Rightarrow> bool" where
  "may_call p c s \<longleftrightarrow> (pcs s p = Idle \<or> (\<exists>r. pcs s p = Ret r))
     \<and> (case c of Create key initval \<Rightarrow> True | Close sid \<Rightarrow> 0 < has s p sid | Op sid value \<Rightarrow> 0 < has s p sid | _ \<Rightarrow> False)"

definition users :: "nat \<Rightarrow> sys \<Rightarrow> nat \<Rightarrow> int" where
  "users N s sid = (\<Sum>p<N. int (has s p sid))"

inductive sem_reach :: "nat \<Rightarrow> sys \<Rightarrow> bool" for N :: nat where
  start: "sem_reach N sem_start"
| call: "sem_reach N s \<Longrightarrow> p < N \<Longrightarrow> may_call p c s \<Longrightarrow> sem_reach N (go p c s)"
| step: "sem_reach N s \<Longrightarrow> p < N \<Longrightarrow> sem_step ok p s = Some s' \<Longrightarrow> (\<forall>sid. users N s' sid < BIGCOUNT) \<Longrightarrow> sem_reach N s'"
| exits: "sem_reach N s \<Longrightarrow> p < N \<Longrightarrow> sem_reach N (sem_exit p m s)"

section \<open>The invariant\<close>

text \<open>A process holds the lock of a set between taking and releasing it.\<close>

fun holds_lock :: "pc \<Rightarrow> nat \<Rightarrow> bool" where
  "holds_lock (Create_get i sid) sid' \<longleftrightarrow> sid = sid'"
| "holds_lock (Create_set0 i sid) sid' \<longleftrightarrow> sid = sid'"
| "holds_lock (Create_set1 sid) sid' \<longleftrightarrow> sid = sid'"
| "holds_lock (Create_end sid) sid' \<longleftrightarrow> sid = sid'"
| "holds_lock (Close_get sid) sid' \<longleftrightarrow> sid = sid'"
| "holds_lock (Close_rm sid) sid' \<longleftrightarrow> sid = sid'"
| "holds_lock (Close_unlock sid) sid' \<longleftrightarrow> sid = sid'"
| "holds_lock _ sid' \<longleftrightarrow> False"

fun initializing :: "pc \<Rightarrow> nat \<Rightarrow> bool" where
  "initializing (Create_set0 i sid) sid' \<longleftrightarrow> sid = sid'"
| "initializing (Create_set1 sid) sid' \<longleftrightarrow> sid = sid'"
| "initializing _ sid' \<longleftrightarrow> False"

text \<open>One set: \<open>P\<close> are the program counters, \<open>h\<close> how often each process has it open.\<close>

definition set_ok :: "nat \<Rightarrow> (nat \<Rightarrow> pc) \<Rightarrow> (nat \<Rightarrow> nat) \<Rightarrow> nat \<Rightarrow> semset \<Rightarrow> bool" where
  "set_ok N P h sid ss \<longleftrightarrow>
     (\<forall>p. undo ss p 1 = int (h p)) \<and> (\<forall>p. undo ss p 2 = (if holds_lock (P p) sid then -1 else 0))
     \<and> vals ss 2 = (if \<exists>p. holds_lock (P p) sid then 1 else 0)
     \<and> (\<forall>p q. holds_lock (P p) sid \<longrightarrow> holds_lock (P q) sid \<longrightarrow> p = q)
     \<and> (vals ss 1 = BIGCOUNT - (\<Sum>p<N. int (h p)) \<or> vals ss 1 = 0 \<and> (\<Sum>p<N. int (h p)) = 0)
     \<and> (\<forall>p. initializing (P p) sid \<longrightarrow> vals ss 1 = 0) \<and> (\<forall>p. P p = Close_rm sid \<longrightarrow> vals ss 1 = BIGCOUNT)
     \<and> (\<forall>p. P p = Create_end sid \<longrightarrow> 0 < vals ss 1)
     \<and> (\<Sum>p<N. int (h p)) < BIGCOUNT \<and> (\<forall>p \<ge> N. h p = 0)"

lemma initializing_holds: "initializing c sid \<Longrightarrow> holds_lock c sid"
  by (cases c) auto

lemma sum_upd:
  fixes p N :: nat
  shows "p < N \<Longrightarrow> (\<Sum>q<N. int ((h(p := k)) q)) = (\<Sum>q<N. int (h q)) - int (h p) + int k"
proof -
  assume "p < N"
  then have "(\<Sum>q<N. int (g q)) = int (g p) + (\<Sum>q\<in>{..<N} - {p}. int (g q))" for g by (intro sum.remove) auto
  moreover have "(\<Sum>q\<in>{..<N} - {p}. int ((h(p := k)) q)) = (\<Sum>q\<in>{..<N} - {p}. int (h q))" by (intro sum.cong) auto
  ultimately show ?thesis by (metis add.commute add_diff_cancel_left' fun_upd_same)
qed

text \<open>How each kind of call keeps the set in order.\<close>

lemma set_ok_lock:
  assumes "set_ok N P h sid ss" "semop p op_lock ss = Some ss'"
  shows "set_ok N (P(p := Create_get i sid)) h sid ss'"
proof -
  have v: "vals ss 2 = 0" "ss' = \<lparr>vals = (vals ss)(2 := 1), undo = (undo ss)(p := (undo ss p)(2 := undo ss p 2 - 1))\<rparr>"
    using assms(2) by (auto simp: semop_def op_lock_def split: if_splits)
  have n: "\<not> holds_lock (P q) sid" for q using assms(1) v(1) by (auto simp: set_ok_def split: if_splits)
  have "\<not> initializing (P q) sid" "P q \<noteq> Close_rm sid" "P q \<noteq> Create_end sid" for q using n [of q] initializing_holds by auto
  with assms(1) n show ?thesis by (auto simp: set_ok_def v(2))
qed

lemma set_ok_close:
  assumes "set_ok N P h sid ss" "semop p op_close ss = Some ss'" "0 < h p" "p < N"
  shows "set_ok N (P(p := Close_get sid)) (h(p := h p - 1)) sid ss'"
proof -
  have v: "vals ss 2 = 0" "ss' = \<lparr>vals = (vals ss)(2 := 1, 1 := vals ss 1 + 1),
      undo = (undo ss)(p := (undo ss p)(2 := undo ss p 2 - 1, 1 := undo ss p 1 - 1))\<rparr>"
    using assms(2) by (auto simp: semop_def op_close_def split: if_splits)
  have n: "\<not> holds_lock (P q) sid" for q using assms(1) v(1) by (auto simp: set_ok_def split: if_splits)
  have i: "\<not> initializing (P q) sid" "P q \<noteq> Close_rm sid" "P q \<noteq> Create_end sid" for q using n [of q] initializing_holds by auto
  have s: "(\<Sum>q<N. int ((h(p := h p - 1)) q)) = (\<Sum>q<N. int (h q)) - 1"
    using assms(3) sum_upd [OF assms(4), of h "h p - 1"] by (simp add: of_nat_diff)
  have "int (h p) \<le> (\<Sum>q<N. int (h q))" using assms(4) by (intro member_le_sum) auto
  then have e: "vals ss 1 = BIGCOUNT - (\<Sum>q<N. int (h q))" using assms(1,3) by (auto simp: set_ok_def)
  show ?thesis using assms(1,3) n i e unfolding set_ok_def s v(2) by (auto simp: of_nat_diff)
qed

lemma set_ok_endcreate:
  assumes "set_ok N P h sid ss" "semop p op_endcreate ss = Some ss'" "P p = Create_end sid" "p < N"
    and "(\<Sum>q<N. int ((h(p := h p + 1)) q)) < BIGCOUNT"
  shows "set_ok N (P(p := Ret r)) (h(p := h p + 1)) sid ss'"
proof -
  have v: "1 \<le> vals ss 1" "ss' = \<lparr>vals = (vals ss)(1 := vals ss 1 - 1, 2 := vals ss 2 - 1),
      undo = (undo ss)(p := (undo ss p)(1 := undo ss p 1 + 1, 2 := undo ss p 2 + 1))\<rparr>"
    using assms(2) by (auto simp: semop_def op_endcreate_def split: if_splits)
  have only: "holds_lock (P q) sid \<longleftrightarrow> q = p" for q using assms(1,3) by (auto simp: set_ok_def)
  have i: "\<not> initializing (P q) sid" "P q \<noteq> Close_rm sid" "q \<noteq> p \<Longrightarrow> P q \<noteq> Create_end sid" for q
    using only [of q] initializing_holds assms(3) by (cases "q = p"; force)+
  have s: "(\<Sum>q<N. int ((h(p := h p + 1)) q)) = (\<Sum>q<N. int (h q)) + 1" using sum_upd [OF assms(4), of h "h p + 1"] by simp
  have "vals ss 2 = 1" using assms(1) only by (auto simp: set_ok_def)
  then show ?thesis using assms(1,4,5) v(1) only i unfolding set_ok_def s v(2) by auto
qed

lemma set_ok_unlock:
  assumes "set_ok N P h sid ss" "semop p op_unlock ss = Some ss'" "P p = Close_unlock sid"
  shows "set_ok N (P(p := Ret r)) h sid ss'"
proof -
  have v: "ss' = \<lparr>vals = (vals ss)(2 := vals ss 2 - 1), undo = (undo ss)(p := (undo ss p)(2 := undo ss p 2 + 1))\<rparr>"
    using assms(2) by (auto simp: semop_def op_unlock_def split: if_splits)
  have only: "holds_lock (P q) sid \<longleftrightarrow> q = p" for q using assms(1,3) by (auto simp: set_ok_def)
  have i: "\<not> initializing (P q) sid" "P q \<noteq> Close_rm sid" "q \<noteq> p \<Longrightarrow> P q \<noteq> Create_end sid" for q
    using only [of q] initializing_holds assms(3) by (cases "q = p"; force)+
  have "vals ss 2 = 1" using assms(1) only by (auto simp: set_ok_def)
  then show ?thesis using assms(1) only i by (auto simp: set_ok_def v)
qed

text \<open>A change of member 0 only, and a move of the process that matters to nobody.\<close>

lemma set_ok_pc:
  assumes "set_ok N P h sid ss" "holds_lock c sid = holds_lock (P p) sid" "initializing c sid \<longrightarrow> vals ss 1 = 0"
    and "c = Close_rm sid \<longrightarrow> vals ss 1 = BIGCOUNT" "c = Create_end sid \<longrightarrow> 0 < vals ss 1"
    and "vals ss' 1 = vals ss 1" "vals ss' 2 = vals ss 2" "\<forall>q. undo ss' q 1 = undo ss q 1 \<and> undo ss' q 2 = undo ss q 2"
  shows "set_ok N (P(p := c)) h sid ss'"
proof -
  have h: "holds_lock ((P(p := c)) q) sid = holds_lock (P q) sid" for q using assms(2) by simp
  have "(initializing ((P(p := c)) q) sid \<longrightarrow> vals ss 1 = 0) \<and> ((P(p := c)) q = Close_rm sid \<longrightarrow> vals ss 1 = BIGCOUNT)
      \<and> ((P(p := c)) q = Create_end sid \<longrightarrow> 0 < vals ss 1)" for q
  proof (cases "q = p")
    case False
    then have "(P(p := c)) q = P q" by simp
    then show ?thesis using assms(1) unfolding set_ok_def by metis
  qed (use assms(3-5) in simp)
  then show ?thesis using assms(1,6-8) unfolding set_ok_def h by simp
qed

lemma set_ok_setval1:
  assumes "set_ok N P h sid ss" "P p = Create_set1 sid"
  shows "set_ok N (P(p := Create_end sid)) h sid (setval 1 BIGCOUNT ss)"
proof -
  have only: "holds_lock (P q) sid \<longleftrightarrow> q = p" for q using assms by (auto simp: set_ok_def)
  have i: "q \<noteq> p \<Longrightarrow> \<not> initializing (P q) sid" "P q \<noteq> Close_rm sid" "P q \<noteq> Create_end sid" for q
    using only [of q] initializing_holds assms(2) by (cases "q = p"; force)+
  have "initializing (P p) sid" using assms(2) by simp
  then have "vals ss 1 = 0" using assms(1) unfolding set_ok_def by blast
  then have u: "(\<Sum>q<N. int (h q)) = 0" using assms(1) by (auto simp: set_ok_def)
  then have "h q = 0" for q using assms(1) by (cases "q < N") (auto simp: set_ok_def sum_nonneg_eq_0_iff)
  then show ?thesis using assms only i u by (auto simp: set_ok_def setval_def BIGCOUNT_def)
qed

lemma set_ok_exit:
  assumes "set_ok N P h sid ss" "p < N"
  shows "set_ok N (P(p := Died m)) (h(p := 0)) sid (undone p ss)"
proof -
  have s: "(\<Sum>q<N. int ((h(p := 0)) q)) = (\<Sum>q<N. int (h q)) - int (h p)" using sum_upd [OF assms(2), of h 0] by simp
  have le: "int (h p) \<le> (\<Sum>q<N. int (h q))" using assms(2) by (intro member_le_sum) auto
  from assms(1) have ok: "undo ss q 1 = int (h q)" "undo ss q 2 = (if holds_lock (P q) sid then -1 else 0)"
    "vals ss 2 = (if \<exists>q. holds_lock (P q) sid then 1 else 0)" "holds_lock (P q) sid \<Longrightarrow> holds_lock (P q') sid \<Longrightarrow> q = q'"
    "vals ss 1 = BIGCOUNT - (\<Sum>q<N. int (h q)) \<or> vals ss 1 = 0 \<and> (\<Sum>q<N. int (h q)) = 0"
    "initializing (P q) sid \<Longrightarrow> vals ss 1 = 0" "P q = Close_rm sid \<Longrightarrow> vals ss 1 = BIGCOUNT" "P q = Create_end sid \<Longrightarrow> 0 < vals ss 1"
    "(\<Sum>q<N. int (h q)) < BIGCOUNT" "q \<ge> N \<Longrightarrow> h q = 0" for q q'
    unfolding set_ok_def by blast+
  have v2: "vals (undone p ss) 2 = (if \<exists>q. holds_lock ((P(p := Died m)) q) sid then 1 else 0)"
  proof (cases "holds_lock (P p) sid")
    case True
    then have "\<not> holds_lock ((P(p := Died m)) q) sid" for q using ok(4) [of p q] by auto
    with True ok(2) [of p] ok(3) show ?thesis by (auto simp: undone_def)
  next
    case False
    then have "holds_lock ((P(p := Died m)) q) sid \<longleftrightarrow> holds_lock (P q) sid" for q by auto
    with False ok(2) [of p] ok(3) show ?thesis by (simp add: undone_def)
  qed
  have v1: "vals (undone p ss) 1 = vals ss 1 + int (h p)" using ok(1) [of p] ok(5,9) by (auto simp: undone_def)
  have z: "vals ss 1 = 0 \<or> vals ss 1 = BIGCOUNT \<Longrightarrow> h p = 0" using ok(5,9) le by (auto simp: BIGCOUNT_def)
  show ?thesis unfolding set_ok_def s v1 v2
  proof (intro conjI)
    show "vals ss 1 + int (h p) = BIGCOUNT - ((\<Sum>q<N. int (h q)) - int (h p))
        \<or> vals ss 1 + int (h p) = 0 \<and> (\<Sum>q<N. int (h q)) - int (h p) = 0" using ok(5) le by auto
  qed (use ok z in \<open>auto simp: undone_def intro: add_pos_nonneg\<close>)
qed

definition sem_inv :: "nat \<Rightarrow> sys \<Rightarrow> bool" where
  "sem_inv N s \<longleftrightarrow>
     (\<forall>sid ss. sets s sid = Some ss \<longrightarrow> sid < next_id s \<and> set_ok N (pcs s) (\<lambda>p. has s p sid) sid ss)
     \<and> (\<forall>sid. sets s sid = None \<longrightarrow> (\<forall>p. has s p sid = 0 \<and> \<not> holds_lock (pcs s p) sid))
     \<and> (\<forall>p sid key. (pcs s p = Close sid \<longrightarrow> 0 < has s p sid) \<and> pcs s p \<noteq> Open key \<and> pcs s p \<noteq> Open_dec sid \<and> pcs s p \<noteq> Rm sid)"

lemma set_ok_other:
  assumes "set_ok N P h sid ss" "\<not> holds_lock (P p) sid" "\<not> holds_lock c sid"
  shows "set_ok N (P(p := c)) h sid ss"
  using set_ok_pc [OF assms(1), of c p ss] assms(2,3) initializing_holds [of c sid] by fastforce

text \<open>A call on one set.\<close>

lemma inv_set:
  assumes inv: "sem_inv N s" and old: "sets s sid \<noteq> None"
    and s': "sets s' = (sets s)(sid := Some ss')" "pcs s' = (pcs s)(p := c)" "next_id s' = next_id s"
      "\<forall>q x. has s' q x \<noteq> has s q x \<longrightarrow> q = p \<and> x = sid"
    and c: "\<forall>x. holds_lock (pcs s p) x \<longrightarrow> x = sid" "\<forall>x. holds_lock c x \<longrightarrow> x = sid"
      "\<forall>x key. c \<noteq> Close x \<and> c \<noteq> Open key \<and> c \<noteq> Open_dec x \<and> c \<noteq> Rm x"
    and ok: "set_ok N (pcs s') (\<lambda>q. has s' q sid) sid ss'"
  shows "sem_inv N s'"
proof -
  have "x < next_id s' \<and> set_ok N (pcs s') (\<lambda>q. has s' q x) x ss" if x: "sets s' x = Some ss" for x ss
  proof (cases "x = sid")
    case True
    with x s'(1,3) ok old inv show ?thesis by (auto simp: sem_inv_def)
  next
    case False
    then have "sets s x = Some ss" "(\<lambda>q. has s' q x) = (\<lambda>q. has s q x)" using x s'(1,4) by auto
    with inv False c(1,2) show ?thesis unfolding s'(2,3) sem_inv_def by (auto intro!: set_ok_other)
  qed
  moreover have "has s' q x = 0 \<and> \<not> holds_lock (pcs s' q) x" if "sets s' x = None" for q x
  proof -
    have "x \<noteq> sid" "sets s x = None" using that s'(1) by (auto split: if_splits)
    with inv s'(4) c(2) show ?thesis unfolding s'(2) sem_inv_def by (metis fun_upd_apply)
  qed
  moreover have "(pcs s' q = Close x \<longrightarrow> 0 < has s' q x) \<and> pcs s' q \<noteq> Open key \<and> pcs s' q \<noteq> Open_dec x \<and> pcs s' q \<noteq> Rm x" for q x key
  proof (cases "q = p")
    case True
    then show ?thesis using c(3) by (simp add: s'(2))
  next
    case False
    then have "has s' q x = has s q x" using s'(4) by blast
    then show ?thesis using inv False by (simp add: s'(2) sem_inv_def)
  qed
  ultimately show ?thesis unfolding sem_inv_def by blast
qed

text \<open>A step that touches no set, of a process without a lock.\<close>

lemma inv_go:
  assumes "sem_inv N s" "\<forall>x. \<not> holds_lock (pcs s p) x" "\<forall>x. \<not> holds_lock c x"
    "\<forall>x key. (c = Close x \<longrightarrow> 0 < has s p x) \<and> c \<noteq> Open key \<and> c \<noteq> Open_dec x \<and> c \<noteq> Rm x"
  shows "sem_inv N (go p c s)"
  using assms unfolding sem_inv_def go_def by (auto intro!: set_ok_other)

lemma inv_exit:
  assumes inv: "sem_inv N s" and p: "p < N"
  shows "sem_inv N (sem_exit p m s)"
proof -
  have h: "(\<lambda>q. has (sem_exit p m s) q x) = (\<lambda>q. has s q x)(p := 0)" for x by (auto simp: sem_exit_def)
  have P: "pcs (sem_exit p m s) = (pcs s)(p := Died m)" "sets (sem_exit p m s) x = map_option (undone p) (sets s x)"
    "next_id (sem_exit p m s) = next_id s" for x by (simp_all add: sem_exit_def)
  have "x < next_id s \<and> set_ok N ((pcs s)(p := Died m)) ((\<lambda>q. has s q x)(p := 0)) x ss" if "map_option (undone p) (sets s x) = Some ss" for x ss
    using that inv set_ok_exit [OF _ p] by (auto simp: sem_inv_def)
  then show ?thesis using inv unfolding sem_inv_def P h
    by (auto simp: sem_exit_def)
qed

lemma inv_removed:
  assumes inv: "sem_inv N s" and p: "pcs s p = Close_rm sid"
  shows "sem_inv N (go p (Ret 0) (removed sid s))"
proof -
  have "holds_lock (pcs s p) sid" using p by simp
  with inv obtain ss where ss: "sets s sid = Some ss" unfolding sem_inv_def by (metis not_None_eq)
  then have ok: "set_ok N (pcs s) (\<lambda>q. has s q sid) sid ss" using inv by (simp add: sem_inv_def)
  then have "vals ss 1 = BIGCOUNT" using p unfolding set_ok_def by blast
  then have z: "(\<Sum>q<N. int (has s q sid)) = 0" using ok by (auto simp: set_ok_def BIGCOUNT_def)
  have "has s q sid = 0" for q using ok z by (cases "q < N") (auto simp: set_ok_def sum_nonneg_eq_0_iff)
  moreover have "holds_lock (pcs s q) sid \<Longrightarrow> q = p" for q using ok p unfolding set_ok_def by (metis holds_lock.simps(6))
  moreover have "\<not> holds_lock (pcs s p) x" if "x \<noteq> sid" for x using p that by simp
  ultimately show ?thesis using inv unfolding sem_inv_def
    by (auto simp: go_def removed_def intro!: set_ok_other)
qed

lemma inv_create:
  assumes inv: "sem_inv N s" and p: "pcs s p = Create key i"
  shows "sem_inv N (create_step ok p key i s)"
proof -
  have g: "sem_inv N (go p c s)" if "c = Ret (-1) \<or> (\<exists>sid. c = Create_lock key i sid)" for c
    using that by (intro inv_go [OF inv]) (auto simp: p)
  have n: "sets s (next_id s) = None" using inv unfolding sem_inv_def by (metis less_irrefl not_None_eq)
  have new: "set_ok N P (\<lambda>q. has s q (next_id s)) (next_id s) new_set" if "\<forall>q. \<not> holds_lock (P q) (next_id s)" for P
  proof -
    have "has s q (next_id s) = 0" for q using inv n by (simp add: sem_inv_def)
    moreover have "\<not> initializing (P q) (next_id s)" "P q \<noteq> Close_rm (next_id s)" "P q \<noteq> Create_end (next_id s)" for q
      using that [rule_format, of q] initializing_holds [of "P q"] by auto
    ultimately show ?thesis using that by (simp add: set_ok_def new_set_def BIGCOUNT_def)
  qed
  let ?s = "go p (Create_lock key i (next_id s))
    (s\<lparr>keys := (keys s)(key := Some (next_id s)), sets := (sets s)(next_id s := Some new_set), next_id := next_id s + 1\<rparr>)"
  have "sem_inv N ?s"
  proof -
    have "set_ok N ((pcs s)(p := Create_lock key i (next_id s))) (\<lambda>q. has s q (next_id s)) (next_id s) new_set"
      using inv n by (intro new) (simp add: sem_inv_def)
    then show ?thesis using inv p unfolding sem_inv_def go_def by (auto intro!: set_ok_other simp: less_SucI)
  qed
  with g show ?thesis by (auto simp: create_step_def split: option.splits)
qed

lemma on_set_Some:
  "on_set sid s gone f after = Some s' \<longleftrightarrow>
    (sets s sid = None \<and> gone = Some s') \<or> (\<exists>ss ss'. sets s sid = Some ss \<and> f ss = Some ss' \<and> s' = after (put_set sid ss' s))"
  by (auto simp: on_set_def split: option.splits)

text \<open>A call on a set that only moves the process.\<close>

lemma inv_on_set:
  assumes inv: "sem_inv N s" and st: "on_set sid s (Some (sem_exit p m s)) f (go p c) = Some s'" and p: "p < N"
    and c: "\<forall>x. holds_lock (pcs s p) x \<longrightarrow> x = sid" "\<forall>x. holds_lock c x \<longrightarrow> x = sid"
      "\<forall>x key. c \<noteq> Close x \<and> c \<noteq> Open key \<and> c \<noteq> Open_dec x \<and> c \<noteq> Rm x"
    and ok: "\<And>ss ss'. set_ok N (pcs s) (\<lambda>q. has s q sid) sid ss \<Longrightarrow> f ss = Some ss' \<Longrightarrow> set_ok N ((pcs s)(p := c)) (\<lambda>q. has s q sid) sid ss'"
  shows "sem_inv N s'"
proof (cases "sets s sid")
  case None
  then show ?thesis using st inv_exit [OF inv p] by (auto simp: on_set_def)
next
  case (Some ss)
  with st obtain ss' where f: "f ss = Some ss'" and s': "s' = go p c (put_set sid ss' s)" by (auto simp: on_set_Some)
  have "set_ok N (pcs s) (\<lambda>q. has s q sid) sid ss" using inv Some by (simp add: sem_inv_def)
  from ok [OF this f] show ?thesis
    by (intro inv_set [OF inv, where sid = sid and p = p and c = c and ss' = ss'])
      (use Some c in \<open>auto simp: s' go_def put_set_def\<close>)
qed

lemma semop_op_other:
  "semop p (op_op v) ss = Some ss' \<Longrightarrow> vals ss' 1 = vals ss 1 \<and> vals ss' 2 = vals ss 2
     \<and> (\<forall>q. undo ss' q 1 = undo ss q 1 \<and> undo ss' q 2 = undo ss q 2)"
  by (auto simp: semop_def op_op_def split: if_splits)

lemma sem_step_create:
  assumes inv: "sem_inv N s" and p: "p < N" and st: "sem_step ok p s = Some s'" and few: "\<forall>sid. users N s' sid < BIGCOUNT"
    and pc: "pcs s p = Create key i \<or> pcs s p = Create_lock key i sid \<or> pcs s p = Create_wait key i sid \<or> pcs s p = Create_get i sid
      \<or> pcs s p = Create_set0 i sid \<or> pcs s p = Create_set1 sid \<or> pcs s p = Create_end sid"
  shows "sem_inv N s'"
  using pc
proof (elim disjE)
  assume pc: "pcs s p = Create key i"
  with st inv_create [OF inv pc] show ?thesis by (auto simp: sem_step_defs)
next
  assume pc: "pcs s p = Create_lock key i sid"
  have g: "sem_inv N (go p (Create key i) s)" "sem_inv N (go p (Create_wait key i sid) s)" by (auto intro!: inv_go [OF inv] simp: pc)
  show ?thesis
  proof (cases "on_set sid s (Some (sem_exit p '''' s)) (semop p op_lock) (go p (Create_get i sid)) = Some s'")
    case True
    then show ?thesis by (rule inv_on_set [OF inv _ p]) (use pc set_ok_lock in auto)
  next
    case False
    then show ?thesis using st g by (auto simp: sem_step_defs pc on_set_def split: option.splits)
  qed
next
  assume pc: "pcs s p = Create_wait key i sid"
  then have "on_set sid s (Some (sem_exit p ''can't lock'' s)) (semop p op_lock) (go p (Create_get i sid)) = Some s'"
    using st by (simp add: sem_step_defs)
  then show ?thesis by (rule inv_on_set [OF inv _ p]) (use pc set_ok_lock in auto)
next
  assume pc: "pcs s p = Create_get i sid"
  have "on_set sid s (Some (sem_exit p ''can't GETVAL'' s)) (\<lambda>ss. if (vals ss 1 = 0) = (vals (the (sets s sid)) 1 = 0) then Some ss else None)
      (go p (if vals (the (sets s sid)) 1 = 0 then Create_set0 i sid else Create_end sid)) = Some s'"
    using st by (auto simp: sem_step_defs pc on_set_def put_set_def go_def fun_upd_idem split: option.splits)
  moreover have nz: "set_ok N (pcs s) h sid ss \<Longrightarrow> vals ss 1 \<noteq> 0 \<Longrightarrow> 0 < vals ss 1" for h ss by (auto simp: set_ok_def)
  ultimately show ?thesis by (elim inv_on_set [OF inv _ p]) (auto simp: pc split: if_splits intro!: set_ok_pc dest: nz [unfolded One_nat_def])
next
  assume pc: "pcs s p = Create_set0 i sid"
  then have "on_set sid s (Some (sem_exit p ''can SETVAL[0]'' s)) (\<lambda>ss. Some (setval 0 i ss)) (go p (Create_set1 sid)) = Some s'"
    using st by (simp add: sem_step_defs)
  moreover have "set_ok N (pcs s) h sid ss \<Longrightarrow> vals ss 1 = 0" for h ss using pc unfolding set_ok_def by (metis initializing.simps(1))
  ultimately show ?thesis by (elim inv_on_set [OF inv _ p]) (auto simp: pc setval_def intro!: set_ok_pc)
next
  assume pc: "pcs s p = Create_set1 sid"
  then have "on_set sid s (Some (sem_exit p ''can SETVAL[1]'' s)) (\<lambda>ss. Some (setval 1 BIGCOUNT ss)) (go p (Create_end sid)) = Some s'"
    using st by (simp add: sem_step_defs)
  then show ?thesis by (rule inv_on_set [OF inv _ p]) (use pc set_ok_setval1 in auto)
next
  assume pc: "pcs s p = Create_end sid"
  then have st: "on_set sid s (Some (sem_exit p ''can't end create'' s)) (semop p op_endcreate) (\<lambda>s. opened p sid (go p (Ret (int sid)) s)) = Some s'"
    using st by (simp add: sem_step_defs)
  show ?thesis
  proof (cases "sets s sid")
    case None
    then show ?thesis using st inv_exit [OF inv p] by (auto simp: on_set_def)
  next
    case (Some ss)
    with st obtain ss' where f: "semop p op_endcreate ss = Some ss'" and s': "s' = opened p sid (go p (Ret (int sid)) (put_set sid ss' s))"
      by (auto simp: on_set_Some)
    have h: "(\<lambda>q. has s' q sid) = (\<lambda>q. has s q sid)(p := has s p sid + 1)" by (auto simp: s' opened_def go_def put_set_def)
    have "set_ok N (pcs s) (\<lambda>q. has s q sid) sid ss" using inv Some by (simp add: sem_inv_def)
    moreover have "(\<Sum>q<N. int (((\<lambda>q. has s q sid)(p := has s p sid + 1)) q)) < BIGCOUNT" using few h unfolding users_def by metis
    ultimately have "set_ok N ((pcs s)(p := Ret (int sid))) ((\<lambda>q. has s q sid)(p := has s p sid + 1)) sid ss'"
      by (rule set_ok_endcreate [where P = "pcs s" and h = "\<lambda>q. has s q sid", OF _ f pc p])
    then show ?thesis
      by (intro inv_set [OF inv, where sid = sid and p = p and c = "Ret (int sid)" and ss' = ss'], unfold h)
        (use Some pc in \<open>auto simp: s' go_def put_set_def opened_def split: if_splits\<close>)
  qed
qed

lemma sem_step_close:
  assumes inv: "sem_inv N s" and p: "p < N" and st: "sem_step ok p s = Some s'"
    and pc: "pcs s p = Close sid \<or> pcs s p = Close_get sid \<or> pcs s p = Close_rm sid \<or> pcs s p = Close_unlock sid \<or> pcs s p = Op sid v"
  shows "sem_inv N s'"
  using pc
proof (elim disjE)
  assume pc: "pcs s p = Close sid"
  then have st: "on_set sid s (Some (sem_exit p ''can't semop'' s)) (semop p op_close) (\<lambda>s. closed p sid (go p (Close_get sid) s)) = Some s'"
    using st by (simp add: sem_step_defs)
  show ?thesis
  proof (cases "sets s sid")
    case None
    then show ?thesis using st inv_exit [OF inv p] by (auto simp: on_set_def)
  next
    case (Some ss)
    with st obtain ss' where f: "semop p op_close ss = Some ss'" and s': "s' = closed p sid (go p (Close_get sid) (put_set sid ss' s))"
      by (auto simp: on_set_Some)
    have h: "(\<lambda>q. has s' q sid) = (\<lambda>q. has s q sid)(p := has s p sid - 1)" by (auto simp: s' closed_def go_def put_set_def)
    have "set_ok N (pcs s) (\<lambda>q. has s q sid) sid ss" "0 < has s p sid" using inv Some pc by (simp_all add: sem_inv_def)
    then have "set_ok N ((pcs s)(p := Close_get sid)) ((\<lambda>q. has s q sid)(p := has s p sid - 1)) sid ss'"
      by (rule set_ok_close [where P = "pcs s" and h = "\<lambda>q. has s q sid", OF _ f _ p])
    then show ?thesis
      by (intro inv_set [OF inv, where sid = sid and p = p and c = "Close_get sid" and ss' = ss'], unfold h)
        (use Some pc in \<open>auto simp: s' go_def put_set_def closed_def split: if_splits\<close>)
  qed
next
  assume pc: "pcs s p = Close_get sid"
  show ?thesis
  proof (cases "sets s sid")
    case None
    then show ?thesis using st inv_exit [OF inv p] pc by (auto simp: sem_step_defs)
  next
    case (Some ss)
    let ?c = "if vals ss 1 = BIGCOUNT then Close_rm sid else Close_unlock sid"
    have "on_set sid s (Some (sem_exit p '''' s)) (\<lambda>x. if x = ss then Some ss else None) (go p ?c) = Some (go p ?c s)"
      using Some by (simp add: on_set_def put_set_def go_def fun_upd_idem)
    then have "sem_inv N (go p ?c s)" by (rule inv_on_set [OF inv _ p]) (auto simp: pc split: if_splits intro!: set_ok_pc)
    then show ?thesis using st inv_exit [OF inv p] pc Some by (auto simp: sem_step_defs split: if_splits)
  qed
next
  assume pc: "pcs s p = Close_rm sid"
  with st inv_removed [OF inv pc] inv_exit [OF inv p] show ?thesis by (auto simp: sem_step_defs split: option.splits)
next
  assume pc: "pcs s p = Close_unlock sid"
  then have "on_set sid s (Some (sem_exit p ''can't unlock'' s)) (semop p op_unlock) (go p (Ret 0)) = Some s'"
    using st by (simp add: sem_step_defs)
  then show ?thesis by (rule inv_on_set [OF inv _ p]) (use pc set_ok_unlock in auto)
next
  assume pc: "pcs s p = Op sid v"
  show ?thesis
  proof (cases "v = 0")
    case True
    then show ?thesis using st inv_exit [OF inv p] pc by (auto simp: sem_step_defs)
  next
    case False
    then have "on_set sid s (Some (sem_exit p ''sem_op error'' s)) (semop p (op_op v)) (go p (Ret 0)) = Some s'"
      using st pc by (simp add: sem_step_defs)
    then show ?thesis by (rule inv_on_set [OF inv _ p]) (auto simp: pc intro!: set_ok_pc dest: semop_op_other)
  qed
qed

lemma sem_step_inv:
  assumes "sem_inv N s" "p < N" "sem_step ok p s = Some s'" "\<forall>sid. users N s' sid < BIGCOUNT"
  shows "sem_inv N s'"
proof (cases "pcs s p")
  case (Open key)
  then show ?thesis using assms(1) by (simp add: sem_inv_def)
next
  case (Open_dec sid)
  then show ?thesis using assms(1) by (simp add: sem_inv_def)
next
  case (Rm sid)
  then show ?thesis using assms(1) by (simp add: sem_inv_def)
qed (use assms(3) sem_step_create [OF assms] sem_step_close [OF assms(1-3)] in \<open>auto simp: sem_step_defs\<close>)

lemma sem_reach_inv: "sem_reach N s \<Longrightarrow> sem_inv N s"
proof (induction rule: sem_reach.induct)
  case start
  show ?case by (simp add: sem_inv_def sem_start_def)
next
  case (call s p c)
  then show ?case by (intro inv_go) (auto simp: may_call_def split: pc.splits)
next
  case (step s p ok s')
  then show ?case by (blast intro: sem_step_inv)
next
  case (exits s p m)
  then show ?case by (blast intro: inv_exit)
qed

section \<open>Progress\<close>

lemma sem_inv_users:
  assumes "sem_inv N s"
  shows "users N s sid < BIGCOUNT"
proof (cases "sets s sid")
  case None
  then show ?thesis using assms by (simp add: sem_inv_def users_def BIGCOUNT_def)
next
  case (Some ss)
  then show ?thesis using assms by (simp add: sem_inv_def users_def set_ok_def)
qed

text \<open>How many calls a process that holds the lock is from its return.\<close>

fun calls_left :: "pc \<Rightarrow> nat" where
  "calls_left (Create_get i sid) = 4"
| "calls_left (Create_set0 i sid) = 3"
| "calls_left (Create_set1 sid) = 2"
| "calls_left (Create_end sid) = 1"
| "calls_left (Close_get sid) = 2"
| "calls_left (Close_rm sid) = 1"
| "calls_left (Close_unlock sid) = 1"
| "calls_left _ = 0"

lemma lock_step:
  assumes inv: "sem_inv N s" and p: "p < N" "holds_lock (pcs s p) sid"
  shows "\<exists>s'. sem_step True p s = Some s' \<and> ((\<exists>r. pcs s' p = Ret r)
    \<or> holds_lock (pcs s' p) sid \<and> calls_left (pcs s' p) < calls_left (pcs s p) \<and> sem_inv N s')"
proof -
  obtain ss where ss: "sets s sid = Some ss" using inv p(2) unfolding sem_inv_def by (metis option.exhaust)
  have ok: "set_ok N (pcs s) (\<lambda>p. has s p sid) sid ss" using inv ss unfolding sem_inv_def by blast
  have v: "vals ss 2 = 1" "vals ss 1 \<le> BIGCOUNT" "pcs s p = Create_end sid \<Longrightarrow> 0 < vals ss 1"
  proof -
    show "vals ss 2 = 1" using ok p(2) unfolding set_ok_def by metis
    have "0 \<le> (\<Sum>q<N. int (has s q sid))" by (intro sum_nonneg) auto
    then show "vals ss 1 \<le> BIGCOUNT" using ok by (auto simp: set_ok_def BIGCOUNT_def)
    show "0 < vals ss 1" if "pcs s p = Create_end sid" using ok that unfolding set_ok_def by blast
  qed
  have step: "\<exists>s'. sem_step True p s = Some s' \<and> ((\<exists>r. pcs s' p = Ret r)
    \<or> holds_lock (pcs s' p) sid \<and> calls_left (pcs s' p) < calls_left (pcs s p) \<and> has s' = has s)"
    using p(2) ss v by (cases "pcs s p") (auto simp: sem_step_defs on_set_def semop_def op_endcreate_def op_unlock_def opened_def go_def put_set_def removed_def)
  then obtain s' where s': "sem_step True p s = Some s'" "(\<exists>r. pcs s' p = Ret r)
    \<or> holds_lock (pcs s' p) sid \<and> calls_left (pcs s' p) < calls_left (pcs s p) \<and> has s' = has s" by blast
  have "sem_inv N s'" if "has s' = has s"
    using sem_step_inv [OF inv p(1) s'(1)] sem_inv_users [OF inv] that by (simp add: users_def)
  with s' show ?thesis by blast
qed

lemma lock_run:
  "sem_inv N s \<Longrightarrow> p < N \<Longrightarrow> holds_lock (pcs s p) sid \<Longrightarrow>
   \<exists>n s' r. n \<le> calls_left (pcs s p) \<and> sem_run (replicate n (Steps p)) s = Some s' \<and> pcs s' p = Ret r"
proof (induction "calls_left (pcs s p)" arbitrary: s rule: less_induct)
  case less
  from lock_step [OF less.prems] obtain s' where s': "sem_step True p s = Some s'"
    "(\<exists>r. pcs s' p = Ret r) \<or> holds_lock (pcs s' p) sid \<and> calls_left (pcs s' p) < calls_left (pcs s p) \<and> sem_inv N s'" by blast
  have c: "1 \<le> calls_left (pcs s p)" using less.prems(3) by (cases "pcs s p") auto
  show ?case
  proof (cases "\<exists>r. pcs s' p = Ret r")
    case True
    then show ?thesis using s'(1) c by (intro exI [of _ 1]) auto
  next
    case False
    with s'(2) have h: "holds_lock (pcs s' p) sid" "calls_left (pcs s' p) < calls_left (pcs s p)" "sem_inv N s'" by auto
    from less.hyps [OF h(2,3) less.prems(2) h(1)] obtain n s2 r where "n \<le> calls_left (pcs s' p)"
      "sem_run (replicate n (Steps p)) s' = Some s2" "pcs s2 p = Ret r" by blast
    then show ?thesis using s'(1) h(2) by (intro exI [of _ "Suc n"]) auto
  qed
qed

section \<open>Properties\<close>

lemmas run_simps = sem_start_def sem_step_defs create_step_def go_def put_set_def opened_def closed_def removed_def sem_exit_def on_set_def
  semop_def op_lock_def op_endcreate_def op_open_def op_close_def op_unlock_def op_op_def sem_wait_def setval_def new_set_def bad_key_def
  IPC_PRIVATE_def BIGCOUNT_def numeral_eq_Suc


text \<open>A first process that creates a semaphore, and then closes it up to its look at the counter.\<close>

lemma reach_steps:
  "sem_reach N s \<Longrightarrow> p < N \<Longrightarrow> sem_run (replicate n (Steps p)) s = Some s' \<Longrightarrow>
   \<forall>k \<le> n. \<forall>sk. sem_run (replicate k (Steps p)) s = Some sk \<longrightarrow> (\<forall>sid. users N sk sid < BIGCOUNT) \<Longrightarrow> sem_reach N s'"
proof (induction n arbitrary: s)
  case (Suc n)
  from Suc.prems(3) obtain s1 where s1: "sem_step True p s = Some s1" "sem_run (replicate n (Steps p)) s1 = Some s'"
    by (auto split: option.splits)
  have few: "\<forall>k \<le> n. \<forall>sk. sem_run (replicate k (Steps p)) s1 = Some sk \<longrightarrow> (\<forall>sid. users N sk sid < BIGCOUNT)"
  proof (intro allI impI)
    fix k sk sid assume "k \<le> n" "sem_run (replicate k (Steps p)) s1 = Some sk"
    then show "users N sk sid < BIGCOUNT" using Suc.prems(4) [rule_format, of "Suc k" sk] s1(1) by simp
  qed
  then have "\<forall>sid. users N s1 sid < BIGCOUNT" by (metis le0 replicate_0 sem_run.simps(1))
  with Suc.prems(1,2) s1(1) have "sem_reach N s1" by (rule sem_reach.step)
  from Suc.IH [OF this Suc.prems(2) s1(2) few] show ?case .
qed simp



text \<open>A process that has taken the lock is never blocked until it has released it: running alone, it
  returns from its call within four more system calls, so the lock does not deadlock.\<close>

theorem lock_released:
  assumes "sem_reach N s" "p < N" "holds_lock (pcs s p) sid"
  shows "\<exists>n s' r. n \<le> 4 \<and> sem_run (replicate n (Steps p)) s = Some s' \<and> pcs s' p = Ret r"
proof -
  have "calls_left (pcs s p) \<le> 4" by (cases "pcs s p") auto
  with lock_run [OF sem_reach_inv [OF assms(1)] assms(2,3)] show ?thesis by (meson le_trans)
qed

theorem lock_released_witness:
  "\<exists>s n s' r. pcs s 0 = Create_get 1 0 \<and> n \<le> 4 \<and> sem_run (replicate n (Steps 0)) s = Some s' \<and> pcs s' 0 = Ret r"
proof -
  have "may_call 0 (Create 5 1) sem_start" by (simp add: may_call_def sem_start_def)
  with sem_reach.start [of 1] have r: "sem_reach 1 (go 0 (Create 5 1) sem_start)" by (intro sem_reach.call) auto
  have few: "\<forall>k \<le> 2. \<forall>sk. sem_run (replicate k (Steps 0)) (go 0 (Create 5 1) sem_start) = Some sk \<longrightarrow> (\<forall>sid. users 1 sk sid < BIGCOUNT)"
  proof (intro allI impI)
    fix k :: nat and sk sid assume k: "k \<le> 2" "sem_run (replicate k (Steps 0)) (go 0 (Create 5 1) sem_start) = Some sk"
    then consider "k = 0" | "k = 1" | "k = 2" by linarith
    then show "users 1 sk sid < BIGCOUNT" using k(2) by cases (auto simp: run_simps users_def)
  qed
  obtain s where s: "sem_run (replicate 2 (Steps 0)) (go 0 (Create 5 1) sem_start) = Some s" "pcs s 0 = Create_get 1 0"
    by (simp add: run_simps)
  have "sem_reach 1 s" using reach_steps [OF r _ s(1) few] by simp
  from lock_released [OF this, of 0 0] s(2) show ?thesis by auto
qed

text \<open>\<^verbatim>\<open>sem_open\<close> takes no lock, and its user can lose the semaphore: between the last closer's look at
  the counter and its removal of the set, another process opens it, and dies on its first wait.\<close>

theorem open_loses_semaphore:
  "\<exists>s s'. sem_run ([Calls 0 (Create 5 1)] @ replicate 6 (Steps 0) @ [Calls 0 (Close 0), Steps 0, Steps 0, Calls 1 (Open 5), Steps 1, Steps 1, Steps 0])
      sem_start = Some s
    \<and> pcs s 1 = Ret 0 \<and> has s 1 0 = 1 \<and> sets s 0 = None
    \<and> sem_run [Calls 1 (sem_wait 0), Steps 1] s = Some s' \<and> pcs s' 1 = Died ''sem_op error''"
  by (simp add: run_simps)

text \<open>\<^verbatim>\<open>sem_create\<close> does not always survive the removal of the set: it tries again when the set is gone
  before it waits for the lock, but a process that already waits dies.\<close>

theorem create_dies_waiting:
  "\<exists>s s1 s2. sem_run ([Calls 0 (Create 5 1)] @ replicate 6 (Steps 0) @ [Calls 0 (Close 0), Steps 0, Steps 0, Calls 1 (Create 5 1), Steps 1])
      sem_start = Some s
    \<and> sem_run [Steps 0, Steps 1] s = Some s1 \<and> pcs s1 1 = Create 5 1
    \<and> sem_run [Steps 1, Steps 0, Steps 1] s = Some s2 \<and> pcs s2 1 = Died ''can't lock''"
  by (simp add: run_simps)

end
