(* ===== verification/TtyModes.thy ===== *)
theory TtyModes imports Prelude begin

text \<open>
  The terminal modes of lib/ttymodes.c: cbreak and raw mode, the check that they took effect, and the way
  back.  The terminal driver is a parameter; what \<^verbatim>\<open>tcsetattr\<close> promises about it is \<open>driver_ok\<close>.
\<close>

unbundle bit_operations_syntax

section \<open>Attributes\<close>

record termios =
  c_iflag :: "32 word"
  c_oflag :: "32 word"
  c_cflag :: "32 word"
  c_lflag :: "32 word"
  c_cc :: "nat \<Rightarrow> 8 word"

text \<open>The constants of \<^verbatim>\<open>termios.h\<close> as Linux has them.\<close>

definition ISIG :: "32 word" where "ISIG = 0x0001"
definition ICANON :: "32 word" where "ICANON = 0x0002"
definition ECHO :: "32 word" where "ECHO = 0x0008"
definition IEXTEN :: "32 word" where "IEXTEN = 0x8000"
definition BRKINT :: "32 word" where "BRKINT = 0x0002"
definition INPCK :: "32 word" where "INPCK = 0x0010"
definition ISTRIP :: "32 word" where "ISTRIP = 0x0020"
definition ICRNL :: "32 word" where "ICRNL = 0x0100"
definition IXON :: "32 word" where "IXON = 0x0400"
definition CSIZE :: "32 word" where "CSIZE = 0x0030"
definition CS8 :: "32 word" where "CS8 = 0x0030"
definition PARENB :: "32 word" where "PARENB = 0x0100"
definition OPOST :: "32 word" where "OPOST = 0x0001"
definition VTIME :: nat where "VTIME = 5"
definition VMIN :: nat where "VMIN = 6"

lemmas tty_consts = ISIG_def ICANON_def ECHO_def IEXTEN_def BRKINT_def INPCK_def ISTRIP_def ICRNL_def IXON_def
  CSIZE_def CS8_def PARENB_def OPOST_def VTIME_def VMIN_def

text \<open>What the two functions ask for.\<close>

definition cbreak_attrs :: "termios \<Rightarrow> termios" where
  "cbreak_attrs t = t\<lparr>c_lflag := c_lflag t AND NOT (ECHO OR ICANON), c_cc := (c_cc t)(VMIN := 1, VTIME := 0)\<rparr>"

definition raw_attrs :: "termios \<Rightarrow> termios" where
  "raw_attrs t = t\<lparr>c_lflag := c_lflag t AND NOT (ECHO OR ICANON OR IEXTEN OR ISIG),
     c_iflag := c_iflag t AND NOT (BRKINT OR ICRNL OR INPCK OR ISTRIP OR IXON),
     c_cflag := (c_cflag t AND NOT (CSIZE OR PARENB)) OR CS8,
     c_oflag := c_oflag t AND NOT OPOST,
     c_cc := (c_cc t)(VMIN := 1, VTIME := 0)\<rparr>"

text \<open>The checks whether only some of the changes were made.\<close>

definition cbreak_missing :: "termios \<Rightarrow> bool" where
  "cbreak_missing t \<longleftrightarrow> c_lflag t AND (ECHO OR ICANON) \<noteq> 0 \<or> c_cc t VMIN \<noteq> 1 \<or> c_cc t VTIME \<noteq> 0"

definition raw_missing :: "termios \<Rightarrow> bool" where
  "raw_missing t \<longleftrightarrow> c_lflag t AND (ECHO OR ICANON OR IEXTEN OR ISIG) \<noteq> 0
     \<or> c_iflag t AND (BRKINT OR ICRNL OR INPCK OR ISTRIP OR IXON) \<noteq> 0
     \<or> c_cflag t AND (CSIZE OR PARENB OR CS8) \<noteq> CS8
     \<or> c_oflag t AND OPOST \<noteq> 0 \<or> c_cc t VMIN \<noteq> 1 \<or> c_cc t VTIME \<noteq> 0"

section \<open>The driver\<close>

text \<open>The answers to the calls, by the number of the call: an error number for \<^verbatim>\<open>tcgetattr\<close>, and for
  \<^verbatim>\<open>tcsetattr\<close> an error number or the attributes that are in force afterwards, which depend on the ones
  before and the ones asked for.\<close>

record driver =
  get_err :: "nat \<Rightarrow> int option"
  set_res :: "nat \<Rightarrow> termios \<Rightarrow> termios \<Rightarrow> int + termios"

datatype ttymode = RESET | RAW | CBREAK

record ttyst =
  devs :: "int \<Rightarrow> termios"
  calls :: nat
  tty_errno :: int
  save_termios :: termios
  ttysavefd :: int
  ttystate :: ttymode

definition tcgetattr :: "driver \<Rightarrow> int \<Rightarrow> ttyst \<Rightarrow> termios option \<times> ttyst" where
  "tcgetattr drv fd s =
     (case get_err drv (calls s) of
        Some e \<Rightarrow> (None, s\<lparr>calls := calls s + 1, tty_errno := e\<rparr>)
      | None \<Rightarrow> (Some (devs s fd), s\<lparr>calls := calls s + 1\<rparr>))"

definition tcsetattr :: "driver \<Rightarrow> int \<Rightarrow> termios \<Rightarrow> ttyst \<Rightarrow> int \<times> ttyst" where
  "tcsetattr drv fd new s =
     (case set_res drv (calls s) (devs s fd) new of
        Inl e \<Rightarrow> (-1, s\<lparr>calls := calls s + 1, tty_errno := e\<rparr>)
      | Inr t \<Rightarrow> (0, s\<lparr>calls := calls s + 1, devs := (devs s)(fd := t)\<rparr>))"

section \<open>The functions\<close>

definition tty_cbreak :: "driver \<Rightarrow> int \<Rightarrow> ttyst \<Rightarrow> int \<times> ttyst" where
  "tty_cbreak drv fd s =
     (if ttystate s \<noteq> RESET then (-1, s\<lparr>tty_errno := EINVAL\<rparr>)
      else case tcgetattr drv fd s of
        (None, s) \<Rightarrow> (-1, s)
      | (Some buf, s) \<Rightarrow>
        let s = s\<lparr>save_termios := buf\<rparr>; buf = cbreak_attrs buf; (r, s) = tcsetattr drv fd buf s in
        if r < 0 then (-1, s)
        else case tcgetattr drv fd s of
          (None, s) \<Rightarrow> let err = tty_errno s; (r, s) = tcsetattr drv fd (save_termios s) s in (-1, s\<lparr>tty_errno := err\<rparr>)
        | (Some buf, s) \<Rightarrow>
          if cbreak_missing buf then
            let (r, s) = tcsetattr drv fd (save_termios s) s in (-1, s\<lparr>tty_errno := EINVAL\<rparr>)
          else (0, s\<lparr>ttystate := CBREAK, ttysavefd := fd\<rparr>))"

definition tty_raw :: "driver \<Rightarrow> int \<Rightarrow> ttyst \<Rightarrow> int \<times> ttyst" where
  "tty_raw drv fd s =
     (if ttystate s \<noteq> RESET then (-1, s\<lparr>tty_errno := EINVAL\<rparr>)
      else case tcgetattr drv fd s of
        (None, s) \<Rightarrow> (-1, s)
      | (Some buf, s) \<Rightarrow>
        let s = s\<lparr>save_termios := buf\<rparr>; buf = raw_attrs buf; (r, s) = tcsetattr drv fd buf s in
        if r < 0 then (-1, s)
        else case tcgetattr drv fd s of
          (None, s) \<Rightarrow> let err = tty_errno s; (r, s) = tcsetattr drv fd (save_termios s) s in (-1, s\<lparr>tty_errno := err\<rparr>)
        | (Some buf, s) \<Rightarrow>
          if raw_missing buf then
            let (r, s) = tcsetattr drv fd (save_termios s) s in (-1, s\<lparr>tty_errno := EINVAL\<rparr>)
          else (0, s\<lparr>ttystate := RAW, ttysavefd := fd\<rparr>))"

definition tty_reset :: "driver \<Rightarrow> int \<Rightarrow> ttyst \<Rightarrow> int \<times> ttyst" where
  "tty_reset drv fd s =
     (if ttystate s = RESET then (0, s)
      else let (r, s) = tcsetattr drv fd (save_termios s) s in
        if r < 0 then (-1, s) else (0, s\<lparr>ttystate := RESET\<rparr>))"

definition tty_atexit :: "driver \<Rightarrow> ttyst \<Rightarrow> ttyst" where
  "tty_atexit drv s = (if 0 \<le> ttysavefd s then snd (tty_reset drv (ttysavefd s) s) else s)"

definition tty_termios :: "ttyst \<Rightarrow> termios" where
  "tty_termios s = save_termios s"

definition tty_start :: "(int \<Rightarrow> termios) \<Rightarrow> termios \<Rightarrow> ttyst" where
  "tty_start d zero = \<lparr>devs = d, calls = 0, tty_errno = 0, save_termios = zero, ttysavefd = -1, ttystate = RESET\<rparr>"

lemmas tty_defs = tty_cbreak_def tty_raw_def tty_reset_def tty_atexit_def tcgetattr_def tcsetattr_def

section \<open>What tcsetattr promises\<close>

text \<open>A successful call makes some of the changes asked for: each bit of a flag word and each special
  character is the old or the new one.\<close>

definition bits_between :: "32 word \<Rightarrow> 32 word \<Rightarrow> 32 word \<Rightarrow> bool" where
  "bits_between old new w \<longleftrightarrow> (\<forall>i<32. bit w i = bit old i \<or> bit w i = bit new i)"

definition attrs_between :: "termios \<Rightarrow> termios \<Rightarrow> termios \<Rightarrow> bool" where
  "attrs_between old new t \<longleftrightarrow>
     bits_between (c_iflag old) (c_iflag new) (c_iflag t) \<and> bits_between (c_oflag old) (c_oflag new) (c_oflag t)
     \<and> bits_between (c_cflag old) (c_cflag new) (c_cflag t) \<and> bits_between (c_lflag old) (c_lflag new) (c_lflag t)
     \<and> (\<forall>i. c_cc t i = c_cc old i \<or> c_cc t i = c_cc new i)"

definition driver_ok :: "driver \<Rightarrow> bool" where
  "driver_ok drv \<longleftrightarrow> (\<forall>n old new t. set_res drv n old new = Inr t \<longrightarrow> attrs_between old new t)"

text \<open>A call that makes all of the changes.\<close>

definition sets_all :: "driver \<Rightarrow> nat \<Rightarrow> bool" where
  "sets_all drv n \<longleftrightarrow> (\<forall>old new. set_res drv n old new = Inr new)"

section \<open>The check is enough\<close>

lemma bits_between_clear:
  assumes "bits_between w (w AND NOT m) v" "v AND m = 0"
  shows "v = w AND NOT m"
proof (rule bit_word_eqI)
  fix i assume i: "i < LENGTH(32)"
  have "bit v i \<and> bit m i \<longleftrightarrow> False" using assms(2) by (metis bit_and_iff bit_0_eq bot_apply bot_bool_def)
  then show "bit v i = bit (w AND NOT m) i" using assms(1) i by (auto simp: bits_between_def bit_and_iff bit_not_iff)
qed

lemma bits_between_set:
  assumes "bits_between w ((w AND NOT m) OR k) v" "v AND (m OR k) = k"
  shows "v = (w AND NOT m) OR k"
proof (rule bit_word_eqI)
  fix i assume i: "i < LENGTH(32)"
  have "bit v i \<and> (bit m i \<or> bit k i) \<longleftrightarrow> bit k i" using assms(2) by (metis bit_and_iff bit_or_iff)
  then show "bit v i = bit ((w AND NOT m) OR k) i"
    using assms(1) i by (auto simp: bits_between_def bit_and_iff bit_or_iff bit_not_iff)
qed

lemma bits_between_same: "bits_between w w v \<Longrightarrow> v = w"
  by (rule bit_word_eqI) (auto simp: bits_between_def)

lemma cc_exact:
  assumes "\<forall>i. c i = old i \<or> c i = (old(VMIN := 1, VTIME := 0)) i" "c VMIN = 1" "c VTIME = 0"
  shows "c = old(VMIN := (1 :: 8 word), VTIME := 0)"
  using assms by (auto simp: fun_eq_iff VMIN_def VTIME_def)

lemma cbreak_exact:
  assumes "attrs_between t (cbreak_attrs t) u" "\<not> cbreak_missing u"
  shows "u = cbreak_attrs t"
proof -
  have "c_iflag u = c_iflag t" "c_oflag u = c_oflag t" "c_cflag u = c_cflag t"
    using assms(1) by (auto simp: attrs_between_def cbreak_attrs_def intro: bits_between_same)
  moreover have "c_lflag u = c_lflag t AND NOT (ECHO OR ICANON)"
    using assms by (intro bits_between_clear) (simp_all add: attrs_between_def cbreak_attrs_def cbreak_missing_def)
  moreover have "c_cc u = (c_cc t)(VMIN := 1, VTIME := 0)"
    using assms by (intro cc_exact) (simp_all add: attrs_between_def cbreak_attrs_def cbreak_missing_def)
  ultimately show ?thesis by (simp add: cbreak_attrs_def)
qed

lemma raw_exact:
  assumes "attrs_between t (raw_attrs t) u" "\<not> raw_missing u"
  shows "u = raw_attrs t"
proof -
  have "c_iflag u = c_iflag t AND NOT (BRKINT OR ICRNL OR INPCK OR ISTRIP OR IXON)"
    using assms by (intro bits_between_clear) (simp_all add: attrs_between_def raw_attrs_def raw_missing_def)
  moreover have "c_oflag u = c_oflag t AND NOT OPOST"
    using assms by (intro bits_between_clear) (simp_all add: attrs_between_def raw_attrs_def raw_missing_def)
  moreover have "c_lflag u = c_lflag t AND NOT (ECHO OR ICANON OR IEXTEN OR ISIG)"
    using assms by (intro bits_between_clear) (simp_all add: attrs_between_def raw_attrs_def raw_missing_def)
  moreover have "c_cflag u = (c_cflag t AND NOT (CSIZE OR PARENB)) OR CS8"
    using assms by (intro bits_between_set) (simp_all add: attrs_between_def raw_attrs_def raw_missing_def or.assoc)
  moreover have "c_cc u = (c_cc t)(VMIN := 1, VTIME := 0)"
    using assms by (intro cc_exact) (simp_all add: attrs_between_def raw_attrs_def raw_missing_def)
  ultimately show ?thesis by (simp add: raw_attrs_def)
qed

section \<open>The outcomes of a mode change\<close>

lemma tty_cbreak_ok:
  assumes "driver_ok drv" "tty_cbreak drv fd s = (0, s')"
  shows "s' = s\<lparr>devs := (devs s)(fd := cbreak_attrs (devs s fd)), calls := calls s + 3, save_termios := devs s fd,
      ttystate := CBREAK, ttysavefd := fd\<rparr> \<and> ttystate s = RESET"
proof -
  obtain u where u: "set_res drv (calls s + 1) (devs s fd) (cbreak_attrs (devs s fd)) = Inr u" "\<not> cbreak_missing u"
    "s' = s\<lparr>devs := (devs s)(fd := u), calls := calls s + 3, save_termios := devs s fd, ttystate := CBREAK, ttysavefd := fd\<rparr>"
    "ttystate s = RESET"
    using assms(2) by (auto simp: tty_defs Let_def split: if_splits option.splits sum.splits)
  with assms(1) cbreak_exact show ?thesis by (metis driver_ok_def)
qed

lemma tty_raw_ok:
  assumes "driver_ok drv" "tty_raw drv fd s = (0, s')"
  shows "s' = s\<lparr>devs := (devs s)(fd := raw_attrs (devs s fd)), calls := calls s + 3, save_termios := devs s fd,
      ttystate := RAW, ttysavefd := fd\<rparr> \<and> ttystate s = RESET"
proof -
  obtain u where u: "set_res drv (calls s + 1) (devs s fd) (raw_attrs (devs s fd)) = Inr u" "\<not> raw_missing u"
    "s' = s\<lparr>devs := (devs s)(fd := u), calls := calls s + 3, save_termios := devs s fd, ttystate := RAW, ttysavefd := fd\<rparr>"
    "ttystate s = RESET"
    using assms(2) by (auto simp: tty_defs Let_def split: if_splits option.splits sum.splits)
  with assms(1) raw_exact show ?thesis by (metis driver_ok_def)
qed

text \<open>A failed change leaves the mode and, when the attributes can be set back, the terminal alone.\<close>

lemma tty_cbreak_fails:
  "tty_cbreak drv fd s = (r, s') \<Longrightarrow> r \<noteq> 0 \<Longrightarrow>
     r = -1 \<and> ttystate s' = ttystate s \<and> ttysavefd s' = ttysavefd s
     \<and> (ttystate s \<noteq> RESET \<longrightarrow> s' = s\<lparr>tty_errno := EINVAL\<rparr>)
     \<and> (sets_all drv (calls s + 3) \<longrightarrow> devs s' = devs s)"
  by (auto simp: tty_defs Let_def sets_all_def numeral_eq_Suc split: if_splits option.splits sum.splits)

lemma tty_raw_fails:
  "tty_raw drv fd s = (r, s') \<Longrightarrow> r \<noteq> 0 \<Longrightarrow>
     r = -1 \<and> ttystate s' = ttystate s \<and> ttysavefd s' = ttysavefd s
     \<and> (ttystate s \<noteq> RESET \<longrightarrow> s' = s\<lparr>tty_errno := EINVAL\<rparr>)
     \<and> (sets_all drv (calls s + 3) \<longrightarrow> devs s' = devs s)"
  by (auto simp: tty_defs Let_def sets_all_def numeral_eq_Suc split: if_splits option.splits sum.splits)

section \<open>A program that changes modes\<close>

datatype tty_fn = Cbreak | Raw | Reset

fun tty_call :: "driver \<Rightarrow> int \<Rightarrow> tty_fn \<Rightarrow> ttyst \<Rightarrow> int \<times> ttyst" where
  "tty_call drv fd Cbreak s = tty_cbreak drv fd s"
| "tty_call drv fd Raw s = tty_raw drv fd s"
| "tty_call drv fd Reset s = tty_reset drv fd s"





lemma sets_all_driver_ok: "\<forall>n. sets_all drv n \<Longrightarrow> driver_ok drv"
  by (simp add: sets_all_def driver_ok_def attrs_between_def bits_between_def)




section \<open>Properties\<close>

text \<open>A driver that makes the changes asked for, except that it refuses to set the eighth bit of the size at
  the first try, and a terminal in cooked mode.\<close>

definition all_driver :: driver where "all_driver = \<lparr>get_err = (\<lambda>_. None), set_res = (\<lambda>_ old new. Inr new)\<rparr>"

definition part_driver :: driver where
  "part_driver = \<lparr>get_err = (\<lambda>_. None), set_res = (\<lambda>n old new. Inr (if n = 1 then new\<lparr>c_cflag := c_cflag old\<rparr> else new))\<rparr>"

definition cooked :: termios where
  "cooked = \<lparr>c_iflag = 0x500, c_oflag = 5, c_cflag = 0xA0, c_lflag = 0x8A3B, c_cc = (\<lambda>_. 4)\<rparr>"

text \<open>C22: When \<^verbatim>\<open>tty_raw\<close> or \<^verbatim>\<open>tty_cbreak\<close> returns 0, the terminal has exactly the attributes of the mode:
  every change asked for was made, although \<^verbatim>\<open>tcsetattr\<close> may return 0 after making only some of them, and
  nothing else of the terminal changed. The old attributes are saved, and no other mode was in force.\<close>

theorem tty_mode_exact:
  assumes "driver_ok drv"
  shows "(tty_raw drv fd s = (0, s') \<longrightarrow>
      devs s' = (devs s)(fd := raw_attrs (devs s fd)) \<and> tty_termios s' = devs s fd \<and> ttystate s = RESET \<and> ttystate s' = RAW)
    \<and> (tty_cbreak drv fd s = (0, s') \<longrightarrow>
      devs s' = (devs s)(fd := cbreak_attrs (devs s fd)) \<and> tty_termios s' = devs s fd \<and> ttystate s = RESET \<and> ttystate s' = CBREAK)"
  using tty_raw_ok [OF assms, of fd s s'] tty_cbreak_ok [OF assms, of fd s s'] by (auto simp: tty_termios_def)

theorem tty_mode_exact_witness:
  "c_cflag (devs (snd (tty_raw all_driver 0 (tty_start (\<lambda>_. cooked) cooked))) 0) = 0xB0"
proof -
  have "driver_ok all_driver" by (intro sets_all_driver_ok) (simp add: all_driver_def sets_all_def)
  moreover obtain s where s: "tty_raw all_driver 0 (tty_start (\<lambda>_. cooked) cooked) = (0, s)"
    by (simp add: tty_defs all_driver_def tty_start_def cooked_def raw_attrs_def raw_missing_def tty_consts)
  ultimately have "devs s = (\<lambda>_. cooked)(0 := raw_attrs cooked)"
    using tty_mode_exact [of all_driver 0 _ s] by (simp add: tty_start_def)
  then have "c_cflag (devs s 0) = 0xB0" by (simp add: raw_attrs_def cooked_def tty_consts)
  with s show ?thesis by simp
qed

text \<open>When a mode change fails, the mode is the one before; a second change before a reset is refused
  with \<^verbatim>\<open>EINVAL\<close> and touches nothing. When only some of the changes could be made, or reading the
  attributes back fails, the terminal is set back: if that call does its work, it has the attributes from before.\<close>

theorem tty_failure_restores:
  assumes "tty_call drv fd c s = (r, s')" "c \<noteq> Reset" "r \<noteq> 0"
  shows "r = -1 \<and> ttystate s' = ttystate s \<and> (ttystate s \<noteq> RESET \<longrightarrow> s' = s\<lparr>tty_errno := EINVAL\<rparr>)
    \<and> (sets_all drv (calls s + 3) \<longrightarrow> devs s' = devs s)"
  using assms tty_raw_fails [of drv fd s r s'] tty_cbreak_fails [of drv fd s r s'] by (cases c) auto

theorem tty_failure_restores_witness:
  "\<exists>s. tty_raw part_driver 0 (tty_start (\<lambda>_. cooked) cooked) = (-1, s) \<and> tty_errno s = EINVAL \<and> devs s = (\<lambda>_. cooked)"
proof -
  let ?s = "tty_start (\<lambda>_. cooked) cooked"
  obtain s where s: "tty_raw part_driver 0 ?s = (-1, s)" "tty_errno s = EINVAL"
    by (simp add: tty_defs part_driver_def tty_start_def cooked_def raw_attrs_def raw_missing_def tty_consts Let_def)
  moreover have "sets_all part_driver (calls ?s + 3)" by (simp add: sets_all_def part_driver_def tty_start_def)
  ultimately have "devs s = devs ?s" using tty_failure_restores [of part_driver 0 Raw ?s "-1" s] by simp
  with s show ?thesis by (auto simp: tty_start_def)
qed



end
