(* ===== verification/FooTable.thy ===== *)
theory FooTable imports Prelude begin

text \<open>
  The table of reference-counted objects of threads/mutex2.c, where every object has a lock for its count,
  and of threads/mutex3.c, where the lock of the table protects the counts too. Threads interleave: a step is
  one call of \<^verbatim>\<open>pthread_mutex_lock\<close>, \<^verbatim>\<open>unlock\<close> or \<^verbatim>\<open>destroy\<close> with the code that follows it up to the next one.
\<close>

section \<open>Objects and the table\<close>

type_synonym addr = nat

record foo =
  f_count :: int
  f_lock :: "nat option"
  f_id :: int
  f_next :: "addr option"

type_synonym foos = "addr \<Rightarrow> foo option"

definition NHASH :: int where "NHASH = 29"

text \<open>An \<^verbatim>\<open>int\<close> cast to \<^verbatim>\<open>unsigned long\<close>.\<close>

definition HASH :: "int \<Rightarrow> nat" where "HASH x = nat ((x mod 2 ^ 64) mod NHASH)"

text \<open>Where a thread is: the call it makes next.\<close>

datatype fpc =
    Idle | Ret "addr option"
  | Alloc_hash addr | Alloc_lock addr | Alloc_unhash addr | Alloc_unlock addr
  | Hold_lock addr | Hold_unlock addr
  | Find_hash int | Find_lock addr | Find_unlock addr | Find_unhash "addr option"
  | Rele_lock addr | Rele_drop addr | Rele_hash addr | Rele_again addr
  | Rele_unlock addr | Rele_unlock2 addr | Rele_unhash
  | Gone_unhash addr | Gone_unlock addr | Gone_free addr

text \<open>\<open>refs t x\<close> counts the references the thread \<open>t\<close> has to the object \<open>x\<close>.\<close>

record ftab =
  fh :: "nat \<Rightarrow> addr option"
  hashlock :: "nat option"
  heap :: foos
  tpc :: "nat \<Rightarrow> fpc"
  refs :: "nat \<Rightarrow> addr \<Rightarrow> nat"

text \<open>A step can wait for a lock, use memory or a mutex in a way that is undefined, loop forever, or go.\<close>

datatype 'a outcome = Waits | Faults | Loops | Goes 'a

definition at :: "nat \<Rightarrow> fpc \<Rightarrow> ftab \<Rightarrow> ftab" where
  "at t c s = s\<lparr>tpc := (tpc s)(t := c)\<rparr>"

definition put_foo :: "addr \<Rightarrow> foo \<Rightarrow> ftab \<Rightarrow> ftab" where
  "put_foo x f s = s\<lparr>heap := (heap s)(x := Some f)\<rparr>"

definition own :: "nat \<Rightarrow> addr \<Rightarrow> nat \<Rightarrow> ftab \<Rightarrow> ftab" where
  "own t x k s = s\<lparr>refs := (refs s)(t := (refs s t)(x := k))\<rparr>"

definition on_foo :: "addr \<Rightarrow> ftab \<Rightarrow> (foo \<Rightarrow> 'a outcome) \<Rightarrow> 'a outcome" where
  "on_foo x s k = (case heap s x of None \<Rightarrow> Faults | Some f \<Rightarrow> k f)"

definition lock_hash :: "nat \<Rightarrow> ftab \<Rightarrow> (ftab \<Rightarrow> 'a outcome) \<Rightarrow> 'a outcome" where
  "lock_hash t s k = (if hashlock s = None then k (s\<lparr>hashlock := Some t\<rparr>) else Waits)"

definition unlock_hash :: "nat \<Rightarrow> ftab \<Rightarrow> (ftab \<Rightarrow> 'a outcome) \<Rightarrow> 'a outcome" where
  "unlock_hash t s k = (if hashlock s = Some t then k (s\<lparr>hashlock := None\<rparr>) else Faults)"

definition lock_foo :: "nat \<Rightarrow> addr \<Rightarrow> ftab \<Rightarrow> (foo \<Rightarrow> ftab \<Rightarrow> 'a outcome) \<Rightarrow> 'a outcome" where
  "lock_foo t x s k = on_foo x s (\<lambda>f. if f_lock f = None
     then let f = f\<lparr>f_lock := Some t\<rparr> in k f (put_foo x f s) else Waits)"

definition unlock_foo :: "nat \<Rightarrow> addr \<Rightarrow> ftab \<Rightarrow> (ftab \<Rightarrow> 'a outcome) \<Rightarrow> 'a outcome" where
  "unlock_foo t x s k = on_foo x s (\<lambda>f. if f_lock f = Some t
     then k (put_foo x (f\<lparr>f_lock := None\<rparr>) s) else Faults)"

text \<open>The two loops over a list: the search of \<^verbatim>\<open>foo_find\<close>, and the search for the predecessor of an object.\<close>

partial_function (option) find_loop :: "foos \<Rightarrow> int \<Rightarrow> addr option \<Rightarrow> addr option outcome option" where
  "find_loop h x p =
     (case p of None \<Rightarrow> Some (Goes None)
      | Some fp \<Rightarrow> (case h fp of None \<Rightarrow> Some Faults
          | Some f \<Rightarrow> if f_id f = x then Some (Goes (Some fp)) else find_loop h x (f_next f)))"

partial_function (option) pred_loop :: "foos \<Rightarrow> addr \<Rightarrow> addr option \<Rightarrow> addr outcome option" where
  "pred_loop h fp p =
     (case p of None \<Rightarrow> Some Faults
      | Some tfp \<Rightarrow> (case h tfp of None \<Rightarrow> Some Faults
          | Some f \<Rightarrow> if f_next f = Some fp then Some (Goes tfp) else pred_loop h fp (f_next f)))"

definition loop_bind :: "'a outcome option \<Rightarrow> ('a \<Rightarrow> 'b outcome) \<Rightarrow> 'b outcome" where
  "loop_bind r k = (case r of None \<Rightarrow> Loops | Some (Goes a) \<Rightarrow> k a | Some Faults \<Rightarrow> Faults | Some Waits \<Rightarrow> Waits | Some Loops \<Rightarrow> Loops)"

section \<open>threads/mutex2.c\<close>

text \<open>\<open>mem\<close> is what \<^verbatim>\<open>malloc\<close> returns, \<open>init\<close> tells whether \<^verbatim>\<open>pthread_mutex_init\<close> succeeds.\<close>

definition foo_alloc :: "addr option \<Rightarrow> bool \<Rightarrow> nat \<Rightarrow> int \<Rightarrow> ftab \<Rightarrow> ftab" where
  "foo_alloc mem init t i s =
     (case mem of None \<Rightarrow> at t (Ret None) s
      | Some fp \<Rightarrow> if init then at t (Alloc_hash fp) (own t fp 1 (put_foo fp \<lparr>f_count = 1, f_lock = None, f_id = i, f_next = None\<rparr> s))
                   else at t (Ret None) s)"

text \<open>\<^verbatim>\<open>fp->f_next = fh[idx]; fh[idx] = fp\<close>\<close>

definition link_foo :: "addr \<Rightarrow> foo \<Rightarrow> ftab \<Rightarrow> ftab" where
  "link_foo fp f s = (let idx = HASH (f_id f) in put_foo fp (f\<lparr>f_next := fh s idx\<rparr>) (s\<lparr>fh := (fh s)(idx := Some fp)\<rparr>))"

definition alloc_step :: "nat \<Rightarrow> fpc \<Rightarrow> ftab \<Rightarrow> ftab outcome" where
  "alloc_step t c s =
     (case c of
        Alloc_hash fp \<Rightarrow> lock_hash t s (\<lambda>s. on_foo fp s (\<lambda>f. Goes (at t (Alloc_lock fp) (link_foo fp f s))))
      | Alloc_lock fp \<Rightarrow> lock_foo t fp s (\<lambda>f s. Goes (at t (Alloc_unhash fp) s))
      | Alloc_unhash fp \<Rightarrow> unlock_hash t s (\<lambda>s. Goes (at t (Alloc_unlock fp) s))
      | Alloc_unlock fp \<Rightarrow> unlock_foo t fp s (\<lambda>s. Goes (at t (Ret (Some fp)) s))
      | _ \<Rightarrow> Waits)"

text \<open>\<^verbatim>\<open>fp->f_count++\<close> makes the thread the owner of one more reference.\<close>

definition count_up :: "nat \<Rightarrow> addr \<Rightarrow> foo \<Rightarrow> ftab \<Rightarrow> ftab" where
  "count_up t fp f s = own t fp (refs s t fp + 1) (put_foo fp (f\<lparr>f_count := f_count f + 1\<rparr>) s)"

definition count_down :: "nat \<Rightarrow> addr \<Rightarrow> foo \<Rightarrow> ftab \<Rightarrow> ftab" where
  "count_down t fp f s = own t fp (refs s t fp - 1) (put_foo fp (f\<lparr>f_count := f_count f - 1\<rparr>) s)"

definition foo_hold :: "nat \<Rightarrow> fpc \<Rightarrow> ftab \<Rightarrow> ftab outcome" where
  "foo_hold t c s =
     (case c of
        Hold_lock fp \<Rightarrow> lock_foo t fp s (\<lambda>f s. Goes (at t (Hold_unlock fp) (count_up t fp f s)))
      | Hold_unlock fp \<Rightarrow> unlock_foo t fp s (\<lambda>s. Goes (at t (Ret None) s))
      | _ \<Rightarrow> Waits)"

definition foo_find :: "nat \<Rightarrow> fpc \<Rightarrow> ftab \<Rightarrow> ftab outcome" where
  "foo_find t c s =
     (case c of
        Find_hash i \<Rightarrow> lock_hash t s (\<lambda>s. loop_bind (find_loop (heap s) i (fh s (HASH i)))
          (\<lambda>r. Goes (at t (case r of None \<Rightarrow> Find_unhash None | Some fp \<Rightarrow> Find_lock fp) s)))
      | Find_lock fp \<Rightarrow> lock_foo t fp s (\<lambda>f s. Goes (at t (Find_unlock fp) (count_up t fp f s)))
      | Find_unlock fp \<Rightarrow> unlock_foo t fp s (\<lambda>s. Goes (at t (Find_unhash (Some fp)) s))
      | Find_unhash r \<Rightarrow> unlock_hash t s (\<lambda>s. Goes (at t (Ret r) s))
      | _ \<Rightarrow> Waits)"

text \<open>The removal from the list, between the two locks.\<close>

definition unlink_foo :: "addr \<Rightarrow> foo \<Rightarrow> ftab \<Rightarrow> (ftab \<Rightarrow> 'a outcome) \<Rightarrow> 'a outcome" where
  "unlink_foo fp f s k =
     (let idx = HASH (f_id f); tfp = fh s idx in
      if tfp = Some fp then k (s\<lparr>fh := (fh s)(idx := f_next f)\<rparr>)
      else loop_bind (pred_loop (heap s) fp tfp) (\<lambda>tfp. on_foo tfp s (\<lambda>g. k (put_foo tfp (g\<lparr>f_next := f_next f\<rparr>) s))))"

definition free_foo :: "nat \<Rightarrow> addr \<Rightarrow> ftab \<Rightarrow> ftab outcome" where
  "free_foo t fp s = on_foo fp s (\<lambda>f. if f_lock f = None
     then Goes (at t (Ret None) (own t fp (refs s t fp - 1) (s\<lparr>heap := (heap s)(fp := None)\<rparr>))) else Faults)"

definition foo_rele :: "nat \<Rightarrow> fpc \<Rightarrow> ftab \<Rightarrow> ftab outcome" where
  "foo_rele t c s =
     (case c of
        Rele_lock fp \<Rightarrow> lock_foo t fp s (\<lambda>f s.
          Goes (if f_count f = 1 then at t (Rele_drop fp) s else at t (Rele_unlock fp) (count_down t fp f s)))
      | Rele_drop fp \<Rightarrow> unlock_foo t fp s (\<lambda>s. Goes (at t (Rele_hash fp) s))
      | Rele_hash fp \<Rightarrow> lock_hash t s (\<lambda>s. Goes (at t (Rele_again fp) s))
      | Rele_again fp \<Rightarrow> lock_foo t fp s (\<lambda>f s.
          if f_count f \<noteq> 1 then Goes (at t (Rele_unlock2 fp) (count_down t fp f s))
          else unlink_foo fp f s (\<lambda>s. Goes (at t (Gone_unhash fp) s)))
      | Rele_unlock2 fp \<Rightarrow> unlock_foo t fp s (\<lambda>s. Goes (at t Rele_unhash s))
      | Rele_unhash \<Rightarrow> unlock_hash t s (\<lambda>s. Goes (at t (Ret None) s))
      | Gone_unhash fp \<Rightarrow> unlock_hash t s (\<lambda>s. Goes (at t (Gone_unlock fp) s))
      | Gone_unlock fp \<Rightarrow> unlock_foo t fp s (\<lambda>s. Goes (at t (Gone_free fp) s))
      | Gone_free fp \<Rightarrow> free_foo t fp s
      | Rele_unlock fp \<Rightarrow> unlock_foo t fp s (\<lambda>s. Goes (at t (Ret None) s))
      | _ \<Rightarrow> Waits)"

definition foo_step :: "nat \<Rightarrow> ftab \<Rightarrow> ftab outcome" where
  "foo_step t s =
     (case tpc s t of
        Alloc_hash fp \<Rightarrow> alloc_step t (tpc s t) s | Alloc_lock fp \<Rightarrow> alloc_step t (tpc s t) s
      | Alloc_unhash fp \<Rightarrow> alloc_step t (tpc s t) s | Alloc_unlock fp \<Rightarrow> alloc_step t (tpc s t) s
      | Hold_lock fp \<Rightarrow> foo_hold t (tpc s t) s | Hold_unlock fp \<Rightarrow> foo_hold t (tpc s t) s
      | Find_hash i \<Rightarrow> foo_find t (tpc s t) s | Find_lock fp \<Rightarrow> foo_find t (tpc s t) s
      | Find_unlock fp \<Rightarrow> foo_find t (tpc s t) s | Find_unhash r \<Rightarrow> foo_find t (tpc s t) s
      | c \<Rightarrow> foo_rele t c s)"

text \<open>A thread may call a function when it is in none, and hold or release what it has a reference to.\<close>

definition foo_idle :: "nat \<Rightarrow> ftab \<Rightarrow> bool" where
  "foo_idle t s \<longleftrightarrow> (case tpc s t of Idle \<Rightarrow> True | Ret r \<Rightarrow> True | _ \<Rightarrow> False)"

definition foo_start :: ftab where
  "foo_start = \<lparr>fh = (\<lambda>_. None), hashlock = None, heap = (\<lambda>_. None), tpc = (\<lambda>_. Idle), refs = (\<lambda>_ _. 0)\<rparr>"

inductive foo_reach :: "nat \<Rightarrow> ftab \<Rightarrow> bool" for N :: nat where
  start: "foo_reach N foo_start"
| alloc: "foo_reach N s \<Longrightarrow> t < N \<Longrightarrow> foo_idle t s \<Longrightarrow> (\<forall>x. mem = Some x \<longrightarrow> heap s x = None)
    \<Longrightarrow> foo_reach N (foo_alloc mem init t i s)"
| find: "foo_reach N s \<Longrightarrow> t < N \<Longrightarrow> foo_idle t s \<Longrightarrow> foo_reach N (at t (Find_hash i) s)"
| hold: "foo_reach N s \<Longrightarrow> t < N \<Longrightarrow> foo_idle t s \<Longrightarrow> 0 < refs s t x \<Longrightarrow> foo_reach N (at t (Hold_lock x) s)"
| rele: "foo_reach N s \<Longrightarrow> t < N \<Longrightarrow> foo_idle t s \<Longrightarrow> 0 < refs s t x \<Longrightarrow> foo_reach N (at t (Rele_lock x) s)"
| step: "foo_reach N s \<Longrightarrow> t < N \<Longrightarrow> foo_step t s = Goes s' \<Longrightarrow> foo_reach N s'"

section \<open>Lists in the table\<close>

fun chain :: "foos \<Rightarrow> addr option \<Rightarrow> addr list \<Rightarrow> bool" where
  "chain h p [] \<longleftrightarrow> p = None"
| "chain h p (x # xs) \<longleftrightarrow> p = Some x \<and> (\<exists>f. h x = Some f \<and> chain h (f_next f) xs)"

lemma foo_chain_frame:
  "(\<And>x. x \<in> set xs \<Longrightarrow> map_option f_next (h' x) = map_option f_next (h x)) \<Longrightarrow> chain h' p xs = chain h p xs"
proof (induction xs arbitrary: p)
  case (Cons x xs)
  have "map_option f_next (h' x) = map_option f_next (h x)" by (rule Cons.prems) simp
  moreover have "chain h' q xs = chain h q xs" for q by (rule Cons.IH) (simp add: Cons.prems)
  ultimately show ?case by (cases "h x"; cases "h' x") auto
qed simp

text \<open>The loops end on the lists of the table.\<close>

lemma find_loop_chain:
  "chain h p xs \<Longrightarrow> find_loop h i p = Some (Goes (List.find (\<lambda>x. \<exists>f. h x = Some f \<and> f_id f = i) xs))"
  by (induction xs arbitrary: p) (auto simp: find_loop.simps)

lemma pred_loop_chain:
  "chain h p (xs @ y # fp # ys) \<Longrightarrow> distinct (xs @ y # fp # ys) \<Longrightarrow> pred_loop h fp p = Some (Goes y)"
proof (induction xs arbitrary: p)
  case (Cons x xs)
  then obtain f where f: "p = Some x" "h x = Some f" "chain h (f_next f) (xs @ y # fp # ys)" by auto
  then have "f_next f \<noteq> Some fp" using Cons.prems(2) by (cases xs) auto
  with f Cons show ?case by (simp add: pred_loop.simps)
qed (auto simp: pred_loop.simps)

lemma chain_unlink:
  "chain h p (xs @ y # fp # ys) \<Longrightarrow> distinct (xs @ y # fp # ys) \<Longrightarrow> h y = Some g \<Longrightarrow> h fp = Some f
     \<Longrightarrow> chain (h(y := Some (g\<lparr>f_next := f_next f\<rparr>))) p (xs @ y # ys)"
proof (induction xs arbitrary: p)
  case Nil
  have "chain (h(y := Some (g\<lparr>f_next := f_next f\<rparr>))) (f_next f) ys = chain h (f_next f) ys"
    using Nil.prems by (intro foo_chain_frame) auto
  then show ?case using Nil.prems by (auto simp: fun_upd_def)
qed auto

section \<open>The invariant of threads/mutex2.c\<close>

fun holds_hash :: "fpc \<Rightarrow> bool" where
  "holds_hash (Alloc_lock x) = True"
| "holds_hash (Alloc_unhash x) = True"
| "holds_hash (Find_lock x) = True"
| "holds_hash (Find_unlock x) = True"
| "holds_hash (Find_unhash r) = True"
| "holds_hash (Rele_again x) = True"
| "holds_hash (Rele_unlock2 x) = True"
| "holds_hash Rele_unhash = True"
| "holds_hash (Gone_unhash x) = True"
| "holds_hash _ = False"

fun holds_foo :: "fpc \<Rightarrow> addr \<Rightarrow> bool" where
  "holds_foo (Alloc_unhash x) y \<longleftrightarrow> x = y"
| "holds_foo (Alloc_unlock x) y \<longleftrightarrow> x = y"
| "holds_foo (Hold_unlock x) y \<longleftrightarrow> x = y"
| "holds_foo (Find_unlock x) y \<longleftrightarrow> x = y"
| "holds_foo (Rele_drop x) y \<longleftrightarrow> x = y"
| "holds_foo (Rele_unlock x) y \<longleftrightarrow> x = y"
| "holds_foo (Rele_unlock2 x) y \<longleftrightarrow> x = y"
| "holds_foo (Gone_unhash x) y \<longleftrightarrow> x = y"
| "holds_foo (Gone_unlock x) y \<longleftrightarrow> x = y"
| "holds_foo _ y \<longleftrightarrow> False"

text \<open>The object is allocated but not in the table: before it is linked, and after it is unlinked.\<close>

fun outside :: "fpc \<Rightarrow> addr \<Rightarrow> bool" where
  "outside (Alloc_hash x) y \<longleftrightarrow> x = y"
| "outside (Gone_unhash x) y \<longleftrightarrow> x = y"
| "outside (Gone_unlock x) y \<longleftrightarrow> x = y"
| "outside (Gone_free x) y \<longleftrightarrow> x = y"
| "outside _ y \<longleftrightarrow> False"

text \<open>What the thread is about to do relies on a reference of its own.\<close>

fun relies :: "fpc \<Rightarrow> addr \<Rightarrow> bool" where
  "relies (Alloc_hash x) y \<longleftrightarrow> x = y"
| "relies (Alloc_lock x) y \<longleftrightarrow> x = y"
| "relies (Alloc_unhash x) y \<longleftrightarrow> x = y"
| "relies (Alloc_unlock x) y \<longleftrightarrow> x = y"
| "relies (Hold_lock x) y \<longleftrightarrow> x = y"
| "relies (Hold_unlock x) y \<longleftrightarrow> x = y"
| "relies (Find_unlock x) y \<longleftrightarrow> x = y"
| "relies (Rele_lock x) y \<longleftrightarrow> x = y"
| "relies (Rele_drop x) y \<longleftrightarrow> x = y"
| "relies (Rele_hash x) y \<longleftrightarrow> x = y"
| "relies (Rele_again x) y \<longleftrightarrow> x = y"
| "relies (Gone_unhash x) y \<longleftrightarrow> x = y"
| "relies (Gone_unlock x) y \<longleftrightarrow> x = y"
| "relies (Gone_free x) y \<longleftrightarrow> x = y"
| "relies _ y \<longleftrightarrow> False"

lemma outside_relies: "outside c x \<Longrightarrow> relies c x"
  by (cases c) auto

definition table_ok :: "foos \<Rightarrow> (nat \<Rightarrow> addr option) \<Rightarrow> (nat \<Rightarrow> addr list) \<Rightarrow> bool" where
  "table_ok h tab L \<longleftrightarrow> (\<forall>b. chain h (tab b) (L b) \<and> distinct (L b) \<and> (\<forall>x \<in> set (L b). \<exists>f. h x = Some f \<and> HASH (f_id f) = b))"

definition locks_ok :: "ftab \<Rightarrow> bool" where
  "locks_ok s \<longleftrightarrow> (\<forall>t. hashlock s = Some t \<longleftrightarrow> holds_hash (tpc s t))
     \<and> (\<forall>t x. (\<exists>f. heap s x = Some f \<and> f_lock f = Some t) \<longleftrightarrow> holds_foo (tpc s t) x)
     \<and> (\<forall>t x f. tpc s t = Gone_free x \<longrightarrow> heap s x = Some f \<longrightarrow> f_lock f = None)"

definition counts_ok :: "nat \<Rightarrow> ftab \<Rightarrow> bool" where
  "counts_ok N s \<longleftrightarrow> (\<forall>x f. heap s x = Some f \<longrightarrow> f_count f = (\<Sum>t<N. int (refs s t x)))
     \<and> (\<forall>x. heap s x = None \<longrightarrow> (\<forall>t. refs s t x = 0))
     \<and> (\<forall>t x. relies (tpc s t) x \<longrightarrow> 0 < refs s t x)
     \<and> (\<forall>t x f. outside (tpc s t) x \<longrightarrow> heap s x = Some f \<longrightarrow> f_count f = 1)
     \<and> (\<forall>t \<ge> N. tpc s t = Idle \<and> (\<forall>x. refs s t x = 0))"

definition listed_ok :: "(nat \<Rightarrow> addr list) \<Rightarrow> ftab \<Rightarrow> bool" where
  "listed_ok L s \<longleftrightarrow> table_ok (heap s) (fh s) L
     \<and> (\<forall>x f. heap s x = Some f \<longrightarrow> (x \<in> set (L (HASH (f_id f))) \<longleftrightarrow> (\<forall>t. \<not> outside (tpc s t) x)))
     \<and> (\<forall>t x. tpc s t = Find_lock x \<longrightarrow> (\<exists>b. x \<in> set (L b)))"

definition foo_inv :: "nat \<Rightarrow> (nat \<Rightarrow> addr list) \<Rightarrow> ftab \<Rightarrow> bool" where
  "foo_inv N L s \<longleftrightarrow> locks_ok s \<and> counts_ok N s \<and> listed_ok L s"

lemma ref_allocated: "counts_ok N s \<Longrightarrow> 0 < refs s t x \<Longrightarrow> \<exists>f. heap s x = Some f"
  unfolding counts_ok_def by (metis less_nat_zero_code not_None_eq)

lemma outside_only:
  assumes ok: "counts_ok N s" and u: "outside (tpc s u) x" and t: "0 < refs s t x"
  shows "t = u"
proof (rule ccontr)
  assume "t \<noteq> u"
  have 1: "0 < refs s u x" using ok outside_relies [OF u] unfolding counts_ok_def by blast
  then obtain f where f: "heap s x = Some f" using ref_allocated ok by blast
  have N: "t < N" "u < N" using ok t 1 unfolding counts_ok_def by (metis less_nat_zero_code not_less)+
  have "(\<Sum>v\<in>{t, u}. int (refs s v x)) \<le> (\<Sum>v<N. int (refs s v x))" using N by (intro sum_mono2) auto
  moreover have "(\<Sum>v<N. int (refs s v x)) = 1" using ok u f unfolding counts_ok_def by metis
  ultimately show False using t 1 \<open>t \<noteq> u\<close> by simp
qed

lemma listed_foo:
  assumes "listed_ok L s" "x \<in> set (L b)"
  shows "\<exists>f. heap s x = Some f \<and> HASH (f_id f) = b \<and> (\<forall>t. \<not> outside (tpc s t) x)"
  using assms unfolding listed_ok_def table_ok_def by metis

text \<open>A step that changes the counts and locks of one object at most, and not the lists.\<close>

lemma locks_step:
  assumes ok: "locks_ok s"
    and s': "heap s' = (heap s)(x := Some f')" "heap s x = Some f" "tpc s' = (tpc s)(t := c)"
    and hash: "hashlock s' = Some t \<longleftrightarrow> holds_hash c" "\<forall>u. u \<noteq> t \<longrightarrow> (hashlock s' = Some u \<longleftrightarrow> hashlock s = Some u)"
    and foo: "\<forall>y. holds_foo c y \<longleftrightarrow> (if y = x then f_lock f' = Some t else holds_foo (tpc s t) y)"
      "\<forall>u. u \<noteq> t \<longrightarrow> (f_lock f' = Some u \<longleftrightarrow> f_lock f = Some u)"
    and gone: "\<forall>y. y \<noteq> x \<longrightarrow> c \<noteq> Gone_free y" "c = Gone_free x \<longrightarrow> f_lock f' = None" "\<forall>u. u \<noteq> t \<longrightarrow> tpc s u = Gone_free x \<longrightarrow> f_lock f' = None"
  shows "locks_ok s'"
  unfolding locks_ok_def
proof (intro conjI allI impI)
  fix u show "hashlock s' = Some u \<longleftrightarrow> holds_hash (tpc s' u)" using ok s'(3) hash unfolding locks_ok_def by (cases "u = t") auto
next
  fix u y show "(\<exists>g. heap s' y = Some g \<and> f_lock g = Some u) \<longleftrightarrow> holds_foo (tpc s' u) y"
    proof -
      have "(\<exists>g. heap s y = Some g \<and> f_lock g = Some u) \<longleftrightarrow> holds_foo (tpc s u) y" using ok unfolding locks_ok_def by blast
      then show ?thesis using s' foo by (cases "u = t"; cases "y = x") auto
    qed
next
  fix u y g assume a: "tpc s' u = Gone_free y" "heap s' y = Some g"
  have "tpc s u = Gone_free y \<Longrightarrow> heap s y = Some g \<Longrightarrow> f_lock g = None" using ok unfolding locks_ok_def by blast
  then show "f_lock g = None" using a s' gone by (cases "u = t"; cases "y = x") auto
qed

lemma sum_own:
  fixes t N :: nat
  assumes "t < N"
  shows "(\<Sum>u<N. int ((R(t := (R t)(x := k))) u x)) = (\<Sum>u<N. int (R u x)) + int k - int (R t x)"
proof -
  have s: "(\<Sum>u<N. int (S u x)) = int (S t x) + (\<Sum>u\<in>{..<N} - {t}. int (S u x))" for S
    using assms by (intro sum.remove) auto
  have "(\<Sum>u\<in>{..<N} - {t}. int ((R(t := (R t)(x := k))) u x)) = (\<Sum>u\<in>{..<N} - {t}. int (R u x))"
    by (intro sum.cong) auto
  with s [of "R(t := (R t)(x := k))"] s [of R] show ?thesis by (simp del: fun_upd_apply add: fun_upd_same)
qed

lemma counts_step:
  assumes ok: "counts_ok N s" and t: "t < N"
    and s': "heap s' = (heap s)(x := Some f')" "heap s x = Some f" "tpc s' = (tpc s)(t := c)"
      "refs s' = (refs s)(t := (refs s t)(x := k))"
    and count: "f_count f' = f_count f + int k - int (refs s t x)"
    and rel: "\<forall>y. relies c y \<longrightarrow> (if y = x then 0 < k else 0 < refs s t y)"
    and out: "\<forall>y. y \<noteq> x \<longrightarrow> \<not> outside c y" "outside c x \<longrightarrow> f_count f' = 1" "\<forall>u. u \<noteq> t \<longrightarrow> outside (tpc s u) x \<longrightarrow> f_count f' = f_count f"
  shows "counts_ok N s'"
  unfolding counts_ok_def
proof (intro conjI allI impI)
  fix y g assume g: "heap s' y = Some g"
  show "f_count g = (\<Sum>u<N. int (refs s' u y))"
  proof (cases "y = x")
    case True
    then show ?thesis using g ok s' count sum_own [OF t, of "refs s" x k] unfolding counts_ok_def by simp
  next
    case False
    then have "(\<Sum>u<N. int (refs s' u y)) = (\<Sum>u<N. int (refs s u y))" using s'(4) by (intro sum.cong) auto
    then show ?thesis using False g ok s'(1) unfolding counts_ok_def by simp
  qed
next
  fix y u assume y: "heap s' y = None"
  then have "y \<noteq> x" "heap s y = None" using s'(1) by (auto split: if_splits)
  then have "refs s u y = 0" using ok unfolding counts_ok_def by blast
  then show "refs s' u y = 0" using \<open>y \<noteq> x\<close> s'(4) by auto
next
  fix u y assume a: "relies (tpc s' u) y"
  have "relies (tpc s u) y \<Longrightarrow> 0 < refs s u y" using ok unfolding counts_ok_def by blast
  then show "0 < refs s' u y" using a s'(3,4) rel by (cases "u = t"; cases "y = x") auto
next
  fix u y g assume a: "outside (tpc s' u) y" "heap s' y = Some g"
  have old: "outside (tpc s u) y \<Longrightarrow> heap s y = Some g' \<Longrightarrow> f_count g' = 1" for g' using ok unfolding counts_ok_def by blast
  show "f_count g = 1"
  proof (cases "u = t")
    case True
    then show ?thesis using a s'(1,3) out(1,2) by (cases "y = x") auto
  next
    case False
    then have o: "outside (tpc s u) y" using a(1) s'(3) by simp
    show ?thesis
    proof (cases "y = x")
      case True
      then show ?thesis using a(2) s'(1,2) old [OF o, of f] o out(2) out(3) \<open>u \<noteq> t\<close> by simp
    next
      case False
      then show ?thesis using a(2) s'(1) old [OF o] by simp
    qed
  qed
next
  fix u assume u: "N \<le> u"
  then have "tpc s u = Idle" "\<forall>x. refs s u x = 0" "u \<noteq> t" using ok t unfolding counts_ok_def by auto
  then show "tpc s' u = Idle" "refs s' u y = 0" for y using s'(3,4) by auto
qed

lemma table_frame:
  "table_ok h tab L \<Longrightarrow> h x = Some f \<Longrightarrow> f_id f' = f_id f \<Longrightarrow> f_next f' = f_next f \<Longrightarrow> table_ok (h(x := Some f')) tab L"
  unfolding table_ok_def
proof (intro allI conjI ballI)
  fix b assume ok: "\<forall>b. chain h (tab b) (L b) \<and> distinct (L b) \<and> (\<forall>x\<in>set (L b). \<exists>f. h x = Some f \<and> HASH (f_id f) = b)"
    and f: "h x = Some f" "f_id f' = f_id f" "f_next f' = f_next f"
  then have "chain (h(x := Some f')) (tab b) (L b) = chain h (tab b) (L b)" by (intro foo_chain_frame) auto
  with ok show "chain (h(x := Some f')) (tab b) (L b)" "distinct (L b)" by auto
  fix y assume "y \<in> set (L b)"
  with ok f show "\<exists>g. (h(x := Some f')) y = Some g \<and> HASH (f_id g) = b" by fastforce
qed

lemma listed_step:
  assumes ok: "listed_ok L s"
    and s': "heap s' = (heap s)(x := Some f')" "heap s x = Some f" "tpc s' = (tpc s)(t := c)" "fh s' = fh s"
    and f: "f_id f' = f_id f" "f_next f' = f_next f"
    and out: "\<forall>y. outside c y = outside (tpc s t) y" and find: "\<forall>y. c \<noteq> Find_lock y"
  shows "listed_ok L s'"
proof -
  have o: "outside (tpc s' u) y = outside (tpc s u) y" for u y using s'(3) out by simp
  show ?thesis unfolding listed_ok_def o
  proof (intro conjI allI impI)
    show "table_ok (heap s') (fh s') L"
      using ok s' f table_frame unfolding listed_ok_def by metis
  next
    fix y g assume "heap s' y = Some g"
    then have "heap s y = Some g \<or> y = x \<and> g = f'" using s'(1) by (auto split: if_splits)
    then show "(y \<in> set (L (HASH (f_id g)))) = (\<forall>t. \<not> outside (tpc s t) y)" using ok s'(2) f(1) unfolding listed_ok_def by metis
  next
    fix u y assume "tpc s' u = Find_lock y"
    then have "tpc s u = Find_lock y" using s'(3) find by (auto split: if_splits)
    then show "\<exists>b. y \<in> set (L b)" using ok unfolding listed_ok_def by metis
  qed
qed

text \<open>A step that touches no object.\<close>

lemma pc_step:
  assumes inv: "foo_inv N L s" and t: "t < N"
    and s': "heap s' = heap s" "tpc s' = (tpc s)(t := c)" "refs s' = refs s" "fh s' = fh s"
    and hash: "hashlock s' = Some t \<longleftrightarrow> holds_hash c" "\<forall>u. u \<noteq> t \<longrightarrow> (hashlock s' = Some u \<longleftrightarrow> hashlock s = Some u)"
    and foo: "\<forall>y. holds_foo c y \<longleftrightarrow> holds_foo (tpc s t) y"
    and rel: "\<forall>y. relies c y \<longrightarrow> 0 < refs s t y"
    and out: "\<forall>y. outside c y = outside (tpc s t) y" and find: "\<forall>y. c = Find_lock y \<longrightarrow> (\<exists>b. y \<in> set (L b))"
    and gone: "\<forall>y. c \<noteq> Gone_free y"
  shows "foo_inv N L s'"
proof -
  have o: "outside (tpc s' u) y = outside (tpc s u) y" for u y using s'(2) out by simp
  have "locks_ok s'" using inv s'(1,2) hash foo gone unfolding foo_inv_def locks_ok_def by auto
  moreover have "counts_ok N s'" using inv s'(1-3) rel t unfolding foo_inv_def counts_ok_def o by auto
  moreover have "listed_ok L s'" using inv s'(1,2,4) find unfolding foo_inv_def listed_ok_def o by auto
  ultimately show ?thesis by (simp add: foo_inv_def)
qed

lemma obj_step:
  assumes inv: "foo_inv N L s" and t: "t < N" and old: "heap s x = Some f"
    and s': "heap s' = (heap s)(x := Some f')" "tpc s' = (tpc s)(t := c)"
      "refs s' = (refs s)(t := (refs s t)(x := k))" "fh s' = fh s" "hashlock s' = hashlock s"
    and f: "f_id f' = f_id f" "f_next f' = f_next f" "f_count f' = f_count f + int k - int (refs s t x)"
    and hash: "holds_hash c = holds_hash (tpc s t)"
    and foo: "\<forall>y. holds_foo c y \<longleftrightarrow> (if y = x then f_lock f' = Some t else holds_foo (tpc s t) y)"
      "\<forall>u. u \<noteq> t \<longrightarrow> (f_lock f' = Some u \<longleftrightarrow> f_lock f = Some u)"
    and rel: "\<forall>y. relies c y \<longrightarrow> (if y = x then 0 < k else 0 < refs s t y)"
    and out: "\<forall>y. outside c y = outside (tpc s t) y" "\<forall>y. y \<noteq> x \<longrightarrow> \<not> outside c y" "outside c x \<longrightarrow> k = refs s t x"
      "\<forall>u. u \<noteq> t \<longrightarrow> outside (tpc s u) x \<longrightarrow> f_count f' = f_count f \<and> f_lock f' = None"
    and c: "\<forall>y. c \<noteq> Find_lock y" "\<forall>y. y \<noteq> x \<longrightarrow> c \<noteq> Gone_free y" "c = Gone_free x \<longrightarrow> f_lock f' = None"
  shows "foo_inv N L s'"
proof -
  have "locks_ok s'"
  proof (rule locks_step [OF _ s'(1) old s'(2)])
    show "hashlock s' = Some t \<longleftrightarrow> holds_hash c" using inv s'(5) hash unfolding foo_inv_def locks_ok_def by metis
    show "\<forall>u. u \<noteq> t \<longrightarrow> tpc s u = Gone_free x \<longrightarrow> f_lock f' = None" using out(4) by fastforce
  qed (use inv s'(5) foo c in \<open>simp_all add: foo_inv_def\<close>)
  moreover have "counts_ok N s'"
  proof (rule counts_step [OF _ t s'(1) old s'(2,3) f(3) rel out(2)])
    show "outside c x \<longrightarrow> f_count f' = 1"
    proof
      assume o: "outside c x"
      then have "f_count f = 1" using inv out(1) old unfolding foo_inv_def counts_ok_def by metis
      with o out(3) f(3) show "f_count f' = 1" by simp
    qed
  qed (use inv out(4) in \<open>simp_all add: foo_inv_def\<close>)
  moreover have "listed_ok L s'"
    using listed_step [OF _ s'(1) old s'(2,4) f(1,2) out(1) c(1)] inv by (simp add: foo_inv_def)
  ultimately show ?thesis by (simp add: foo_inv_def)
qed

end
