(* ===== verification/FooSafety.thy ===== *)
theory FooSafety imports FooTable begin

text \<open>
  The threads of threads/mutex2.c never use an object that was freed, and never wait for each other forever:
  every step from a state in order leads to one.
\<close>

section \<open>Every step goes well\<close>

definition good :: "nat \<Rightarrow> ftab outcome \<Rightarrow> bool" where
  "good N r \<longleftrightarrow> r = Waits \<or> (\<exists>s L. r = Goes s \<and> foo_inv N L s)"

lemma good_simps [simp]: "good N Waits" "good N (Goes s) \<longleftrightarrow> (\<exists>L. foo_inv N L s)" "\<not> good N Faults" "\<not> good N Loops"
  by (simp_all add: good_def)

lemma good_lock_foo:
  assumes "\<exists>f. heap s x = Some f"
    and "\<And>f. heap s x = Some f \<Longrightarrow> f_lock f = None \<Longrightarrow> good N (k (f\<lparr>f_lock := Some t\<rparr>) (put_foo x (f\<lparr>f_lock := Some t\<rparr>) s))"
  shows "good N (lock_foo t x s k)"
  using assms by (auto simp: lock_foo_def on_foo_def Let_def)

lemma good_unlock_foo:
  assumes "foo_inv N L s" "holds_foo (tpc s t) x"
    and "\<And>f. heap s x = Some f \<Longrightarrow> f_lock f = Some t \<Longrightarrow> good N (k (put_foo x (f\<lparr>f_lock := None\<rparr>) s))"
  shows "good N (unlock_foo t x s k)"
proof -
  obtain f where "heap s x = Some f" "f_lock f = Some t" using assms(1,2) unfolding foo_inv_def locks_ok_def by blast
  with assms(3) show ?thesis by (simp add: unlock_foo_def on_foo_def)
qed

lemma good_lock_hash:
  "(hashlock s = None \<Longrightarrow> good N (k (s\<lparr>hashlock := Some t\<rparr>))) \<Longrightarrow> good N (lock_hash t s k)"
  by (simp add: lock_hash_def)

lemma good_unlock_hash:
  assumes "foo_inv N L s" "holds_hash (tpc s t)" "good N (k (s\<lparr>hashlock := None\<rparr>))"
  shows "good N (unlock_hash t s k)"
  using assms unfolding foo_inv_def locks_ok_def by (simp add: unlock_hash_def)

lemma good_goes: "foo_inv N L s \<Longrightarrow> good N (Goes s)"
  by auto

lemmas foo_moves = at_def put_foo_def own_def count_up_def count_down_def

lemma relies_foo: "foo_inv N L s \<Longrightarrow> relies (tpc s t) x \<Longrightarrow> \<exists>f. heap s x = Some f"
  unfolding foo_inv_def using ref_allocated unfolding counts_ok_def by blast

lemma relies_ref: "foo_inv N L s \<Longrightarrow> relies (tpc s t) x \<Longrightarrow> 0 < refs s t x"
  unfolding foo_inv_def counts_ok_def by blast

lemma relies_alone:
  assumes "foo_inv N L s" "relies (tpc s t) x"
  shows "\<forall>u. u \<noteq> t \<longrightarrow> \<not> outside (tpc s u) x"
  using outside_only [OF _ _ relies_ref [OF assms]] assms(1) unfolding foo_inv_def by blast

text \<open>Unlocking, and locking with a change of the count.\<close>

lemma good_unlocks:
  assumes inv: "foo_inv N L s" and t: "t < N" and h: "\<forall>y. holds_foo (tpc s t) y \<longleftrightarrow> y = x"
    and c: "holds_hash c = holds_hash (tpc s t)" "\<forall>y. \<not> holds_foo c y" "\<forall>y. relies c y \<longrightarrow> relies (tpc s t) y"
      "\<forall>y. outside c y = outside (tpc s t) y" "\<forall>y. y \<noteq> x \<longrightarrow> \<not> outside c y" "\<forall>y. c \<noteq> Find_lock y"
  shows "good N (unlock_foo t x s (\<lambda>s. Goes (at t c s)))"
proof (rule good_unlock_foo [OF inv])
  fix f assume f: "heap s x = Some f" "f_lock f = Some t"
  show "good N (Goes (at t c (put_foo x (f\<lparr>f_lock := None\<rparr>) s)))"
    by (rule good_goes, rule obj_step [OF inv t f(1), where k = "refs s t x" and f' = "f\<lparr>f_lock := None\<rparr>" and c = c])
      (use f h c relies_ref [OF inv, of t] in \<open>auto simp: foo_moves\<close>)
qed (simp add: h)

lemma foo_inv_locks:
  assumes inv: "foo_inv N L s" and t: "t < N" and f: "heap s x = Some f" "f_lock f = None"
    and n: "n = f_count f + int k - int (refs s t x)"
    and c: "holds_hash c = holds_hash (tpc s t)" "\<forall>y. holds_foo c y \<longleftrightarrow> y = x" "\<forall>y. \<not> holds_foo (tpc s t) y"
      "\<forall>y. relies c y \<longrightarrow> y = x \<and> 0 < k" "\<forall>y. \<not> outside c y" "\<forall>y. \<not> outside (tpc s t) y" "\<forall>y. c \<noteq> Find_lock y" "\<forall>y. c \<noteq> Gone_free y"
    and out: "\<forall>u. u \<noteq> t \<longrightarrow> \<not> outside (tpc s u) x"
    and s': "s' = at t c (own t x k (put_foo x (f\<lparr>f_lock := Some t, f_count := n\<rparr>) s))"
  shows "foo_inv N L s'"
  by (rule obj_step [OF inv t f(1), where k = k and f' = "f\<lparr>f_lock := Some t, f_count := n\<rparr>" and c = c])
    (use f c n out s' in \<open>simp_all add: foo_moves\<close>)

lemma good_hold:
  assumes inv: "foo_inv N L s" and t: "t < N" and c: "tpc s t = Hold_lock x \<or> tpc s t = Hold_unlock x"
  shows "good N (foo_hold t (tpc s t) s)"
  using c
proof
  assume c: "tpc s t = Hold_lock x"
  show ?thesis unfolding c foo_hold_def fpc.case
  proof (rule good_lock_foo)
    show "\<exists>f. heap s x = Some f" using relies_foo [OF inv, of t] c by simp
    fix f assume f: "heap s x = Some f" "f_lock f = None"
    show "good N (Goes (at t (Hold_unlock x) (count_up t x (f\<lparr>f_lock := Some t\<rparr>) (put_foo x (f\<lparr>f_lock := Some t\<rparr>) s))))"
      by (rule good_goes, rule foo_inv_locks [OF inv t f, where k = "refs s t x + 1" and c = "Hold_unlock x"])
        (use c relies_alone [OF inv, of t x] in \<open>auto simp: foo_moves\<close>)
  qed
next
  assume c: "tpc s t = Hold_unlock x"
  show ?thesis unfolding c foo_hold_def fpc.case by (rule good_unlocks [OF inv t]) (auto simp: c)
qed

lemma good_hash:
  assumes inv: "foo_inv N L s" and t: "t < N" and h: "hashlock s = None"
    and c: "holds_hash c" "\<forall>y. holds_foo c y \<longleftrightarrow> holds_foo (tpc s t) y" "\<forall>y. relies c y \<longrightarrow> relies (tpc s t) y"
      "\<forall>y. outside c y = outside (tpc s t) y" "\<forall>y. c = Find_lock y \<longrightarrow> (\<exists>b. y \<in> set (L b))"
  shows "good N (Goes (at t c (s\<lparr>hashlock := Some t\<rparr>)))"
  by (rule good_goes, rule pc_step [OF inv t, where c = c]) (use h c relies_ref [OF inv, of t] in \<open>auto simp: at_def\<close>)

lemma good_unhash:
  assumes inv: "foo_inv N L s" and t: "t < N" and h: "holds_hash (tpc s t)"
    and c: "\<not> holds_hash c" "\<forall>y. holds_foo c y \<longleftrightarrow> holds_foo (tpc s t) y" "\<forall>y. relies c y \<longrightarrow> relies (tpc s t) y"
      "\<forall>y. outside c y = outside (tpc s t) y" "\<forall>y. c \<noteq> Find_lock y" "\<forall>y. c \<noteq> Gone_free y"
  shows "good N (unlock_hash t s (\<lambda>s. Goes (at t c s)))"
proof (rule good_unlock_hash [OF inv h])
  have hl: "hashlock s = Some t" using inv h unfolding foo_inv_def locks_ok_def by blast
  show "good N (Goes (at t c (s\<lparr>hashlock := None\<rparr>)))"
    by (rule good_goes, rule pc_step [OF inv t, where c = c]) (use hl c relies_ref [OF inv, of t] in \<open>auto simp: at_def\<close>)
qed

lemma good_find_hash:
  assumes inv: "foo_inv N L s" and t: "t < N" and c: "tpc s t = Find_hash i"
  shows "good N (foo_find t (tpc s t) s)"
proof -
  define r where "r = List.find (\<lambda>x. \<exists>f. heap s x = Some f \<and> f_id f = i) (L (HASH i))"
  have "chain (heap s) (fh s (HASH i)) (L (HASH i))" using inv by (simp add: foo_inv_def listed_ok_def table_ok_def)
  then have l: "find_loop (heap s) i (fh s (HASH i)) = Some (Goes r)" unfolding r_def by (rule find_loop_chain)
  show ?thesis unfolding c foo_find_def fpc.case
  proof (rule good_lock_hash)
    assume h: "hashlock s = None"
    have e: "loop_bind (find_loop (heap (s\<lparr>hashlock := Some t\<rparr>)) i (fh (s\<lparr>hashlock := Some t\<rparr>) (HASH i))) k = k r" for k
      by (simp add: l loop_bind_def)
    show "good N (loop_bind (find_loop (heap (s\<lparr>hashlock := Some t\<rparr>)) i (fh (s\<lparr>hashlock := Some t\<rparr>) (HASH i)))
        (\<lambda>r. Goes (at t (case r of None \<Rightarrow> Find_unhash None | Some fp \<Rightarrow> Find_lock fp) (s\<lparr>hashlock := Some t\<rparr>))))"
      unfolding e
    proof (rule good_hash [OF inv t h])
      have "r = Some y \<Longrightarrow> y \<in> set (L (HASH i))" for y by (auto simp: r_def find_Some_iff)
      then show "\<forall>y. (case r of None \<Rightarrow> Find_unhash None | Some fp \<Rightarrow> Find_lock fp) = Find_lock y \<longrightarrow> (\<exists>b. y \<in> set (L b))"
        by (cases r) auto
    qed (cases r; simp add: c)+
  qed
qed

lemma good_find_lock:
  assumes inv: "foo_inv N L s" and t: "t < N" and c: "tpc s t = Find_lock x"
  shows "good N (foo_find t (tpc s t) s)"
proof -
  have l: "listed_ok L s" using inv by (simp add: foo_inv_def)
  then obtain b where "x \<in> set (L b)" using c unfolding listed_ok_def by blast
  from listed_foo [OF l this] obtain g where g: "heap s x = Some g" "\<forall>u. \<not> outside (tpc s u) x" by (elim exE conjE)
  show ?thesis unfolding c foo_find_def fpc.case
  proof (rule good_lock_foo)
    fix f assume f: "heap s x = Some f" "f_lock f = None"
    show "good N (Goes (at t (Find_unlock x) (count_up t x (f\<lparr>f_lock := Some t\<rparr>) (put_foo x (f\<lparr>f_lock := Some t\<rparr>) s))))"
      by (rule good_goes, rule foo_inv_locks [OF inv t f, where k = "refs s t x + 1" and c = "Find_unlock x"])
        (use c g in \<open>auto simp: foo_moves\<close>)
  qed (use g in simp)
qed

lemma good_find:
  assumes inv: "foo_inv N L s" and t: "t < N"
    and c: "tpc s t = Find_hash i \<or> tpc s t = Find_lock x \<or> tpc s t = Find_unlock x \<or> tpc s t = Find_unhash r"
  shows "good N (foo_find t (tpc s t) s)"
  using c
proof (elim disjE)
  assume c: "tpc s t = Find_unlock x"
  show ?thesis unfolding c foo_find_def fpc.case by (rule good_unlocks [OF inv t]) (auto simp: c)
next
  assume c: "tpc s t = Find_unhash r"
  show ?thesis unfolding c foo_find_def fpc.case by (rule good_unhash [OF inv t]) (auto simp: c)
qed (rule good_find_hash [OF inv t] good_find_lock [OF inv t], assumption)+

text \<open>Linking and unlinking.\<close>

lemma foo_chain_upd: "x \<notin> set xs \<Longrightarrow> chain (h(x := v)) p xs = chain h p xs"
  by (rule foo_chain_frame) auto

lemma table_link:
  assumes ok: "table_ok h tab L" and x: "h x = Some f" "\<forall>b. x \<notin> set (L b)" and i: "i = HASH (f_id f)"
  shows "table_ok (h(x := Some (f\<lparr>f_next := tab i\<rparr>))) (tab(i := Some x)) (L(i := x # L i))"
  unfolding table_ok_def
proof (intro allI conjI ballI)
  fix b
  show "chain (h(x := Some (f\<lparr>f_next := tab i\<rparr>))) ((tab(i := Some x)) b) ((L(i := x # L i)) b)"
    using ok x unfolding table_ok_def by (cases "b = i") (simp_all add: foo_chain_upd)
  show "distinct ((L(i := x # L i)) b)" using ok x unfolding table_ok_def by auto
  fix y assume "y \<in> set ((L(i := x # L i)) b)"
  then show "\<exists>g. (h(x := Some (f\<lparr>f_next := tab i\<rparr>))) y = Some g \<and> HASH (f_id g) = b"
    using ok x i unfolding table_ok_def by (cases "y = x") (auto split: if_splits)
qed

lemma table_unlink_first:
  assumes ok: "table_ok h tab L" and x: "h x = Some f" "tab i = Some x" and i: "i = HASH (f_id f)"
  shows "\<exists>ys. L i = x # ys \<and> table_ok h (tab(i := f_next f)) (L(i := ys))"
proof -
  have c: "chain h (tab i) (L i)" "distinct (L i)" using ok unfolding table_ok_def by blast+
  then obtain ys where ys: "L i = x # ys" using x(2) by (cases "L i") auto
  then have "table_ok h (tab(i := f_next f)) (L(i := ys))" using ok x c unfolding table_ok_def by auto
  with ys show ?thesis by blast
qed

lemma table_unlink_later:
  assumes ok: "table_ok h tab L" and x: "h x = Some f" "tab i \<noteq> Some x" "x \<in> set (L i)" and i: "i = HASH (f_id f)"
  shows "\<exists>y g xs ys. pred_loop h x (tab i) = Some (Goes y) \<and> y \<noteq> x \<and> h y = Some g \<and> L i = xs @ y # x # ys
    \<and> table_ok (h(y := Some (g\<lparr>f_next := f_next f\<rparr>))) tab (L(i := xs @ y # ys))"
proof -
  have c: "chain h (tab i) (L i)" "distinct (L i)" using ok unfolding table_ok_def by blast+
  obtain zs ys where zs: "L i = zs @ x # ys" using split_list [OF x(3)] by blast
  with c(1) x(2) have "zs \<noteq> []" by (cases zs) auto
  then obtain xs y where y: "L i = xs @ y # x # ys" using zs by (cases zs rule: rev_cases) auto
  then obtain g where g: "h y = Some g" "HASH (f_id g) = i" "y \<noteq> x" using ok c(2) unfolding table_ok_def by force
  have l: "pred_loop h x (tab i) = Some (Goes y)" using pred_loop_chain c y by simp
  have "table_ok (h(y := Some (g\<lparr>f_next := f_next f\<rparr>))) tab (L(i := xs @ y # ys))"
    unfolding table_ok_def
  proof (intro allI conjI ballI)
    fix b
    show "chain (h(y := Some (g\<lparr>f_next := f_next f\<rparr>))) (tab b) ((L(i := xs @ y # ys)) b)"
    proof (cases "b = i")
      case True
      then show ?thesis using chain_unlink [of h "tab i" xs y x ys g f] c y g x(1) by simp
    next
      case False
      then have "y \<notin> set (L b)" using ok g unfolding table_ok_def by fastforce
      then show ?thesis using False ok unfolding table_ok_def by (simp add: foo_chain_upd)
    qed
    show "distinct ((L(i := xs @ y # ys)) b)" using ok c(2) y unfolding table_ok_def by auto
    fix z assume "z \<in> set ((L(i := xs @ y # ys)) b)"
    then have "z \<in> set (L b)" using y by (auto split: if_splits)
    then obtain k where "h z = Some k" "HASH (f_id k) = b" using ok unfolding table_ok_def by blast
    then show "\<exists>g'. (h(y := Some (g\<lparr>f_next := f_next f\<rparr>))) z = Some g' \<and> HASH (f_id g') = b" using g by auto
  qed
  with l y g show ?thesis by blast
qed

text \<open>An object that leaves or enters the lists, with the locks and counts as they are.\<close>

lemma listed_move:
  assumes ok: "listed_ok L s" and tab: "table_ok (heap s') (fh s') L'"
    and s': "tpc s' = (tpc s)(t := c)" "heap s x = Some f"
      "\<forall>y. map_option f_id (heap s' y) = map_option f_id (heap s y)"
    and L': "\<forall>b y. y \<noteq> x \<longrightarrow> (y \<in> set (L' b) \<longleftrightarrow> y \<in> set (L b))" "x \<in> set (L' (HASH (f_id f))) \<longleftrightarrow> \<not> outside c x"
    and only: "\<forall>u. u \<noteq> t \<longrightarrow> \<not> outside (tpc s u) x \<and> tpc s u \<noteq> Find_lock x" "\<forall>y. y \<noteq> x \<longrightarrow> outside c y = outside (tpc s t) y"
      "\<forall>y. c \<noteq> Find_lock y"
  shows "listed_ok L' s'"
  unfolding listed_ok_def
proof (intro conjI allI impI)
  fix y g assume g: "heap s' y = Some g"
  then obtain h where h: "heap s y = Some h" "f_id g = f_id h" using s'(3) by (metis (mono_tags) map_option_eq_Some)
  show "(y \<in> set (L' (HASH (f_id g)))) = (\<forall>u. \<not> outside (tpc s' u) y)"
  proof (cases "y = x")
    case True
    then show ?thesis using h s'(1,2) L'(2) only(1) by auto
  next
    case False
    then have "outside (tpc s' u) y = outside (tpc s u) y" for u using s'(1) only(2) by simp
    moreover have "y \<in> set (L (HASH (f_id h))) \<longleftrightarrow> (\<forall>u. \<not> outside (tpc s u) y)" using ok h(1) unfolding listed_ok_def by blast
    ultimately show ?thesis using False h(2) L'(1) by simp
  qed
next
  fix u y assume "tpc s' u = Find_lock y"
  then have u: "tpc s u = Find_lock y" "u \<noteq> t" using s'(1) only(3) by (auto split: if_splits)
  then have "y \<noteq> x" using only(1) by blast
  moreover obtain b where "y \<in> set (L b)" using ok u unfolding listed_ok_def by blast
  ultimately show "\<exists>b. y \<in> set (L' b)" using L'(1) by blast
qed (rule tab)

lemma field_ex: "(\<exists>f. v = Some f \<and> g f = l) \<longleftrightarrow> map_option g v = Some l"
  by (cases v) auto

lemma field_all: "(\<forall>f. v = Some f \<longrightarrow> g f = l) \<longleftrightarrow> map_option g v \<in> {None, Some l}"
  by (cases v) auto

lemma field_imp: "(\<forall>f. P \<longrightarrow> v = Some f \<longrightarrow> g f = l) \<longleftrightarrow> (P \<longrightarrow> map_option g v \<in> {None, Some l})"
  by (cases v) auto

lemma locks_frame:
  assumes "locks_ok s" "\<forall>y. map_option f_lock (heap s' y) = map_option f_lock (heap s y)" "tpc s' = tpc s" "hashlock s' = hashlock s"
  shows "locks_ok s'"
  using assms unfolding locks_ok_def field_ex field_imp by simp

lemma counts_frame:
  assumes "counts_ok N s" "\<forall>y. map_option f_count (heap s' y) = map_option f_count (heap s y)" "tpc s' = tpc s" "refs s' = refs s"
  shows "counts_ok N s'"
proof -
  have n: "heap s' y = None \<longleftrightarrow> heap s y = None" for y using assms(2) by (metis map_option_is_None)
  show ?thesis using assms(1,2) unfolding counts_ok_def field_all field_imp assms(3,4) n by simp
qed

lemma outside_unlisted: "listed_ok L s \<Longrightarrow> outside (tpc s t) x \<Longrightarrow> x \<notin> set (L b) \<and> tpc s u \<noteq> Find_lock x"
  using listed_foo [of L s x] unfolding listed_ok_def by blast

lemma good_link:
  assumes inv: "foo_inv N L s" and t: "t < N" and c: "tpc s t = Alloc_hash x" and h: "hashlock s = None" and f: "heap s x = Some f"
  shows "good N (Goes (at t (Alloc_lock x) (link_foo x f (s\<lparr>hashlock := Some t\<rparr>))))"
proof -
  let ?i = "HASH (f_id f)"
  let ?f = "f\<lparr>f_next := fh s ?i\<rparr>"
  let ?s = "at t (Alloc_lock x) (link_foo x f (s\<lparr>hashlock := Some t\<rparr>))"
  let ?L = "L(?i := x # L ?i)"
  have inv': "locks_ok s" "counts_ok N s" "listed_ok L s" using inv by (auto simp: foo_inv_def)
  have s: "heap ?s = (heap s)(x := Some ?f)" "tpc ?s = (tpc s)(t := Alloc_lock x)" "refs ?s = (refs s)(t := (refs s t)(x := refs s t x))"
    "fh ?s = (fh s)(?i := Some x)" "hashlock ?s = Some t" by (simp_all add: at_def link_foo_def put_foo_def Let_def)
  have x: "\<forall>b. x \<notin> set (L b)" "\<forall>u. tpc s u \<noteq> Find_lock x" using outside_unlisted [OF inv'(3), of t x] c by auto
  have alone: "\<forall>u. u \<noteq> t \<longrightarrow> \<not> outside (tpc s u) x" using relies_alone [OF inv, of t x] c by simp
  have "(\<exists>g. heap s x = Some g \<and> f_lock g = Some t) \<longleftrightarrow> holds_foo (tpc s t) x" using inv'(1) unfolding locks_ok_def by blast
  then have lf: "f_lock f \<noteq> Some t" using f c by simp
  have "locks_ok ?s" by (rule locks_step [OF inv'(1) s(1) f s(2)]) (use s(5) h c alone lf in auto)
  moreover have "counts_ok N ?s"
    by (rule counts_step [OF inv'(2) t s(1) f s(2,3)]) (use c relies_ref [OF inv, of t x] in auto)
  moreover have "table_ok (heap ?s) (fh ?s) ?L"
    unfolding s using inv'(3) x(1) f by (intro table_link) (auto simp: listed_ok_def)
  then have "listed_ok ?L ?s"
    by (rule listed_move [OF inv'(3) _ s(2) f]) (use s(1) f x alone c in auto)
  ultimately show ?thesis by (intro good_goes) (simp add: foo_inv_def)
qed

lemma good_alloc:
  assumes inv: "foo_inv N L s" and t: "t < N"
    and c: "tpc s t = Alloc_hash x \<or> tpc s t = Alloc_lock x \<or> tpc s t = Alloc_unhash x \<or> tpc s t = Alloc_unlock x"
  shows "good N (alloc_step t (tpc s t) s)"
  using c
proof (elim disjE)
  assume c: "tpc s t = Alloc_hash x"
  then obtain f where f: "heap s x = Some f" using relies_foo [OF inv, of t x] by auto
  show ?thesis unfolding c alloc_step_def fpc.case
    by (rule good_lock_hash) (use good_link [OF inv t c _ f] f in \<open>simp add: on_foo_def del: good_simps\<close>)
next
  assume c: "tpc s t = Alloc_lock x"
  show ?thesis unfolding c alloc_step_def fpc.case
  proof (rule good_lock_foo)
    show "\<exists>f. heap s x = Some f" using relies_foo [OF inv, of t] c by simp
    fix f assume f: "heap s x = Some f" "f_lock f = None"
    show "good N (Goes (at t (Alloc_unhash x) (put_foo x (f\<lparr>f_lock := Some t\<rparr>) s)))"
      by (rule good_goes, rule foo_inv_locks [OF inv t f, where k = "refs s t x" and c = "Alloc_unhash x" and n = "f_count f"])
        (use c relies_alone [OF inv, of t x] relies_ref [OF inv, of t x] in \<open>auto simp: foo_moves\<close>)
  qed
next
  assume c: "tpc s t = Alloc_unhash x"
  show ?thesis unfolding c alloc_step_def fpc.case by (rule good_unhash [OF inv t]) (auto simp: c)
next
  assume c: "tpc s t = Alloc_unlock x"
  show ?thesis unfolding c alloc_step_def fpc.case by (rule good_unlocks [OF inv t]) (auto simp: c)
qed

lemma good_unlink:
  assumes inv: "foo_inv N L s" and t: "t < N" and c: "tpc s t = Rele_again x" and f: "heap s x = Some f" "f_lock f = None" "f_count f = 1"
  shows "\<exists>s' L'. unlink_foo x (f\<lparr>f_lock := Some t\<rparr>) (put_foo x (f\<lparr>f_lock := Some t\<rparr>) s) (\<lambda>s. Goes (at t (Gone_unhash x) s)) = Goes s'
    \<and> foo_inv N L' s'"
proof -
  let ?i = "HASH (f_id f)"
  let ?f = "f\<lparr>f_lock := Some t\<rparr>"
  let ?h = "(heap s)(x := Some ?f)"
  let ?s = "at t (Gone_unhash x) (put_foo x ?f s)"
  have inv': "locks_ok s" "counts_ok N s" "listed_ok L s" using inv by (auto simp: foo_inv_def)
  have s: "heap ?s = ?h" "tpc ?s = (tpc s)(t := Gone_unhash x)" "refs ?s = (refs s)(t := (refs s t)(x := refs s t x))"
    "hashlock ?s = hashlock s" by (simp_all add: at_def put_foo_def)
  have alone: "\<forall>u. u \<noteq> t \<longrightarrow> \<not> outside (tpc s u) x" using relies_alone [OF inv, of t x] c by simp
  have hl: "hashlock s = Some t" using inv'(1) c unfolding locks_ok_def by simp
  have nofind: "\<forall>u. tpc s u \<noteq> Find_lock x" 
  proof (intro allI notI)
    fix u assume u: "tpc s u = Find_lock x"
    then have "holds_hash (tpc s u)" by simp
    then have "hashlock s = Some u" using inv'(1) unfolding locks_ok_def by blast
    with hl u c show False by simp
  qed
  have lk: "locks_ok ?s" by (rule locks_step [OF inv'(1) s(1) f(1) s(2)]) (use s(4) hl c alone f(2) in auto)
  have ct: "counts_ok N ?s"
    by (rule counts_step [OF inv'(2) t s(1) f(1) s(2,3)]) (use c f(3) relies_ref [OF inv, of t x] alone in auto)
  have tab: "table_ok ?h (fh s) L" using inv'(3) f(1) table_frame [of "heap s" "fh s" L x f ?f] unfolding listed_ok_def by simp
  have "\<not> outside (tpc s u) x" for u using alone c by (cases "u = t") auto
  then have inl: "x \<in> set (L ?i)" using inv'(3) f(1) unfolding listed_ok_def by blast
  have move: "listed_ok L' s'" if "table_ok (heap s') (fh s') L'" "tpc s' = tpc ?s"
    "\<forall>y. map_option f_id (heap s' y) = map_option f_id (heap s y)" "L' = L(?i := zs)" "set zs = set (L ?i) - {x}" for L' s' zs
  proof (rule listed_move [OF inv'(3) that(1), of t "Gone_unhash x" x f])
    have "x \<notin> set (L b)" if "b \<noteq> ?i" for b using that inv'(3) f(1) unfolding listed_ok_def table_ok_def by force
    then show "\<forall>b y. y \<noteq> x \<longrightarrow> (y \<in> set (L' b) \<longleftrightarrow> y \<in> set (L b))" using that(4,5) by auto
    show "x \<in> set (L' ?i) \<longleftrightarrow> \<not> outside (Gone_unhash x) x" using that(4,5) by simp
    show "\<forall>u. u \<noteq> t \<longrightarrow> \<not> outside (tpc s u) x \<and> tpc s u \<noteq> Find_lock x" using alone nofind by blast
    show "tpc s' = (tpc s)(t := Gone_unhash x)" using that(2) s(2) by (rule trans)
    show "\<forall>y. y \<noteq> x \<longrightarrow> outside (Gone_unhash x) y = outside (tpc s t) y" by (simp add: c eq_commute)
  qed (rule that(3) f(1) | simp)+
  show ?thesis
  proof (cases "fh s ?i = Some x")
    case True
    have "\<exists>ys. L ?i = x # ys \<and> table_ok ?h ((fh s)(?i := f_next ?f)) (L(?i := ys))"
      by (rule table_unlink_first [OF tab]) (simp_all add: True)
    then obtain ys where ys: "L ?i = x # ys" "table_ok ?h ((fh s)(?i := f_next f)) (L(?i := ys))" by (elim exE conjE) simp
    let ?s' = "at t (Gone_unhash x) (put_foo x ?f s\<lparr>fh := (fh s)(?i := f_next f)\<rparr>)"
    have "distinct (L ?i)" using inv'(3) unfolding listed_ok_def table_ok_def by blast
    then have "listed_ok (L(?i := ys)) ?s'"
      by (intro move [of _ _ ys]) (use ys f(1) in \<open>simp_all add: at_def put_foo_def\<close>)
    moreover have "locks_ok ?s'" by (rule locks_frame [OF lk]) (simp_all add: at_def put_foo_def)
    moreover have "counts_ok N ?s'" by (rule counts_frame [OF ct]) (simp_all add: at_def put_foo_def)
    ultimately have "foo_inv N (L(?i := ys)) ?s'" by (simp add: foo_inv_def)
    then show ?thesis using True by (auto simp: unlink_foo_def put_foo_def)
  next
    case False
    have "\<exists>y g xs ys. pred_loop ?h x (fh s ?i) = Some (Goes y) \<and> y \<noteq> x \<and> ?h y = Some g \<and> L ?i = xs @ y # x # ys
      \<and> table_ok (?h(y := Some (g\<lparr>f_next := f_next ?f\<rparr>))) (fh s) (L(?i := xs @ y # ys))"
      by (rule table_unlink_later [OF tab]) (use False inl in simp_all)
    then obtain y g xs ys where y: "pred_loop ?h x (fh s ?i) = Some (Goes y)" "y \<noteq> x" "?h y = Some g" "L ?i = xs @ y # x # ys"
      "table_ok (?h(y := Some (g\<lparr>f_next := f_next f\<rparr>))) (fh s) (L(?i := xs @ y # ys))"
      by (elim exE conjE) simp
    let ?s' = "at t (Gone_unhash x) (put_foo y (g\<lparr>f_next := f_next f\<rparr>) (put_foo x ?f s))"
    have "distinct (L ?i)" using inv'(3) unfolding listed_ok_def table_ok_def by blast
    then have "listed_ok (L(?i := xs @ y # ys)) ?s'"
      by (intro move [of _ _ "xs @ y # ys"]) (use y(2-5) f(1) in \<open>auto simp: at_def put_foo_def\<close>)
    moreover have "locks_ok ?s'" by (rule locks_frame [OF lk]) (use y in \<open>simp_all add: at_def put_foo_def\<close>)
    moreover have "counts_ok N ?s'" by (rule counts_frame [OF ct]) (use y in \<open>simp_all add: at_def put_foo_def\<close>)
    ultimately have "foo_inv N (L(?i := xs @ y # ys)) ?s'" by (simp add: foo_inv_def)
    then show ?thesis using False y by (auto simp: unlink_foo_def put_foo_def loop_bind_def on_foo_def)
  qed
qed

text \<open>Freeing an object: its last reference is the thread's, and nobody else is near it.\<close>

lemma locks_free:
  assumes ok: "locks_ok s" and s': "heap s' = (heap s)(x := None)" "tpc s' = (tpc s)(t := Ret None)" "hashlock s' = hashlock s"
    and c: "tpc s t = Gone_free x" and f: "heap s x = Some f"
  shows "locks_ok s'"
  unfolding locks_ok_def s'
proof (intro conjI allI impI)
  fix u show "hashlock s = Some u \<longleftrightarrow> holds_hash (((tpc s)(t := Ret None)) u)"
    using ok c unfolding locks_ok_def by (cases "u = t") auto
next
  fix u y
  have "f_lock f = None" using ok c f unfolding locks_ok_def by blast
  moreover have l: "(\<exists>g. heap s y = Some g \<and> f_lock g = Some u) \<longleftrightarrow> holds_foo (tpc s u) y" for y
    using ok unfolding locks_ok_def by blast
  ultimately have "\<not> holds_foo (tpc s u) x" using f l [of x] by auto
  then show "(\<exists>g. ((heap s)(x := None)) y = Some g \<and> f_lock g = Some u) \<longleftrightarrow> holds_foo (((tpc s)(t := Ret None)) u) y"
    using c l [of y] by (cases "u = t"; cases "y = x") auto
next
  fix u y g assume "((tpc s)(t := Ret None)) u = Gone_free y" "((heap s)(x := None)) y = Some g"
  then have "tpc s u = Gone_free y" "heap s y = Some g" by (auto split: if_splits)
  then show "f_lock g = None" using ok unfolding locks_ok_def by blast
qed

lemma last_reference:
  assumes ok: "counts_ok N s" and t: "t < N" and o: "outside (tpc s t) x"
  shows "refs s t x = 1 \<and> (\<forall>u. u \<noteq> t \<longrightarrow> refs s u x = 0)"
proof -
  have only: "refs s u x = 0" if "u \<noteq> t" for u using outside_only [OF ok o, of u] that by auto
  have "0 < refs s t x" using ok outside_relies [OF o] unfolding counts_ok_def by blast
  then obtain f where f: "heap s x = Some f" using ref_allocated [OF ok] by blast
  have "f_count f = 1" "f_count f = (\<Sum>u<N. int (refs s u x))" using ok o f unfolding counts_ok_def by blast+
  moreover have "(\<Sum>u<N. int (refs s u x)) = (\<Sum>u\<in>{t}. int (refs s u x))" using t only by (intro sum.mono_neutral_right) auto
  ultimately show ?thesis using only by simp
qed

lemma counts_free:
  assumes ok: "counts_ok N s" and t: "t < N" and o: "outside (tpc s t) x"
    and s': "heap s' = (heap s)(x := None)" "tpc s' = (tpc s)(t := Ret None)" "refs s' = (refs s)(t := (refs s t)(x := 0))"
  shows "counts_ok N s'"
  unfolding counts_ok_def
proof (intro conjI allI impI)
  fix y g assume "heap s' y = Some g"
  then have y: "y \<noteq> x" "heap s y = Some g" using s'(1) by (auto split: if_splits)
  then have "(\<Sum>u<N. int (refs s' u y)) = (\<Sum>u<N. int (refs s u y))" using s'(3) by (intro sum.cong) auto
  then show "f_count g = (\<Sum>u<N. int (refs s' u y))" using ok y(2) unfolding counts_ok_def by simp
next
  fix y u assume y: "heap s' y = None"
  have "y \<noteq> x \<longrightarrow> refs s u y = 0" using y s'(1) ok unfolding counts_ok_def by auto
  then show "refs s' u y = 0" using last_reference [OF ok t o] s'(3) by (cases "u = t"; cases "y = x") auto
next
  fix u y assume "relies (tpc s' u) y"
  then have u: "u \<noteq> t" "relies (tpc s u) y" using s'(2) by (auto split: if_splits)
  then have "0 < refs s u y" using ok unfolding counts_ok_def by blast
  then show "0 < refs s' u y" using u(1) s'(3) by simp
next
  fix u y g assume "outside (tpc s' u) y" "heap s' y = Some g"
  then have "outside (tpc s u) y" "heap s y = Some g" using s' by (auto split: if_splits)
  then show "f_count g = 1" using ok unfolding counts_ok_def by blast
next
  fix u assume "N \<le> u"
  then have "tpc s u = Idle" "\<forall>x. refs s u x = 0" "u \<noteq> t" using ok t unfolding counts_ok_def by auto
  then show "tpc s' u = Idle" "refs s' u y = 0" for y using s' by auto
qed

text \<open>An object outside the lists appears or disappears.\<close>

lemma listed_outside:
  assumes ok: "listed_ok L s" and x: "\<forall>b. x \<notin> set (L b)"
    and s': "heap s' = (heap s)(x := v)" "tpc s' = (tpc s)(t := c)" "fh s' = fh s"
    and c: "v = None \<or> outside c x" "\<forall>y. y \<noteq> x \<longrightarrow> outside c y = outside (tpc s t) y" "\<forall>y. c \<noteq> Find_lock y"
  shows "listed_ok L s'"
  unfolding listed_ok_def
proof (intro conjI allI impI)
  show "table_ok (heap s') (fh s') L"
    using ok x s' unfolding listed_ok_def table_ok_def by (auto simp: foo_chain_upd)
next
  fix y g assume g: "heap s' y = Some g"
  show "(y \<in> set (L (HASH (f_id g)))) = (\<forall>u. \<not> outside (tpc s' u) y)"
  proof (cases "y = x")
    case True
    then have "outside (tpc s' t) y" using g s' c(1) by auto
    then show ?thesis using x True by blast
  next
    case False
    then have "outside (tpc s' u) y \<longleftrightarrow> outside (tpc s u) y" for u using c(2) s'(2) by (cases "u = t") auto
    then show ?thesis using ok g s'(1) False unfolding listed_ok_def by simp
  qed
next
  fix u y assume "tpc s' u = Find_lock y"
  then have "tpc s u = Find_lock y" using s'(2) c(3) by (auto split: if_splits)
  then show "\<exists>b. y \<in> set (L b)" using ok unfolding listed_ok_def by blast
qed

lemma good_free:
  assumes inv: "foo_inv N L s" and t: "t < N" and c: "tpc s t = Gone_free x"
  shows "good N (free_foo t x s)"
proof -
  let ?s = "at t (Ret None) (own t x (refs s t x - 1) (s\<lparr>heap := (heap s)(x := None)\<rparr>))"
  have inv': "locks_ok s" "counts_ok N s" "listed_ok L s" using inv by (auto simp: foo_inv_def)
  obtain f where f: "heap s x = Some f" using relies_foo [OF inv, of t x] c by auto
  have lf: "f_lock f = None" using inv'(1) c f unfolding locks_ok_def by blast
  have o: "outside (tpc s t) x" by (simp add: c)
  have s: "heap ?s = (heap s)(x := None)" "tpc ?s = (tpc s)(t := Ret None)" "refs ?s = (refs s)(t := (refs s t)(x := 0))"
    "fh ?s = fh s" "hashlock ?s = hashlock s" using last_reference [OF inv'(2) t o] by (simp_all add: at_def own_def)
  have "locks_ok ?s" by (rule locks_free [OF inv'(1) s(1,2,5) c f])
  moreover have "counts_ok N ?s" by (rule counts_free [OF inv'(2) t o s(1-3)])
  moreover have "listed_ok L ?s"
    by (rule listed_outside [OF inv'(3) _ s(1,2,4)]) (use outside_unlisted [OF inv'(3) o] c in auto)
  ultimately have "foo_inv N L ?s" by (simp add: foo_inv_def)
  then show ?thesis using f lf by (auto simp: free_foo_def on_foo_def)
qed

lemma good_rele_lock:
  assumes inv: "foo_inv N L s" and t: "t < N" and c: "tpc s t = Rele_lock x"
  shows "good N (foo_rele t (tpc s t) s)"
  unfolding c foo_rele_def fpc.case
proof (rule good_lock_foo)
  show "\<exists>f. heap s x = Some f" using relies_foo [OF inv, of t] c by simp
  have alone: "\<forall>u. u \<noteq> t \<longrightarrow> \<not> outside (tpc s u) x" using relies_alone [OF inv, of t x] c by simp
  have mine: "0 < refs s t x" using relies_ref [OF inv, of t x] c by simp
  fix f assume f: "heap s x = Some f" "f_lock f = None"
  show "good N (Goes (if f_count (f\<lparr>f_lock := Some t\<rparr>) = 1 then at t (Rele_drop x) (put_foo x (f\<lparr>f_lock := Some t\<rparr>) s)
      else at t (Rele_unlock x) (count_down t x (f\<lparr>f_lock := Some t\<rparr>) (put_foo x (f\<lparr>f_lock := Some t\<rparr>) s))))"
  proof (rule good_goes, cases "f_count f = 1")
    case True
    have "foo_inv N L (at t (Rele_drop x) (put_foo x (f\<lparr>f_lock := Some t\<rparr>) s))"
      by (rule foo_inv_locks [OF inv t f, where k = "refs s t x" and c = "Rele_drop x" and n = "f_count f"])
        (use c alone mine in \<open>auto simp: foo_moves\<close>)
    with True show "foo_inv N L (if f_count (f\<lparr>f_lock := Some t\<rparr>) = 1 then at t (Rele_drop x) (put_foo x (f\<lparr>f_lock := Some t\<rparr>) s)
      else at t (Rele_unlock x) (count_down t x (f\<lparr>f_lock := Some t\<rparr>) (put_foo x (f\<lparr>f_lock := Some t\<rparr>) s)))" by simp
  next
    case False
    show "foo_inv N L (if f_count (f\<lparr>f_lock := Some t\<rparr>) = 1 then at t (Rele_drop x) (put_foo x (f\<lparr>f_lock := Some t\<rparr>) s)
      else at t (Rele_unlock x) (count_down t x (f\<lparr>f_lock := Some t\<rparr>) (put_foo x (f\<lparr>f_lock := Some t\<rparr>) s)))"
      by (rule foo_inv_locks [OF inv t f, where k = "refs s t x - 1" and c = "Rele_unlock x" and n = "f_count f - 1"])
        (use c alone mine False in \<open>auto simp: foo_moves of_nat_diff\<close>)
  qed
qed

lemma good_rele_again:
  assumes inv: "foo_inv N L s" and t: "t < N" and c: "tpc s t = Rele_again x"
  shows "good N (foo_rele t (tpc s t) s)"
  unfolding c foo_rele_def fpc.case
proof (rule good_lock_foo)
  show "\<exists>f. heap s x = Some f" using relies_foo [OF inv, of t] c by simp
  have alone: "\<forall>u. u \<noteq> t \<longrightarrow> \<not> outside (tpc s u) x" using relies_alone [OF inv, of t x] c by simp
  have mine: "0 < refs s t x" using relies_ref [OF inv, of t x] c by simp
  fix f assume f: "heap s x = Some f" "f_lock f = None"
  have dec: "foo_inv N L (at t (Rele_unlock2 x) (count_down t x (f\<lparr>f_lock := Some t\<rparr>) (put_foo x (f\<lparr>f_lock := Some t\<rparr>) s)))"
    by (rule foo_inv_locks [OF inv t f, where k = "refs s t x - 1" and c = "Rele_unlock2 x" and n = "f_count f - 1"])
      (use c alone mine in \<open>auto simp: foo_moves of_nat_diff\<close>)
  show "good N (if f_count (f\<lparr>f_lock := Some t\<rparr>) \<noteq> 1
      then Goes (at t (Rele_unlock2 x) (count_down t x (f\<lparr>f_lock := Some t\<rparr>) (put_foo x (f\<lparr>f_lock := Some t\<rparr>) s)))
      else unlink_foo x (f\<lparr>f_lock := Some t\<rparr>) (put_foo x (f\<lparr>f_lock := Some t\<rparr>) s) (\<lambda>s. Goes (at t (Gone_unhash x) s)))"
  proof (cases "f_count f = 1")
    case True
    with good_unlink [OF inv t c f] show ?thesis by (auto simp: good_def)
  next
    case False
    with good_goes [OF dec] show ?thesis by simp
  qed
qed

lemma good_rele:
  assumes inv: "foo_inv N L s" and t: "t < N" and c: "tpc s t = c"
    and "c \<in> {Rele_drop x, Rele_hash x, Rele_unlock x, Rele_unlock2 x, Rele_unhash, Gone_unhash x, Gone_unlock x}"
  shows "good N (foo_rele t c s)"
  using assms(4)
proof (elim insertE emptyE)
  assume e: "c = Rele_drop x"
  show ?thesis unfolding e foo_rele_def fpc.case by (rule good_unlocks [OF inv t]) (auto simp: c e)
next
  assume e: "c = Rele_hash x"
  show ?thesis unfolding e foo_rele_def fpc.case
    by (rule good_lock_hash, rule good_hash [OF inv t]) (auto simp: c e)
next
  assume e: "c = Rele_unlock x"
  show ?thesis unfolding e foo_rele_def fpc.case by (rule good_unlocks [OF inv t]) (auto simp: c e)
next
  assume e: "c = Rele_unlock2 x"
  show ?thesis unfolding e foo_rele_def fpc.case by (rule good_unlocks [OF inv t]) (auto simp: c e)
next
  assume e: "c = Rele_unhash"
  show ?thesis unfolding e foo_rele_def fpc.case by (rule good_unhash [OF inv t]) (auto simp: c e)
next
  assume e: "c = Gone_unhash x"
  show ?thesis unfolding e foo_rele_def fpc.case by (rule good_unhash [OF inv t]) (auto simp: c e)
next
  assume e: "c = Gone_unlock x"
  show ?thesis unfolding e foo_rele_def fpc.case by (rule good_unlocks [OF inv t]) (auto simp: c e)
qed

lemma foo_rele_idle [simp]: "foo_rele t Idle s = Waits" "foo_rele t (Ret r) s = Waits"
  by (simp_all add: foo_rele_def)

lemma good_step:
  assumes inv: "foo_inv N L s" and t: "t < N"
  shows "good N (foo_step t s)"
proof (cases "tpc s t")
  case (Gone_free x)
  then show ?thesis using good_free [OF inv t Gone_free] by (simp add: foo_step_def foo_rele_def)
qed (use good_alloc [OF inv t] good_hold [OF inv t] good_find [OF inv t] good_rele_lock [OF inv t] good_rele_again [OF inv t]
    good_rele [OF inv t refl] in \<open>simp_all add: foo_step_def\<close>)

section \<open>Calls\<close>

lemma inv_call:
  assumes inv: "foo_inv N L s" and t: "t < N" and i: "foo_idle t s"
    and c: "\<not> holds_hash c" "\<forall>y. \<not> holds_foo c y \<and> \<not> outside c y \<and> c \<noteq> Find_lock y \<and> c \<noteq> Gone_free y"
      "\<forall>y. relies c y \<longrightarrow> 0 < refs s t y"
  shows "foo_inv N L (at t c s)"
proof (rule pc_step [OF inv t, where c = c])
  have "tpc s t = Idle \<or> (\<exists>r. tpc s t = Ret r)" using i by (simp add: foo_idle_def split: fpc.splits)
  then show "\<forall>y. holds_foo c y \<longleftrightarrow> holds_foo (tpc s t) y" "\<forall>y. outside c y = outside (tpc s t) y" using c by auto
  have "\<not> holds_hash (tpc s t)" using \<open>tpc s t = Idle \<or> _\<close> by auto
  then have "hashlock s \<noteq> Some t" using inv unfolding foo_inv_def locks_ok_def by blast
  then show "hashlock (at t c s) = Some t \<longleftrightarrow> holds_hash c" using c by (simp add: at_def)
qed (use c in \<open>simp_all add: at_def\<close>)

lemma locks_new:
  assumes ok: "locks_ok s" and s': "heap s' = (heap s)(x := Some f)" "tpc s' = (tpc s)(t := Alloc_hash x)" "hashlock s' = hashlock s"
    and new: "heap s x = None" "f_lock f = None" and id: "tpc s t = Idle \<or> (\<exists>r. tpc s t = Ret r)"
  shows "locks_ok s'"
  unfolding locks_ok_def s'
proof (intro conjI allI impI)
  fix u show "hashlock s = Some u \<longleftrightarrow> holds_hash (((tpc s)(t := Alloc_hash x)) u)"
    using ok id unfolding locks_ok_def by (cases "u = t") auto
next
  fix u y
  have l: "(\<exists>g. heap s y = Some g \<and> f_lock g = Some u) \<longleftrightarrow> holds_foo (tpc s u) y" for y using ok unfolding locks_ok_def by blast
  then show "(\<exists>g. ((heap s)(x := Some f)) y = Some g \<and> f_lock g = Some u) \<longleftrightarrow> holds_foo (((tpc s)(t := Alloc_hash x)) u) y"
    using id new l [of x] by (cases "u = t"; cases "y = x") auto
next
  fix u y g assume "((tpc s)(t := Alloc_hash x)) u = Gone_free y" "((heap s)(x := Some f)) y = Some g"
  then have "tpc s u = Gone_free y" "y = x \<and> g = f \<or> heap s y = Some g" by (auto split: if_splits)
  then show "f_lock g = None" using ok new(2) unfolding locks_ok_def by auto
qed

lemma counts_new:
  assumes ok: "counts_ok N s" and t: "t < N" and new: "heap s x = None" "f_count f = 1"
    and s': "heap s' = (heap s)(x := Some f)" "tpc s' = (tpc s)(t := Alloc_hash x)" "refs s' = (refs s)(t := (refs s t)(x := 1))"
  shows "counts_ok N s'"
  unfolding counts_ok_def
proof (intro conjI allI impI)
  fix y g assume g: "heap s' y = Some g"
  show "f_count g = (\<Sum>u<N. int (refs s' u y))"
  proof (cases "y = x")
    case True
    have "refs s u x = 0" for u using ok new(1) unfolding counts_ok_def by blast
    then have "(\<Sum>u<N. int (refs s' u x)) = 1" unfolding s'(3) sum_own [OF t] by simp
    then show ?thesis using g s'(1) new(2) True by simp
  next
    case False
    then have "(\<Sum>u<N. int (refs s' u y)) = (\<Sum>u<N. int (refs s u y))" using s'(3) by (intro sum.cong) auto
    then show ?thesis using g False s'(1) ok unfolding counts_ok_def by simp
  qed
next
  fix y u assume "heap s' y = None"
  then have y: "y \<noteq> x" "heap s y = None" using s'(1) by (auto split: if_splits)
  then have "refs s u y = 0" using ok unfolding counts_ok_def by blast
  then show "refs s' u y = 0" using y(1) s'(3) by auto
next
  fix u y assume r: "relies (tpc s' u) y"
  have "relies (tpc s u) y \<longrightarrow> 0 < refs s u y" using ok unfolding counts_ok_def by blast
  then show "0 < refs s' u y" using r s'(2,3) by (cases "u = t") auto
next
  fix u y g assume o: "outside (tpc s' u) y" "heap s' y = Some g"
  have "outside (tpc s u) y \<longrightarrow> heap s y = Some g \<longrightarrow> f_count g = 1" using ok unfolding counts_ok_def by blast
  then show "f_count g = 1" using o s'(1,2) new(2) by (cases "u = t"; cases "y = x") auto
next
  fix u assume "N \<le> u"
  then have "tpc s u = Idle" "\<forall>x. refs s u x = 0" "u \<noteq> t" using ok t unfolding counts_ok_def by auto
  then show "tpc s' u = Idle" "refs s' u y = 0" for y using s' by auto
qed

lemma inv_alloc:
  assumes inv: "foo_inv N L s" and t: "t < N" and i: "foo_idle t s" and m: "\<forall>x. mem = Some x \<longrightarrow> heap s x = None"
  shows "foo_inv N L (foo_alloc mem init t k s)"
proof (cases "mem = None \<or> \<not> init")
  case True
  then show ?thesis using inv_call [OF inv t i, of "Ret None"] by (auto simp: foo_alloc_def split: option.splits)
next
  case False
  then obtain x where x: "mem = Some x" "init" by auto
  let ?f = "\<lparr>f_count = 1, f_lock = None, f_id = k, f_next = None\<rparr>"
  let ?s = "at t (Alloc_hash x) (own t x 1 (put_foo x ?f s))"
  have inv': "locks_ok s" "counts_ok N s" "listed_ok L s" using inv by (auto simp: foo_inv_def)
  have s: "heap ?s = (heap s)(x := Some ?f)" "tpc ?s = (tpc s)(t := Alloc_hash x)" "refs ?s = (refs s)(t := (refs s t)(x := 1))"
    "fh ?s = fh s" "hashlock ?s = hashlock s" by (simp_all add: foo_moves)
  have new: "heap s x = None" using m x by simp
  have id: "tpc s t = Idle \<or> (\<exists>r. tpc s t = Ret r)" using i by (simp add: foo_idle_def split: fpc.splits)
  have "locks_ok ?s" by (rule locks_new [OF inv'(1) s(1,2,5) new _ id]) simp
  moreover have "counts_ok N ?s" by (rule counts_new [OF inv'(2) t new _ s(1-3)]) simp
  moreover have "x \<notin> set (L b)" for b using listed_foo [OF inv'(3), of x b] new by auto
  then have "listed_ok L ?s" by (intro listed_outside [OF inv'(3) _ s(1,2,4)]) (use id in auto)
  ultimately have "foo_inv N L ?s" by (simp add: foo_inv_def)
  then show ?thesis using x by (simp add: foo_alloc_def)
qed

lemma foo_reach_inv: "foo_reach N s \<Longrightarrow> \<exists>L. foo_inv N L s"
proof (induction rule: foo_reach.induct)
  case start
  have "foo_inv N (\<lambda>_. []) foo_start"
    by (simp add: foo_inv_def locks_ok_def counts_ok_def listed_ok_def table_ok_def foo_start_def)
  then show ?case by blast
next
  case (alloc s t mem init i)
  then show ?case using inv_alloc by blast
next
  case (find s t i)
  then show ?case using inv_call [of N _ s t "Find_hash i"] by auto
next
  case (hold s t x)
  then show ?case using inv_call [of N _ s t "Hold_lock x"] by auto
next
  case (rele s t x)
  then show ?case using inv_call [of N _ s t "Rele_lock x"] by auto
next
  case (step s t s')
  then obtain L where "foo_inv N L s" by blast
  then have "good N (foo_step t s)" using good_step step(2) by blast
  then show ?case using step(3) by auto
qed

section \<open>Waiting\<close>

fun wants_hash :: "fpc \<Rightarrow> bool" where
  "wants_hash (Alloc_hash x) = True"
| "wants_hash (Find_hash i) = True"
| "wants_hash (Rele_hash x) = True"
| "wants_hash _ = False"

fun wants_foo :: "fpc \<Rightarrow> addr \<Rightarrow> bool" where
  "wants_foo (Alloc_lock x) y \<longleftrightarrow> x = y"
| "wants_foo (Hold_lock x) y \<longleftrightarrow> x = y"
| "wants_foo (Find_lock x) y \<longleftrightarrow> x = y"
| "wants_foo (Rele_lock x) y \<longleftrightarrow> x = y"
| "wants_foo (Rele_again x) y \<longleftrightarrow> x = y"
| "wants_foo _ y \<longleftrightarrow> False"

lemma holds_wants: "holds_foo c x \<Longrightarrow> \<not> wants_hash c \<and> \<not> wants_foo c y" "holds_hash c \<Longrightarrow> \<not> wants_hash c"
  by (cases c; simp)+

lemmas foo_step_defs = foo_step_def alloc_step_def foo_hold_def foo_find_def foo_rele_def free_foo_def
  lock_hash_def unlock_hash_def lock_foo_def unlock_foo_def on_foo_def Let_def

lemma loop_not_waits: "loop_bind (find_loop h i p) k = Waits \<Longrightarrow> find_loop h i p = Some (Goes r) \<Longrightarrow> k r = Waits"
  by (simp add: loop_bind_def)

lemma not_idle_bound: "foo_inv N L s \<Longrightarrow> \<not> foo_idle t s \<Longrightarrow> t < N"
  by (rule ccontr) (simp add: foo_inv_def counts_ok_def foo_idle_def)

lemma waits_for:
  assumes inv: "foo_inv N L s" and i: "\<not> foo_idle t s" and w: "foo_step t s = Waits"
  shows "wants_hash (tpc s t) \<and> hashlock s \<noteq> None
    \<or> (\<exists>x f. wants_foo (tpc s t) x \<and> heap s x = Some f \<and> f_lock f \<noteq> None)"
proof (cases "tpc s t")
  case (Find_hash k)
  have "chain (heap s) (fh s (HASH k)) (L (HASH k))" using inv by (simp add: foo_inv_def listed_ok_def table_ok_def)
  from find_loop_chain [OF this, of k] w Find_hash show ?thesis
    by (auto simp: foo_step_def foo_find_def lock_hash_def loop_bind_def split: if_splits)
next
  case (Rele_again x)
  then obtain f where f: "heap s x = Some f" using relies_foo [OF inv, of t x] by auto
  show ?thesis
  proof (cases "f_lock f = None")
    case True
    have e: "foo_step t s = (if f_count f \<noteq> 1
        then Goes (at t (Rele_unlock2 x) (count_down t x (f\<lparr>f_lock := Some t\<rparr>) (put_foo x (f\<lparr>f_lock := Some t\<rparr>) s)))
        else unlink_foo x (f\<lparr>f_lock := Some t\<rparr>) (put_foo x (f\<lparr>f_lock := Some t\<rparr>) s) (\<lambda>s. Goes (at t (Gone_unhash x) s)))"
      using f True by (simp add: foo_step_def foo_rele_def Rele_again lock_foo_def on_foo_def Let_def)
    show ?thesis
    proof (cases "f_count f = 1")
      case True
      with w e good_unlink [OF inv not_idle_bound [OF inv i] Rele_again f \<open>f_lock f = None\<close>] show ?thesis by auto
    next
      case False
      with w e show ?thesis by simp
    qed
  next
    case False
    then show ?thesis using f Rele_again by auto
  qed
next
  case Idle then show ?thesis using i by (simp add: foo_idle_def)
next
  case (Ret r) then show ?thesis using i by (simp add: foo_idle_def)
qed (use w in \<open>auto simp: foo_step_defs split: option.splits if_splits\<close>)

lemma goes_or_waits:
  assumes "foo_inv N L s" "t < N" "foo_step t s \<noteq> Waits"
  shows "\<exists>s'. foo_step t s = Goes s'"
  using good_step [OF assms(1,2)] assms(3) by (auto simp: good_def)

lemma holder_goes:
  assumes inv: "foo_inv N L s" and f: "heap s x = Some f" "f_lock f \<noteq> None"
  shows "\<exists>u<N. \<exists>s'. foo_step u s = Goes s'"
proof -
  obtain u where u: "f_lock f = Some u" using f(2) by auto
  then have h: "holds_foo (tpc s u) x" using inv f(1) unfolding foo_inv_def locks_ok_def by blast
  then have i: "\<not> foo_idle u s" by (auto simp: foo_idle_def split: fpc.splits)
  have "foo_step u s \<noteq> Waits" using waits_for [OF inv i] holds_wants(1) [OF h] by blast
  then show ?thesis using goes_or_waits [OF inv] not_idle_bound [OF inv i] by blast
qed

lemma some_thread_goes:
  assumes inv: "foo_inv N L s" and i: "\<not> foo_idle t s"
  shows "\<exists>u<N. \<exists>s'. foo_step u s = Goes s'"
proof (cases "foo_step t s = Waits")
  case False
  then show ?thesis using goes_or_waits [OF inv] not_idle_bound [OF inv i] by blast
next
  case True
  show ?thesis
  proof (cases "\<exists>x f. heap s x = Some f \<and> f_lock f \<noteq> None")
    case True
    then show ?thesis using holder_goes [OF inv] by blast
  next
    case False
    then obtain u where u: "hashlock s = Some u" using waits_for [OF inv i True] by blast
    then have h: "holds_hash (tpc s u)" using inv unfolding foo_inv_def locks_ok_def by blast
    then have iu: "\<not> foo_idle u s" by (auto simp: foo_idle_def split: fpc.splits)
    have "foo_step u s \<noteq> Waits" using waits_for [OF inv iu] holds_wants(2) [OF h] False by blast
    then show ?thesis using goes_or_waits [OF inv] not_idle_bound [OF inv iu] by blast
  qed
qed

section \<open>Runs\<close>

datatype foo_act = Allocs nat addr int | Finds nat int | Holds nat addr | Reles nat addr | Run nat

fun foo_run :: "nat \<Rightarrow> foo_act list \<Rightarrow> ftab \<Rightarrow> ftab option" where
  "foo_run N [] s = Some s"
| "foo_run N (Allocs t x i # as) s =
     (if t < N \<and> foo_idle t s \<and> heap s x = None then foo_run N as (foo_alloc (Some x) True t i s) else None)"
| "foo_run N (Finds t i # as) s = (if t < N \<and> foo_idle t s then foo_run N as (at t (Find_hash i) s) else None)"
| "foo_run N (Holds t x # as) s =
     (if t < N \<and> foo_idle t s \<and> 0 < refs s t x then foo_run N as (at t (Hold_lock x) s) else None)"
| "foo_run N (Reles t x # as) s =
     (if t < N \<and> foo_idle t s \<and> 0 < refs s t x then foo_run N as (at t (Rele_lock x) s) else None)"
| "foo_run N (Run t # as) s =
     (if t < N then (case foo_step t s of Goes s \<Rightarrow> foo_run N as s | _ \<Rightarrow> None) else None)"

lemma foo_run_reach: "foo_run N as s = Some s' \<Longrightarrow> foo_reach N s \<Longrightarrow> foo_reach N s'"
  by (induction N as s rule: foo_run.induct) (auto intro: foo_reach.intros split: if_splits outcome.splits)

text \<open>One thread makes an object and starts to release it, finds that it has the last reference and lets go of
  the lock; before it has both locks, another thread finds the object.\<close>

definition race :: "foo_act list" where
  "race = [Allocs 0 1 5, Run 0, Run 0, Run 0, Run 0, Reles 0 1, Run 0, Run 0, Finds 1 5, Run 1, Run 1]"

lemmas foo_run_defs = race_def foo_step_defs foo_moves foo_alloc_def link_foo_def foo_start_def foo_idle_def loop_bind_def unlink_foo_def

lemma race_state:
  "\<exists>s f. foo_run 2 race foo_start = Some s \<and> heap s 1 = Some f \<and> f_count f = 2 \<and> refs s 0 1 = 1 \<and> tpc s 0 = Rele_hash 1 \<and> tpc s 1 = Find_unlock 1"
  by (simp add: foo_run_defs find_loop.simps numeral_2_eq_2)

section \<open>Properties\<close>

text \<open>In every interleaving of any number of threads, \<^verbatim>\<open>f_count\<close> of an object is the number of references
  the threads have to it, and an object to which a thread has a reference has not been freed.\<close>

theorem foo_counts_exact:
  assumes "foo_reach N s"
  shows "(\<forall>x f. heap s x = Some f \<longrightarrow> f_count f = (\<Sum>t<N. int (refs s t x))) \<and> (\<forall>t x. 0 < refs s t x \<longrightarrow> heap s x \<noteq> None)"
  using foo_reach_inv [OF assms] unfolding foo_inv_def counts_ok_def by (metis less_nat_zero_code)

theorem foo_counts_exact_witness:
  "\<exists>s f. foo_run 2 race foo_start = Some s \<and> heap s 1 = Some f \<and> f_count f = (\<Sum>t<2. int (refs s t 1))"
proof -
  obtain s f where s: "foo_run 2 race foo_start = Some s" "heap s 1 = Some f" using race_state by blast
  then have "foo_reach 2 s" using foo_run_reach foo_reach.start by blast
  from foo_counts_exact [OF this] s show ?thesis by blast
qed

text \<open>C24: No thread ever uses an object that was freed, unlocks a mutex it does not hold, destroys a locked
  mutex or follows a list that does not end: no step in any interleaving is undefined or runs forever. The
  second look at \<^verbatim>\<open>f_count\<close> in \<^verbatim>\<open>foo_rele\<close>, after taking both locks, is what this rests on.\<close>

theorem foo_threads_safe:
  assumes "foo_reach N s" "t < N"
  shows "foo_step t s \<noteq> Faults \<and> foo_step t s \<noteq> Loops"
proof -
  obtain L where "foo_inv N L s" using foo_reach_inv [OF assms(1)] by blast
  from good_step [OF this assms(2)] show ?thesis by (auto simp: good_def)
qed

theorem foo_threads_safe_witness:
  "\<exists>s. foo_run 2 race foo_start = Some s \<and> foo_step 0 s \<noteq> Faults \<and> foo_step 0 s \<noteq> Loops"
proof -
  obtain s where s: "foo_run 2 race foo_start = Some s" using race_state by blast
  then have "foo_reach 2 s" using foo_run_reach foo_reach.start by blast
  from foo_threads_safe [OF this, of 0] s show ?thesis by auto
qed

text \<open>C25: The threads never deadlock: while one of them is inside a function, some thread can take a step. The
  lock of the table is always taken before the lock of an object; \<^verbatim>\<open>foo_rele\<close> gives up the one before it
  waits for the other.\<close>

theorem foo_no_deadlock:
  assumes "foo_reach N s" "\<not> foo_idle t s"
  shows "\<exists>u<N. \<exists>s'. foo_step u s = Goes s'"
  using foo_reach_inv [OF assms(1)] some_thread_goes [OF _ assms(2)] by blast

theorem foo_no_deadlock_witness:
  "\<exists>s. foo_run 2 race foo_start = Some s \<and> foo_step 0 s = Waits \<and> (\<exists>u<2. \<exists>s'. foo_step u s = Goes s')"
proof -
  obtain s where s: "foo_run 2 race foo_start = Some s" "tpc s 0 = Rele_hash 1" "tpc s 1 = Find_unlock 1" using race_state by blast
  then have r: "foo_reach 2 s" using foo_run_reach foo_reach.start by blast
  obtain L where "foo_inv 2 L s" using foo_reach_inv [OF r] by blast
  then have "hashlock s = Some 1" using s(3) unfolding foo_inv_def locks_ok_def by simp
  then have "foo_step 0 s = Waits" using s(2) by (simp add: foo_step_def foo_rele_def lock_hash_def)
  moreover have "\<not> foo_idle 0 s" using s(2) by (simp add: foo_idle_def)
  from foo_no_deadlock [OF r this] have "\<exists>u<2. \<exists>s'. foo_step u s = Goes s'" .
  ultimately show ?thesis using s(1) by blast
qed

text \<open>\<^verbatim>\<open>foo_find\<close> finds an object with the identifier it looks for whenever the table has one; the only ones it
  misses are those a thread is still about to link or has unlinked to free.\<close>

theorem foo_find_correct:
  assumes "foo_reach N s" "tpc s t = Find_hash i" "foo_step t s = Goes s'"
  shows "(\<exists>x f. tpc s' t = Find_lock x \<and> heap s' x = Some f \<and> f_id f = i)
    \<or> tpc s' t = Find_unhash None \<and> (\<forall>x f. heap s x = Some f \<longrightarrow> f_id f = i \<longrightarrow> (\<exists>u. outside (tpc s u) x))"
proof -
  obtain L where inv: "foo_inv N L s" using foo_reach_inv [OF assms(1)] by blast
  let ?r = "List.find (\<lambda>x. \<exists>f. heap s x = Some f \<and> f_id f = i) (L (HASH i))"
  have l: "listed_ok L s" using inv by (simp add: foo_inv_def)
  then have "find_loop (heap s) i (fh s (HASH i)) = Some (Goes ?r)"
    by (intro find_loop_chain) (simp add: listed_ok_def table_ok_def)
  then have s': "tpc s' t = (case ?r of None \<Rightarrow> Find_unhash None | Some x \<Rightarrow> Find_lock x)" "heap s' = heap s"
    using assms(2,3) by (auto simp: foo_step_def foo_find_def lock_hash_def loop_bind_def at_def split: if_splits)
  show ?thesis
  proof (cases ?r)
    case None
    have "\<exists>u. outside (tpc s u) x" if x: "heap s x = Some f" "f_id f = i" for x f
    proof -
      have "x \<notin> set (L (HASH i))" using None x by (auto simp: find_None_iff)
      then show ?thesis using l x unfolding listed_ok_def by blast
    qed
    then show ?thesis using None s'(1) by simp
  next
    case (Some x)
    then have "\<exists>f. heap s x = Some f \<and> f_id f = i" by (auto simp: find_Some_iff)
    then show ?thesis using Some s' by auto
  qed
qed

theorem foo_find_correct_witness:
  "\<exists>s s'. foo_run 2 [Allocs 0 1 5, Run 0, Run 0, Run 0, Finds 1 34] foo_start = Some s \<and> foo_step 1 s = Goes s' \<and> tpc s' 1 = Find_unhash None"
proof -
  obtain s s' where s: "foo_run 2 [Allocs 0 1 5, Run 0, Run 0, Run 0, Finds 1 34] foo_start = Some s" "foo_step 1 s = Goes s'"
    "tpc s 1 = Find_hash 34" "heap s = (\<lambda>_. None)(1 := Some \<lparr>f_count = 1, f_lock = Some 0, f_id = 5, f_next = None\<rparr>)"
    by (simp add: foo_run_defs find_loop.simps numeral_2_eq_2 HASH_def NHASH_def)
  then have "foo_reach 2 s" using foo_run_reach foo_reach.start by blast
  from foo_find_correct [OF this s(3,2)] have "tpc s' 1 = Find_unhash None \<or> (\<exists>x f. heap s' x = Some f \<and> f_id f = 34)" by blast
  moreover have "heap s' = heap s"
    using s(2,3) by (auto simp: foo_step_def foo_find_def lock_hash_def loop_bind_def at_def split: if_splits option.splits outcome.splits)
  ultimately have "tpc s' 1 = Find_unhash None" using s(4) by (auto split: if_splits)
  with s show ?thesis by blast
qed

end
