(* ===== verification/FooVersions.thy ===== *)
theory FooVersions imports FooSafety begin

text \<open>
  threads/mutex3.c, where the lock of the table protects the counts of the objects too, next to
  threads/mutex2.c: called one after the other, the functions of both do the same.
\<close>

section \<open>threads/mutex3.c\<close>

text \<open>The allocation is the code of threads/mutex2.c.\<close>

definition foo_alloc3 :: "addr option \<Rightarrow> bool \<Rightarrow> nat \<Rightarrow> int \<Rightarrow> ftab \<Rightarrow> ftab" where
  "foo_alloc3 = foo_alloc"

definition alloc_step3 :: "nat \<Rightarrow> fpc \<Rightarrow> ftab \<Rightarrow> ftab outcome" where
  "alloc_step3 = alloc_step"

definition foo_hold3 :: "nat \<Rightarrow> fpc \<Rightarrow> ftab \<Rightarrow> ftab outcome" where
  "foo_hold3 t c s =
     (case c of
        Hold_lock fp \<Rightarrow> lock_hash t s (\<lambda>s. on_foo fp s (\<lambda>f. Goes (at t (Hold_unlock fp) (count_up t fp f s))))
      | Hold_unlock fp \<Rightarrow> unlock_hash t s (\<lambda>s. Goes (at t (Ret None) s))
      | _ \<Rightarrow> Waits)"

definition foo_find3 :: "nat \<Rightarrow> fpc \<Rightarrow> ftab \<Rightarrow> ftab outcome" where
  "foo_find3 t c s =
     (case c of
        Find_hash i \<Rightarrow> lock_hash t s (\<lambda>s. loop_bind (find_loop (heap s) i (fh s (HASH i)))
          (\<lambda>r. case r of None \<Rightarrow> Goes (at t (Find_unhash None) s)
             | Some fp \<Rightarrow> on_foo fp s (\<lambda>f. Goes (at t (Find_unhash (Some fp)) (count_up t fp f s)))))
      | Find_unhash r \<Rightarrow> unlock_hash t s (\<lambda>s. Goes (at t (Ret r) s))
      | _ \<Rightarrow> Waits)"

definition foo_rele3 :: "nat \<Rightarrow> fpc \<Rightarrow> ftab \<Rightarrow> ftab outcome" where
  "foo_rele3 t c s =
     (case c of
        Rele_lock fp \<Rightarrow> lock_hash t s (\<lambda>s. on_foo fp s (\<lambda>f.
          let f = f\<lparr>f_count := f_count f - 1\<rparr>; s = put_foo fp f s in
          if f_count f = 0 then unlink_foo fp f s (\<lambda>s. Goes (at t (Gone_unhash fp) s))
          else Goes (at t Rele_unhash (own t fp (refs s t fp - 1) s))))
      | Gone_unhash fp \<Rightarrow> unlock_hash t s (\<lambda>s. Goes (at t (Gone_free fp) s))
      | Gone_free fp \<Rightarrow> free_foo t fp s
      | Rele_unhash \<Rightarrow> unlock_hash t s (\<lambda>s. Goes (at t (Ret None) s))
      | _ \<Rightarrow> Waits)"

definition foo_step3 :: "nat \<Rightarrow> ftab \<Rightarrow> ftab outcome" where
  "foo_step3 t s =
     (case tpc s t of
        Alloc_hash fp \<Rightarrow> alloc_step3 t (tpc s t) s | Alloc_lock fp \<Rightarrow> alloc_step3 t (tpc s t) s
      | Alloc_unhash fp \<Rightarrow> alloc_step3 t (tpc s t) s | Alloc_unlock fp \<Rightarrow> alloc_step3 t (tpc s t) s
      | Hold_lock fp \<Rightarrow> foo_hold3 t (tpc s t) s | Hold_unlock fp \<Rightarrow> foo_hold3 t (tpc s t) s
      | Find_hash i \<Rightarrow> foo_find3 t (tpc s t) s | Find_unhash r \<Rightarrow> foo_find3 t (tpc s t) s
      | c \<Rightarrow> foo_rele3 t c s)"

section \<open>Calls one after the other\<close>

datatype foo_call = Alloc "addr option" bool int | Find int | Hold addr | Rele addr

fun call :: "nat \<Rightarrow> foo_call \<Rightarrow> ftab \<Rightarrow> ftab" where
  "call t (Alloc mem init i) s = foo_alloc mem init t i s"
| "call t (Find i) s = at t (Find_hash i) s"
| "call t (Hold x) s = at t (Hold_lock x) s"
| "call t (Rele x) s = at t (Rele_lock x) s"

text \<open>A thread runs until it returns; no function takes more than \<open>n\<close> = 8 steps.\<close>

fun solo :: "(nat \<Rightarrow> ftab \<Rightarrow> ftab outcome) \<Rightarrow> nat \<Rightarrow> nat \<Rightarrow> ftab \<Rightarrow> ftab outcome" where
  "solo stp 0 t s = (if foo_idle t s then Goes s else Loops)"
| "solo stp (Suc n) t s = (if foo_idle t s then Goes s
     else case stp t s of Goes s \<Rightarrow> solo stp n t s | Waits \<Rightarrow> Waits | Faults \<Rightarrow> Faults | Loops \<Rightarrow> Loops)"

fun seq_calls :: "(nat \<Rightarrow> ftab \<Rightarrow> ftab outcome) \<Rightarrow> (nat \<times> foo_call) list \<Rightarrow> ftab \<Rightarrow> ftab outcome" where
  "seq_calls stp [] s = Goes s"
| "seq_calls stp ((t, c) # cs) s = (case solo stp 8 t (call t c s) of
     Goes s \<Rightarrow> seq_calls stp cs s | Waits \<Rightarrow> Waits | Faults \<Rightarrow> Faults | Loops \<Rightarrow> Loops)"

definition unlocked :: "ftab \<Rightarrow> bool" where
  "unlocked s \<longleftrightarrow> hashlock s = None \<and> (\<forall>x f. heap s x = Some f \<longrightarrow> f_lock f = None)"

text \<open>The search for the predecessor only looks at the links.\<close>

lemma pred_loop_links1:
  assumes ret: "pred_loop h fp p = Some r" and links: "\<forall>x. map_option f_next (h' x) = map_option f_next (h x)"
  shows "pred_loop h' fp p = Some r"
proof -
  have "\<forall>h'. (\<forall>x. map_option f_next (h' x) = map_option f_next (h x)) \<longrightarrow> pred_loop h' fp p = Some r"
  proof (rule pred_loop.raw_induct [where P = "\<lambda>h fp p r. \<forall>h'. (\<forall>x. map_option f_next (h' x) = map_option f_next (h x))
      \<longrightarrow> pred_loop h' fp p = Some r", OF _ ret], intro allI impI)
    fix loop :: "foos \<Rightarrow> addr \<Rightarrow> addr option \<Rightarrow> addr outcome option" and h fp p r and h' :: foos
    assume IH: "\<And>h fp p r. loop h fp p = Some r \<Longrightarrow> \<forall>h'. (\<forall>x. map_option f_next (h' x) = map_option f_next (h x))
        \<longrightarrow> pred_loop h' fp p = Some r"
      and eq: "(case p of None \<Rightarrow> Some Faults | Some tfp \<Rightarrow> (case h tfp of None \<Rightarrow> Some Faults
        | Some f \<Rightarrow> if f_next f = Some fp then Some (Goes tfp) else loop h fp (f_next f))) = Some r"
      and links: "\<forall>x. map_option f_next (h' x) = map_option f_next (h x)"
    show "pred_loop h' fp p = Some r"
    proof (cases p)
      case (Some y)
      have l: "map_option f_next (h' y) = map_option f_next (h y)" using links by blast
      show ?thesis
      proof (cases "h y")
        case None
        with l have "h' y = None" by simp
        then show ?thesis using eq Some None by (simp add: pred_loop.simps)
      next
        case f: (Some f)
        with l obtain f' where f': "h' y = Some f'" "f_next f' = f_next f" by auto
        show ?thesis
        proof (cases "f_next f = Some fp")
          case True
          then show ?thesis using eq Some f f' by (simp add: pred_loop.simps)
        next
          case False
          with eq Some f have "loop h fp (f_next f) = Some r" by simp
          with IH links have "pred_loop h' fp (f_next f) = Some r" by blast
          then show ?thesis using Some f' False by (simp add: pred_loop.simps)
        qed
      qed
    qed (use eq in \<open>simp add: pred_loop.simps\<close>)
  qed
  with links show ?thesis by blast
qed

lemma pred_loop_links:
  assumes "\<forall>x. map_option f_next (h' x) = map_option f_next ((h :: foos) x)"
  shows "pred_loop h' fp p = pred_loop h fp p"
  using pred_loop_links1 [of h fp p _ h'] pred_loop_links1 [of h' fp p _ h] assms
  by (cases "pred_loop h fp p"; cases "pred_loop h' fp p") auto

lemmas solo_defs = foo_step_defs foo_moves foo_step3_def alloc_step3_def foo_hold3_def foo_find3_def foo_rele3_def foo_idle_def eval_nat_numeral

lemma solo_hold:
  assumes "unlocked s"
  shows "solo foo_step 8 t (call t (Hold x) s) = solo foo_step3 8 t (call t (Hold x) s)"
  using assms by (cases s; cases "heap s x") (auto simp: unlocked_def solo_defs)

lemma solo_alloc:
  assumes "unlocked s"
  shows "solo foo_step 8 t (call t (Alloc mem init i) s) = solo foo_step3 8 t (call t (Alloc mem init i) s)"
  using assms by (cases s; cases mem; cases init) (auto simp: unlocked_def solo_defs foo_alloc_def link_foo_def)

lemma solo_find:
  assumes "unlocked s"
  shows "solo foo_step 8 t (call t (Find i) s) = solo foo_step3 8 t (call t (Find i) s)"
proof (cases "find_loop (heap s) i (fh s (HASH i))")
  case None
  then show ?thesis using assms by (cases s) (auto simp: unlocked_def solo_defs loop_bind_def)
next
  case (Some r)
  then show ?thesis
  proof (cases r)
    case (Goes q)
    show ?thesis
    proof (cases q)
      case None
      then show ?thesis using Some Goes assms by (cases s) (auto simp: unlocked_def solo_defs loop_bind_def)
    next
      case (Some x)
      then show ?thesis using \<open>find_loop _ _ _ = _\<close> Goes assms
        by (cases s; cases "heap s x") (auto simp: unlocked_def solo_defs loop_bind_def)
    qed
  qed (use Some assms in \<open>(cases s; auto simp: unlocked_def solo_defs loop_bind_def)+\<close>)
qed

lemma solo_rele_more:
  assumes "unlocked s" "heap s x = Some f" "f_count f \<noteq> 1"
  shows "solo foo_step 8 t (call t (Rele x) s) = solo foo_step3 8 t (call t (Rele x) s)"
  using assms by (cases s) (auto simp: unlocked_def solo_defs)

lemma solo_rele_first:
  assumes "unlocked s" "heap s x = Some f" "f_count f = 1" "fh s (HASH (f_id f)) = Some x"
  shows "solo foo_step 8 t (call t (Rele x) s) = solo foo_step3 8 t (call t (Rele x) s)"
  using assms by (cases s) (auto simp: unlocked_def solo_defs unlink_foo_def)

lemma solo_rele_later:
  assumes s: "unlocked s" "heap s x = Some f" "f_count f = 1" "fh s (HASH (f_id f)) \<noteq> Some x"
  shows "solo foo_step 8 t (call t (Rele x) s) = solo foo_step3 8 t (call t (Rele x) s)"
proof -
  have l2: "pred_loop ((heap s)(x := Some (f\<lparr>f_lock := l\<rparr>))) x p = pred_loop (heap s) x p"
    "pred_loop ((heap s)(x := Some (f\<lparr>f_count := c\<rparr>))) x p = pred_loop (heap s) x p" for l c p
    by (rule pred_loop_links; simp add: s(2))+
  show ?thesis
  proof (cases "pred_loop (heap s) x (fh s (HASH (f_id f)))")
    case None
    then show ?thesis using s l2 by (cases s) (auto simp: unlocked_def solo_defs unlink_foo_def loop_bind_def)
  next
    case (Some r)
    then show ?thesis
    proof (cases r)
      case (Goes y)
      then show ?thesis using Some s l2
        by (cases s; cases "heap s y") (auto simp: unlocked_def solo_defs unlink_foo_def loop_bind_def)
    qed (use s l2 in \<open>(cases s; auto simp: unlocked_def solo_defs unlink_foo_def loop_bind_def)+\<close>)
  qed
qed

lemma solo_agree:
  assumes "unlocked s"
  shows "solo foo_step 8 t (call t c s) = solo foo_step3 8 t (call t c s)"
proof (cases c)
  case (Rele x)
  show ?thesis
  proof (cases "heap s x")
    case None
    then show ?thesis using assms Rele by (cases s) (auto simp: unlocked_def solo_defs)
  next
    case (Some f)
    then show ?thesis using solo_rele_more [OF assms Some] solo_rele_first [OF assms Some] solo_rele_later [OF assms Some] Rele by blast
  qed
qed (use solo_alloc [OF assms] solo_find [OF assms] solo_hold [OF assms] in auto)

section \<open>Every call returns\<close>

text \<open>In a table in order, 8 steps are enough for each function.\<close>

definition may_call :: "nat \<Rightarrow> foo_call \<Rightarrow> ftab \<Rightarrow> bool" where
  "may_call t c s \<longleftrightarrow> (case c of Alloc mem init i \<Rightarrow> True | Find i \<Rightarrow> True | Hold x \<Rightarrow> 0 < refs s t x | Rele x \<Rightarrow> 0 < refs s t x)"

lemma solo_find_returns:
  assumes u: "unlocked s" and inv: "foo_inv N L s"
  shows "\<exists>s'. solo foo_step 8 t (call t (Find i) s) = Goes s' \<and> unlocked s'"
proof -
  let ?r = "List.find (\<lambda>x. \<exists>f. heap s x = Some f \<and> f_id f = i) (L (HASH i))"
  have "chain (heap s) (fh s (HASH i)) (L (HASH i))" using inv by (simp add: foo_inv_def listed_ok_def table_ok_def)
  then have l: "find_loop (heap s) i (fh s (HASH i)) = Some (Goes ?r)" by (rule find_loop_chain)
  show ?thesis
  proof (cases ?r)
    case None
    with l u show ?thesis by (cases s) (auto simp: unlocked_def solo_defs loop_bind_def)
  next
    case (Some x)
    then obtain f where "heap s x = Some f" by (auto simp: find_Some_iff)
    with Some l u show ?thesis by (cases s) (auto simp: unlocked_def solo_defs loop_bind_def)
  qed
qed

lemma solo_rele_returns:
  assumes u: "unlocked s" and inv: "foo_inv N L s" and f: "heap s x = Some f" and o: "\<forall>v. \<not> outside (tpc s v) x"
  shows "\<exists>s'. solo foo_step 8 t (call t (Rele x) s) = Goes s' \<and> unlocked s'"
proof (cases "f_count f = 1 \<and> fh s (HASH (f_id f)) \<noteq> Some x")
  case True
  have l: "listed_ok L s" using inv by (simp add: foo_inv_def)
  then have "x \<in> set (L (HASH (f_id f)))" using f o unfolding listed_ok_def by blast
  moreover have "table_ok (heap s) (fh s) L" using l by (simp add: listed_ok_def)
  ultimately obtain y g where y: "pred_loop (heap s) x (fh s (HASH (f_id f))) = Some (Goes y)" "y \<noteq> x" "heap s y = Some g"
    using table_unlink_later [of "heap s" "fh s" L x f] f True by blast
  have p: "pred_loop ((heap s)(x := Some (f\<lparr>f_lock := l\<rparr>))) x p = pred_loop (heap s) x p" for l p
    by (rule pred_loop_links) (simp add: f)
  show ?thesis using y p f u True by (cases s) (auto simp: unlocked_def solo_defs unlink_foo_def loop_bind_def)
next
  case False
  then show ?thesis using f u by (cases s) (auto simp: unlocked_def solo_defs unlink_foo_def)
qed

lemma solo_returns:
  assumes u: "unlocked s" and inv: "foo_inv N L s" and i: "\<forall>v. foo_idle v s" and c: "may_call t c s"
  shows "\<exists>s'. solo foo_step 8 t (call t c s) = Goes s' \<and> unlocked s'"
proof (cases c)
  case (Alloc mem init k)
  then show ?thesis using u by (cases s; cases mem; cases init) (auto simp: unlocked_def solo_defs foo_alloc_def link_foo_def)
next
  case (Find k)
  then show ?thesis using solo_find_returns [OF u inv] by simp
next
  case (Hold x)
  then obtain f where "heap s x = Some f" using c inv ref_allocated [of N s t x] by (auto simp: may_call_def foo_inv_def)
  then show ?thesis using u Hold by (cases s) (auto simp: unlocked_def solo_defs)
next
  case (Rele x)
  then obtain f where "heap s x = Some f" using c inv ref_allocated [of N s t x] by (auto simp: may_call_def foo_inv_def)
  moreover have "\<not> outside (tpc s v) x" for v using spec [OF i, of v] by (cases "tpc s v") (auto simp: foo_idle_def)
  ultimately show ?thesis using solo_rele_returns [OF u inv] Rele by simp
qed

section \<open>Sequences of calls\<close>

lemma step_others: "foo_step t s = Goes s' \<Longrightarrow> v \<noteq> t \<Longrightarrow> tpc s' v = tpc s v"
  by (cases "tpc s t") (auto simp: foo_step_defs foo_moves link_foo_def unlink_foo_def loop_bind_def split: option.splits outcome.splits if_splits)

lemma solo_reach:
  "solo foo_step n t s = Goes s' \<Longrightarrow> foo_reach N s \<Longrightarrow> t < N \<Longrightarrow> foo_reach N s' \<and> foo_idle t s' \<and> (\<forall>v. v \<noteq> t \<longrightarrow> tpc s' v = tpc s v)"
proof (induction n arbitrary: s)
  case (Suc n)
  show ?case
  proof (cases "foo_idle t s")
    case False
    then obtain s1 where s1: "foo_step t s = Goes s1" "solo foo_step n t s1 = Goes s'" using Suc.prems(1) by (auto split: outcome.splits)
    then show ?thesis using Suc.IH [OF s1(2)] Suc.prems(2,3) foo_reach.step step_others [OF s1(1)] by metis
  qed (use Suc.prems in simp)
qed (auto split: if_splits)

definition quiet :: "nat \<Rightarrow> ftab \<Rightarrow> bool" where
  "quiet N s \<longleftrightarrow> foo_reach N s \<and> unlocked s \<and> (\<forall>v. foo_idle v s)"

definition call_ok :: "nat \<Rightarrow> nat \<Rightarrow> foo_call \<Rightarrow> ftab \<Rightarrow> bool" where
  "call_ok N t c s \<longleftrightarrow> t < N \<and> may_call t c s \<and> (case c of Alloc (Some x) init i \<Rightarrow> heap s x = None | _ \<Rightarrow> True)"

lemma call_reach: "foo_reach N s \<Longrightarrow> foo_idle t s \<Longrightarrow> call_ok N t c s \<Longrightarrow> foo_reach N (call t c s)"
  by (cases c) (auto simp: call_ok_def may_call_def intro: foo_reach.intros split: option.splits)

lemma call_others: "v \<noteq> t \<Longrightarrow> tpc (call t c s) v = tpc s v"
  by (cases c) (auto simp: foo_moves foo_alloc_def split: option.splits)

lemma quiet_call:
  assumes q: "quiet N s" and c: "call_ok N t c s"
  shows "\<exists>s'. solo foo_step 8 t (call t c s) = Goes s' \<and> solo foo_step3 8 t (call t c s) = Goes s' \<and> quiet N s'"
proof -
  obtain L where inv: "foo_inv N L s" using q foo_reach_inv unfolding quiet_def by blast
  obtain s' where s': "solo foo_step 8 t (call t c s) = Goes s'" "unlocked s'"
    using solo_returns [OF _ inv, of t c] q c by (auto simp: quiet_def call_ok_def)
  have "foo_reach N (call t c s)" using q c call_reach by (simp add: quiet_def)
  from solo_reach [OF s'(1) this] c have r: "foo_reach N s'" "foo_idle t s'" "\<forall>v. v \<noteq> t \<longrightarrow> tpc s' v = tpc (call t c s) v"
    by (auto simp: call_ok_def)
  have "foo_idle v s'" for v
    using r(2,3) call_others [of v t c s] q by (cases "v = t") (auto simp: quiet_def foo_idle_def)
  with s'(2) r(1) have "quiet N s'" by (simp add: quiet_def)
  moreover have "solo foo_step3 8 t (call t c s) = Goes s'" using solo_agree [of s t c] q s'(1) by (simp add: quiet_def)
  ultimately show ?thesis using s'(1) by blast
qed

fun calls_ok :: "nat \<Rightarrow> (nat \<times> foo_call) list \<Rightarrow> ftab \<Rightarrow> bool" where
  "calls_ok N [] s \<longleftrightarrow> True"
| "calls_ok N ((t, c) # cs) s \<longleftrightarrow> call_ok N t c s \<and> (case solo foo_step3 8 t (call t c s) of Goes s \<Rightarrow> calls_ok N cs s | _ \<Rightarrow> True)"

lemma quiet_calls:
  "quiet N s \<Longrightarrow> calls_ok N cs s \<Longrightarrow> \<exists>s'. seq_calls foo_step cs s = Goes s' \<and> seq_calls foo_step3 cs s = Goes s' \<and> quiet N s'"
proof (induction cs arbitrary: s)
  case (Cons a cs)
  obtain t c where a: "a = (t, c)" by (cases a)
  then have "call_ok N t c s" using Cons.prems(2) by simp
  from quiet_call [OF Cons.prems(1) this] obtain s1 where
    s1: "solo foo_step 8 t (call t c s) = Goes s1" "solo foo_step3 8 t (call t c s) = Goes s1" "quiet N s1" by blast
  then show ?case using Cons.IH [OF s1(3)] Cons.prems(2) a by simp
qed simp

lemma quiet_start: "quiet N foo_start"
  by (simp add: quiet_def foo_reach.start unlocked_def) (simp add: foo_start_def foo_idle_def)

text \<open>C26: The simpler locking of threads/mutex3.c does the same as that of threads/mutex2.c: for every sequence of
  calls in which a thread holds and releases only what it has a reference to, both return from every call, and
  with the same results, counts, lists and memory.\<close>

theorem foo_versions_agree:
  assumes "calls_ok N cs foo_start"
  shows "\<exists>s. seq_calls foo_step cs foo_start = Goes s \<and> seq_calls foo_step3 cs foo_start = Goes s"
  using quiet_calls [OF quiet_start assms] by blast

definition two_owners :: "(nat \<times> foo_call) list" where
  "two_owners = [(0, Alloc (Some 1) True 5), (1, Alloc (Some 2) True 34), (0, Find 34), (0, Rele 1), (1, Rele 2)]"

theorem foo_versions_agree_witness:
  "\<exists>s f. seq_calls foo_step two_owners foo_start = Goes s \<and> seq_calls foo_step3 two_owners foo_start = Goes s
     \<and> heap s 1 = None \<and> heap s 2 = Some f \<and> f_count f = 1"
proof -
  have "calls_ok 2 two_owners foo_start"
    by (simp add: two_owners_def solo_defs call_ok_def may_call_def foo_alloc_def link_foo_def foo_start_def loop_bind_def unlink_foo_def
        find_loop.simps pred_loop.simps HASH_def NHASH_def)
  from foo_versions_agree [OF this] obtain s where
    s: "seq_calls foo_step two_owners foo_start = Goes s" "seq_calls foo_step3 two_owners foo_start = Goes s" by blast
  have "\<exists>s f. seq_calls foo_step3 two_owners foo_start = Goes s \<and> heap s 1 = None \<and> heap s 2 = Some f \<and> f_count f = 1"
    by (simp add: two_owners_def solo_defs foo_alloc_def link_foo_def foo_start_def loop_bind_def unlink_foo_def
        find_loop.simps pred_loop.simps HASH_def NHASH_def)
  with s show ?thesis by auto
qed

end
