(* ===== verification/SortMerge.thy ===== *)
theory SortMerge imports Prelude "HOL-Library.Multiset" begin

text \<open>
  The sort of threads/barrier.c: each thread sorts its share of the numbers and waits at the barrier; main
  waits there too and then merges the shares.  \<^verbatim>\<open>heapsort\<close> is not part of the program and a parameter.
\<close>

section \<open>The threads\<close>

text \<open>The number of threads and the share of each. The definitions below take them as parameters \<open>n\<close> and \<open>T\<close>.\<close>

definition NTHR :: nat where "NTHR = 8"
definition TNUM :: nat where "TNUM = 8000000 div NTHR"

definition complong :: "int \<Rightarrow> int \<Rightarrow> int" where
  "complong l1 l2 = (if l1 = l2 then 0 else if l1 < l2 then -1 else 1)"

type_synonym sorter = "(int \<Rightarrow> int \<Rightarrow> int) \<Rightarrow> int list \<Rightarrow> int list"

text \<open>\<^verbatim>\<open>heapsort(&nums[idx], TNUM, sizeof(long), complong)\<close>\<close>

definition thr_sort :: "sorter \<Rightarrow> nat \<Rightarrow> nat \<Rightarrow> int list \<Rightarrow> int list" where
  "thr_sort heapsort T idx nums = take idx nums @ heapsort complong (take T (drop idx nums)) @ drop (idx + T) nums"

text \<open>Where a thread and main are; \<open>Creates i\<close> makes thread \<open>i\<close> next. \<open>arrived\<close> counts the calls of
  \<^verbatim>\<open>pthread_barrier_wait\<close>, which return when \<open>n + 1\<close> were made.\<close>

datatype thr_pc = Unborn | Sorts | At_barrier | Past
datatype main_pc = Creates nat | Main_barrier | Merges | Main_exits

record sorting =
  nums :: "int list"
  arrived :: nat
  thr :: "nat \<Rightarrow> thr_pc"
  main :: main_pc

definition thr_fn :: "sorter \<Rightarrow> nat \<Rightarrow> nat \<Rightarrow> nat \<Rightarrow> sorting \<Rightarrow> sorting option" where
  "thr_fn heapsort n T i s =
     (case thr s i of
        Sorts \<Rightarrow> Some (s\<lparr>nums := thr_sort heapsort T (i * T) (nums s), arrived := arrived s + 1, thr := (thr s)(i := At_barrier)\<rparr>)
      | At_barrier \<Rightarrow> if arrived s = n + 1 then Some (s\<lparr>thr := (thr s)(i := Past)\<rparr>) else None
      | _ \<Rightarrow> None)"

text \<open>\<open>ok\<close> tells whether \<^verbatim>\<open>pthread_create\<close> succeeds; if not, \<^verbatim>\<open>err_exit\<close> ends the process.\<close>

definition main_step :: "nat \<Rightarrow> bool \<Rightarrow> sorting \<Rightarrow> sorting option" where
  "main_step n ok s =
     (case main s of
        Creates i \<Rightarrow>
          if i < n then Some (if ok then s\<lparr>thr := (thr s)(i := Sorts), main := Creates (i + 1)\<rparr> else s\<lparr>main := Main_exits\<rparr>)
          else Some (s\<lparr>arrived := arrived s + 1, main := Main_barrier\<rparr>)
      | Main_barrier \<Rightarrow> if arrived s = n + 1 then Some (s\<lparr>main := Merges\<rparr>) else None
      | _ \<Rightarrow> None)"

definition sort_start :: "int list \<Rightarrow> sorting" where
  "sort_start xs = \<lparr>nums = xs, arrived = 0, thr = (\<lambda>_. Unborn), main = Creates 0\<rparr>"

inductive sort_reach :: "sorter \<Rightarrow> nat \<Rightarrow> nat \<Rightarrow> int list \<Rightarrow> sorting \<Rightarrow> bool"
  for hs :: sorter and n T :: nat and xs :: "int list" where
  start: "sort_reach hs n T xs (sort_start xs)"
| main: "sort_reach hs n T xs s \<Longrightarrow> main_step n ok s = Some s' \<Longrightarrow> main s \<noteq> Main_exits \<Longrightarrow> sort_reach hs n T xs s'"
| thread: "sort_reach hs n T xs s \<Longrightarrow> i < n \<Longrightarrow> thr_fn hs n T i s = Some s' \<Longrightarrow> main s \<noteq> Main_exits \<Longrightarrow> sort_reach hs n T xs s'"

section \<open>The merge\<close>

text \<open>The inner loop: the smallest of the first numbers left in the shares below \<open>i\<close>, and its share. \<open>s\<close> is \<^verbatim>\<open>num\<close> and
  \<^verbatim>\<open>minidx\<close> before the loop; \<^verbatim>\<open>minidx\<close> is not initialized by the code.\<close>

primrec min_upto :: "nat \<Rightarrow> int list \<Rightarrow> (nat \<Rightarrow> nat) \<Rightarrow> nat \<Rightarrow> int \<times> nat option \<Rightarrow> int \<times> nat option" where
  "min_upto T xs idx 0 s = s"
| "min_upto T xs idx (Suc i) s = (case min_upto T xs idx i s of (num, minidx) \<Rightarrow>
     if idx i < (i + 1) * T \<and> xs ! idx i < num then (xs ! idx i, Some i) else (num, minidx))"

text \<open>The outer loop after \<open>k\<close> rounds; \<open>None\<close> when it uses \<^verbatim>\<open>minidx\<close> without a value or reads past the array.\<close>

primrec merge_loop :: "nat \<Rightarrow> nat \<Rightarrow> int list \<Rightarrow> nat \<Rightarrow> ((nat \<Rightarrow> nat) \<times> nat option \<times> int list) option" where
  "merge_loop n T xs 0 = Some (\<lambda>i. i * T, None, [])"
| "merge_loop n T xs (Suc k) = (case merge_loop n T xs k of None \<Rightarrow> None
     | Some (idx, minidx, snums) \<Rightarrow>
       (case snd (min_upto T xs idx n (LONG_MAX, minidx)) of None \<Rightarrow> None
        | Some m \<Rightarrow> if idx m < length xs then Some (idx(m := idx m + 1), Some m, snums @ [xs ! idx m]) else None))"

definition merge_nums :: "nat \<Rightarrow> nat \<Rightarrow> int list \<Rightarrow> int list option" where
  "merge_nums n T xs = map_option (\<lambda>(idx, minidx, snums). snums) (merge_loop n T xs (n * T))"

section \<open>The barrier\<close>

text \<open>What is documented of \<^verbatim>\<open>heapsort\<close>: it sorts in the order of the comparison.\<close>

definition sorts :: "sorter \<Rightarrow> bool" where
  "sorts hs \<longleftrightarrow> (\<forall>xs. mset (hs complong xs) = mset xs \<and> sorted_wrt (\<lambda>a b. complong a b \<le> 0) (hs complong xs))"

definition share :: "nat \<Rightarrow> nat \<Rightarrow> int list \<Rightarrow> int list" where
  "share T i xs = take T (drop (i * T) xs)"

lemma complong_le: "complong a b \<le> 0 \<longleftrightarrow> a \<le> b"
  by (simp add: complong_def)

lemma sorts_sorted: "sorts hs \<Longrightarrow> sorted (hs complong xs)" "sorts hs \<Longrightarrow> mset (hs complong xs) = mset xs"
  by (simp_all add: sorts_def complong_le)

lemma sorts_length: "sorts hs \<Longrightarrow> length (hs complong xs) = length xs"
  using sorts_sorted(2) [of hs xs] by (metis size_mset)

lemma thr_sort_mset: "sorts hs \<Longrightarrow> mset (thr_sort hs T k xs) = mset xs"
proof -
  assume "sorts hs"
  then have "mset (thr_sort hs T k xs) = mset (take k xs @ take T (drop k xs) @ drop T (drop k xs))"
    by (simp add: thr_sort_def sorts_sorted(2) add.commute)
  then show ?thesis by (simp only: append_take_drop_id)
qed

lemma thr_sort_length: "sorts hs \<Longrightarrow> length (thr_sort hs T k xs) = length xs"
  using thr_sort_mset [of hs T k xs] by (metis size_mset)

lemma take_elsewhere:
  assumes "a + k \<le> length xs" "length m = k" "b + k \<le> a \<or> a + k \<le> b"
  shows "take k (drop b (take a xs @ m @ drop (a + k) xs)) = take k (drop b xs)"
  using assms(3)
proof
  assume b: "b + k \<le> a"
  obtain A where A: "A = take a xs" "length A = a" using assms(1) by simp
  then have "take k (drop b (A @ R)) = take k (drop b A)" for R using b by simp
  moreover have "take k (drop b A) = take k (drop b xs)" using A(1) b by (simp add: drop_take min_def)
  ultimately have "take k (drop b (A @ R)) = take k (drop b xs)" for R by simp
  then show ?thesis unfolding A(1) .
qed (use assms in simp)

lemma share_other:
  assumes "sorts hs" "i \<noteq> j" "length xs = n * T" "i < n" "j < n"
  shows "share T j (thr_sort hs T (i * T) xs) = share T j xs"
proof -
  have le: "a < b \<Longrightarrow> a * T + T \<le> b * T" for a b by (metis add.commute mult_Suc mult_le_mono1 Suc_leI)
  have il: "i * T + T \<le> length xs" using assms(3,4) le by simp
  then have "length (hs complong (take T (drop (i * T) xs))) = T" using sorts_length [OF assms(1)] by simp
  moreover have "j * T + T \<le> i * T \<or> i * T + T \<le> j * T" using assms(2) le by (metis linorder_neqE_nat)
  ultimately show ?thesis unfolding share_def thr_sort_def by (rule take_elsewhere [OF il])
qed

lemma share_own:
  assumes "sorts hs" "length xs = n * T" "i < n"
  shows "sorted (share T i (thr_sort hs T (i * T) xs))"
proof -
  have il: "i * T + T \<le> length xs" using assms(2,3) by (metis add.commute mult_Suc mult_le_mono1 Suc_leI)
  then show ?thesis using sorts_length [OF assms(1)] sorts_sorted(1) [OF assms(1)]
    by (simp add: share_def thr_sort_def)
qed

fun waited :: "thr_pc \<Rightarrow> bool" where
  "waited At_barrier = True"
| "waited Past = True"
| "waited _ = False"

definition sort_inv :: "nat \<Rightarrow> nat \<Rightarrow> int list \<Rightarrow> sorting \<Rightarrow> bool" where
  "sort_inv n T xs s \<longleftrightarrow> mset (nums s) = mset xs
     \<and> (\<forall>i<n. waited (thr s i) \<longrightarrow> sorted (share T i (nums s)))
     \<and> arrived s = card {i. i < n \<and> waited (thr s i)} + (if main s \<in> {Main_barrier, Merges} then 1 else 0)
     \<and> (main s = Merges \<longrightarrow> (\<forall>i<n. waited (thr s i)))
     \<and> (\<forall>i. main s = Creates i \<longrightarrow> (\<forall>j. thr s j \<noteq> Unborn \<longrightarrow> j < i) \<and> (\<forall>j<i. thr s j \<noteq> Unborn) \<and> i \<le> n)
     \<and> (main s = Main_barrier \<longrightarrow> (\<forall>i<n. thr s i \<noteq> Unborn))"

lemma full_count:
  assumes "card {i. i < n \<and> P i} = n"
  shows "\<forall>i<n. P i"
proof -
  have "{i. i < n \<and> P i} = {..<n}" using assms by (intro card_subset_eq) auto
  then show ?thesis by auto
qed

lemma sort_inv_main:
  assumes inv: "sort_inv n T xs s" and step: "main_step n ok s = Some s'"
  shows "sort_inv n T xs s'"
proof (cases "main s")
  case (Creates i)
  show ?thesis
  proof (cases "i < n")
    case True
    then have u: "thr s i = Unborn" using inv Creates by (auto simp: sort_inv_def)
    then have c: "{j. j < n \<and> waited (((thr s)(i := Sorts)) j)} = {j. j < n \<and> waited (thr s j)}" by auto
    show ?thesis using inv step Creates True u c by (auto simp: sort_inv_def main_step_def less_Suc_eq split: if_splits)
  next
    case False
    then show ?thesis using inv step Creates by (auto simp: sort_inv_def main_step_def)
  qed
next
  case Main_barrier
  then have "s' = s\<lparr>main := Merges\<rparr>" "arrived s = n + 1" using step by (auto simp: main_step_def split: if_splits)
  moreover from this(2) have c: "card {i. i < n \<and> waited (thr s i)} = n" using inv Main_barrier by (simp add: sort_inv_def)
  ultimately show ?thesis using inv full_count [OF c] unfolding sort_inv_def Main_barrier by simp
qed (use step in \<open>simp_all add: main_step_def\<close>)

lemma sort_inv_thread:
  assumes hs: "sorts hs" and len: "length xs = n * T" and inv: "sort_inv n T xs s" and i: "i < n" and step: "thr_fn hs n T i s = Some s'"
    and m: "main s \<noteq> Main_exits"
  shows "sort_inv n T xs s'"
proof (cases "thr s i")
  case Sorts
  then have s': "s' = s\<lparr>nums := thr_sort hs T (i * T) (nums s), arrived := arrived s + 1, thr := (thr s)(i := At_barrier)\<rparr>"
    using step by (simp add: thr_fn_def)
  have l: "length (nums s) = n * T" using inv len unfolding sort_inv_def by (metis size_mset)
  let ?A = "{j. j < n \<and> waited (thr s j)}"
  have "{j. j < n \<and> waited (thr s' j)} = insert i ?A" using s' i by auto
  moreover have "i \<notin> ?A" "finite ?A" using Sorts by auto
  ultimately have c: "card {j. j < n \<and> waited (thr s' j)} = card ?A + 1" by simp
  have sh: "sorted (share T j (nums s'))" if j: "j < n" "waited (thr s' j)" for j
  proof (cases "j = i")
    case True
    then show ?thesis using share_own [OF hs l i] s' by simp
  next
    case False
    then have "share T j (nums s') = share T j (nums s)" using share_other [OF hs _ l i j(1)] s' by simp
    then show ?thesis using inv j False s' by (simp add: sort_inv_def)
  qed
  have "main s \<noteq> Merges" using inv Sorts i by (auto simp: sort_inv_def)
  then show ?thesis using inv sh c s' thr_sort_mset [OF hs] Sorts unfolding sort_inv_def by (auto split: if_splits)
next
  case At_barrier
  then have s': "s' = s\<lparr>thr := (thr s)(i := Past)\<rparr>" using step by (simp add: thr_fn_def split: if_splits)
  then have t: "waited (thr s' j) \<longleftrightarrow> waited (thr s j)" "thr s' j \<noteq> Unborn \<longleftrightarrow> thr s j \<noteq> Unborn" for j
    using At_barrier by auto
  have "nums s' = nums s" "arrived s' = arrived s" "main s' = main s" using s' by simp_all
  with inv show ?thesis unfolding sort_inv_def t by simp
qed (use step in \<open>simp_all add: thr_fn_def\<close>)

lemma sort_reach_inv:
  assumes "sorts hs" "length xs = n * T"
  shows "sort_reach hs n T xs s \<Longrightarrow> sort_inv n T xs s"
proof (induction rule: sort_reach.induct)
  case start
  then show ?case by (simp add: sort_inv_def sort_start_def)
next
  case (main s ok s')
  then show ?case using sort_inv_main by blast
next
  case (thread s i s')
  then show ?case using sort_inv_thread [OF assms] by blast
qed

section \<open>Merging\<close>

text \<open>What is left of a share, and of all shares.\<close>

definition left :: "nat \<Rightarrow> int list \<Rightarrow> (nat \<Rightarrow> nat) \<Rightarrow> nat \<Rightarrow> int list" where
  "left T xs idx i = map ((!) xs) [idx i..<(i + 1) * T]"

definition all_left :: "nat \<Rightarrow> nat \<Rightarrow> int list \<Rightarrow> (nat \<Rightarrow> nat) \<Rightarrow> int multiset" where
  "all_left n T xs idx = (\<Sum>i<n. mset (left T xs idx i))"

lemma left_empty: "left T xs idx i = [] \<longleftrightarrow> \<not> idx i < (i + 1) * T"
  by (auto simp: left_def upt_eq_Nil_conv not_less)

lemma left_first: "idx i < (i + 1) * T \<Longrightarrow> left T xs idx i = xs ! idx i # left T xs (idx(i := idx i + 1)) i"
  by (simp add: left_def upt_conv_Cons)

lemma left_other: "i \<noteq> m \<Longrightarrow> left T xs (idx(m := k)) i = left T xs idx i"
  by (simp add: left_def)

lemma min_upto_min:
  assumes "\<forall>x \<in># all_left n T xs idx. x < LONG_MAX" "i \<le> n"
  shows "case min_upto T xs idx i (LONG_MAX, m0) of (num, m) \<Rightarrow>
     (\<forall>j<i. left T xs idx j \<noteq> [] \<longrightarrow> num \<le> hd (left T xs idx j))
     \<and> ((\<exists>j<i. left T xs idx j \<noteq> []) \<longrightarrow> (\<exists>j<i. m = Some j \<and> left T xs idx j \<noteq> [] \<and> num = hd (left T xs idx j)))
     \<and> ((\<forall>j<i. left T xs idx j = []) \<longrightarrow> num = LONG_MAX)"
  using assms(2)
proof (induction i)
  case (Suc i)
  obtain num m where nm: "min_upto T xs idx i (LONG_MAX, m0) = (num, m)" by force
  show ?case
  proof (cases "left T xs idx i = []")
    case True
    then have "\<not> idx i < (i + 1) * T" using left_empty by blast
    then show ?thesis using Suc nm True by (auto simp: less_Suc_eq)
  next
    case False
    then have ne: "idx i < (i + 1) * T" using left_empty by blast
    then have h: "hd (left T xs idx i) = xs ! idx i" by (simp add: left_first)
    have "hd (left T xs idx i) \<in># mset (left T xs idx i)" using False by simp
    moreover have "mset (left T xs idx i) \<subseteq># all_left n T xs idx"
      using Suc.prems by (simp add: all_left_def sum.remove [of "{..<n}" i])
    ultimately have lt: "xs ! idx i < LONG_MAX" using assms(1) h by (metis mset_subset_eqD)
    show ?thesis
    proof (cases "xs ! idx i < num")
      case True
      then show ?thesis using Suc nm ne h False by (fastforce simp: less_Suc_eq)
    next
      case ge: False
      then have "\<exists>j<i. left T xs idx j \<noteq> []" using Suc nm lt by force
      then show ?thesis using Suc nm ne h ge by (fastforce simp: less_Suc_eq)
    qed
  qed
qed simp

definition merge_inv :: "nat \<Rightarrow> nat \<Rightarrow> int list \<Rightarrow> nat \<Rightarrow> (nat \<Rightarrow> nat) \<Rightarrow> int list \<Rightarrow> bool" where
  "merge_inv n T xs k idx out \<longleftrightarrow> length out = k \<and> sorted out \<and> mset out + all_left n T xs idx = mset xs
     \<and> (\<forall>x \<in> set out. \<forall>y \<in># all_left n T xs idx. x \<le> y)
     \<and> (\<forall>i<n. sorted (left T xs idx i))"

lemma merge_round:
  assumes inv: "merge_inv n T xs k idx out" and len: "length xs = n * T" and k: "k < n * T" and lt: "\<forall>x \<in> set xs. x < LONG_MAX"
  shows "\<exists>m<n. snd (min_upto T xs idx n (LONG_MAX, m0)) = Some m \<and> idx m < length xs
    \<and> merge_inv n T xs (Suc k) (idx(m := idx m + 1)) (out @ [xs ! idx m])"
proof -
  have sub: "all_left n T xs idx \<subseteq># mset xs" using inv unfolding merge_inv_def by (metis mset_subset_eq_add_right)
  then have lt': "\<forall>x \<in># all_left n T xs idx. x < LONG_MAX" using lt by (metis mset_subset_eqD set_mset_mset)
  have "size (mset out + all_left n T xs idx) = n * T" using inv len unfolding merge_inv_def by (metis size_mset)
  then have "all_left n T xs idx \<noteq> {#}" using inv k by (auto simp: merge_inv_def)
  moreover have "all_left n T xs idx = {#}" if "\<forall>j<n. left T xs idx j = []" using that by (simp add: all_left_def)
  ultimately have "\<exists>j<n. left T xs idx j \<noteq> []" by blast
  then obtain m num where m: "m < n" "min_upto T xs idx n (LONG_MAX, m0) = (num, Some m)" "left T xs idx m \<noteq> []"
    "num = hd (left T xs idx m)" "\<forall>j<n. left T xs idx j \<noteq> [] \<longrightarrow> num \<le> hd (left T xs idx j)"
    using min_upto_min [OF lt' order.refl, of m0] by (auto split: prod.splits)
  let ?idx = "idx(m := idx m + 1)"
  have ne: "idx m < (m + 1) * T" using m(3) left_empty by blast
  then have l: "left T xs idx m = xs ! idx m # left T xs ?idx m" by (rule left_first)
  then have num: "num = xs ! idx m" using m(4) by simp
  have rest: "(\<Sum>i\<in>{..<n} - {m}. mset (left T xs ?idx i)) = (\<Sum>i\<in>{..<n} - {m}. mset (left T xs idx i))"
    by (intro sum.cong) (auto simp: left_other)
  have r: "all_left n T xs idx = add_mset num (all_left n T xs ?idx)"
    using m(1) rest l num by (simp add: all_left_def sum.remove [of "{..<n}" m])
  have least: "num \<le> y" if y: "y \<in># all_left n T xs idx" for y
  proof -
    obtain j where j: "j < n" "y \<in> set (left T xs idx j)" using y by (auto simp: all_left_def set_mset_sum)
    then have "hd (left T xs idx j) \<le> y" using inv unfolding merge_inv_def
      by (metis list.exhaust_sel list.set_cases list.sel(1) sorted_simps(2) order.refl empty_iff list.set(1) set_ConsD)
    moreover have "num \<le> hd (left T xs idx j)" using m(5) j by force
    ultimately show ?thesis by simp
  qed
  have "\<forall>i<n. sorted (left T xs ?idx i)"
    using inv l unfolding merge_inv_def by (metis left_other sorted_simps(2))
  moreover have "\<forall>x \<in> set out. x \<le> num" using inv r unfolding merge_inv_def by simp
  moreover have "(m + 1) * T \<le> n * T" using m(1) by (intro mult_le_mono1) simp
  ultimately have "idx m < length xs" "merge_inv n T xs (Suc k) ?idx (out @ [xs ! idx m])"
    using inv r least num ne len unfolding merge_inv_def by (auto simp: sorted_append ac_simps)
  with m(1,2) show ?thesis by auto
qed

lemma merge_loop_inv:
  assumes len: "length xs = n * T" and lt: "\<forall>x \<in> set xs. x < LONG_MAX" and st: "merge_inv n T xs 0 (\<lambda>i. i * T) []"
  shows "k \<le> n * T \<Longrightarrow> \<exists>idx m out. merge_loop n T xs k = Some (idx, m, out) \<and> merge_inv n T xs k idx out"
proof (induction k)
  case (Suc k)
  then obtain idx m0 out where s: "merge_loop n T xs k = Some (idx, m0, out)" "merge_inv n T xs k idx out" by auto
  obtain m where "snd (min_upto T xs idx n (LONG_MAX, m0)) = Some m" "idx m < length xs"
    "merge_inv n T xs (Suc k) (idx(m := idx m + 1)) (out @ [xs ! idx m])"
    using merge_round [OF s(2) len _ lt, of m0] Suc.prems by auto
  with s(1) show ?case by simp
qed (use st in simp)

lemma left_start: "length xs = n * T \<Longrightarrow> i < n \<Longrightarrow> left T xs (\<lambda>i. i * T) i = share T i xs"
proof -
  assume len: "length xs = n * T" and i: "i < n"
  have "(i + 1) * T \<le> n * T" using i by (intro mult_le_mono1) simp
  moreover have "i * T \<le> length xs" using len i by (simp add: mult_le_mono1)
  ultimately show ?thesis using len by (intro nth_equalityI) (simp_all add: left_def share_def)
qed

lemma all_left_start: "length xs = n * T \<Longrightarrow> all_left n T xs (\<lambda>i. i * T) = mset xs"
proof -
  assume len: "length xs = n * T"
  have "m \<le> n \<Longrightarrow> (\<Sum>i<m. mset (share T i xs)) = mset (take (m * T) xs)" for m
  proof (induction m)
    case (Suc m)
    have "Suc m * T = m * T + T" by simp
    then have "take (Suc m * T) xs = take (m * T) xs @ share T m xs" by (simp only: share_def take_add)
    then show ?case using Suc by simp
  qed simp
  moreover have "all_left n T xs (\<lambda>i. i * T) = (\<Sum>i<n. mset (share T i xs))"
    unfolding all_left_def by (intro sum.cong) (simp_all add: left_start [OF len])
  ultimately show ?thesis using len by simp
qed

lemma merge_nums_sorts:
  assumes len: "length xs = n * T" and sh: "\<forall>i<n. sorted (share T i xs)" and lt: "\<forall>x \<in> set xs. x < LONG_MAX"
  shows "\<exists>out. merge_nums n T xs = Some out \<and> sorted out \<and> mset out = mset xs"
proof -
  have "merge_inv n T xs 0 (\<lambda>i. i * T) []" using sh by (simp add: merge_inv_def all_left_start [OF len] left_start [OF len])
  from merge_loop_inv [OF len lt this order.refl] obtain idx m out where
    o: "merge_loop n T xs (n * T) = Some (idx, m, out)" "merge_inv n T xs (n * T) idx out" by blast
  have "size (mset out + all_left n T xs idx) = n * T" using o(2) len unfolding merge_inv_def by (metis size_mset)
  then have "all_left n T xs idx = {#}" using o(2) by (simp add: merge_inv_def)
  then show ?thesis using o by (auto simp: merge_nums_def merge_inv_def)
qed

section \<open>Progress\<close>

fun thr_work :: "thr_pc \<Rightarrow> nat" where
  "thr_work Unborn = 3"
| "thr_work Sorts = 2"
| "thr_work At_barrier = 1"
| "thr_work Past = 0"

fun main_work :: "main_pc \<Rightarrow> nat" where
  "main_work (Creates i) = 2"
| "main_work Main_barrier = 1"
| "main_work _ = 0"

definition work :: "nat \<Rightarrow> sorting \<Rightarrow> nat" where
  "work n s = main_work (main s) + (\<Sum>i<n. thr_work (thr s i))"

lemma sum_thr:
  fixes n i :: nat
  assumes "i < n"
  shows "(\<Sum>j<n. thr_work ((f(i := c)) j)) + thr_work (f i) = (\<Sum>j<n. thr_work (f j)) + thr_work c"
proof -
  have s: "(\<Sum>j<n. thr_work (g j)) = thr_work (g i) + (\<Sum>j\<in>{..<n} - {i}. thr_work (g j))" for g
    using assms by (intro sum.remove) auto
  have "(\<Sum>j\<in>{..<n} - {i}. thr_work ((f(i := c)) j)) = (\<Sum>j\<in>{..<n} - {i}. thr_work (f j))" by (intro sum.cong) auto
  with s [of f] s [of "f(i := c)"] show ?thesis by (simp del: fun_upd_apply add: fun_upd_same)
qed

lemma main_step_works:
  assumes inv: "sort_inv n T xs s" and step: "main_step n ok s = Some s'"
  shows "work n s' < work n s"
proof (cases "main s")
  case (Creates i)
  show ?thesis
  proof (cases "i < n \<and> ok")
    case True
    then have "thr s i = Unborn" using inv Creates by (auto simp: sort_inv_def)
    moreover from step Creates True have "s' = s\<lparr>thr := (thr s)(i := Sorts), main := Creates (i + 1)\<rparr>" by (simp add: main_step_def)
    ultimately show ?thesis using Creates True sum_thr [of i n "thr s" Sorts] by (simp add: work_def del: fun_upd_apply)
  next
    case False
    with step Creates show ?thesis by (auto simp: main_step_def work_def split: if_splits)
  qed
qed (use step in \<open>auto simp: main_step_def work_def split: if_splits\<close>)

lemma thr_fn_works:
  assumes "i < n" "thr_fn hs n T i s = Some s'"
  shows "work n s' < work n s"
proof (cases "thr s i")
  case Sorts
  with assms(2) sum_thr [OF assms(1), of "thr s" At_barrier] show ?thesis
    by (auto simp: thr_fn_def work_def simp del: fun_upd_apply)
next
  case At_barrier
  with assms(2) sum_thr [OF assms(1), of "thr s" Past] show ?thesis
    by (auto simp: thr_fn_def work_def simp del: fun_upd_apply split: if_splits)
qed (use assms(2) in \<open>simp_all add: thr_fn_def\<close>)

lemma can_step:
  assumes inv: "sort_inv n T xs s" and m: "main s \<noteq> Merges" "main s \<noteq> Main_exits"
  shows "(\<exists>s'. main_step n True s = Some s') \<or> (\<exists>i<n. \<exists>s'. thr_fn hs n T i s = Some s')"
proof (cases "main s")
  case Main_barrier
  show ?thesis
  proof (cases "\<forall>i<n. waited (thr s i)")
    case True
    then have "{i. i < n \<and> waited (thr s i)} = {..<n}" by auto
    then have "arrived s = n + 1" using inv Main_barrier by (simp add: sort_inv_def)
    then show ?thesis using Main_barrier by (simp add: main_step_def)
  next
    case False
    then obtain i where i: "i < n" "\<not> waited (thr s i)" by blast
    then have "thr s i = Sorts" using inv Main_barrier by (cases "thr s i") (auto simp: sort_inv_def)
    then show ?thesis using i by (auto simp: thr_fn_def)
  qed
qed (use m in \<open>auto simp: main_step_def\<close>)

section \<open>Properties\<close>

text \<open>A run as a list of steps: \<open>None\<close> is a step of main, \<open>Some i\<close> one of thread \<open>i\<close>.\<close>

fun sort_run :: "sorter \<Rightarrow> nat \<Rightarrow> nat \<Rightarrow> nat option list \<Rightarrow> sorting \<Rightarrow> sorting option" where
  "sort_run hs n T [] s = Some s"
| "sort_run hs n T (a # as) s =
     (if main s = Main_exits then None
      else case (case a of None \<Rightarrow> main_step n True s | Some i \<Rightarrow> if i < n then thr_fn hs n T i s else None) of
        None \<Rightarrow> None | Some s \<Rightarrow> sort_run hs n T as s)"

lemma sort_run_reach: "sort_run hs n T as s = Some s' \<Longrightarrow> sort_reach hs n T xs s \<Longrightarrow> sort_reach hs n T xs s'"
  by (induction hs n T as s rule: sort_run.induct) (auto intro: sort_reach.main sort_reach.thread split: option.splits if_splits)

definition lib_sort :: sorter where "lib_sort cmp xs = sort xs"

lemma lib_sort_sorts: "sorts lib_sort"
  by (simp add: sorts_def lib_sort_def complong_le)

lemma four_numbers:
  "\<exists>s. sort_run lib_sort 2 2 [None, None, Some 1, None, Some 0, Some 1, None] (sort_start [5, -3, 4, 2]) = Some s
     \<and> nums s = [-3, 5, 2, 4] \<and> main s = Merges"
  by (simp add: sort_start_def main_step_def thr_fn_def thr_sort_def lib_sort_def numeral_2_eq_2)

text \<open>C27: When main comes to merge, whatever the order in which the threads ran, every thread has sorted its share,
  and the merge returns all the numbers in order, without reading past a share or using \<^verbatim>\<open>minidx\<close> before it has a
  value, if no number is \<^verbatim>\<open>LONG_MAX\<close>.\<close>

theorem threads_sort:
  assumes "sorts hs" "length xs = n * T" "\<forall>x \<in> set xs. x < LONG_MAX" "sort_reach hs n T xs s" "main s = Merges"
  shows "\<exists>out. merge_nums n T (nums s) = Some out \<and> sorted out \<and> mset out = mset xs"
proof -
  have inv: "sort_inv n T xs s" using sort_reach_inv [OF assms(1,2,4)] .
  then have m: "mset (nums s) = mset xs" by (simp add: sort_inv_def)
  then have "length (nums s) = n * T" "\<forall>x \<in> set (nums s). x < LONG_MAX" using assms(2,3) by (metis size_mset, metis set_mset_mset)
  moreover have "\<forall>i<n. sorted (share T i (nums s))" using inv assms(5) by (simp add: sort_inv_def)
  ultimately show ?thesis using merge_nums_sorts m by metis
qed

theorem threads_sort_witness:
  "\<exists>s out. sort_run lib_sort 2 2 [None, None, Some 1, None, Some 0, Some 1, None] (sort_start [5, -3, 4, 2]) = Some s
     \<and> merge_nums 2 2 (nums s) = Some out \<and> sorted out \<and> mset out = mset [5, -3, 4, 2]"
proof -
  obtain s where s: "sort_run lib_sort 2 2 [None, None, Some 1, None, Some 0, Some 1, None] (sort_start [5, -3, 4, 2]) = Some s"
    "main s = Merges" using four_numbers by blast
  have "sort_reach lib_sort 2 2 [5, -3, 4, 2] s" using sort_run_reach [OF s(1) sort_reach.start] .
  from threads_sort [OF lib_sort_sorts _ _ this s(2)] s(1) show ?thesis by auto
qed

text \<open>The barrier opens: until main merges, some step is possible, and every step brings the end nearer, so
  main merges after at most \<open>3 n + 2\<close> steps when no thread creation fails.\<close>

theorem barrier_opens:
  assumes "sorts hs" "length xs = n * T" "sort_reach hs n T xs s" "main s \<noteq> Main_exits"
  shows "work n (sort_start xs) = 3 * n + 2
    \<and> (main s \<noteq> Merges \<longrightarrow> (\<exists>s'. main_step n True s = Some s') \<or> (\<exists>i<n. \<exists>s'. thr_fn hs n T i s = Some s'))
    \<and> (\<forall>s' ok. main_step n ok s = Some s' \<longrightarrow> work n s' < work n s)
    \<and> (\<forall>s' i. i < n \<longrightarrow> thr_fn hs n T i s = Some s' \<longrightarrow> work n s' < work n s)"
proof -
  have inv: "sort_inv n T xs s" using sort_reach_inv [OF assms(1,2,3)] .
  show ?thesis using can_step [OF inv _ assms(4), of hs] main_step_works [OF inv] thr_fn_works
    by (simp add: work_def sort_start_def)
qed

theorem barrier_opens_witness:
  "\<exists>s s'. sort_run lib_sort 2 2 [None, None, Some 1, None, Some 0] (sort_start [5, -3, 4, 2]) = Some s
     \<and> main_step 2 True s = Some s' \<and> work 2 s' < work 2 s"
proof -
  obtain s s' where s: "sort_run lib_sort 2 2 [None, None, Some 1, None, Some 0] (sort_start [5, -3, 4, 2]) = Some s"
    "main s \<noteq> Main_exits" "main_step 2 True s = Some s'"
    by (simp add: sort_start_def main_step_def thr_fn_def thr_sort_def lib_sort_def numeral_2_eq_2)
  have "sort_reach lib_sort 2 2 [5, -3, 4, 2] s" using sort_run_reach [OF s(1) sort_reach.start] .
  from barrier_opens [OF lib_sort_sorts _ this s(2)] s show ?thesis by auto
qed

text \<open>A share that holds \<^verbatim>\<open>LONG_MAX\<close> makes the merge use \<^verbatim>\<open>minidx\<close> without a value.\<close>

lemma merge_largest: "merge_nums 1 1 [LONG_MAX] = None"
  by (simp add: merge_nums_def)

end
