(* ===== verification/Rot13.thy ===== *)
theory Rot13 imports Prelude begin

text \<open>
  The rot13 filters of advio/: rot13a.c reads, translates and writes one block after the other; rot13c2.c keeps
  up to eight asynchronous reads and writes going, which finish in any order.
\<close>

section \<open>Translating\<close>

definition isalpha :: "char \<Rightarrow> bool" where
  "isalpha c \<longleftrightarrow> (let n = of_char c :: nat in 65 \<le> n \<and> n \<le> 90 \<or> 97 \<le> n \<and> n \<le> 122)"

definition translate :: "char \<Rightarrow> char" where
  "translate c =
     (if isalpha c then
        if of_char c \<ge> (of_char (CHR ''n'') :: nat) then char_of (of_char c - 13 :: nat)
        else if of_char c \<ge> (of_char (CHR ''a'') :: nat) then char_of (of_char c + 13 :: nat)
        else if of_char c \<ge> (of_char (CHR ''N'') :: nat) then char_of (of_char c - 13 :: nat)
        else char_of (of_char c + 13 :: nat)
      else c)"

definition BSZ :: nat where "BSZ = 4096"
definition NBUF :: nat where "NBUF = 8"

section \<open>advio/rot13a.c\<close>

text \<open>The loop, on what the calls of \<^verbatim>\<open>read\<close> return (\<open>None\<close> for an error) and of \<^verbatim>\<open>write\<close>: an end of file
  and an error both end it.\<close>

fun rot13a :: "string option list \<Rightarrow> int list \<Rightarrow> string \<Rightarrow> string res" where
  "rot13a (Some (c # cs) # rs) (nw # ws) out =
     (let buf = map translate (c # cs) in
      if nw = int (length buf) then rot13a rs ws (out @ buf)
      else if nw < 0 then Inl (Sys ''write failed'') else Inl (Quit ''short write''))"
| "rot13a _ _ out = Inr out"

section \<open>advio/rot13c2.c\<close>

datatype rwop = UNUSED | READ_PENDING | WRITE_PENDING

text \<open>A buffer, with the fields of its \<^verbatim>\<open>aiocb\<close> that change.\<close>

record aiobuf =
  op :: rwop
  final :: bool
  aio_offset :: nat
  aio_nbytes :: nat
  bytes :: string

record rotst =
  bufs :: "nat \<Rightarrow> aiobuf"
  nextoff :: nat
  numop :: int
  outfile :: string

text \<open>What the system answers for one buffer in one pass of the loop: whether a new operation is accepted, what
  \<^verbatim>\<open>aio_error\<close> says of the pending one, and when it is done, how many bytes it could transfer at most, or a
  negative number when \<^verbatim>\<open>aio_return\<close> fails.\<close>

datatype aio_status = In_progress | Failed int | Completed int

record aio_answer =
  accepts :: bool
  status :: aio_status

definition aio_return :: "int \<Rightarrow> nat \<Rightarrow> int" where
  "aio_return m wanted = (if m < 0 then -1 else min m (int wanted))"

definition set_buf :: "nat \<Rightarrow> aiobuf \<Rightarrow> rotst \<Rightarrow> rotst" where
  "set_buf i b s = s\<lparr>bufs := (bufs s)(i := b)\<rparr>"

text \<open>The body of the \<^verbatim>\<open>switch\<close> for buffer \<open>i\<close>. \<open>inp\<close> is the input file, of \<^verbatim>\<open>sbuf.st_size\<close> bytes.  A completed read
  has put its bytes into the buffer, a completed write has put the buffer into the output file.\<close>

definition start_read :: "string \<Rightarrow> aio_answer \<Rightarrow> nat \<Rightarrow> rotst \<Rightarrow> rotst res" where
  "start_read inp a i s =
     (if nextoff s < length inp then
        let b = bufs s i; o' = nextoff s + BSZ;
          b = b\<lparr>op := READ_PENDING, aio_offset := nextoff s, final := final b \<or> length inp \<le> o', aio_nbytes := BSZ\<rparr> in
        if accepts a then Inr (set_buf i b (s\<lparr>nextoff := o', numop := numop s + 1\<rparr>)) else Inl (Sys ''aio_read failed'')
      else Inr s)"

definition end_read :: "string \<Rightarrow> aio_answer \<Rightarrow> nat \<Rightarrow> rotst \<Rightarrow> rotst res" where
  "end_read inp a i s =
     (let b = bufs s i in
      case status a of
        In_progress \<Rightarrow> Inr s
      | Failed err \<Rightarrow> Inl (if err = -1 then Sys ''aio_error failed'' else Quit ''read failed'')
      | Completed m \<Rightarrow>
          let n = aio_return m (min (aio_nbytes b) (length inp - aio_offset b)) in
          if n < 0 then Inl (Sys ''aio_return failed'')
          else if n \<noteq> int BSZ \<and> \<not> final b then Inl (Quit ''short read'')
          else
            let b = b\<lparr>bytes := map translate (window inp (aio_offset b) (nat n)), op := WRITE_PENDING, aio_nbytes := nat n\<rparr> in
            if accepts a then Inr (set_buf i b s) else Inl (Sys ''aio_write failed''))"

definition end_write :: "aio_answer \<Rightarrow> nat \<Rightarrow> rotst \<Rightarrow> rotst res" where
  "end_write a i s =
     (let b = bufs s i in
      case status a of
        In_progress \<Rightarrow> Inr s
      | Failed err \<Rightarrow> Inl (if err = -1 then Sys ''aio_error failed'' else Quit ''write failed'')
      | Completed m \<Rightarrow>
          let n = aio_return m (aio_nbytes b) in
          if n < 0 then Inl (Sys ''aio_return failed'')
          else if n \<noteq> int (aio_nbytes b) then Inl (Quit ''short write'')
          else Inr (set_buf i (b\<lparr>op := UNUSED\<rparr>)
            (s\<lparr>numop := numop s - 1, outfile := splice (outfile s) (aio_offset b) (take (aio_nbytes b) (bytes b))\<rparr>)))"

definition rot_switch :: "string \<Rightarrow> aio_answer \<Rightarrow> nat \<Rightarrow> rotst \<Rightarrow> rotst res" where
  "rot_switch inp a i s =
     (case op (bufs s i) of
        UNUSED \<Rightarrow> start_read inp a i s
      | READ_PENDING \<Rightarrow> end_read inp a i s
      | WRITE_PENDING \<Rightarrow> end_write a i s)"

text \<open>One pass over the first \<open>k\<close> buffers.\<close>

fun rot_pass :: "string \<Rightarrow> (nat \<Rightarrow> aio_answer) \<Rightarrow> nat \<Rightarrow> rotst \<Rightarrow> rotst res" where
  "rot_pass inp as 0 s = Inr s"
| "rot_pass inp as (Suc i) s = rbind (rot_pass inp as i s) (rot_switch inp (as i) i)"

text \<open>The loop. \<open>as p i\<close> answers for buffer \<open>i\<close> in pass \<open>p\<close>, \<open>sus p\<close> is the success of the \<^verbatim>\<open>aio_suspend\<close> after
  it. The loop may run forever; the first argument bounds the number of passes.\<close>

fun rot_loop :: "nat \<Rightarrow> string \<Rightarrow> (nat \<Rightarrow> nat \<Rightarrow> aio_answer) \<Rightarrow> (nat \<Rightarrow> bool) \<Rightarrow> nat \<Rightarrow> rotst \<Rightarrow> rotst res" where
  "rot_loop 0 inp as sus p s = Inl Diverges"
| "rot_loop (Suc k) inp as sus p s =
     rbind (rot_pass inp (as p) NBUF s) (\<lambda>s.
       if numop s = 0 then if length inp \<le> nextoff s then Inr s else rot_loop k inp as sus (p + 1) s
       else if sus p then rot_loop k inp as sus (p + 1) s else Inl (Sys ''aio_suspend failed''))"

definition rot_start :: rotst where
  "rot_start = \<lparr>bufs = (\<lambda>_. \<lparr>op = UNUSED, final = False, aio_offset = 0, aio_nbytes = 0, bytes = []\<rparr>),
     nextoff = 0, numop = 0, outfile = []\<rparr>"

definition rot13c2 :: "nat \<Rightarrow> string \<Rightarrow> (nat \<Rightarrow> nat \<Rightarrow> aio_answer) \<Rightarrow> (nat \<Rightarrow> bool) \<Rightarrow> string res" where
  "rot13c2 k inp as sus = rbind (rot_loop k inp as sus 0 rot_start) (\<lambda>s. Inr (outfile s))"

section \<open>Splicing\<close>

lemma length_splice: "length (splice f off bs) = max (length f) (off + length bs)"
  by (simp add: splice_def)

lemma nth_splice_any:
  "i < max (length f) (off + length bs) \<Longrightarrow> splice f off bs ! i =
     (if off \<le> i \<and> i < off + length bs then bs ! (i - off) else if i < length f then f ! i else NUL)"
  by (auto simp: splice_def nth_append min_def not_less)

lemma char_cases: "\<exists>n < 256. c = (char_of (n :: nat))"
  by (rule exI [of _ "of_char c"]) simp

lemma translate_twice: "translate (translate c) = c"
proof -
  obtain n :: nat where n: "n < 256" "c = char_of n" using char_cases by blast
  consider "97 \<le> n \<and> n < 110" | "110 \<le> n \<and> n \<le> 122" | "65 \<le> n \<and> n < 78" | "78 \<le> n \<and> n \<le> 90"
    | "n < 65 \<or> 90 < n \<and> n < 97 \<or> 122 < n" by linarith
  then show ?thesis using n by cases (auto simp: translate_def isalpha_def Let_def)
qed

section \<open>The blocks of a file\<close>

definition pending :: "rotst \<Rightarrow> nat \<Rightarrow> bool" where
  "pending s i \<longleftrightarrow> op (bufs s i) \<noteq> UNUSED"

definition in_block :: "aiobuf \<Rightarrow> nat \<Rightarrow> bool" where
  "in_block b j \<longleftrightarrow> aio_offset b \<le> j \<and> j < aio_offset b + BSZ"

definition block_len :: "string \<Rightarrow> aiobuf \<Rightarrow> nat" where
  "block_len inp b = min BSZ (length inp - aio_offset b)"

text \<open>A buffer in use belongs to a block already started; before it is written it holds the block translated.\<close>

definition buf_ok :: "string \<Rightarrow> nat \<Rightarrow> aiobuf \<Rightarrow> bool" where
  "buf_ok inp o' b \<longleftrightarrow> BSZ dvd aio_offset b \<and> aio_offset b < o' \<and> aio_offset b < length inp
     \<and> (op b = READ_PENDING \<longrightarrow> aio_nbytes b = BSZ \<and> (length inp \<le> aio_offset b + BSZ \<longrightarrow> final b))
     \<and> (op b = WRITE_PENDING \<longrightarrow> aio_nbytes b = block_len inp b \<and> bytes b = map translate (window inp (aio_offset b) (block_len inp b)))"

text \<open>The blocks started and not in a buffer are in the output file.\<close>

definition rot_inv :: "string \<Rightarrow> rotst \<Rightarrow> bool" where
  "rot_inv inp s \<longleftrightarrow> BSZ dvd nextoff s
     \<and> (\<forall>i<NBUF. pending s i \<longrightarrow> buf_ok inp (nextoff s) (bufs s i))
     \<and> (\<forall>i<NBUF. \<forall>k<NBUF. i \<noteq> k \<longrightarrow> pending s i \<longrightarrow> pending s k \<longrightarrow> aio_offset (bufs s i) \<noteq> aio_offset (bufs s k))
     \<and> numop s = int (card {i. i < NBUF \<and> pending s i})
     \<and> length (outfile s) \<le> length inp
     \<and> (\<forall>j < length inp. j < nextoff s \<longrightarrow> (\<forall>i<NBUF. pending s i \<longrightarrow> \<not> in_block (bufs s i) j)
         \<longrightarrow> j < length (outfile s) \<and> outfile s ! j = translate (inp ! j))"

text \<open>The system transfers whole blocks, except for the last one of the file.\<close>

definition full :: "aio_answer \<Rightarrow> bool" where
  "full a \<longleftrightarrow> (\<forall>m. status a = Completed m \<longrightarrow> int BSZ \<le> m)"

lemma BSZ_pos: "0 < BSZ"
  by (simp add: BSZ_def)

lemma card_insert_pending:
  "i < NBUF \<Longrightarrow> \<not> pending s i \<Longrightarrow> (\<forall>k. pending s' k \<longleftrightarrow> k = i \<or> pending s k)
     \<Longrightarrow> card {k. k < NBUF \<and> pending s' k} = Suc (card {k. k < NBUF \<and> pending s k})"
proof -
  assume a: "i < NBUF" "\<not> pending s i" "\<forall>k. pending s' k \<longleftrightarrow> k = i \<or> pending s k"
  then have "{k. k < NBUF \<and> pending s' k} = insert i {k. k < NBUF \<and> pending s k}" by auto
  with a(2) show ?thesis by simp
qed

lemma start_read_inv:
  assumes inv: "rot_inv inp s" and i: "i < NBUF" "op (bufs s i) = UNUSED" and r: "start_read inp a i s = Inr s'"
  shows "rot_inv inp s'"
proof (cases "nextoff s < length inp")
  case True
  let ?b = "(bufs s i)\<lparr>op := READ_PENDING, aio_offset := nextoff s, final := final (bufs s i) \<or> length inp \<le> nextoff s + BSZ, aio_nbytes := BSZ\<rparr>"
  have s': "s' = s\<lparr>nextoff := nextoff s + BSZ, numop := numop s + 1, bufs := (bufs s)(i := ?b)\<rparr>"
    using r True by (simp add: start_read_def set_buf_def Let_def split: if_splits)
  have p: "pending s' k \<longleftrightarrow> k = i \<or> pending s k" for k using i(2) by (simp add: s' pending_def)
  have np: "\<not> pending s i" using i(2) by (simp add: pending_def)
  have old: "k < NBUF \<Longrightarrow> pending s k \<Longrightarrow> buf_ok inp (nextoff s) (bufs s k)" for k using inv by (simp add: rot_inv_def)
  have "buf_ok inp (nextoff s') ?b" using inv True BSZ_pos by (simp add: buf_ok_def s' rot_inv_def)
  moreover have "k < NBUF \<Longrightarrow> pending s k \<Longrightarrow> buf_ok inp (nextoff s') (bufs s k)" for k using old [of k] by (simp add: buf_ok_def s')
  ultimately have "\<forall>k<NBUF. pending s' k \<longrightarrow> buf_ok inp (nextoff s') (bufs s' k)" using p np s' by auto
  moreover have "\<forall>k<NBUF. \<forall>l<NBUF. k \<noteq> l \<longrightarrow> pending s' k \<longrightarrow> pending s' l \<longrightarrow> aio_offset (bufs s' k) \<noteq> aio_offset (bufs s' l)"
  proof (intro allI impI)
    fix k l assume kl: "k < NBUF" "l < NBUF" "k \<noteq> l" "pending s' k" "pending s' l"
    have lt: "m < NBUF \<Longrightarrow> pending s m \<Longrightarrow> aio_offset (bufs s m) < nextoff s" for m using old [of m] by (simp add: buf_ok_def)
    have "k \<noteq> i \<and> l \<noteq> i \<Longrightarrow> aio_offset (bufs s k) \<noteq> aio_offset (bufs s l)" using inv kl p by (simp add: rot_inv_def)
    then show "aio_offset (bufs s' k) \<noteq> aio_offset (bufs s' l)"
      using kl lt [of k] lt [of l] p by (cases "k = i"; cases "l = i") (auto simp: s')
  qed
  moreover have "j < length (outfile s') \<and> outfile s' ! j = translate (inp ! j)"
    if j: "j < length inp" "j < nextoff s'" "\<forall>k<NBUF. pending s' k \<longrightarrow> \<not> in_block (bufs s' k) j" for j
  proof -
    have "\<not> in_block ?b j" using j(3) i(1) p s' by auto
    then have "j < nextoff s" using j(2) by (simp add: in_block_def s')
    moreover have "\<forall>k<NBUF. pending s k \<longrightarrow> \<not> in_block (bufs s k) j" using j(3) p np s' by (auto split: if_splits)
    ultimately show ?thesis using inv j(1) by (simp add: rot_inv_def s')
  qed
  moreover have "numop s' = int (card {k. k < NBUF \<and> pending s' k})"
    using inv card_insert_pending [OF i(1) np, of s'] p by (simp add: rot_inv_def s')
  ultimately show ?thesis using inv by (simp add: rot_inv_def s')
next
  case False
  then show ?thesis using r inv by (simp add: start_read_def)
qed

text \<open>A buffer that stays in use at the same block.\<close>

lemma same_block_inv:
  assumes inv: "rot_inv inp s" and i: "i < NBUF" "pending s i" and s': "s' = set_buf i b s"
    and b: "op b \<noteq> UNUSED" "aio_offset b = aio_offset (bufs s i)" "buf_ok inp (nextoff s) b"
  shows "rot_inv inp s'"
proof -
  have p: "pending s' k = pending s k" for k using i(2) b(1) by (auto simp: s' set_buf_def pending_def)
  have o: "aio_offset (bufs s' k) = aio_offset (bufs s k)" for k using b(2) by (simp add: s' set_buf_def)
  have "in_block (bufs s' k) j = in_block (bufs s k) j" for k j by (simp add: in_block_def o)
  moreover have "\<forall>k<NBUF. pending s k \<longrightarrow> buf_ok inp (nextoff s) (bufs s' k)"
    using inv b(3) by (auto simp: rot_inv_def s' set_buf_def)
  moreover have "nextoff s' = nextoff s" "numop s' = numop s" "outfile s' = outfile s" by (simp_all add: s' set_buf_def)
  ultimately show ?thesis using inv unfolding rot_inv_def p o by simp
qed

lemma end_read_inv:
  assumes inv: "rot_inv inp s" and i: "i < NBUF" "op (bufs s i) = READ_PENDING" and a: "full a" and r: "end_read inp a i s = Inr s'"
  shows "rot_inv inp s'"
proof (cases "status a")
  case (Completed m)
  let ?b = "bufs s i"
  have p: "pending s i" using i(2) by (simp add: pending_def)
  then have ok: "buf_ok inp (nextoff s) ?b" using inv i(1) by (simp add: rot_inv_def)
  have "int BSZ \<le> m" using a Completed by (simp add: full_def)
  then have n: "aio_return m (min (aio_nbytes ?b) (length inp - aio_offset ?b)) = int (block_len inp ?b)"
    using ok i(2) by (auto simp: aio_return_def buf_ok_def block_len_def)
  let ?b' = "?b\<lparr>bytes := map translate (window inp (aio_offset ?b) (block_len inp ?b)), op := WRITE_PENDING, aio_nbytes := block_len inp ?b\<rparr>"
  have s': "s' = set_buf i ?b' s" using r Completed by (auto simp: end_read_def n Let_def split: if_splits)
  show ?thesis by (rule same_block_inv [OF inv i(1) p s']) (use ok in \<open>simp_all add: buf_ok_def block_len_def\<close>)
qed (use r inv in \<open>simp_all add: end_read_def Let_def\<close>)

lemma end_write_inv:
  assumes inv: "rot_inv inp s" and i: "i < NBUF" "op (bufs s i) = WRITE_PENDING" and r: "end_write a i s = Inr s'"
  shows "rot_inv inp s'"
proof (cases "status a")
  case (Completed m)
  let ?b = "bufs s i" and ?w = "map translate (window inp (aio_offset (bufs s i)) (block_len inp (bufs s i)))"
  have p: "pending s i" using i(2) by (simp add: pending_def)
  then have ok: "buf_ok inp (nextoff s) ?b" using inv i(1) by (simp add: rot_inv_def)
  have w: "aio_nbytes ?b = length ?w" "bytes ?b = ?w" using ok i(2) by (simp_all add: buf_ok_def length_window block_len_def)
  have s': "s' = set_buf i (?b\<lparr>op := UNUSED\<rparr>) (s\<lparr>numop := numop s - 1, outfile := splice (outfile s) (aio_offset ?b) ?w\<rparr>)"
    using r Completed w by (auto simp: end_write_def Let_def split: if_splits)
  have p': "pending s' k \<longleftrightarrow> k \<noteq> i \<and> pending s k" for k by (simp add: s' set_buf_def pending_def)
  have same: "k \<noteq> i \<Longrightarrow> bufs s' k = bufs s k" for k by (simp add: s' set_buf_def)
  have "card {k. k < NBUF \<and> pending s k} = Suc (card {k. k < NBUF \<and> pending s' k})"
    by (rule card_insert_pending [OF i(1)]) (use p in \<open>auto simp: p'\<close>)
  moreover have "numop s' = numop s - 1" "numop s = int (card {k. k < NBUF \<and> pending s k})" using inv by (simp_all add: rot_inv_def s' set_buf_def)
  ultimately have n: "numop s' = int (card {k. k < NBUF \<and> pending s' k})" by simp
  have lw: "length ?w = min BSZ (length inp - aio_offset ?b)" by (simp add: length_window block_len_def)
  have out: "j < length (outfile s') \<and> outfile s' ! j = translate (inp ! j)"
    if j: "j < length inp" "j < nextoff s'" "\<forall>k<NBUF. pending s' k \<longrightarrow> \<not> in_block (bufs s' k) j" for j
  proof (cases "in_block ?b j")
    case True
    then have "aio_offset ?b \<le> j" "j < aio_offset ?b + length ?w" using j(1) lw by (auto simp: in_block_def)
    then have "splice (outfile s) (aio_offset ?b) ?w ! j = ?w ! (j - aio_offset ?b)" by (subst nth_splice_any) auto
    moreover have "?w ! (j - aio_offset ?b) = translate (inp ! j)"
    proof -
      obtain d where d: "j = aio_offset ?b + d" using \<open>aio_offset ?b \<le> j\<close> le_Suc_ex by blast
      then have "d < block_len inp ?b" using \<open>j < aio_offset ?b + length ?w\<close> by (simp add: length_window)
      with d j(1) show ?thesis by (simp add: window_def)
    qed
    ultimately show ?thesis using \<open>j < aio_offset ?b + length ?w\<close> by (simp add: s' set_buf_def length_splice)
  next
    case False
    then have "\<forall>k<NBUF. pending s k \<longrightarrow> \<not> in_block (bufs s k) j" using j(3) p' same by metis
    then have o: "j < length (outfile s)" "outfile s ! j = translate (inp ! j)"
      using inv j(1,2) by (simp_all add: rot_inv_def s' set_buf_def)
    have "\<not> (aio_offset ?b \<le> j \<and> j < aio_offset ?b + length ?w)" using False lw by (auto simp: in_block_def)
    then have "splice (outfile s) (aio_offset ?b) ?w ! j = outfile s ! j" using o(1) by (subst nth_splice_any) auto
    then show ?thesis using o by (simp add: s' set_buf_def length_splice)
  qed
  have "aio_offset ?b < length inp" "length (outfile s) \<le> length inp" using inv ok by (simp_all add: rot_inv_def buf_ok_def)
  then have "aio_offset ?b + min BSZ (length inp - aio_offset ?b) \<le> length inp" by linarith
  then have "length (outfile s') \<le> length inp" using lw \<open>length (outfile s) \<le> length inp\<close> by (simp add: s' set_buf_def length_splice)
  moreover have "\<forall>k<NBUF. pending s' k \<longrightarrow> buf_ok inp (nextoff s') (bufs s' k)" using inv p' same by (simp add: rot_inv_def s' set_buf_def)
  moreover have "\<forall>k<NBUF. \<forall>l<NBUF. k \<noteq> l \<longrightarrow> pending s' k \<longrightarrow> pending s' l \<longrightarrow> aio_offset (bufs s' k) \<noteq> aio_offset (bufs s' l)"
    using inv p' same by (simp add: rot_inv_def)
  moreover have "BSZ dvd nextoff s'" using inv by (simp add: rot_inv_def s' set_buf_def)
  ultimately show ?thesis using out n by (simp add: rot_inv_def)
qed (use r inv in \<open>simp_all add: end_write_def Let_def\<close>)

lemma rot_switch_inv:
  "rot_inv inp s \<Longrightarrow> i < NBUF \<Longrightarrow> full a \<Longrightarrow> rot_switch inp a i s = Inr s' \<Longrightarrow> rot_inv inp s'"
  using start_read_inv [of inp s i a s'] end_read_inv [of inp s i a s'] end_write_inv [of inp s i a s']
  by (cases "op (bufs s i)") (simp_all add: rot_switch_def)

lemma rot_pass_inv:
  "rot_inv inp s \<Longrightarrow> k \<le> NBUF \<Longrightarrow> \<forall>i<k. full (as i) \<Longrightarrow> rot_pass inp as k s = Inr s' \<Longrightarrow> rot_inv inp s'"
proof (induction k arbitrary: s')
  case (Suc k)
  then obtain s1 where s1: "rot_pass inp as k s = Inr s1" "rot_switch inp (as k) k s1 = Inr s'" by (auto simp: rbind_eq_Inr)
  then have "rot_inv inp s1" using Suc by simp
  from rot_switch_inv [OF this _ _ s1(2)] show ?case using Suc.prems by simp
qed simp

lemma rot_inv_end:
  assumes inv: "rot_inv inp s" and e: "numop s = 0" "length inp \<le> nextoff s"
  shows "outfile s = map translate inp"
proof -
  have np: "\<not> pending s i" if "i < NBUF" for i using inv e(1) that by (auto simp: rot_inv_def)
  have o: "j < length inp \<Longrightarrow> j < length (outfile s) \<and> outfile s ! j = translate (inp ! j)" for j
    using inv np e(2) by (simp add: rot_inv_def)
  have "length (outfile s) = length inp"
    using inv o [of "length inp - 1"] by (cases "length inp") (auto simp: rot_inv_def)
  then show ?thesis using o by (intro nth_equalityI) auto
qed

lemma rot_start_inv: "rot_inv inp rot_start"
  by (simp add: rot_inv_def rot_start_def pending_def)

lemma rot_loop_result:
  "rot_loop k inp as sus p s = Inr s' \<Longrightarrow> rot_inv inp s \<Longrightarrow> \<forall>p i. full (as p i) \<Longrightarrow> outfile s' = map translate inp"
proof (induction k arbitrary: p s)
  case (Suc k)
  then obtain s1 where s1: "rot_pass inp (as p) NBUF s = Inr s1"
    "(if numop s1 = 0 then if length inp \<le> nextoff s1 then Inr s1 else rot_loop k inp as sus (p + 1) s1
       else if sus p then rot_loop k inp as sus (p + 1) s1 else Inl (Sys ''aio_suspend failed'')) = Inr s'"
    by (auto simp: rbind_eq_Inr)
  have "rot_inv inp s1" by (rule rot_pass_inv [OF Suc.prems(2) order.refl _ s1(1)]) (simp add: Suc.prems(3))
  then show ?case using s1(2) Suc.IH [OF _ _ Suc.prems(3)] rot_inv_end by (auto split: if_splits)
qed simp

section \<open>The loop ends\<close>

fun op_work :: "rwop \<Rightarrow> nat" where
  "op_work UNUSED = 0"
| "op_work READ_PENDING = 2"
| "op_work WRITE_PENDING = 1"

definition rot_work :: "string \<Rightarrow> rotst \<Rightarrow> nat" where
  "rot_work inp s = 3 * (length inp - nextoff s) + (\<Sum>i<NBUF. op_work (op (bufs s i)))"

text \<open>Answers of a system in which nothing fails.\<close>

definition good_answer :: "aio_answer \<Rightarrow> bool" where
  "good_answer a \<longleftrightarrow> accepts a \<and> full a \<and> (\<forall>err. status a \<noteq> Failed err)"

text \<open>What a buffer can do in a pass.\<close>

definition moves :: "string \<Rightarrow> aio_answer \<Rightarrow> nat \<Rightarrow> rotst \<Rightarrow> bool" where
  "moves inp a i s \<longleftrightarrow> (if pending s i then status a \<noteq> In_progress else nextoff s < length inp)"

lemma sum_ops:
  fixes i :: nat
  assumes "i < NBUF"
  shows "(\<Sum>k<NBUF. op_work (op (((bufs s)(i := b)) k))) + op_work (op (bufs s i)) = (\<Sum>k<NBUF. op_work (op (bufs s k))) + op_work (op b)"
proof -
  have r: "(\<Sum>k<NBUF. g k) = g i + (\<Sum>k\<in>{..<NBUF} - {i}. g k)" for g :: "nat \<Rightarrow> nat" using assms by (intro sum.remove) auto
  have "(\<Sum>k\<in>{..<NBUF} - {i}. op_work (op (((bufs s)(i := b)) k))) = (\<Sum>k\<in>{..<NBUF} - {i}. op_work (op (bufs s k)))"
    by (intro sum.cong) auto
  then show ?thesis
    using r [of "\<lambda>k. op_work (op (bufs s k))"] r [of "\<lambda>k. op_work (op (((bufs s)(i := b)) k))"]
    by (simp del: fun_upd_apply add: fun_upd_same)
qed

lemma start_read_goes:
  assumes "i < NBUF" "op (bufs s i) = UNUSED" "good_answer a"
  shows "\<exists>s'. start_read inp a i s = Inr s' \<and> rot_work inp s' \<le> rot_work inp s
    \<and> (moves inp a i s \<longrightarrow> rot_work inp s' < rot_work inp s) \<and> (\<forall>k. k \<noteq> i \<longrightarrow> bufs s' k = bufs s k)"
proof (cases "nextoff s < length inp")
  case True
  let ?b = "(bufs s i)\<lparr>op := READ_PENDING, aio_offset := nextoff s, final := final (bufs s i) \<or> length inp \<le> nextoff s + BSZ, aio_nbytes := BSZ\<rparr>"
  let ?s = "set_buf i ?b (s\<lparr>nextoff := nextoff s + BSZ, numop := numop s + 1\<rparr>)"
  have "start_read inp a i s = Inr ?s" using True assms(3) by (simp add: start_read_def good_answer_def Let_def)
  moreover have "rot_work inp ?s < rot_work inp s"
    using sum_ops [OF assms(1), of s ?b] True BSZ_pos assms(2) by (simp add: rot_work_def set_buf_def del: fun_upd_apply)
  ultimately show ?thesis by (auto simp: set_buf_def)
qed (use assms in \<open>auto simp: start_read_def moves_def pending_def\<close>)

lemma end_read_goes:
  assumes inv: "rot_inv inp s" and i: "i < NBUF" "op (bufs s i) = READ_PENDING" and a: "good_answer a"
  shows "\<exists>s'. end_read inp a i s = Inr s' \<and> rot_work inp s' \<le> rot_work inp s
    \<and> (moves inp a i s \<longrightarrow> rot_work inp s' < rot_work inp s) \<and> (\<forall>k. k \<noteq> i \<longrightarrow> bufs s' k = bufs s k)"
proof (cases "status a")
  case (Completed m)
  let ?b = "bufs s i"
  have ok: "buf_ok inp (nextoff s) ?b" using inv i by (simp add: rot_inv_def pending_def)
  have "int BSZ \<le> m" using a Completed by (simp add: full_def good_answer_def)
  then have n: "aio_return m (min (aio_nbytes ?b) (length inp - aio_offset ?b)) = int (block_len inp ?b)"
    using ok i(2) by (auto simp: aio_return_def buf_ok_def block_len_def)
  have f: "block_len inp ?b \<noteq> BSZ \<longrightarrow> final ?b" using ok i(2) by (auto simp: buf_ok_def block_len_def)
  let ?b' = "?b\<lparr>bytes := map translate (window inp (aio_offset ?b) (block_len inp ?b)), op := WRITE_PENDING, aio_nbytes := block_len inp ?b\<rparr>"
  have "end_read inp a i s = Inr (set_buf i ?b' s)" using Completed a f by (auto simp: end_read_def n Let_def good_answer_def)
  moreover have "rot_work inp (set_buf i ?b' s) < rot_work inp s"
    using sum_ops [OF i(1), of s ?b'] i(2) by (simp add: rot_work_def set_buf_def del: fun_upd_apply)
  ultimately show ?thesis by (auto simp: set_buf_def)
qed (use a i in \<open>auto simp: end_read_def moves_def pending_def good_answer_def Let_def\<close>)

lemma end_write_goes:
  assumes inv: "rot_inv inp s" and i: "i < NBUF" "op (bufs s i) = WRITE_PENDING" and a: "good_answer a"
  shows "\<exists>s'. end_write a i s = Inr s' \<and> rot_work inp s' \<le> rot_work inp s
    \<and> (moves inp a i s \<longrightarrow> rot_work inp s' < rot_work inp s) \<and> (\<forall>k. k \<noteq> i \<longrightarrow> bufs s' k = bufs s k)"
proof (cases "status a")
  case (Completed m)
  let ?b = "bufs s i"
  have ok: "buf_ok inp (nextoff s) ?b" using inv i by (simp add: rot_inv_def pending_def)
  have "int BSZ \<le> m" using a Completed by (simp add: full_def good_answer_def)
  then have n: "aio_return m (aio_nbytes ?b) = int (aio_nbytes ?b)"
    using ok i(2) by (auto simp: aio_return_def buf_ok_def block_len_def)
  let ?s = "set_buf i (?b\<lparr>op := UNUSED\<rparr>) (s\<lparr>numop := numop s - 1, outfile := splice (outfile s) (aio_offset ?b) (take (aio_nbytes ?b) (bytes ?b))\<rparr>)"
  have "end_write a i s = Inr ?s" using Completed by (simp add: end_write_def n Let_def)
  moreover have "rot_work inp ?s < rot_work inp s"
    using sum_ops [OF i(1), of s "?b\<lparr>op := UNUSED\<rparr>"] i(2) by (simp add: rot_work_def set_buf_def del: fun_upd_apply)
  ultimately show ?thesis by (auto simp: set_buf_def)
qed (use a i in \<open>auto simp: end_write_def moves_def pending_def good_answer_def Let_def\<close>)

lemma rot_switch_goes:
  assumes "rot_inv inp s" "i < NBUF" "good_answer a"
  shows "\<exists>s'. rot_switch inp a i s = Inr s' \<and> rot_inv inp s' \<and> rot_work inp s' \<le> rot_work inp s
    \<and> (moves inp a i s \<longrightarrow> rot_work inp s' < rot_work inp s) \<and> (\<forall>k. k \<noteq> i \<longrightarrow> bufs s' k = bufs s k)"
proof -
  have "\<exists>s'. rot_switch inp a i s = Inr s' \<and> rot_work inp s' \<le> rot_work inp s
    \<and> (moves inp a i s \<longrightarrow> rot_work inp s' < rot_work inp s) \<and> (\<forall>k. k \<noteq> i \<longrightarrow> bufs s' k = bufs s k)"
    using start_read_goes [OF assms(2) _ assms(3)] end_read_goes [OF assms(1,2) _ assms(3)] end_write_goes [OF assms(1,2) _ assms(3)]
    by (cases "op (bufs s i)") (simp_all add: rot_switch_def)
  then show ?thesis using rot_switch_inv [OF assms(1,2), of a] assms(3) by (auto simp: good_answer_def)
qed

text \<open>A pass takes every buffer as it was before the pass, so one that can move makes it count.\<close>

lemma rot_pass_goes:
  assumes "rot_inv inp s" "\<forall>i<NBUF. good_answer (as i)"
  shows "k \<le> NBUF \<Longrightarrow> \<exists>s'. rot_pass inp as k s = Inr s' \<and> rot_inv inp s' \<and> rot_work inp s' \<le> rot_work inp s
    \<and> ((\<exists>i<k. pending s i \<and> status (as i) \<noteq> In_progress) \<or> 0 < k \<and> moves inp (as 0) 0 s \<longrightarrow> rot_work inp s' < rot_work inp s)
    \<and> (\<forall>i. k \<le> i \<longrightarrow> bufs s' i = bufs s i)"
proof (induction k)
  case (Suc k)
  then obtain s1 where s1: "rot_pass inp as k s = Inr s1" "rot_inv inp s1" "rot_work inp s1 \<le> rot_work inp s"
    "(\<exists>i<k. pending s i \<and> status (as i) \<noteq> In_progress) \<or> 0 < k \<and> moves inp (as 0) 0 s \<longrightarrow> rot_work inp s1 < rot_work inp s"
    "\<forall>i. k \<le> i \<longrightarrow> bufs s1 i = bufs s i" by auto
  have k: "k < NBUF" "good_answer (as k)" using assms(2) Suc.prems by simp_all
  obtain s2 where s2: "rot_switch inp (as k) k s1 = Inr s2" "rot_inv inp s2" "rot_work inp s2 \<le> rot_work inp s1"
    "moves inp (as k) k s1 \<longrightarrow> rot_work inp s2 < rot_work inp s1" "\<forall>i. i \<noteq> k \<longrightarrow> bufs s2 i = bufs s1 i"
    using rot_switch_goes [OF s1(2) k] by blast
  have now: "pending s k \<and> status (as k) \<noteq> In_progress \<longrightarrow> rot_work inp s2 < rot_work inp s1"
    using s2(4) s1(5) by (auto simp: moves_def pending_def)
  have first: "k = 0 \<longrightarrow> moves inp (as 0) 0 s \<longrightarrow> rot_work inp s2 < rot_work inp s1" using s2(4) s1(1) by auto
  have "(\<exists>i<Suc k. pending s i \<and> status (as i) \<noteq> In_progress) \<or> 0 < Suc k \<and> moves inp (as 0) 0 s \<longrightarrow> rot_work inp s2 < rot_work inp s"
    using s1(3,4) s2(3) now first by (cases "k = 0") (auto simp: less_Suc_eq)
  then show ?case using s1(1,3,5) s2(1,2,3,5) by simp
qed (use assms in simp)

text \<open>The state after pass \<open>p\<close>, whether or not the loop goes on, and what \<^verbatim>\<open>aio_suspend\<close> promises: when it returns, one of
  the operations in progress is done.\<close>

fun after_pass :: "string \<Rightarrow> (nat \<Rightarrow> nat \<Rightarrow> aio_answer) \<Rightarrow> nat \<Rightarrow> rotst res" where
  "after_pass inp as 0 = rot_pass inp (as 0) NBUF rot_start"
| "after_pass inp as (Suc p) = rbind (after_pass inp as p) (rot_pass inp (as (Suc p)) NBUF)"

definition suspend_ok :: "string \<Rightarrow> (nat \<Rightarrow> nat \<Rightarrow> aio_answer) \<Rightarrow> bool" where
  "suspend_ok inp as \<longleftrightarrow> (\<forall>p s. after_pass inp as p = Inr s \<longrightarrow> numop s \<noteq> 0 \<longrightarrow>
     (\<exists>i<NBUF. pending s i \<and> status (as (p + 1) i) \<noteq> In_progress))"

lemma no_ops: "rot_inv inp s \<Longrightarrow> numop s = 0 \<longleftrightarrow> (\<forall>i<NBUF. \<not> pending s i)"
  by (auto simp: rot_inv_def)

text \<open>Each further pass makes the work less, unless the loop is at its end.\<close>

lemma rot_loop_ends:
  assumes good: "\<forall>p i. good_answer (as p i)" and sus: "\<forall>p. sus p" and prog: "suspend_ok inp as"
  shows "rot_inv inp s \<Longrightarrow> after_pass inp as p = rot_pass inp (as p) NBUF s \<Longrightarrow> rot_work inp s < k
    \<Longrightarrow> (\<exists>i<NBUF. pending s i \<and> status (as p i) \<noteq> In_progress) \<or> moves inp (as p 0) 0 s \<or> numop s = 0 \<and> length inp \<le> nextoff s
    \<Longrightarrow> \<exists>s'. rot_loop k inp as sus p s = Inr s'"
proof (induction k arbitrary: p s)
  case (Suc k)
  have N: "0 < NBUF" by (simp add: NBUF_def)
  obtain s1 where s1: "rot_pass inp (as p) NBUF s = Inr s1" "rot_inv inp s1" "rot_work inp s1 \<le> rot_work inp s"
    "(\<exists>i<NBUF. pending s i \<and> status (as p i) \<noteq> In_progress) \<or> 0 < NBUF \<and> moves inp (as p 0) 0 s \<longrightarrow> rot_work inp s1 < rot_work inp s"
    using rot_pass_goes [OF Suc.prems(1), of "as p" NBUF] good by blast
  have a: "after_pass inp as p = Inr s1" using Suc.prems(2) s1(1) by simp
  show ?case
  proof (cases "numop s1 = 0 \<and> length inp \<le> nextoff s1")
    case True
    then show ?thesis using s1(1) by simp
  next
    case False
    have "rot_work inp s1 < k"
    proof (cases "numop s = 0 \<and> length inp \<le> nextoff s \<and> \<not> ((\<exists>i<NBUF. pending s i \<and> status (as p i) \<noteq> In_progress) \<or> moves inp (as p 0) 0 s)")
      case True
      have idle: "rot_pass inp (as p) n s = Inr s" if "n \<le> NBUF" for n
        using that
      proof (induction n)
        case (Suc n)
        then have "op (bufs s n) = UNUSED" using True no_ops [OF \<open>rot_inv inp s\<close>] by (auto simp: pending_def)
        with Suc True show ?case by (simp add: rot_switch_def start_read_def)
      qed simp
      then have "s1 = s" using s1(1) by simp
      with True False show ?thesis by simp
    next
      case False
      then have "rot_work inp s1 < rot_work inp s" using Suc.prems(4) s1(4) N by blast
      then show ?thesis using Suc.prems(3) by simp
    qed
    moreover have "(\<exists>i<NBUF. pending s1 i \<and> status (as (p + 1) i) \<noteq> In_progress) \<or> moves inp (as (p + 1) 0) 0 s1"
    proof (cases "numop s1 = 0")
      case True
      then have "\<not> pending s1 0" "nextoff s1 < length inp" using no_ops [OF s1(2)] N False by auto
      then show ?thesis by (simp add: moves_def)
    next
      case False
      then show ?thesis using prog a unfolding suspend_ok_def by blast
    qed
    ultimately have "\<exists>s'. rot_loop k inp as sus (p + 1) s1 = Inr s'"
      by (intro Suc.IH [OF s1(2)]) (use a in auto)
    moreover have "sus p" using sus by blast
    ultimately show ?thesis using s1(1) False by auto
  qed
qed simp

section \<open>Properties\<close>

text \<open>What rot13a.c writes when every write is complete.\<close>

lemma rot13a_out:
  "\<forall>r \<in> set rs. r \<noteq> None \<and> r \<noteq> Some [] \<Longrightarrow> rot13a (rs @ [Some []]) (map (\<lambda>r. int (length (the r))) rs) out
     = Inr (out @ map translate (concat (map the rs)))"
proof (induction rs arbitrary: out)
  case (Cons r rs)
  then obtain c cs where "r = Some (c # cs)" by (cases r) (auto simp: neq_Nil_conv)
  with Cons show ?case by (simp add: Let_def)
qed simp

text \<open>A system that has always done everything, and a file of two blocks.\<close>

definition ready :: aio_answer where "ready = \<lparr>accepts = True, status = Completed (int BSZ)\<rparr>"

definition block_n :: string where "block_n = CHR ''n'' # replicate (BSZ - 1) (CHR ''z'')"

lemma ready_good: "good_answer ready"
  by (simp add: good_answer_def full_def ready_def)

lemma pass_ready: "rot_inv inp s \<Longrightarrow> rot_pass inp (\<lambda>_. ready) NBUF s = Inr s' \<Longrightarrow> rot_inv inp s'"
  by (rule rot_pass_inv [of inp s NBUF "\<lambda>_. ready"]) (use ready_good in \<open>simp_all add: good_answer_def\<close>)

lemma ready_suspend: "suspend_ok inp (\<lambda>_ _. ready)"
  unfolding suspend_ok_def
proof (intro allI impI)
  fix p s assume s: "after_pass inp (\<lambda>_ _. ready) p = Inr s" "numop s \<noteq> 0"
  have "after_pass inp (\<lambda>_ _. ready) p = Inr s' \<Longrightarrow> rot_inv inp s'" for s'
  proof (induction p arbitrary: s')
    case 0
    then show ?case using pass_ready [OF rot_start_inv] by simp
  next
    case (Suc p)
    then obtain s1 where "rot_inv inp s1" "rot_pass inp (\<lambda>_. ready) NBUF s1 = Inr s'" by (auto simp: rbind_eq_Inr)
    then show ?case using pass_ready by blast
  qed
  then show "\<exists>i<NBUF. pending s i \<and> status ready \<noteq> In_progress" using s no_ops [of inp s] by (auto simp: ready_def)
qed

text \<open>C28: However the asynchronous reads and writes of up to eight blocks overlap and in whatever order they finish,
  rot13c2 writes what rot13a writes: the input file translated. The system may delay every operation and refuse or
  fail any; the program then ends with an error instead. Reads and writes transfer all there is of a block.\<close>

theorem rot13_async_same:
  assumes "rot13c2 k inp as sus = Inr out" "\<forall>p i. full (as p i)"
    and "\<forall>r \<in> set rs. r \<noteq> None \<and> r \<noteq> Some []" "concat (map the rs) = inp"
  shows "out = map translate inp \<and> rot13a (rs @ [Some []]) (map (\<lambda>r. int (length (the r))) rs) [] = Inr out"
  using assms rot_loop_result [OF _ rot_start_inv] rot13a_out [OF assms(3), of "[]"]
  by (auto simp: rot13c2_def rbind_eq_Inr)

lemma rot13c2_all:
  assumes "\<forall>p i. good_answer (as p i)" "\<forall>p. sus p" "suspend_ok inp as"
  shows "rot13c2 (3 * length inp + 1) inp as sus = Inr (map translate inp)"
proof -
  have w: "rot_work inp rot_start = 3 * length inp" by (simp add: rot_work_def rot_start_def)
  have "moves inp (as 0 0) 0 rot_start \<or> numop rot_start = 0 \<and> length inp \<le> nextoff rot_start"
    by (auto simp: moves_def pending_def rot_start_def)
  then obtain s where s: "rot_loop (3 * length inp + 1) inp as sus 0 rot_start = Inr s"
    using rot_loop_ends [OF assms rot_start_inv, of 0 "3 * length inp + 1"] w by auto
  have "\<forall>p i. full (as p i)" using assms(1) by (simp add: good_answer_def)
  from rot_loop_result [OF s rot_start_inv this] s show ?thesis by (simp add: rot13c2_def)
qed

text \<open>C29: The loop of rot13c2 ends: if nothing fails, and \<^verbatim>\<open>aio_suspend\<close> returns only when an operation is done, it
  copies the whole file in at most \<open>3 n + 1\<close> passes, for a file of \<open>n\<close> bytes.\<close>

theorem rot13_async_ends:
  assumes "\<forall>p i. good_answer (as p i)" "\<forall>p. sus p" "suspend_ok inp as"
  shows "rot13c2 (3 * length inp + 1) inp as sus = Inr (map translate inp)"
  by (rule rot13c2_all [OF assms])

theorem rot13_async_ends_witness:
  "rot13c2 (3 * length (block_n @ ''Ab'') + 1) (block_n @ ''Ab'') (\<lambda>_ _. ready) (\<lambda>_. True) = Inr (map translate (block_n @ ''Ab''))"
  by (rule rot13_async_ends) (simp_all add: ready_good ready_suspend)

theorem rot13_async_same_witness:
  "rot13a [Some block_n, Some ''Ab'', Some []] [int BSZ, 2] [] = Inr (map translate (block_n @ ''Ab''))"
proof -
  have l: "length block_n = BSZ" by (simp add: block_n_def BSZ_def)
  have "rot13c2 (3 * length (block_n @ ''Ab'') + 1) (block_n @ ''Ab'') (\<lambda>_ _. ready) (\<lambda>_. True) = Inr (map translate (block_n @ ''Ab''))"
    by (rule rot13c2_all) (simp_all add: ready_good ready_suspend)
  from rot13_async_same [OF this, of "[Some block_n, Some ''Ab'']"] ready_good show ?thesis
    using BSZ_pos by (simp add: good_answer_def l block_n_def)
qed

text \<open>Translating twice gives the file back.\<close>

theorem rot13_twice: "map translate (map translate s) = s"
  by (simp add: comp_def translate_twice)

end
