(* ===== verification/Popen.thy ===== *)
theory Popen imports Prelude begin

text \<open>
  \<^verbatim>\<open>popen\<close> and \<^verbatim>\<open>pclose\<close> of lib/popen.c: the table of the children by descriptor, the descriptors of the parent,
  and those the child has when it executes the command.
\<close>

section \<open>Descriptors\<close>

datatype fobj = Rd nat | Wr nat | Other nat

type_synonym fdtab = "nat \<Rightarrow> fobj option"

text \<open>\<open>running\<close> are the children that were not waited for.\<close>

record popst =
  childpid :: "int list option"
  maxfd :: nat
  fdt :: fdtab
  running :: "int set"
  pop_errno :: int

definition EMFILE :: int where "EMFILE = 24"
definition EINTR :: int where "EINTR = 4"

text \<open>What the system answers to the calls of one \<^verbatim>\<open>popen\<close>: \<open>pipe_fds\<close> with the number of the new pipe, and the
  error number the failing call sets.\<close>

record answers =
  open_max :: nat
  calloc_ok :: bool
  pipe_fds :: "(nat \<times> nat) option"
  pipe_no :: nat
  fork_pid :: int
  fdopen_ok :: bool
  sys_errno :: int

section \<open>popen\<close>

definition popen_type :: "string \<Rightarrow> bool" where
  "popen_type type \<longleftrightarrow> type = ''r'' \<or> type = ''w''"

definition popen_table :: "answers \<Rightarrow> popst \<Rightarrow> popst option" where
  "popen_table a s =
     (case childpid s of
        Some cp \<Rightarrow> Some s
      | None \<Rightarrow> if calloc_ok a then Some (s\<lparr>maxfd := open_max a, childpid := Some (replicate (open_max a) 0)\<rparr>) else None)"

definition close_fd :: "nat \<Rightarrow> fdtab \<Rightarrow> fdtab" where
  "close_fd fd t = t(fd := None)"

definition dup2_close :: "nat \<Rightarrow> nat \<Rightarrow> fdtab \<Rightarrow> fdtab" where
  "dup2_close fd std t = (if fd \<noteq> std then close_fd fd (t(std := t fd)) else t)"

text \<open>\<^verbatim>\<open>for (i = 0; i < maxfd; i++) if (childpid[i] > 0) close(i);\<close>\<close>

definition close_streams :: "int list \<Rightarrow> fdtab \<Rightarrow> fdtab" where
  "close_streams cp t = fold (\<lambda>i t. if 0 < cp ! i then close_fd i t else t) [0..<length cp] t"

text \<open>The child, until it executes the command.\<close>

definition popen_child :: "string \<Rightarrow> nat \<times> nat \<Rightarrow> int list \<Rightarrow> fdtab \<Rightarrow> fdtab" where
  "popen_child type pfd cp t =
     close_streams cp (if type = ''r'' then dup2_close (snd pfd) 1 (close_fd (fst pfd) t)
                       else dup2_close (fst pfd) 0 (close_fd (snd pfd) t))"

text \<open>The result is the descriptor of the stream, and the descriptors of the child if there is one.\<close>

definition popen :: "answers \<Rightarrow> string \<Rightarrow> popst \<Rightarrow> nat option \<times> fdtab option \<times> popst" where
  "popen a type s =
     (if \<not> popen_type type then (None, None, s\<lparr>pop_errno := EINVAL\<rparr>)
      else case popen_table a s of
        None \<Rightarrow> (None, None, s\<lparr>maxfd := open_max a, pop_errno := sys_errno a\<rparr>)
      | Some s \<Rightarrow>
        (case pipe_fds a of
           None \<Rightarrow> (None, None, s\<lparr>pop_errno := sys_errno a\<rparr>)
         | Some (p0, p1) \<Rightarrow>
           if maxfd s \<le> p0 \<or> maxfd s \<le> p1 then (None, None, s\<lparr>pop_errno := EMFILE\<rparr>)
           else
             let t = (fdt s)(p0 := Some (Rd (pipe_no a)), p1 := Some (Wr (pipe_no a))); s = s\<lparr>fdt := t\<rparr> in
             if fork_pid a < 0 then (None, None, s\<lparr>pop_errno := sys_errno a\<rparr>)
             else
               let child = Some (popen_child type (p0, p1) (the (childpid s)) t);
                   s = s\<lparr>running := insert (fork_pid a) (running s)\<rparr>;
                   mine = (if type = ''r'' then p0 else p1);
                   s = s\<lparr>fdt := close_fd (if type = ''r'' then p1 else p0) (fdt s)\<rparr> in
               if fdopen_ok a then (Some mine, child, s\<lparr>childpid := map_option (\<lambda>cp. cp[mine := fork_pid a]) (childpid s)\<rparr>)
               else (None, child, s\<lparr>pop_errno := sys_errno a\<rparr>)))"

section \<open>pclose\<close>

text \<open>\<^verbatim>\<open>waitpid\<close> answers with an error number or the status of the child; \<open>None\<close> when it never does.\<close>

fun wait_loop :: "(int + int) list \<Rightarrow> (int \<times> int option) option" where
  "wait_loop [] = None"
| "wait_loop (Inr stat # ws) = Some (stat, None)"
| "wait_loop (Inl err # ws) = (if err = EINTR then wait_loop ws else Some (-1, Some err))"

definition pclose :: "bool \<Rightarrow> (int + int) list \<Rightarrow> nat \<Rightarrow> popst \<Rightarrow> (int \<times> popst) option" where
  "pclose fclose_ok ws fd s =
     (case childpid s of
        None \<Rightarrow> Some (-1, s\<lparr>pop_errno := EINVAL\<rparr>)
      | Some cp \<Rightarrow>
        if maxfd s \<le> fd then Some (-1, s\<lparr>pop_errno := EINVAL\<rparr>)
        else if cp ! fd = 0 then Some (-1, s\<lparr>pop_errno := EINVAL\<rparr>)
        else
          let pid = cp ! fd; s = s\<lparr>childpid := Some (cp[fd := 0]), fdt := close_fd fd (fdt s)\<rparr> in
          if \<not> fclose_ok then Some (-1, s)
          else case wait_loop ws of
            None \<Rightarrow> None
          | Some (stat, None) \<Rightarrow> Some (stat, s\<lparr>running := running s - {pid}\<rparr>)
          | Some (r, Some err) \<Rightarrow> Some (r, s\<lparr>pop_errno := err\<rparr>))"

section \<open>The child's descriptors\<close>

lemma close_streams_at: "close_streams cp t fd = (if fd < length cp \<and> 0 < cp ! fd then None else t fd)"
proof -
  have "fold (\<lambda>i t. if 0 < cp ! i then close_fd i t else t) [0..<n] t fd = (if fd < n \<and> 0 < cp ! fd then None else t fd)" for n
    by (induction n) (auto simp: close_fd_def less_Suc_eq)
  then show ?thesis by (simp add: close_streams_def)
qed

section \<open>The table\<close>

definition streams :: "popst \<Rightarrow> nat \<Rightarrow> int option" where
  "streams s fd = (case childpid s of None \<Rightarrow> None | Some cp \<Rightarrow> if fd < maxfd s \<and> cp ! fd \<noteq> 0 then Some (cp ! fd) else None)"

lemma streams_cong: "childpid s = childpid s' \<Longrightarrow> maxfd s = maxfd s' \<Longrightarrow> streams s = streams s'"
  by (rule ext) (cases "childpid s'"; simp add: streams_def)

lemma streams_errno [simp]: "streams (s\<lparr>pop_errno := e\<rparr>) = streams s"
  by (rule streams_cong) simp_all

text \<open>A stream in the table is an open end of a pipe, and its child was not waited for. Streams are closed by \<^verbatim>\<open>pclose\<close> only.\<close>

definition pop_ok :: "popst \<Rightarrow> bool" where
  "pop_ok s \<longleftrightarrow> (\<forall>cp. childpid s = Some cp \<longrightarrow> length cp = maxfd s \<and> (\<forall>fd < maxfd s. 0 \<le> cp ! fd))
     \<and> (\<forall>fd pid. streams s fd = Some pid \<longrightarrow> fdt s fd \<noteq> None \<and> pid \<in> running s)
     \<and> (\<forall>fd fd' pid. streams s fd = Some pid \<longrightarrow> streams s fd' = Some pid \<longrightarrow> fd = fd')"

text \<open>\<^verbatim>\<open>pipe\<close> returns two free descriptors, and \<^verbatim>\<open>fork\<close> a number no other child has.\<close>

definition answers_ok :: "answers \<Rightarrow> popst \<Rightarrow> bool" where
  "answers_ok a s \<longleftrightarrow> (\<forall>p0 p1. pipe_fds a = Some (p0, p1) \<longrightarrow> p0 \<noteq> p1 \<and> fdt s p0 = None \<and> fdt s p1 = None)
     \<and> fork_pid a \<noteq> 0 \<and> fork_pid a \<notin> running s"

lemma popen_table_ok:
  assumes ok: "pop_ok s" and s1: "popen_table a s = Some s1"
  shows "pop_ok s1 \<and> streams s1 = streams s \<and> fdt s1 = fdt s \<and> running s1 = running s \<and> (\<exists>cp. childpid s1 = Some cp \<and> length cp = maxfd s1)"
  using assms by (auto simp: popen_table_def pop_ok_def streams_def fun_eq_iff split: option.splits if_splits)

lemma streams_None: "pop_ok s \<Longrightarrow> fdt s fd = None \<Longrightarrow> streams s fd = None"
  unfolding pop_ok_def by (metis not_None_eq)

text \<open>How a call of \<^verbatim>\<open>popen\<close> ends that makes a child.\<close>

lemma popen_forks:
  assumes ok: "pop_ok s" and a: "answers_ok a s" and p: "popen a type s = (r, Some t, s')"
  obtains p0 p1 s1 cp where "popen_table a s = Some s1" "childpid s1 = Some cp" "length cp = maxfd s1" "pipe_fds a = Some (p0, p1)"
    "p0 < maxfd s1" "p1 < maxfd s1" "0 < fork_pid a" "popen_type type"
    "t = popen_child type (p0, p1) cp ((fdt s)(p0 := Some (Rd (pipe_no a)), p1 := Some (Wr (pipe_no a))))"
    "fdt s' = (fdt s)((if type = ''r'' then p0 else p1) := Some ((if type = ''r'' then Rd else Wr) (pipe_no a)))"
    "running s' = insert (fork_pid a) (running s)" "maxfd s' = maxfd s1"
    "r = (if fdopen_ok a then Some (if type = ''r'' then p0 else p1) else None)"
    "childpid s' = Some (if fdopen_ok a then cp[(if type = ''r'' then p0 else p1) := fork_pid a] else cp)"
proof -
  obtain s1 where s1: "popen_table a s = Some s1" using p by (auto simp: popen_def split: if_splits option.splits)
  from popen_table_ok [OF ok s1] obtain cp where cp: "childpid s1 = Some cp" "length cp = maxfd s1" "fdt s1 = fdt s" "running s1 = running s"
    by blast
  obtain p0 p1 where pf: "pipe_fds a = Some (p0, p1)" using p s1 by (auto simp: popen_def split: if_splits option.splits)
  then have free: "p0 \<noteq> p1" "fdt s p0 = None" "fdt s p1 = None" "fork_pid a \<noteq> 0" using a by (auto simp: answers_ok_def)
  have b: "p0 < maxfd s1" "p1 < maxfd s1" "\<not> fork_pid a < 0" "popen_type type"
    using p s1 pf by (auto simp: popen_def split: if_splits)
  show ?thesis
    by (rule that [OF s1 cp(1,2) pf b(1,2) _ b(4)])
      (use p s1 pf b cp free in \<open>auto simp: popen_def Let_def close_fd_def fun_eq_iff split: if_splits\<close>)
qed

lemma popen_no_child:
  assumes ok: "pop_ok s" and p: "popen a type s = (r, None, s')" and a: "answers_ok a s"
  shows "r = None \<and> streams s' = streams s \<and> running s' = running s \<and> pop_ok s'"
proof -
  have keep: "pop_ok u" if "childpid u = childpid v" "maxfd u = maxfd v" "\<forall>fd. fdt v fd \<noteq> None \<longrightarrow> fdt u fd \<noteq> None" "running u = running v" "pop_ok v"
    for u v :: popst
  proof -
    have "streams u = streams v" using that(1,2) by (rule streams_cong)
    with that show ?thesis by (simp add: pop_ok_def)
  qed
  show ?thesis
  proof (cases "popen_table a s")
    case None
    then have n: "childpid s = None" by (auto simp: popen_table_def split: option.splits)
    have e: "r = None" "childpid s' = childpid s" "fdt s' = fdt s" "running s' = running s"
      using p None by (auto simp: popen_def split: if_splits)
    then have "streams s' = streams s" using n by (simp add: streams_def fun_eq_iff)
    with e n show ?thesis by (simp add: pop_ok_def streams_def)
  next
    case (Some s1)
    note t = popen_table_ok [OF ok Some]
    show ?thesis
    proof (cases "popen_type type")
      case False
      then show ?thesis using p ok by (auto simp: popen_def pop_ok_def)
    next
      case True
      then have e: "r = None" "childpid s' = childpid s1" "maxfd s' = maxfd s1" "running s' = running s1"
        "\<forall>fd. fdt s1 fd \<noteq> None \<longrightarrow> fdt s' fd \<noteq> None"
        using p Some by (auto simp: popen_def Let_def split: if_splits option.splits)
      then have "pop_ok s'" using keep [of s' s1] t by simp
      moreover have "streams s' = streams s1" using e(2,3) by (rule streams_cong)
      ultimately show ?thesis using e t by simp
    qed
  qed
qed

lemma popen_ok:
  assumes ok: "pop_ok s" and a: "answers_ok a s" and p: "popen a type s = (r, ch, s')"
  shows "pop_ok s' \<and> streams s' = (case r of None \<Rightarrow> streams s | Some fd \<Rightarrow> (streams s)(fd := Some (fork_pid a)))"
proof (cases ch)
  case None
  then have "r = None \<and> streams s' = streams s \<and> running s' = running s \<and> pop_ok s'" using popen_no_child [OF ok _ a] p by simp
  then show ?thesis by simp
next
  case (Some t)
  obtain p0 p1 s1 cp where e: "popen_table a s = Some s1" "childpid s1 = Some cp" "length cp = maxfd s1" "pipe_fds a = Some (p0, p1)"
    "p0 < maxfd s1" "p1 < maxfd s1" "0 < fork_pid a"
    "fdt s' = (fdt s)((if type = ''r'' then p0 else p1) := Some ((if type = ''r'' then Rd else Wr) (pipe_no a)))"
    "running s' = insert (fork_pid a) (running s)" "maxfd s' = maxfd s1"
    "r = (if fdopen_ok a then Some (if type = ''r'' then p0 else p1) else None)"
    "childpid s' = Some (if fdopen_ok a then cp[(if type = ''r'' then p0 else p1) := fork_pid a] else cp)"
    using popen_forks [OF ok a p [unfolded Some]] by metis
  define m where "m = (if type = ''r'' then p0 else p1)"
  have m: "m < maxfd s1" "fdt s m = None" using e(4-6) a by (auto simp: m_def answers_ok_def)
  note t = popen_table_ok [OF ok e(1)]
  have "streams s = streams s1" using t by simp
  then have old: "streams s fd = (if fd < maxfd s1 \<and> cp ! fd \<noteq> 0 then Some (cp ! fd) else None)" for fd
    using e(2) by (simp add: streams_def)
  have c': "childpid s' = Some (if fdopen_ok a then cp[m := fork_pid a] else cp)" using e(12) by (simp add: m_def)
  have st: "streams s' fd = (if fdopen_ok a \<and> fd = m then Some (fork_pid a) else streams s fd)" for fd
    using e(3,7) m(1) by (cases "fdopen_ok a") (simp_all add: streams_def [of s'] c' e(10) old nth_list_update)
  have "pop_ok s'"
    unfolding pop_ok_def
  proof (intro conjI allI impI)
    fix cp' assume "childpid s' = Some cp'"
    then have cp': "cp' = (if fdopen_ok a then cp[m := fork_pid a] else cp)" using c' by simp
    have "\<forall>fd < maxfd s1. 0 \<le> cp ! fd" using t e(2) by (simp add: pop_ok_def)
    then show "length cp' = maxfd s'" "\<And>fd. fd < maxfd s' \<Longrightarrow> 0 \<le> cp' ! fd" using cp' e(3,7,10) m(1) by (simp_all add: nth_list_update)
  next
    fix fd pid assume "streams s' fd = Some pid"
    then have "fdopen_ok a \<and> fd = m \<and> pid = fork_pid a \<or> streams s fd = Some pid" using st by (auto split: if_splits)
    then show "fdt s' fd \<noteq> None" "pid \<in> running s'" using e(8,9) ok by (auto simp: m_def [symmetric] pop_ok_def)
  next
    fix fd fd' pid assume "streams s' fd = Some pid" "streams s' fd' = Some pid"
    moreover have "fork_pid a \<notin> running s" using a by (simp add: answers_ok_def)
    then have "streams s x \<noteq> Some (fork_pid a)" for x using ok by (auto simp: pop_ok_def)
    ultimately show "fd = fd'" using st ok by (auto simp: pop_ok_def split: if_splits)
  qed
  moreover have "streams s' = (case r of None \<Rightarrow> streams s | Some fd \<Rightarrow> (streams s)(fd := Some (fork_pid a)))"
    using st e(11) by (auto simp: fun_eq_iff m_def)
  ultimately show ?thesis by blast
qed

lemma pclose_ok:
  assumes ok: "pop_ok s" and p: "pclose fc ws fd s = Some (r, s')"
  shows "pop_ok s' \<and> streams s' = (streams s)(fd := None)
    \<and> (streams s fd = None \<longrightarrow> r = -1 \<and> s' = s\<lparr>pop_errno := EINVAL\<rparr>)
    \<and> (\<forall>pid. streams s fd = Some pid \<longrightarrow> fdt s' = (fdt s)(fd := None)
         \<and> (fc \<longrightarrow> (\<forall>st. wait_loop ws = Some (st, None) \<longrightarrow> r = st \<and> running s' = running s - {pid})))"
proof (cases "streams s fd")
  case None
  then have "r = -1 \<and> s' = s\<lparr>pop_errno := EINVAL\<rparr>" using p by (auto simp: pclose_def streams_def split: option.splits if_splits)
  then show ?thesis using None ok by (auto simp: pop_ok_def)
next
  case (Some pid)
  then obtain cp where cp: "childpid s = Some cp" "fd < maxfd s" "cp ! fd = pid" "pid \<noteq> 0"
    by (auto simp: streams_def split: option.splits if_splits)
  then have l: "length cp = maxfd s" using ok by (simp add: pop_ok_def)
  have s': "childpid s' = Some (cp[fd := 0])" "maxfd s' = maxfd s" "fdt s' = (fdt s)(fd := None)"
    "running s' = running s \<or> running s' = running s - {pid}"
    using p cp by (auto simp: pclose_def close_fd_def Let_def split: if_splits option.splits)
  have st: "streams s' x = (if x = fd then None else streams s x)" for x
    using s'(1,2) cp(1,2) l by (auto simp: streams_def nth_list_update)
  have "pop_ok s'"
    unfolding pop_ok_def
  proof (intro conjI allI impI)
    fix cp' assume "childpid s' = Some cp'"
    then have "cp' = cp[fd := 0]" using s'(1) by simp
    moreover have "\<forall>x < maxfd s. 0 \<le> cp ! x" using ok cp(1) by (simp add: pop_ok_def)
    ultimately show "length cp' = maxfd s'" "\<And>x. x < maxfd s' \<Longrightarrow> 0 \<le> cp' ! x" using s'(2) l cp(2) by (simp_all add: nth_list_update)
  next
    fix x q assume q: "streams s' x = Some q"
    then have "streams s x = Some q" "x \<noteq> fd" using st by (auto split: if_splits)
    moreover from this have "q \<noteq> pid" using Some ok unfolding pop_ok_def by blast
    ultimately show "fdt s' x \<noteq> None" "q \<in> running s'" using ok s'(3,4) by (auto simp: pop_ok_def)
  next
    fix x x' q assume "streams s' x = Some q" "streams s' x' = Some q"
    then have "streams s x = Some q" "streams s x' = Some q" using st by (auto split: if_splits)
    then show "x = x'" using ok unfolding pop_ok_def by blast
  qed
  moreover have "fc \<longrightarrow> (\<forall>st. wait_loop ws = Some (st, None) \<longrightarrow> r = st \<and> running s' = running s - {pid})"
    using p cp by (auto simp: pclose_def Let_def)
  ultimately show ?thesis using st s'(3) Some by (auto simp: fun_eq_iff)
qed

section \<open>Properties\<close>

definition pop_start :: fdtab where
  "pop_start = (\<lambda>fd. if fd < 3 then Some (Other fd) else None)"

definition pop_new :: "fdtab \<Rightarrow> popst" where
  "pop_new t = \<lparr>childpid = None, maxfd = 0, fdt = t, running = {}, pop_errno = 0\<rparr>"

lemma pop_new_ok: "pop_ok (pop_new t)"
  by (simp add: pop_ok_def pop_new_def streams_def)

definition answer :: "nat \<Rightarrow> nat \<Rightarrow> int \<Rightarrow> answers" where
  "answer p0 p1 pid = \<lparr>open_max = 256, calloc_ok = True, pipe_fds = Some (p0, p1), pipe_no = 7, fork_pid = pid, fdopen_ok = True, sys_errno = 0\<rparr>"

definition pstate :: popst where
  "pstate = snd (snd (popen (answer 3 4 100) ''r'' (pop_new pop_start)))"

lemma pstate_ok: "pop_ok pstate" "streams pstate = (\<lambda>_. None)(3 := Some 100)" "fdt pstate = pop_start(3 := Some (Rd 7))" "running pstate = {100}"
proof -
  have a: "answers_ok (answer 3 4 100) (pop_new pop_start)" by (simp add: answers_ok_def answer_def pop_start_def pop_new_def)
  obtain ch where p: "popen (answer 3 4 100) ''r'' (pop_new pop_start) = (Some 3, ch, pstate)"
    by (simp add: pstate_def popen_def popen_type_def popen_table_def answer_def pop_new_def Let_def)
  from popen_ok [OF pop_new_ok a p] show "pop_ok pstate" "streams pstate = (\<lambda>_. None)(3 := Some 100)"
    by (simp_all add: answer_def pop_new_def streams_def fun_eq_iff)
  show "fdt pstate = pop_start(3 := Some (Rd 7))" "running pstate = {100}"
    by (auto simp: pstate_def popen_def popen_type_def popen_table_def answer_def pop_new_def Let_def close_fd_def pop_start_def)
qed

text \<open>The child of \<^verbatim>\<open>popen\<close> executes the command with its standard output (or input, for a stream to write to) on the
  pipe, none of the descriptors of the streams that earlier calls of \<^verbatim>\<open>popen\<close> opened, and all the other descriptors of the
  parent, if none of those streams is on descriptor 0 or 1.\<close>

theorem popen_child_streams:
  assumes "pop_ok s" "answers_ok a s" "popen a type s = (r, Some t, s')" "streams s 0 = None" "streams s 1 = None"
  shows "t = (\<lambda>fd. if type = ''r'' \<and> fd = 1 then Some (Wr (pipe_no a)) else if type = ''w'' \<and> fd = 0 then Some (Rd (pipe_no a))
     else if streams s fd \<noteq> None then None else fdt s fd)"
proof -
  obtain p0 p1 s1 cp where e: "popen_table a s = Some s1" "childpid s1 = Some cp" "length cp = maxfd s1" "pipe_fds a = Some (p0, p1)"
    "popen_type type" "t = popen_child type (p0, p1) cp ((fdt s)(p0 := Some (Rd (pipe_no a)), p1 := Some (Wr (pipe_no a))))"
    using popen_forks [OF assms(1-3)] by metis
  note tab = popen_table_ok [OF assms(1) e(1)]
  have st: "streams s fd \<noteq> None \<longleftrightarrow> fd < length cp \<and> 0 < cp ! fd" for fd
  proof -
    have "streams s fd = streams s1 fd" "fd < length cp \<longrightarrow> 0 \<le> cp ! fd" using tab e(2,3) by (auto simp: pop_ok_def)
    then show ?thesis using e(2,3) by (auto simp: streams_def)
  qed
  have free: "p0 \<noteq> p1" "fdt s p0 = None" "fdt s p1 = None" using assms(2) e(4) by (auto simp: answers_ok_def)
  then have "streams s p0 = None" "streams s p1 = None" using streams_None [OF assms(1)] by auto
  then show ?thesis
    using e(5) free assms(4,5) unfolding e(6) popen_child_def fun_eq_iff close_streams_at st [symmetric]
    by (auto simp: popen_type_def dup2_close_def close_fd_def)
qed

theorem popen_child_streams_witness:
  "\<exists>r t s'. popen (answer 4 5 101) ''w'' pstate = (r, Some t, s') \<and> t 0 = Some (Rd 7) \<and> t 1 = Some (Other 1) \<and> t 3 = None \<and> t 4 = None"
proof -
  have a: "answers_ok (answer 4 5 101) pstate" by (simp add: answers_ok_def answer_def pstate_ok pop_start_def)
  obtain r t s' where p: "popen (answer 4 5 101) ''w'' pstate = (r, Some t, s')"
    by (simp add: pstate_def popen_def popen_type_def popen_table_def answer_def pop_new_def Let_def)
  from popen_child_streams [OF pstate_ok(1) a p] p show ?thesis by (simp add: pstate_ok pop_start_def answer_def)
qed

text \<open>C30: The table is that of the streams: after \<^verbatim>\<open>popen\<close> it has one more, with the child, and after \<^verbatim>\<open>pclose\<close> one less,
  in every outcome; a descriptor that is not in it is refused with \<^verbatim>\<open>EINVAL\<close>, and nothing else changes. Every stream in the
  table is an open descriptor, and its child was not waited for, so \<^verbatim>\<open>pclose\<close> never waits for another process.\<close>

theorem popen_table_exact:
  assumes "pop_ok s"
  shows "(answers_ok a s \<longrightarrow> popen a type s = (r, ch, s') \<longrightarrow>
      pop_ok s' \<and> streams s' = (case r of None \<Rightarrow> streams s | Some fd \<Rightarrow> (streams s)(fd := Some (fork_pid a))))
    \<and> (pclose fc ws fd s = Some (st, s') \<longrightarrow>
      pop_ok s' \<and> streams s' = (streams s)(fd := None) \<and> (streams s fd = None \<longrightarrow> st = -1 \<and> s' = s\<lparr>pop_errno := EINVAL\<rparr>))"
  using popen_ok [OF assms, of a type r ch s'] pclose_ok [OF assms, of fc ws fd st s'] by blast

theorem popen_table_exact_witness:
  "\<exists>st s'. pclose True [Inr 0] 3 pstate = Some (st, s') \<and> streams s' = (\<lambda>_. None) \<and> (\<exists>t s''. pclose True [] 3 s' = Some (t, s'') \<and> t = -1)"
proof -
  have "\<exists>st s'. pclose True [Inr 0] 3 pstate = Some (st, s')"
    by (simp add: pclose_def pstate_def popen_def popen_type_def popen_table_def answer_def pop_new_def Let_def)
  then obtain st s' where s': "pclose True [Inr 0] 3 pstate = Some (st, s')" by blast
  from popen_table_exact [OF pstate_ok(1), THEN conjunct2] s' have ok: "pop_ok s'" "streams s' = (\<lambda>_. None)"
    by (auto simp: pstate_ok(2))
  have "\<exists>t s''. pclose True [] 3 s' = Some (t, s'')"
    using s' by (auto simp: pclose_def pstate_def popen_def popen_type_def popen_table_def answer_def pop_new_def Let_def)
  then obtain t s'' where s'': "pclose True [] 3 s' = Some (t, s'')" by blast
  from popen_table_exact [OF ok(1), THEN conjunct2] s'' have "t = -1" by (simp add: ok(2))
  with s' s'' ok show ?thesis by blast
qed

lemma wait_loop_EINTR: "wait_loop (replicate k (Inl EINTR) @ [Inr st]) = Some (st, None)"
  by (induction k) auto

text \<open>C31: A stream opened and closed leaves no trace: \<^verbatim>\<open>pclose\<close> returns the status of the child, however often a signal
  interrupts \<^verbatim>\<open>waitpid\<close>, and the descriptors, the table and the children are those from before \<^verbatim>\<open>popen\<close>.\<close>

theorem popen_pclose_roundtrip:
  assumes "pop_ok s" "answers_ok a s" "popen a type s = (Some fd, ch, s1)"
  shows "\<exists>s2. pclose True (replicate k (Inl EINTR) @ [Inr st]) fd s1 = Some (st, s2)
    \<and> fdt s2 = fdt s \<and> running s2 = running s \<and> streams s2 = streams s"
proof -
  have "ch \<noteq> None" using assms popen_no_child [OF assms(1) _ assms(2), of type "Some fd" s1] by auto
  then obtain t where t: "popen a type s = (Some fd, Some t, s1)" using assms(3) by auto
  obtain p0 p1 where e0: "pipe_fds a = Some (p0, p1)" "Some fd = (if fdopen_ok a then Some (if type = ''r'' then p0 else p1) else None)"
    "fdt s1 = (fdt s)((if type = ''r'' then p0 else p1) := Some ((if type = ''r'' then Rd else Wr) (pipe_no a)))"
    "running s1 = insert (fork_pid a) (running s)"
    using popen_forks [OF assms(1,2) t] by metis
  then have e: "pipe_fds a = Some (p0, p1)" "fd = (if type = ''r'' then p0 else p1)" "fdt s1 = (fdt s)(fd := Some ((if type = ''r'' then Rd else Wr) (pipe_no a)))"
    "running s1 = insert (fork_pid a) (running s)" by (simp_all split: if_splits)
  have n: "fdt s fd = None" "fork_pid a \<notin> running s" using e(1,2) assms(2) by (auto simp: answers_ok_def)
  have ok: "pop_ok s1" "streams s1 = (streams s)(fd := Some (fork_pid a))" using popen_ok [OF assms] by simp_all
  then have "streams s1 fd = Some (fork_pid a)" by simp
  then obtain s2 where p: "pclose True (replicate k (Inl EINTR) @ [Inr st]) fd s1 = Some (st, s2)"
    by (auto simp: pclose_def streams_def Let_def wait_loop_EINTR split: option.splits if_splits)
  from pclose_ok [OF ok(1) p] have "fdt s2 = (fdt s1)(fd := None)" "running s2 = running s1 - {fork_pid a}" "streams s2 = (streams s1)(fd := None)"
    by (auto simp: ok(2) wait_loop_EINTR)
  moreover have "streams s fd = None" using streams_None [OF assms(1) n(1)] .
  ultimately show ?thesis using p e(2-4) n ok(2) by (auto simp: fun_eq_iff)
qed

theorem popen_pclose_roundtrip_witness:
  "\<exists>fd ch s1 s2. popen (answer 4 5 101) ''w'' pstate = (Some fd, ch, s1) \<and> pclose True [Inl EINTR, Inr 256] fd s1 = Some (256, s2) \<and> running s2 = {100}"
proof -
  have a: "answers_ok (answer 4 5 101) pstate" by (simp add: answers_ok_def answer_def pstate_ok pop_start_def)
  obtain fd ch s1 where p: "popen (answer 4 5 101) ''w'' pstate = (Some fd, ch, s1)"
    by (simp add: pstate_def popen_def popen_type_def popen_table_def answer_def pop_new_def Let_def)
  from popen_pclose_roundtrip [OF pstate_ok(1) a p, of 1 256] p show ?thesis by (auto simp: pstate_ok(4))
qed

text \<open>When an earlier stream is on descriptor 0, which happens when the program had closed it, the child of a stream
  to write to closes its own standard input: the command reads nothing of what is written.\<close>

theorem popen_loses_stdin:
  assumes "pop_ok s" "answers_ok a s" "popen a ''w'' s = (r, Some t, s')" "streams s 0 \<noteq> None"
  shows "t 0 = None"
proof -
  obtain p0 p1 s1 cp where e: "popen_table a s = Some s1" "childpid s1 = Some cp" "length cp = maxfd s1"
    "t = popen_child ''w'' (p0, p1) cp ((fdt s)(p0 := Some (Rd (pipe_no a)), p1 := Some (Wr (pipe_no a))))"
    using popen_forks [OF assms(1-3)] by metis
  note tab = popen_table_ok [OF assms(1) e(1)]
  have "streams s1 0 \<noteq> None" "0 < length cp \<longrightarrow> 0 \<le> cp ! 0" using tab assms(4) e(2,3) by (auto simp: pop_ok_def)
  then have "0 < length cp \<and> 0 < cp ! 0" using e(2,3) by (auto simp: streams_def split: if_splits)
  then show ?thesis by (simp add: e(4) popen_child_def close_streams_at)
qed

theorem popen_loses_stdin_witness:
  "\<exists>s1 r t s2. popen (answer 0 3 100) ''r'' (pop_new (pop_start(0 := None))) = (Some 0, t, s1)
     \<and> (\<exists>t'. popen (answer 4 5 101) ''w'' s1 = (r, Some t', s2) \<and> t' 0 = None)"
proof -
  let ?s = "pop_new (pop_start(0 := None))"
  have a: "answers_ok (answer 0 3 100) ?s" by (simp add: answers_ok_def answer_def pop_start_def pop_new_def)
  obtain t s1 where p: "popen (answer 0 3 100) ''r'' ?s = (Some 0, t, s1)" "fdt s1 = pop_start(0 := Some (Rd 7))" "running s1 = {100}"
    by (auto simp: popen_def popen_type_def popen_table_def answer_def pop_new_def Let_def close_fd_def pop_start_def fun_eq_iff)
  have ok: "pop_ok s1" "streams s1 0 = Some 100" using popen_ok [OF pop_new_ok a p(1)] by (simp_all add: answer_def)
  have a2: "answers_ok (answer 4 5 101) s1" by (simp add: answers_ok_def answer_def pop_start_def p(2,3))
  have "\<exists>r t s2. popen (answer 4 5 101) ''w'' s1 = (r, Some t, s2)"
    using p(1) by (auto simp: popen_def popen_type_def popen_table_def answer_def pop_new_def Let_def)
  then obtain r t' s2 where q: "popen (answer 4 5 101) ''w'' s1 = (r, Some t', s2)" by blast
  from popen_loses_stdin [OF ok(1) a2 q] ok(2) have "t' 0 = None" by simp
  with p(1) q show ?thesis by blast
qed

end
