(* ===== verification/FileWalk.thy ===== *)
theory FileWalk imports Prelude begin

text \<open>
  The walk over a file hierarchy of filedir/ftw8.c: \<^verbatim>\<open>dopath\<close> keeps_path the path of the current file in one
  buffer that grows, and calls a function for every file.
\<close>

section \<open>Hierarchies\<close>

datatype ftype = REG | BLK | CHARDEV | FIFO | LNK | SOCK

text \<open>A file \<^verbatim>\<open>lstat\<close> fails for, one that is no directory, and a directory that can be read or not, with its entries
  in the order of \<^verbatim>\<open>readdir\<close>.\<close>

datatype node = Nostat | Leaf ftype | Dir bool "(string \<times> node) list"

datatype flag = FTW_F ftype | FTW_D | FTW_DNR | FTW_NS

text \<open>The function called for every file, on a state of its own.\<close>

type_synonym 'c myfunc = "string \<Rightarrow> flag \<Rightarrow> 'c \<Rightarrow> int \<times> 'c"

definition NAME_MAX :: nat where "NAME_MAX = 255"

record ftw =
  pathlen :: nat
  fullpath :: string

text \<open>Stores \<open>x\<close> and a null byte at \<^verbatim>\<open>fullpath[n]\<close>; outside the buffer that is undefined.\<close>

definition put_path :: "nat \<Rightarrow> string \<Rightarrow> ftw \<Rightarrow> ftw res" where
  "put_path n x s = (if n + length x < pathlen s then Inr (s\<lparr>fullpath := take n (fullpath s) @ x\<rparr>) else Inl Fault)"

text \<open>\<open>mem\<close> tells which sizes \<^verbatim>\<open>realloc\<close> can provide.\<close>

definition grow_path :: "(nat \<Rightarrow> bool) \<Rightarrow> ftw \<Rightarrow> ftw res" where
  "grow_path mem s =
     (if pathlen s < length (fullpath s) + NAME_MAX + 2 then
        if mem (2 * pathlen s) then Inr (s\<lparr>pathlen := 2 * pathlen s\<rparr>) else Inl (Sys ''realloc failed'')
      else Inr s)"

function dopath :: "(nat \<Rightarrow> bool) \<Rightarrow> 'c myfunc \<Rightarrow> node \<Rightarrow> ftw \<Rightarrow> 'c \<Rightarrow> (int \<times> ftw \<times> 'c) res"
  and read_entries :: "(nat \<Rightarrow> bool) \<Rightarrow> 'c myfunc \<Rightarrow> (string \<times> node) list \<Rightarrow> nat \<Rightarrow> int \<Rightarrow> ftw \<Rightarrow> 'c \<Rightarrow> (int \<times> ftw \<times> 'c) res" where
  "dopath mem func Nostat s c = (let (ret, c) = func (fullpath s) FTW_NS c in Inr (ret, s, c))"
| "dopath mem func (Leaf m) s c = (let (ret, c) = func (fullpath s) (FTW_F m) c in Inr (ret, s, c))"
| "dopath mem func (Dir readable es) s c =
     (let (ret, c) = func (fullpath s) FTW_D c in
      if ret \<noteq> 0 then Inr (ret, s, c)
      else
        let n = length (fullpath s) in
        rbind (grow_path mem s) (\<lambda>s. rbind (put_path n ''/'' s) (\<lambda>s.
          if \<not> readable then let (ret, c) = func (fullpath s) FTW_DNR c in Inr (ret, s, c)
          else rbind (read_entries mem func es (n + 1) ret s c)
            (\<lambda>(ret, s, c). Inr (ret, s\<lparr>fullpath := take n (fullpath s)\<rparr>, c)))))"
| "read_entries mem func [] n ret s c = Inr (ret, s, c)"
| "read_entries mem func ((name, t) # es) n ret s c =
     (if name = ''.'' \<or> name = ''..'' then read_entries mem func es n ret s c
      else rbind (put_path n name s) (\<lambda>s. rbind (dopath mem func t s c) (\<lambda>(ret, s, c).
        if ret \<noteq> 0 then Inr (ret, s, c) else read_entries mem func es n ret s c)))"
  by pat_completeness auto
termination
  by (relation "measure (\<lambda>x. case x of Inl (mem, func, t, s, c) \<Rightarrow> size t | Inr (mem, func, es, n, ret, s, c) \<Rightarrow> size_list (size_prod (\<lambda>_. 0) size) es)") auto

text \<open>\<open>size0\<close> is what \<^verbatim>\<open>path_alloc\<close> allocates.\<close>

definition myftw :: "(nat \<Rightarrow> bool) \<Rightarrow> nat \<Rightarrow> string \<Rightarrow> 'c myfunc \<Rightarrow> node \<Rightarrow> 'c \<Rightarrow> (int \<times> 'c) res" where
  "myftw mem size0 pathname func t c =
     (let len = (if size0 \<le> length pathname then length pathname * 2 else size0) in
      if size0 \<le> length pathname \<and> \<not> mem len then Inl (Sys ''realloc failed'')
      else rbind (put_path 0 pathname \<lparr>pathlen = len, fullpath = []\<rparr>) (\<lambda>s.
        rbind (dopath mem func t s c) (\<lambda>(ret, s, c). Inr (ret, c))))"

section \<open>Counting\<close>

record counts =
  nreg :: nat
  ndir :: nat
  nblk :: nat
  nchr :: nat
  nfifo :: nat
  nslink :: nat
  nsock :: nat

fun myfunc :: "counts myfunc" where
  "myfunc path (FTW_F REG) c = (0, c\<lparr>nreg := nreg c + 1\<rparr>)"
| "myfunc path (FTW_F BLK) c = (0, c\<lparr>nblk := nblk c + 1\<rparr>)"
| "myfunc path (FTW_F CHARDEV) c = (0, c\<lparr>nchr := nchr c + 1\<rparr>)"
| "myfunc path (FTW_F FIFO) c = (0, c\<lparr>nfifo := nfifo c + 1\<rparr>)"
| "myfunc path (FTW_F LNK) c = (0, c\<lparr>nslink := nslink c + 1\<rparr>)"
| "myfunc path (FTW_F SOCK) c = (0, c\<lparr>nsock := nsock c + 1\<rparr>)"
| "myfunc path FTW_D c = (0, c\<lparr>ndir := ndir c + 1\<rparr>)"
| "myfunc path FTW_DNR c = (0, c)"
| "myfunc path FTW_NS c = (0, c)"

definition no_counts :: counts where
  "no_counts = \<lparr>nreg = 0, ndir = 0, nblk = 0, nchr = 0, nfifo = 0, nslink = 0, nsock = 0\<rparr>"

section \<open>The calls of a walk\<close>

text \<open>What the walk is meant to do: call the function for the files in this order, until it returns something else than 0.\<close>

function visits :: "string \<Rightarrow> node \<Rightarrow> (string \<times> flag) list"
  and visit_all :: "string \<Rightarrow> (string \<times> node) list \<Rightarrow> (string \<times> flag) list" where
  "visits p Nostat = [(p, FTW_NS)]"
| "visits p (Leaf m) = [(p, FTW_F m)]"
| "visits p (Dir readable es) = (p, FTW_D) # (if readable then visit_all (p @ ''/'') es else [(p @ ''/'', FTW_DNR)])"
| "visit_all p [] = []"
| "visit_all p ((name, t) # es) = (if name = ''.'' \<or> name = ''..'' then [] else visits (p @ name) t) @ visit_all p es"
  by pat_completeness auto
termination
  by (relation "measure (\<lambda>x. case x of Inl (p, t) \<Rightarrow> size t | Inr (p, es) \<Rightarrow> size_list (size_prod (\<lambda>_. 0) size) es)") auto

fun run_calls :: "'c myfunc \<Rightarrow> (string \<times> flag) list \<Rightarrow> 'c \<Rightarrow> int \<times> 'c" where
  "run_calls func [] c = (0, c)"
| "run_calls func ((p, k) # vs) c = (case func p k c of (ret, c) \<Rightarrow> if ret \<noteq> 0 then (ret, c) else run_calls func vs c)"

text \<open>The names in directories are no longer than \<^verbatim>\<open>NAME_MAX\<close>.\<close>

function names_ok :: "node \<Rightarrow> bool" and entries_ok :: "(string \<times> node) list \<Rightarrow> bool" where
  "names_ok Nostat = True"
| "names_ok (Leaf m) = True"
| "names_ok (Dir readable es) = entries_ok es"
| "entries_ok [] = True"
| "entries_ok ((name, t) # es) = (length name \<le> NAME_MAX \<and> names_ok t \<and> entries_ok es)"
  by pat_completeness auto
termination
  by (relation "measure (\<lambda>x. case x of Inl t \<Rightarrow> size t | Inr es \<Rightarrow> size_list (size_prod (\<lambda>_. 0) size) es)") auto

section \<open>The walk\<close>

text \<open>The buffer afterwards: it still begins with the same \<open>n\<close> characters, and the path fits.\<close>

definition keeps_path :: "nat \<Rightarrow> ftw \<Rightarrow> ftw \<Rightarrow> bool" where
  "keeps_path n s s' \<longleftrightarrow> pathlen s \<le> pathlen s' \<and> n \<le> length (fullpath s') \<and> length (fullpath s') < pathlen s'
     \<and> take n (fullpath s') = take n (fullpath s)"

definition walked :: "(nat \<Rightarrow> bool) \<Rightarrow> nat \<Rightarrow> ftw \<Rightarrow> int \<times> 'c \<Rightarrow> (int \<times> ftw \<times> 'c) res \<Rightarrow> bool" where
  "walked mem n s rc r \<longleftrightarrow>
     (case r of Inl e \<Rightarrow> e = Sys ''realloc failed'' \<and> \<not> (\<forall>k. mem k) | Inr (ret, s', c) \<Rightarrow> rc = (ret, c) \<and> keeps_path n s s')"

lemma keeps_path_trans: "keeps_path n s s' \<Longrightarrow> keeps_path m s' s'' \<Longrightarrow> n \<le> m \<Longrightarrow> keeps_path n s s''"
  unfolding keeps_path_def by (metis (no_types, lifting) min.absorb1 order_trans take_take)

lemma run_calls_append:
  "run_calls func (vs @ ws) c = (case run_calls func vs c of (ret, c) \<Rightarrow> if ret \<noteq> 0 then (ret, c) else run_calls func ws c)"
  by (induction func vs c rule: run_calls.induct) (auto split: prod.splits)

lemma grow_path_room:
  assumes "257 \<le> pathlen s" "length (fullpath s) < pathlen s"
  shows "(\<exists>s'. grow_path mem s = Inr s' \<and> fullpath s' = fullpath s \<and> pathlen s \<le> pathlen s' \<and> length (fullpath s) + 257 \<le> pathlen s')
    \<or> grow_path mem s = Inl (Sys ''realloc failed'') \<and> \<not> (\<forall>k. mem k)"
  using assms by (auto simp: grow_path_def NAME_MAX_def)

lemma walk:
  "names_ok t \<Longrightarrow> 257 \<le> pathlen s \<Longrightarrow> length (fullpath s) < pathlen s \<Longrightarrow>
     walked mem (length (fullpath s)) s (run_calls func (visits (fullpath s) t) c) (dopath mem func t s c)"
  "entries_ok es \<Longrightarrow> 257 \<le> pathlen s \<Longrightarrow> n \<le> length (fullpath s) \<Longrightarrow> length (fullpath s) < pathlen s \<Longrightarrow> n + 256 \<le> pathlen s \<Longrightarrow> ret = 0 \<Longrightarrow>
     walked mem n s (run_calls func (visit_all (take n (fullpath s)) es) c) (read_entries mem func es n ret s c)"
proof (induction mem func t s c and mem func es n ret s c rule: dopath_read_entries.induct)
  case (3 mem func readable es s c)
  let ?n = "length (fullpath s)"
  obtain ret c1 where f: "func (fullpath s) FTW_D c = (ret, c1)" by (cases "func (fullpath s) FTW_D c")
  show ?case
  proof (cases "ret = 0")
    case False
    then show ?thesis using f "3.prems" by (simp add: walked_def keeps_path_def)
  next
    case True
    from grow_path_room [OF "3.prems"(2,3), of mem] show ?thesis
    proof (elim disjE exE conjE)
      fix s1 assume g: "grow_path mem s = Inr s1" and s1: "fullpath s1 = fullpath s" "pathlen s \<le> pathlen s1" "?n + 257 \<le> pathlen s1"
      define s2 where "s2 = s1\<lparr>fullpath := fullpath s @ ''/''\<rparr>"
      have p: "put_path ?n ''/'' s1 = Inr s2" using s1 by (simp add: put_path_def s2_def)
      have k: "keeps_path ?n s s2" using s1 by (simp add: keeps_path_def s2_def)
      show ?thesis
      proof (cases readable)
        case False
        then show ?thesis using f True g p k by (auto simp: walked_def s2_def split: prod.splits)
      next
        case readable: True
        have "walked mem (?n + 1) s2 (run_calls func (visit_all (take (?n + 1) (fullpath s2)) es) c1) (read_entries mem func es (?n + 1) ret s2 c1)"
          by (rule "3.IH" [of "(ret, c1)" ret c1 ?n s2]) (use "3.prems" f True s1 readable in \<open>simp_all add: s2_def\<close>)
        then have w: "walked mem (?n + 1) s2 (run_calls func (visit_all (fullpath s @ ''/'') es) c1) (read_entries mem func es (?n + 1) ret s2 c1)"
          by (simp add: s2_def)
        show ?thesis
        proof (cases "read_entries mem func es (?n + 1) ret s2 c1")
          case (Inl e)
          then show ?thesis using w f True g p readable by (simp add: walked_def)
        next
          case (Inr x)
          obtain ret' s3 c3 where x: "x = (ret', s3, c3)" by (cases x)
          with Inr w have "run_calls func (visit_all (fullpath s @ ''/'') es) c1 = (ret', c3)" and "keeps_path (?n + 1) s2 s3"
            by (simp_all add: walked_def)
          moreover from this(2) have "keeps_path ?n s2 s3" unfolding keeps_path_def by (metis add_leE min.absorb1 le_add1 take_take)
          then have "keeps_path ?n s (s3\<lparr>fullpath := take ?n (fullpath s3)\<rparr>)" using k by (auto simp: keeps_path_def)
          ultimately show ?thesis using f True g p readable Inr x by (simp add: walked_def)
        qed
      qed
    qed (use f True in \<open>simp add: walked_def\<close>)
  qed
next
  case (5 mem func name t es n ret s c)
  show ?case
  proof (cases "name = ''.'' \<or> name = ''..''")
    case True
    then show ?thesis using 5 by auto
  next
    case False
    define s1 where "s1 = s\<lparr>fullpath := take n (fullpath s) @ name\<rparr>"
    have p: "put_path n name s = Inr s1" using "5.prems" by (simp add: put_path_def s1_def NAME_MAX_def)
    have l: "length (fullpath s1) < pathlen s1" "n \<le> length (fullpath s1)" "take n (fullpath s1) = take n (fullpath s)" "pathlen s1 = pathlen s"
      using "5.prems" by (simp_all add: s1_def NAME_MAX_def)
    have w: "walked mem (length (fullpath s1)) s1 (run_calls func (visits (fullpath s1) t) c) (dopath mem func t s1 c)"
      using 5 False p l by simp
    show ?thesis
    proof (cases "dopath mem func t s1 c")
      case (Inl e)
      then show ?thesis using w False p by (simp add: walked_def)
    next
      case (Inr x)
      obtain ret' s2 c2 where x: "x = (ret', s2, c2)" by (cases x)
      with Inr w have r: "run_calls func (visits (fullpath s1) t) c = (ret', c2)" and "keeps_path (length (fullpath s1)) s1 s2"
        by (simp_all add: walked_def)
      then have "keeps_path n s1 s2" using l(2) unfolding keeps_path_def by (metis min.absorb1 order_trans take_take)
      then have k: "keeps_path n s s2" using l by (simp add: keeps_path_def)
      have v: "fullpath s1 = take n (fullpath s) @ name" by (simp add: s1_def)
      show ?thesis
      proof (cases "ret' = 0")
        case False
        then show ?thesis using r k Inr x p \<open>\<not> (name = ''.'' \<or> name = ''..'')\<close> v by (simp add: walked_def run_calls_append)
      next
        case True
        have "walked mem n s2 (run_calls func (visit_all (take n (fullpath s2)) es) c2) (read_entries mem func es n ret' s2 c2)"
          by (rule "5.IH"(3) [OF False]) (use True "5.prems" k in \<open>auto simp: keeps_path_def\<close>)
        then show ?thesis using k r Inr x p False True v
          by (auto simp: walked_def run_calls_append keeps_path_def split: sum.splits prod.splits)
      qed
    qed
  qed
qed (auto simp: walked_def keeps_path_def split: prod.splits)


lemma myftw_walk:
  assumes "names_ok t" "257 \<le> size0"
  shows "myftw mem size0 pathname func t c = Inr (run_calls func (visits pathname t) c)
    \<or> myftw mem size0 pathname func t c = Inl (Sys ''realloc failed'') \<and> \<not> (\<forall>k. mem k)"
proof -
  define len where "len = (if size0 \<le> length pathname then length pathname * 2 else size0)"
  have "size0 \<le> length pathname \<Longrightarrow> pathname \<noteq> []" using assms(2) by auto
  then have len: "length pathname < len" "257 \<le> len" using assms(2) by (simp_all add: len_def)
  have "walked mem (length pathname) \<lparr>pathlen = len, fullpath = pathname\<rparr> (run_calls func (visits pathname t) c)
      (dopath mem func t \<lparr>pathlen = len, fullpath = pathname\<rparr> c)"
    using walk(1) [of t "\<lparr>pathlen = len, fullpath = pathname\<rparr>" mem func c] assms(1) len by simp
  moreover have "put_path 0 pathname \<lparr>pathlen = len, fullpath = []\<rparr> = Inr \<lparr>pathlen = len, fullpath = pathname\<rparr>"
    using len by (auto simp: put_path_def)
  ultimately show ?thesis
    by (cases "dopath mem func t \<lparr>pathlen = len, fullpath = pathname\<rparr> c")
      (auto simp: myftw_def walked_def len_def [symmetric] Let_def)
qed

section \<open>Files that can be reached\<close>

inductive reach :: "node \<Rightarrow> string list \<Rightarrow> node \<Rightarrow> bool" where
  reach_here: "reach t [] t"
| reach_entry: "(name, t) \<in> set es \<Longrightarrow> name \<noteq> ''.'' \<Longrightarrow> name \<noteq> ''..'' \<Longrightarrow> reach t ns t' \<Longrightarrow> reach (Dir True es) (name # ns) t'"

inductive_simps reach_simps: "reach Nostat ns t" "reach (Leaf m) ns t" "reach (Dir readable es) ns t"

definition path_below :: "string \<Rightarrow> string list \<Rightarrow> string" where
  "path_below p ns = p @ concat (map (\<lambda>n. ''/'' @ n) ns)"

lemma path_below_simps [simp]: "path_below p [] = p" "path_below p (n # ns) = path_below (p @ ''/'' @ n) ns"
  by (simp_all add: path_below_def)

lemma visits_reach:
  "(q, FTW_F m) \<in> set (visits p t) \<longleftrightarrow> (\<exists>ns. q = path_below p ns \<and> reach t ns (Leaf m))"
  "(q, FTW_F m) \<in> set (visit_all (p @ ''/'') es) \<longleftrightarrow>
     (\<exists>name t ns. (name, t) \<in> set es \<and> name \<noteq> ''.'' \<and> name \<noteq> ''..'' \<and> q = path_below p (name # ns) \<and> reach t ns (Leaf m))"
proof (induction t and es arbitrary: p and p rule: names_ok_entries_ok.induct)
  case (3 readable es)
  show ?case
  proof (cases readable)
    case True
    have "(\<exists>ns. q = path_below p ns \<and> reach (Dir True es) ns (Leaf m)) \<longleftrightarrow>
        (\<exists>name t ns. (name, t) \<in> set es \<and> name \<noteq> ''.'' \<and> name \<noteq> ''..'' \<and> q = path_below p (name # ns) \<and> reach t ns (Leaf m))"
      unfolding reach_simps by blast
    then show ?thesis using 3 True by simp
  qed (simp add: reach_simps)
next
  case (5 name t es)
  show ?case using "5.IH"(1) [of "p @ ''/'' @ name"] "5.IH"(2) [of p] by (simp split: if_splits) blast
qed (auto simp: reach_simps)

section \<open>Properties\<close>

text \<open>for a hierarchy whose names are no longer than \<^verbatim>\<open>NAME_MAX\<close> and a buffer of at least 257 bytes (\<^verbatim>\<open>PATH_MAX + 1\<close> is
  more), \<^verbatim>\<open>myftw\<close> makes the calls of \<open>visits\<close> in that order, with the full path of every file, and returns what the function
  returned last; it never writes outside the buffer, however deep the hierarchy is. The only other end is that
  \<^verbatim>\<open>realloc\<close> has no memory.\<close>

theorem ftw_visits:
  assumes "names_ok t" "257 \<le> size0"
  shows "(case myftw mem size0 pathname func t c of
            Inl e \<Rightarrow> e = Sys ''realloc failed'' \<and> (\<exists>k. \<not> mem k)
          | Inr r \<Rightarrow> r = run_calls func (visits pathname t) c)"
  using myftw_walk [OF assms, of mem pathname func c] by auto

definition ftw_tree :: node where
  "ftw_tree = Dir True [(''.'', Nostat), (''a'', Leaf REG), (''d'', Dir True [(''x'', Leaf LNK), (''y'', Nostat)]), (''p'', Dir False []), (''z'', Leaf REG)]"

definition all_mem :: "nat \<Rightarrow> bool" where "all_mem k = True"

theorem ftw_visits_witness:
  "names_ok ftw_tree \<and> (case myftw all_mem 257 ''t'' myfunc ftw_tree no_counts of
      Inl e \<Rightarrow> e = Sys ''realloc failed'' \<and> (\<exists>k. \<not> all_mem k)
    | Inr r \<Rightarrow> r = run_calls myfunc (visits ''t'' ftw_tree) no_counts)"
proof -
  have n: "names_ok ftw_tree" by (simp add: ftw_tree_def NAME_MAX_def)
  show ?thesis using n ftw_visits [OF n, where ?size0.0 = 257] by simp
qed

text \<open>if the function always returns 0, it is called, as for a file that is no directory, with exactly the paths
  that lead from the start through directories that can be read to such a file, and with its type.\<close>

definition note_file :: "(string \<times> flag) list myfunc" where
  "note_file p k c = (0, c @ [(p, k)])"

lemma run_calls_note: "run_calls note_file vs c = (0, c @ vs)"
  by (induction note_file vs c rule: run_calls.induct) (simp_all add: note_file_def)

theorem ftw_finds_files:
  assumes "names_ok t" "257 \<le> size0" "\<forall>k. mem k"
  shows "\<exists>calls. myftw mem size0 pathname note_file t [] = Inr (0, calls)
    \<and> (\<forall>q m. (q, FTW_F m) \<in> set calls \<longleftrightarrow> (\<exists>ns. q = path_below pathname ns \<and> reach t ns (Leaf m)))"
  using myftw_walk [OF assms(1,2), of mem pathname note_file "[]"] assms(3) by (simp add: run_calls_note visits_reach)

theorem ftw_finds_files_witness:
  "\<exists>calls. myftw all_mem 257 ''t'' note_file ftw_tree [] = Inr (0, calls) \<and> (''t/d/x'', FTW_F LNK) \<in> set calls"
proof -
  have n: "names_ok ftw_tree" by (simp add: ftw_tree_def NAME_MAX_def)
  have "reach ftw_tree [''d'', ''x''] (Leaf LNK)" by (auto simp: ftw_tree_def reach_simps)
  moreover have "path_below ''t'' [''d'', ''x''] = ''t/d/x''" by (simp add: path_below_def)
  ultimately show ?thesis using ftw_finds_files [OF n, of 257 all_mem "''t''"] by (metis all_mem_def order_refl)
qed

text \<open>the counts \<^verbatim>\<open>main\<close> prints are the numbers of calls with each type, and the walk never stops early.\<close>

definition tally :: "flag list \<Rightarrow> counts" where
  "tally ks = \<lparr>nreg = count_list ks (FTW_F REG), ndir = count_list ks FTW_D, nblk = count_list ks (FTW_F BLK), nchr = count_list ks (FTW_F CHARDEV),
     nfifo = count_list ks (FTW_F FIFO), nslink = count_list ks (FTW_F LNK), nsock = count_list ks (FTW_F SOCK)\<rparr>"

lemma run_calls_tally: "run_calls myfunc vs (tally ks) = (0, tally (ks @ map snd vs))"
proof (induction vs arbitrary: ks)
  case (Cons v vs)
  obtain p k where v: "v = (p, k)" by (cases v)
  have "myfunc p k (tally ks) = (0, tally (ks @ [k]))"
  proof (cases k)
    case (FTW_F m)
    then show ?thesis by (cases m) (simp_all add: tally_def)
  qed (simp_all add: tally_def)
  then show ?case using Cons [of "ks @ [k]"] v by simp
qed simp

theorem ftw_counts:
  assumes "names_ok t" "257 \<le> size0" "\<forall>k. mem k"
  shows "myftw mem size0 pathname myfunc t no_counts = Inr (0, tally (map snd (visits pathname t)))"
proof -
  have "no_counts = tally []" by (simp add: no_counts_def tally_def)
  then have "run_calls myfunc (visits pathname t) no_counts = (0, tally (map snd (visits pathname t)))"
    using run_calls_tally [of _ "[]"] by simp
  then show ?thesis using myftw_walk [OF assms(1,2), of mem pathname myfunc no_counts] assms(3) by simp
qed

theorem ftw_counts_witness:
  "myftw all_mem 257 ''t'' myfunc ftw_tree no_counts = Inr (0, \<lparr>nreg = 2, ndir = 3, nblk = 0, nchr = 0, nfifo = 0, nslink = 1, nsock = 0\<rparr>)"
proof -
  have n: "names_ok ftw_tree" by (simp add: ftw_tree_def NAME_MAX_def)
  show ?thesis using ftw_counts [OF n, of 257 all_mem "''t''"] by (simp add: all_mem_def tally_def ftw_tree_def)
qed

end
