(* ===== verification/ErrorLines.thy ===== *)
theory ErrorLines imports Prelude begin

text \<open>
  The messages of lib/error.c and lib/errorlog.c: the buffer they are built in, the order in which they come out, and how the
  functions end. The other theories take the functions that end the process as values of \<open>abort\<close>.
\<close>

section \<open>The buffer\<close>

definition MAXLINE :: nat where "MAXLINE = 4096"

text \<open>\<^verbatim>\<open>snprintf(buf + off, size, ...)\<close> where \<open>x\<close> is the formatted text: at most \<open>sz - 1\<close> characters and a null byte are
  stored, nothing for a size of 0. The buffer is known up to its null byte.\<close>

definition snprintf :: "nat \<Rightarrow> 64 word \<Rightarrow> string \<Rightarrow> string \<Rightarrow> string res" where
  "snprintf off sz x buf =
     (if sz = 0 then Inr buf
      else let y = take (unat sz - 1) x in
        if MAXLINE < off + length y + 1 then Inl Fault else Inr (take off buf @ cstr y))"

definition strcat_buf :: "string \<Rightarrow> string \<Rightarrow> string res" where
  "strcat_buf x buf = (if MAXLINE < length buf + length x + 1 then Inl Fault else Inr (buf @ x))"

text \<open>The text both \<^verbatim>\<open>err_doit\<close> and \<^verbatim>\<open>log_doit\<close> build; \<open>strerror\<close> is the C library's.\<close>

definition error_text :: "(int \<Rightarrow> string) \<Rightarrow> bool \<Rightarrow> int \<Rightarrow> string \<Rightarrow> string res" where
  "error_text strerror errnoflag err msg =
     rbind (snprintf 0 (of_nat MAXLINE - 1) msg []) (\<lambda>buf.
     rbind (if errnoflag then snprintf (length buf) (of_nat MAXLINE - of_nat (length buf) - 1) ('': '' @ strerror err) buf else Inr buf)
       (\<lambda>buf. strcat_buf [CHR 10] buf))"

section \<open>The functions\<close>

text \<open>\<open>pending\<close> is in the buffer of the standard output; \<open>shown\<close> is what came out on the terminal.\<close>

record errio =
  pending :: string
  shown :: string
  logged :: "(int \<times> string) list"
  log_to_stderr :: bool

datatype err_end = Returns | Exits int | Aborts

definition fflush_out :: "errio \<Rightarrow> errio" where
  "fflush_out s = s\<lparr>shown := shown s @ pending s, pending := []\<rparr>"

text \<open>The error output has no buffer. \<^verbatim>\<open>fflush(NULL)\<close> finds the standard output empty.\<close>

definition err_doit :: "(int \<Rightarrow> string) \<Rightarrow> bool \<Rightarrow> int \<Rightarrow> string \<Rightarrow> errio \<Rightarrow> errio res" where
  "err_doit strerror errnoflag err msg s =
     rbind (error_text strerror errnoflag err msg) (\<lambda>buf.
       let s = fflush_out s; s = s\<lparr>shown := shown s @ buf\<rparr> in Inr (fflush_out s))"

definition LOG_ERR :: int where "LOG_ERR = 3"

definition log_doit :: "(int \<Rightarrow> string) \<Rightarrow> bool \<Rightarrow> int \<Rightarrow> int \<Rightarrow> string \<Rightarrow> errio \<Rightarrow> errio res" where
  "log_doit strerror errnoflag err priority msg s =
     rbind (error_text strerror errnoflag err msg) (\<lambda>buf.
       if log_to_stderr s then let s = fflush_out s in Inr (s\<lparr>shown := shown s @ buf\<rparr>)
       else Inr (s\<lparr>logged := logged s @ [(priority, buf)]\<rparr>))"

text \<open>\<open>e\<close> is \<^verbatim>\<open>errno\<close> or the argument \<^verbatim>\<open>error\<close>. \<^verbatim>\<open>exit\<close> flushes the standard output, \<^verbatim>\<open>abort\<close> need not.\<close>

definition err_ret :: "(int \<Rightarrow> string) \<Rightarrow> int \<Rightarrow> string \<Rightarrow> errio \<Rightarrow> (err_end \<times> errio) res" where
  "err_ret strerror e msg s = rbind (err_doit strerror True e msg s) (\<lambda>s. Inr (Returns, s))"

definition err_sys :: "(int \<Rightarrow> string) \<Rightarrow> int \<Rightarrow> string \<Rightarrow> errio \<Rightarrow> (err_end \<times> errio) res" where
  "err_sys strerror e msg s = rbind (err_doit strerror True e msg s) (\<lambda>s. Inr (Exits 1, fflush_out s))"

definition err_cont :: "(int \<Rightarrow> string) \<Rightarrow> int \<Rightarrow> string \<Rightarrow> errio \<Rightarrow> (err_end \<times> errio) res" where
  "err_cont strerror e msg s = rbind (err_doit strerror True e msg s) (\<lambda>s. Inr (Returns, s))"

definition err_exit :: "(int \<Rightarrow> string) \<Rightarrow> int \<Rightarrow> string \<Rightarrow> errio \<Rightarrow> (err_end \<times> errio) res" where
  "err_exit strerror e msg s = rbind (err_doit strerror True e msg s) (\<lambda>s. Inr (Exits 1, fflush_out s))"

definition err_dump :: "(int \<Rightarrow> string) \<Rightarrow> int \<Rightarrow> string \<Rightarrow> errio \<Rightarrow> (err_end \<times> errio) res" where
  "err_dump strerror e msg s = rbind (err_doit strerror True e msg s) (\<lambda>s. Inr (Aborts, s))"

definition err_msg :: "(int \<Rightarrow> string) \<Rightarrow> int \<Rightarrow> string \<Rightarrow> errio \<Rightarrow> (err_end \<times> errio) res" where
  "err_msg strerror e msg s = rbind (err_doit strerror False 0 msg s) (\<lambda>s. Inr (Returns, s))"

definition err_quit :: "(int \<Rightarrow> string) \<Rightarrow> int \<Rightarrow> string \<Rightarrow> errio \<Rightarrow> (err_end \<times> errio) res" where
  "err_quit strerror e msg s = rbind (err_doit strerror False 0 msg s) (\<lambda>s. Inr (Exits 1, fflush_out s))"

definition log_ret :: "(int \<Rightarrow> string) \<Rightarrow> int \<Rightarrow> string \<Rightarrow> errio \<Rightarrow> (err_end \<times> errio) res" where
  "log_ret strerror e msg s = rbind (log_doit strerror True e LOG_ERR msg s) (\<lambda>s. Inr (Returns, s))"

definition log_sys :: "(int \<Rightarrow> string) \<Rightarrow> int \<Rightarrow> string \<Rightarrow> errio \<Rightarrow> (err_end \<times> errio) res" where
  "log_sys strerror e msg s = rbind (log_doit strerror True e LOG_ERR msg s) (\<lambda>s. Inr (Exits 2, fflush_out s))"

definition log_msg :: "(int \<Rightarrow> string) \<Rightarrow> int \<Rightarrow> string \<Rightarrow> errio \<Rightarrow> (err_end \<times> errio) res" where
  "log_msg strerror e msg s = rbind (log_doit strerror False 0 LOG_ERR msg s) (\<lambda>s. Inr (Returns, s))"

definition log_quit :: "(int \<Rightarrow> string) \<Rightarrow> int \<Rightarrow> string \<Rightarrow> errio \<Rightarrow> (err_end \<times> errio) res" where
  "log_quit strerror e msg s = rbind (log_doit strerror False 0 LOG_ERR msg s) (\<lambda>s. Inr (Exits 2, fflush_out s))"

definition log_exit :: "(int \<Rightarrow> string) \<Rightarrow> int \<Rightarrow> string \<Rightarrow> errio \<Rightarrow> (err_end \<times> errio) res" where
  "log_exit strerror e msg s = rbind (log_doit strerror True e LOG_ERR msg s) (\<lambda>s. Inr (Exits 2, fflush_out s))"

section \<open>The line\<close>

text \<open>The line a report is meant to be: as much of the message and the description of the error as fits.\<close>

definition error_line :: "(int \<Rightarrow> string) \<Rightarrow> bool \<Rightarrow> int \<Rightarrow> string \<Rightarrow> string" where
  "error_line strerror flag e msg = take (MAXLINE - 2) (cstr msg @ (if flag then '': '' @ cstr (strerror e) else [])) @ [CHR 10]"

lemma cstr_take: "cstr (take n x) = take n (cstr x)"
proof (induction x arbitrary: n)
  case (Cons c x)
  then show ?case by (cases n) (simp_all add: cstr_def)
qed (simp add: cstr_def)

lemma cstr_colon: "cstr ('': '' @ x) = '': '' @ cstr x"
  by (simp add: cstr_def)

lemma snprintf_room:
  assumes "length buf + unat sz \<le> MAXLINE" "sz \<noteq> 0"
  shows "snprintf (length buf) sz x buf = Inr (buf @ take (unat sz - 1) (cstr x))"
proof -
  have "0 < unat sz" using assms(2) by (simp add: unat_gt_0)
  then have "\<not> MAXLINE < length buf + length (take (unat sz - 1) x) + 1" using assms(1) by simp
  then show ?thesis using assms(2) unfolding snprintf_def by (simp add: Let_def cstr_take)
qed

text \<open>The size of the second call: \<^verbatim>\<open>MAXLINE - strlen(buf) - 1\<close> does not wrap.\<close>

lemma room_left: "n \<le> MAXLINE - 2 \<Longrightarrow> unat (of_nat MAXLINE - of_nat n - 1 :: 64 word) = MAXLINE - n - 1"
proof -
  assume n: "n \<le> MAXLINE - 2"
  then have "(of_nat MAXLINE - of_nat n - 1 :: 64 word) = of_nat (MAXLINE - n - 1)" by (simp add: of_nat_diff MAXLINE_def)
  also have "unat \<dots> = MAXLINE - n - 1" by (simp add: unat_of_nat MAXLINE_def take_bit_nat_eq_self unsigned_of_nat)
  finally show ?thesis .
qed

lemma error_text_line: "error_text strerror flag e msg = Inr (error_line strerror flag e msg)"
proof -
  let ?m = "take (MAXLINE - 2) (cstr msg)" and ?room = "of_nat MAXLINE - of_nat (length (take (MAXLINE - 2) (cstr msg))) - 1 :: 64 word"
  have n: "length ?m \<le> MAXLINE - 2" by simp
  have "unat (of_nat MAXLINE - 1 :: 64 word) = MAXLINE - 1" using room_left [of 0] by simp
  moreover from this have "(of_nat MAXLINE - 1 :: 64 word) \<noteq> 0" by (auto simp: MAXLINE_def)
  ultimately have one: "snprintf 0 (of_nat MAXLINE - 1) msg [] = Inr ?m"
    using snprintf_room [of "[]" "of_nat MAXLINE - 1" msg] by (simp add: numeral_2_eq_2)
  have u: "unat ?room = MAXLINE - length ?m - 1" using room_left [OF n] by simp
  moreover from this n have "?room \<noteq> 0" by (auto simp: MAXLINE_def)
  ultimately have two: "snprintf (length ?m) ?room x ?m = Inr (?m @ take (MAXLINE - 2 - length ?m) (cstr x))" for x
    using snprintf_room [of ?m ?room x] n by (simp add: MAXLINE_def)
  show ?thesis
    unfolding error_text_def one rbind_Inr two
    by (auto simp: error_line_def strcat_buf_def cstr_colon [simplified] MAXLINE_def min_def)
qed

lemma error_line_fits: "length (error_line strerror flag e msg) + 1 \<le> MAXLINE"
  by (simp add: error_line_def MAXLINE_def)

section \<open>Properties\<close>

text \<open>What is on the terminal after a line was printed: the output the program had not flushed comes first.\<close>

definition printed :: "string \<Rightarrow> errio \<Rightarrow> errio" where
  "printed l s = s\<lparr>shown := shown s @ pending s @ l, pending := []\<rparr>"

lemma err_doit_prints: "err_doit strerror flag e msg s = Inr (printed (error_line strerror flag e msg) s)"
  by (simp add: err_doit_def error_text_line fflush_out_def printed_def Let_def)

lemma fflush_printed [simp]: "fflush_out (printed l s) = printed l s"
  by (simp add: fflush_out_def printed_def)

lemmas err_functions = err_ret_def err_cont_def err_msg_def err_sys_def err_exit_def err_quit_def err_dump_def
lemmas log_functions = log_ret_def log_msg_def log_sys_def log_exit_def log_quit_def

text \<open>C32: every function of lib/error.c prints one line after what the program printed before, the message and, where it is
  meant to, the description of the error, cut to 4094 characters; it fits the buffer with its null byte for every message.
  Then the function returns, exits with 1 or dumps core.\<close>

theorem err_reports:
  "length (error_line strerror flag e msg) + 1 \<le> MAXLINE
    \<and> err_ret strerror e msg s = Inr (Returns, printed (error_line strerror True e msg) s)
    \<and> err_cont strerror e msg s = Inr (Returns, printed (error_line strerror True e msg) s)
    \<and> err_msg strerror e msg s = Inr (Returns, printed (error_line strerror False e msg) s)
    \<and> err_sys strerror e msg s = Inr (Exits 1, printed (error_line strerror True e msg) s)
    \<and> err_exit strerror e msg s = Inr (Exits 1, printed (error_line strerror True e msg) s)
    \<and> err_quit strerror e msg s = Inr (Exits 1, printed (error_line strerror False e msg) s)
    \<and> err_dump strerror e msg s = Inr (Aborts, printed (error_line strerror True e msg) s)"
proof -
  have n: "error_line strerror False 0 msg = error_line strerror False e msg" by (simp add: error_line_def)
  show ?thesis by (intro conjI error_line_fits) (simp_all add: err_functions err_doit_prints n)
qed

text \<open>with \<^verbatim>\<open>log_to_stderr\<close> the functions of lib/errorlog.c do what those of lib/error.c do, but exit with 2; without it
  the same line goes to \<^verbatim>\<open>syslog\<close> with the priority \<^verbatim>\<open>LOG_ERR\<close>, and only what the program had not flushed
  to the terminal, when it exits.\<close>

definition with_exit :: "int \<Rightarrow> (err_end \<times> errio) res \<Rightarrow> (err_end \<times> errio) res" where
  "with_exit n r = rbind r (\<lambda>(x, s). Inr (case x of Exits k \<Rightarrow> Exits n | _ \<Rightarrow> x, s))"

theorem log_reports:
  "log_ret strerror e msg s = (if log_to_stderr s then err_ret strerror e msg s
      else Inr (Returns, s\<lparr>logged := logged s @ [(LOG_ERR, error_line strerror True e msg)]\<rparr>))
    \<and> log_msg strerror e msg s = (if log_to_stderr s then err_msg strerror e msg s
      else Inr (Returns, s\<lparr>logged := logged s @ [(LOG_ERR, error_line strerror False e msg)]\<rparr>))
    \<and> log_sys strerror e msg s = (if log_to_stderr s then with_exit 2 (err_sys strerror e msg s)
      else Inr (Exits 2, fflush_out (s\<lparr>logged := logged s @ [(LOG_ERR, error_line strerror True e msg)]\<rparr>)))
    \<and> log_exit strerror e msg s = (if log_to_stderr s then with_exit 2 (err_exit strerror e msg s)
      else Inr (Exits 2, fflush_out (s\<lparr>logged := logged s @ [(LOG_ERR, error_line strerror True e msg)]\<rparr>)))
    \<and> log_quit strerror e msg s = (if log_to_stderr s then with_exit 2 (err_quit strerror e msg s)
      else Inr (Exits 2, fflush_out (s\<lparr>logged := logged s @ [(LOG_ERR, error_line strerror False e msg)]\<rparr>)))"
proof -
  have d: "log_doit strerror flag e p msg s = Inr (if log_to_stderr s then printed (error_line strerror flag e msg) s
      else s\<lparr>logged := logged s @ [(p, error_line strerror flag e msg)]\<rparr>)" for flag e p
    by (simp add: log_doit_def error_text_line fflush_out_def printed_def Let_def)
  have n: "error_line strerror False 0 msg = error_line strerror False e msg" by (simp add: error_line_def)
  show ?thesis by (simp add: log_functions err_functions d err_doit_prints with_exit_def n)
qed

end
