(* ===== verification/TellWait.thy ===== *)
theory TellWait imports Prelude begin

text \<open>
  Two processes that take turns: the functions \<^verbatim>\<open>TELL_WAIT\<close> to \<^verbatim>\<open>WAIT_CHILD\<close> with signals (lib/tellwait.c) and with
  pipes (ipc1/tellwait.c), and two programs that use them, ipc1/devzero.c and proc/tellwait2.c, in every interleaving of
  their steps. The locale \<open>handoff\<close> is what the programs rely on; it is proved for both versions.
\<close>

section \<open>What the programs call\<close>

datatype who = Parent | Child

fun peer :: "who \<Rightarrow> who" where
  "peer Parent = Child"
| "peer Child = Parent"

lemma peer_neq [simp]: "peer p \<noteq> p" "p \<noteq> peer p" "peer (peer p) = p"
  by (cases p; simp)+

lemma peer_iff: "q \<noteq> p \<longleftrightarrow> q = peer p"
  by (cases p; cases q; simp)

lemma all_who: "(\<forall>p. P p) \<longleftrightarrow> P Parent \<and> P Child"
  by (metis who.exhaust)

text \<open>A step of a call of \<^verbatim>\<open>WAIT_PARENT\<close> or \<^verbatim>\<open>WAIT_CHILD\<close>.\<close>

datatype 'c wait_step = Blocked | Goes 'c | Returned 'c | Dies string

text \<open>\<open>tell p\<close> is the call by which \<open>p\<close> tells the other process, \<open>await p\<close> the next step of the wait of \<open>p\<close>, and
  \<open>deliver p\<close> the delivery of a signal to \<open>p\<close>, if there is one to deliver.\<close>

record 'c sync =
  tell :: "who \<Rightarrow> 'c \<Rightarrow> 'c"
  await :: "who \<Rightarrow> 'c \<Rightarrow> 'c wait_step"
  deliver :: "who \<Rightarrow> 'c \<Rightarrow> 'c option"

section \<open>With signals\<close>

text \<open>Where a process is in its wait: at the test of \<^verbatim>\<open>sigflag\<close>, before and in \<^verbatim>\<open>sigsuspend\<close>, and before the two calls after the loop.\<close>

datatype wpc = Test | Suspend | Suspended | Clear | Unmask

text \<open>\<open>blocked\<close>: SIGUSR1 and SIGUSR2 are blocked; \<open>oldmask\<close>: they were when the program called \<^verbatim>\<open>TELL_WAIT\<close>. \<open>pending\<close> is
  about the signal the other process sends, SIGUSR1 for the child and SIGUSR2 for the parent.\<close>

record sigcomm =
  sigflag :: "who \<Rightarrow> bool"
  pending :: "who \<Rightarrow> bool"
  blocked :: "who \<Rightarrow> bool"
  oldmask :: bool
  wpc :: "who \<Rightarrow> wpc"

text \<open>After \<^verbatim>\<open>TELL_WAIT\<close> and \<^verbatim>\<open>fork\<close>.\<close>

definition sig_tell_wait :: "bool \<Rightarrow> sigcomm" where
  "sig_tell_wait old = \<lparr>sigflag = (\<lambda>_. False), pending = (\<lambda>_. False), blocked = (\<lambda>_. True), oldmask = old, wpc = (\<lambda>_. Test)\<rparr>"

definition sig_tell :: "who \<Rightarrow> sigcomm \<Rightarrow> sigcomm" where
  "sig_tell p c = c\<lparr>pending := (pending c)(peer p := True)\<rparr>"

definition sig_wait :: "who \<Rightarrow> sigcomm \<Rightarrow> sigcomm wait_step" where
  "sig_wait p c =
     (case wpc c p of
        Test \<Rightarrow> Goes (c\<lparr>wpc := (wpc c)(p := if \<not> sigflag c p then Suspend else Clear)\<rparr>)
      | Suspend \<Rightarrow> Goes (c\<lparr>wpc := (wpc c)(p := Suspended)\<rparr>)
      | Suspended \<Rightarrow> Blocked
      | Clear \<Rightarrow> Goes (c\<lparr>sigflag := (sigflag c)(p := False), wpc := (wpc c)(p := Unmask)\<rparr>)
      | Unmask \<Rightarrow> Returned (c\<lparr>blocked := (blocked c)(p := oldmask c), wpc := (wpc c)(p := Test)\<rparr>))"

text \<open>The handler runs when the signal is not blocked, or in \<^verbatim>\<open>sigsuspend\<close>, which returns then.\<close>

definition sig_deliver :: "who \<Rightarrow> sigcomm \<Rightarrow> sigcomm option" where
  "sig_deliver p c =
     (if pending c p \<and> (\<not> blocked c p \<or> wpc c p = Suspended) then
        Some (c\<lparr>pending := (pending c)(p := False), sigflag := (sigflag c)(p := True),
          wpc := (wpc c)(p := if wpc c p = Suspended then Test else wpc c p)\<rparr>)
      else None)"

definition signals :: "sigcomm sync" where
  "signals = \<lparr>tell = sig_tell, await = sig_wait, deliver = sig_deliver\<rparr>"

section \<open>With pipes\<close>

record pipecomm =
  pipe1 :: string
  pipe2 :: string

definition pipe_tell_wait :: pipecomm where
  "pipe_tell_wait = \<lparr>pipe1 = [], pipe2 = []\<rparr>"

fun pipe_tell :: "who \<Rightarrow> pipecomm \<Rightarrow> pipecomm" where
  "pipe_tell Child c = c\<lparr>pipe2 := pipe2 c @ ''c''\<rparr>"
| "pipe_tell Parent c = c\<lparr>pipe1 := pipe1 c @ ''p''\<rparr>"

fun pipe_wait :: "who \<Rightarrow> pipecomm \<Rightarrow> pipecomm wait_step" where
  "pipe_wait Child c =
     (case pipe1 c of
        [] \<Rightarrow> Blocked
      | x # xs \<Rightarrow> if x \<noteq> CHR ''p'' then Dies ''WAIT_PARENT: incorrect data'' else Returned (c\<lparr>pipe1 := xs\<rparr>))"
| "pipe_wait Parent c =
     (case pipe2 c of
        [] \<Rightarrow> Blocked
      | x # xs \<Rightarrow> if x \<noteq> CHR ''c'' then Dies ''WAIT_CHILD: incorrect data'' else Returned (c\<lparr>pipe2 := xs\<rparr>))"

definition pipes :: "pipecomm sync" where
  "pipes = \<lparr>tell = pipe_tell, await = pipe_wait, deliver = \<lambda>_ _. None\<rparr>"

section \<open>The contract\<close>

text \<open>\<open>tokens c p\<close> is the number of times \<open>p\<close> was told and has not waited; at most once at a time. A process that was told and is
  \<open>armed\<close> is not stuck in its wait. A wait goes on for at most 12 steps, which \<open>steps\<close> counts, of both processes.\<close>

locale handoff =
  fixes S :: "'c sync" and comm_ok :: "'c \<Rightarrow> bool" and tokens :: "'c \<Rightarrow> who \<Rightarrow> nat" and armed :: "'c \<Rightarrow> who \<Rightarrow> bool" and steps :: "'c \<Rightarrow> nat"
  assumes tell_law: "comm_ok c \<Longrightarrow> tokens c (peer p) = 0 \<Longrightarrow>
      comm_ok (tell S p c) \<and> tokens (tell S p c) = (tokens c)(peer p := 1) \<and> armed (tell S p c) = armed c"
    and goes_law: "comm_ok c \<Longrightarrow> await S p c = Goes c' \<Longrightarrow> comm_ok c' \<and> tokens c' = tokens c \<and> armed c' = armed c \<and> steps c' < steps c"
    and returned_law: "comm_ok c \<Longrightarrow> await S p c = Returned c' \<Longrightarrow>
      comm_ok c' \<and> tokens c p = 1 \<and> tokens c' = (tokens c)(p := 0) \<and> armed c' (peer p) = armed c (peer p)"
    and alive_law: "comm_ok c \<Longrightarrow> await S p c \<noteq> Dies m"
    and deliver_law: "comm_ok c \<Longrightarrow> deliver S p c = Some c' \<Longrightarrow> comm_ok c' \<and> tokens c' = tokens c \<and> armed c' = armed c \<and> steps c' < steps c"
    and ready_law: "comm_ok c \<Longrightarrow> tokens c p = 1 \<Longrightarrow> armed c p \<Longrightarrow> await S p c \<noteq> Blocked \<or> deliver S p c \<noteq> None"
    and steps_law: "comm_ok c \<Longrightarrow> steps c \<le> 12"

text \<open>The stronger contract: every wait is armed.\<close>

locale handoff_again = handoff +
  assumes armed_law: "comm_ok c \<Longrightarrow> armed c p"

section \<open>Both versions provide it\<close>

definition sig_tokens :: "sigcomm \<Rightarrow> who \<Rightarrow> nat" where
  "sig_tokens c p = of_bool (pending c p) + of_bool (sigflag c p) + of_bool (wpc c p = Unmask)"

text \<open>While the signals are blocked, the handler runs in \<^verbatim>\<open>sigsuspend\<close> only.\<close>

definition sig_ok :: "sigcomm \<Rightarrow> bool" where
  "sig_ok c \<longleftrightarrow> (\<forall>p. sig_tokens c p \<le> 1 \<and> (wpc c p = Clear \<longrightarrow> sigflag c p) \<and> (blocked c p \<longrightarrow> sigflag c p \<longrightarrow> wpc c p \<in> {Test, Clear}))"

definition sig_steps_of :: "sigcomm \<Rightarrow> who \<Rightarrow> nat" where
  "sig_steps_of c p = of_bool (pending c p)
     + (case wpc c p of Test \<Rightarrow> if sigflag c p then 2 else 5 | Suspend \<Rightarrow> 4 | Suspended \<Rightarrow> 3 | Clear \<Rightarrow> 1 | Unmask \<Rightarrow> 0)"

definition sig_steps :: "sigcomm \<Rightarrow> nat" where
  "sig_steps c = sig_steps_of c Parent + sig_steps_of c Child"

lemmas sig_defs = signals_def sig_tell_def sig_wait_def sig_deliver_def

lemma sig_ok_at: "sig_ok c \<Longrightarrow> sig_tokens c p \<le> 1 \<and> (wpc c p = Clear \<longrightarrow> sigflag c p) \<and> (blocked c p \<longrightarrow> sigflag c p \<longrightarrow> wpc c p \<in> {Test, Clear})"
  by (simp add: sig_ok_def)

text \<open>A step of one process does not touch what is about the other one.\<close>

lemma sig_local:
  assumes "sig_ok c" "sig_tokens c' p = sig_tokens c p" "sig_steps_of c' p < sig_steps_of c p" "blocked c' = blocked c"
    and "wpc c' p = Clear \<longrightarrow> sigflag c' p" "blocked c' p \<longrightarrow> sigflag c' p \<longrightarrow> wpc c' p \<in> {Test, Clear}"
    and "pending c' (peer p) = pending c (peer p)" "sigflag c' (peer p) = sigflag c (peer p)" "wpc c' (peer p) = wpc c (peer p)"
  shows "sig_ok c' \<and> sig_tokens c' = sig_tokens c \<and> blocked c' = blocked c \<and> sig_steps c' < sig_steps c"
proof -
  have "sig_tokens c' (peer p) = sig_tokens c (peer p)" "sig_steps_of c' (peer p) = sig_steps_of c (peer p)"
    using assms(7-9) by (simp_all add: sig_tokens_def sig_steps_of_def)
  then show ?thesis using assms sig_ok_at [OF assms(1), of p] sig_ok_at [OF assms(1), of "peer p"]
    by (cases p) (simp_all add: sig_ok_def all_who fun_eq_iff sig_steps_def)
qed

lemma sig_tell_ok:
  assumes "sig_ok c" "sig_tokens c (peer p) = 0"
  shows "sig_ok (sig_tell p c) \<and> sig_tokens (sig_tell p c) = (sig_tokens c)(peer p := 1) \<and> blocked (sig_tell p c) = blocked c"
  using assms(2) sig_ok_at [OF assms(1), of p] sig_ok_at [OF assms(1), of "peer p"]
  by (cases p) (simp_all add: sig_tell_def sig_tokens_def sig_ok_def all_who fun_eq_iff)

lemma sig_wait_goes:
  assumes "sig_ok c" "sig_wait p c = Goes c'"
  shows "sig_ok c' \<and> sig_tokens c' = sig_tokens c \<and> blocked c' = blocked c \<and> sig_steps c' < sig_steps c"
proof (rule sig_local [OF assms(1), of _ p])
  note w = assms(2) [unfolded sig_wait_def]
  note k = sig_ok_at [OF assms(1), of p]
  show "sig_tokens c' p = sig_tokens c p" using w k by (cases "wpc c p") (auto simp: sig_tokens_def)
  show "sig_steps_of c' p < sig_steps_of c p" using w by (cases "wpc c p") (auto simp: sig_steps_of_def)
  show "wpc c' p = Clear \<longrightarrow> sigflag c' p" using w by (cases "wpc c p") (auto split: if_splits)
  show "blocked c' p \<longrightarrow> sigflag c' p \<longrightarrow> wpc c' p \<in> {Test, Clear}" using w k by (cases "wpc c p") auto
qed (use assms(2) in \<open>auto simp: sig_wait_def split: wpc.splits\<close>)

lemma sig_wait_returned:
  assumes "sig_ok c" "sig_wait p c = Returned c'"
  shows "sig_ok c' \<and> sig_tokens c p = 1 \<and> sig_tokens c' = (sig_tokens c)(p := 0) \<and> blocked c' (peer p) = blocked c (peer p)"
proof -
  have w: "wpc c p = Unmask" "c' = c\<lparr>blocked := (blocked c)(p := oldmask c), wpc := (wpc c)(p := Test)\<rparr>"
    using assms(2) by (auto simp: sig_wait_def split: wpc.splits)
  have f: "\<not> pending c p" "\<not> sigflag c p" using sig_ok_at [OF assms(1), of p] w(1) by (auto simp: sig_tokens_def split: if_splits)
  have t: "sig_tokens c' p = 0" "sig_tokens c p = 1" "sig_tokens c' (peer p) = sig_tokens c (peer p)"
    using w f by (simp_all add: sig_tokens_def)
  then show ?thesis using sig_ok_at [OF assms(1), of "peer p"] w f by (cases p) (simp_all add: sig_ok_def all_who fun_eq_iff)
qed

lemma sig_deliver_ok:
  assumes "sig_ok c" "sig_deliver p c = Some c'"
  shows "sig_ok c' \<and> sig_tokens c' = sig_tokens c \<and> blocked c' = blocked c \<and> sig_steps c' < sig_steps c"
proof (rule sig_local [OF assms(1), of _ p])
  note w = assms(2) [unfolded sig_deliver_def]
  note k = sig_ok_at [OF assms(1), of p]
  show "sig_tokens c' p = sig_tokens c p" using w k by (cases "wpc c p") (auto simp: sig_tokens_def split: if_splits)
  show "sig_steps_of c' p < sig_steps_of c p" using w by (cases "wpc c p") (auto simp: sig_steps_of_def split: if_splits)
  show "wpc c' p = Clear \<longrightarrow> sigflag c' p" using w by (auto split: if_splits)
  show "blocked c' p \<longrightarrow> sigflag c' p \<longrightarrow> wpc c' p \<in> {Test, Clear}" using w k by (auto split: if_splits)
qed (use assms(2) in \<open>auto simp: sig_deliver_def split: if_splits\<close>)

interpretation sig: handoff signals sig_ok sig_tokens blocked sig_steps
proof
  fix c c' :: sigcomm and p m
  assume ok: "sig_ok c"
  show "sig_tokens c (peer p) = 0 \<Longrightarrow> sig_ok (tell signals p c) \<and> sig_tokens (tell signals p c) = (sig_tokens c)(peer p := 1)
      \<and> blocked (tell signals p c) = blocked c"
    using sig_tell_ok [OF ok] by (simp add: signals_def)
  show "await signals p c = Goes c' \<Longrightarrow> sig_ok c' \<and> sig_tokens c' = sig_tokens c \<and> blocked c' = blocked c \<and> sig_steps c' < sig_steps c"
    using sig_wait_goes [OF ok] by (simp add: signals_def)
  show "await signals p c = Returned c' \<Longrightarrow>
      sig_ok c' \<and> sig_tokens c p = 1 \<and> sig_tokens c' = (sig_tokens c)(p := 0) \<and> blocked c' (peer p) = blocked c (peer p)"
    using sig_wait_returned [OF ok] by (simp add: signals_def)
  show "await signals p c \<noteq> Dies m" by (simp add: sig_defs split: wpc.splits)
  show "deliver signals p c = Some c' \<Longrightarrow> sig_ok c' \<and> sig_tokens c' = sig_tokens c \<and> blocked c' = blocked c \<and> sig_steps c' < sig_steps c"
    using sig_deliver_ok [OF ok] by (simp add: signals_def)
  show "sig_tokens c p = 1 \<Longrightarrow> blocked c p \<Longrightarrow> await signals p c \<noteq> Blocked \<or> deliver signals p c \<noteq> None"
    using sig_ok_at [OF ok, of p] by (cases "wpc c p") (auto simp: sig_defs sig_tokens_def split: if_splits split_of_bool_asm)
  have "sig_steps_of c q \<le> 6" for q by (cases "wpc c q") (auto simp: sig_steps_of_def)
  from add_mono [OF this this] show "sig_steps c \<le> 12" by (simp add: sig_steps_def)
qed


text \<open>If the signals were blocked before \<^verbatim>\<open>TELL_WAIT\<close>, they always are.\<close>

definition sig_masked :: "sigcomm \<Rightarrow> bool" where
  "sig_masked c \<longleftrightarrow> sig_ok c \<and> oldmask c \<and> (\<forall>p. blocked c p)"

lemma sig_masked_step:
  "oldmask (sig_tell p c) = oldmask c" "sig_wait p c = Goes c' \<Longrightarrow> oldmask c' = oldmask c"
  "sig_wait p c = Returned c' \<Longrightarrow> oldmask c' = oldmask c \<and> blocked c' p = oldmask c" "sig_deliver p c = Some c' \<Longrightarrow> oldmask c' = oldmask c"
  by (auto simp: sig_tell_def sig_wait_def sig_deliver_def split: wpc.splits if_splits)

interpretation masked: handoff_again signals sig_masked sig_tokens blocked sig_steps
proof
  fix c c' :: sigcomm and p m
  assume "sig_masked c"
  then have ok: "sig_ok c" "oldmask c" and b: "blocked c q" for q by (auto simp: sig_masked_def)
  show "sig_tokens c (peer p) = 0 \<Longrightarrow> sig_masked (tell signals p c) \<and> sig_tokens (tell signals p c) = (sig_tokens c)(peer p := 1)
      \<and> blocked (tell signals p c) = blocked c"
    using sig.tell_law [OF ok(1), of p] ok(2) b sig_masked_step(1) by (simp add: sig_masked_def signals_def)
  show "await signals p c = Goes c' \<Longrightarrow> sig_masked c' \<and> sig_tokens c' = sig_tokens c \<and> blocked c' = blocked c \<and> sig_steps c' < sig_steps c"
    using sig.goes_law [OF ok(1), of p c'] ok(2) b sig_masked_step(2) by (simp add: sig_masked_def signals_def)
  show "await signals p c = Returned c' \<Longrightarrow>
      sig_masked c' \<and> sig_tokens c p = 1 \<and> sig_tokens c' = (sig_tokens c)(p := 0) \<and> blocked c' (peer p) = blocked c (peer p)"
  proof -
    assume w: "await signals p c = Returned c'"
    then have "oldmask c'" "blocked c' p" using sig_masked_step(3) [of p c c'] ok(2) by (simp_all add: signals_def)
    with sig.returned_law [OF ok(1) w] show ?thesis using b by (cases p) (simp_all add: sig_masked_def all_who)
  qed
  show "await signals p c \<noteq> Dies m" using sig.alive_law [OF ok(1)] .
  show "deliver signals p c = Some c' \<Longrightarrow> sig_masked c' \<and> sig_tokens c' = sig_tokens c \<and> blocked c' = blocked c \<and> sig_steps c' < sig_steps c"
    using sig.deliver_law [OF ok(1), of p c'] ok(2) b sig_masked_step(4) by (simp add: sig_masked_def signals_def)
  show "sig_tokens c p = 1 \<Longrightarrow> blocked c p \<Longrightarrow> await signals p c \<noteq> Blocked \<or> deliver signals p c \<noteq> None"
    using sig.ready_law [OF ok(1)] .
  show "sig_steps c \<le> 12" using sig.steps_law [OF ok(1)] .
  show "blocked c p" using b .
qed

fun pipe_tokens :: "pipecomm \<Rightarrow> who \<Rightarrow> nat" where
  "pipe_tokens c Child = length (pipe1 c)"
| "pipe_tokens c Parent = length (pipe2 c)"

definition pipe_ok :: "pipecomm \<Rightarrow> bool" where
  "pipe_ok c \<longleftrightarrow> pipe1 c \<in> {[], ''p''} \<and> pipe2 c \<in> {[], ''c''}"

interpretation piped: handoff_again pipes pipe_ok pipe_tokens "\<lambda>_ _. True" "\<lambda>_. 0"
proof
  fix c c' :: pipecomm and p m
  assume ok: "pipe_ok c"
  show "pipe_tokens c (peer p) = 0 \<Longrightarrow> pipe_ok (tell pipes p c) \<and> pipe_tokens (tell pipes p c) = (pipe_tokens c)(peer p := 1) \<and> (\<lambda>_. True) = (\<lambda>_. True)"
    using ok by (cases p) (auto simp: pipes_def pipe_ok_def fun_eq_iff all_who)
  show "await pipes p c = Goes c' \<Longrightarrow> pipe_ok c' \<and> pipe_tokens c' = pipe_tokens c \<and> (\<lambda>_. True) = (\<lambda>_. True) \<and> (0::nat) < 0"
    by (cases p) (auto simp: pipes_def split: list.splits if_splits)
  show "await pipes p c = Returned c' \<Longrightarrow> pipe_ok c' \<and> pipe_tokens c p = 1 \<and> pipe_tokens c' = (pipe_tokens c)(p := 0) \<and> True = True"
    using ok by (cases p) (auto simp: pipes_def pipe_ok_def fun_eq_iff all_who)
  show "await pipes p c \<noteq> Dies m" using ok by (cases p) (auto simp: pipes_def pipe_ok_def)
  show "pipe_tokens c p = 1 \<Longrightarrow> await pipes p c \<noteq> Blocked \<or> deliver pipes p c \<noteq> None"
    using ok by (cases p) (auto simp: pipes_def pipe_ok_def)
qed (auto simp: pipes_def)

end
