(* ===== verification/TakeTurns.thy ===== *)
theory TakeTurns imports TellWait begin

text \<open>
  Two programs over \<^verbatim>\<open>TELL_WAIT\<close>: ipc1/devzero.c, whose processes count in turns in shared memory, and proc/tellwait2.c,
  whose child writes after its parent. What they do is proved in the locales of \<open>TellWait\<close>, so for both versions.
\<close>

section \<open>Counting in turns (ipc1/devzero.c)\<close>

definition NLOOPS :: int where "NLOOPS = 1000"

text \<open>\<open>Reads\<close> and \<open>Writes\<close> are the two accesses of \<^verbatim>\<open>(*ptr)++\<close>; the counter is compared after them.\<close>

datatype dzpc = Loops | Reads | Writes | Tells | Waits | Finished | Quits

record 'c dz =
  area :: int
  comm :: 'c
  ctr :: "who \<Rightarrow> int"
  counter :: "who \<Rightarrow> int"
  dzpc :: "who \<Rightarrow> dzpc"

definition dz_goto :: "who \<Rightarrow> dzpc \<Rightarrow> 'c dz \<Rightarrow> 'c dz" where
  "dz_goto p x s = s\<lparr>dzpc := (dzpc s)(p := x)\<rparr>"

definition dz_next :: "who \<Rightarrow> 'c dz \<Rightarrow> 'c dz" where
  "dz_next p s = dz_goto p Loops (s\<lparr>ctr := (ctr s)(p := ctr s p + 2)\<rparr>)"

definition dz_step :: "'c sync \<Rightarrow> who \<Rightarrow> 'c dz \<Rightarrow> 'c dz option" where
  "dz_step S p s =
     (case dzpc s p of
        Loops \<Rightarrow>
          (case p of
             Parent \<Rightarrow> Some (dz_goto p (if ctr s p < NLOOPS then Reads else Finished) s)
           | Child \<Rightarrow> Some (dz_goto p (if ctr s p < NLOOPS + 1 then Waits else Finished) s))
      | Reads \<Rightarrow> Some (dz_goto p Writes (s\<lparr>counter := (counter s)(p := area s)\<rparr>))
      | Writes \<Rightarrow> Some (dz_goto p (if counter s p \<noteq> ctr s p then Quits else Tells) (s\<lparr>area := counter s p + 1\<rparr>))
      | Tells \<Rightarrow>
          let s = s\<lparr>comm := tell S p (comm s)\<rparr> in
          (case p of Parent \<Rightarrow> Some (dz_goto p Waits s) | Child \<Rightarrow> Some (dz_next p s))
      | Waits \<Rightarrow>
          (case await S p (comm s) of
             Blocked \<Rightarrow> None
           | Goes c \<Rightarrow> Some (s\<lparr>comm := c\<rparr>)
           | Dies m \<Rightarrow> Some (dz_goto p Quits s)
           | Returned c \<Rightarrow>
             (case p of Parent \<Rightarrow> Some (dz_next p (s\<lparr>comm := c\<rparr>)) | Child \<Rightarrow> Some (dz_goto p Reads (s\<lparr>comm := c\<rparr>))))
      | Finished \<Rightarrow> None
      | Quits \<Rightarrow> None)"

definition dz_start :: "'c \<Rightarrow> 'c dz" where
  "dz_start c = \<lparr>area = 0, comm = c, ctr = (\<lambda>p. case p of Parent \<Rightarrow> 0 | Child \<Rightarrow> 1), counter = (\<lambda>_. 0), dzpc = (\<lambda>_. Loops)\<rparr>"

text \<open>A step of the two processes: one of theirs, or the delivery of a signal.\<close>

inductive dz_move :: "'c sync \<Rightarrow> 'c dz \<Rightarrow> 'c dz \<Rightarrow> bool" for S where
  dz_own: "dz_step S p s = Some s' \<Longrightarrow> dz_move S s s'"
| dz_signal: "deliver S p (comm s) = Some c \<Longrightarrow> dz_move S s (s\<lparr>comm := c\<rparr>)"

text \<open>Runs with the number of their steps.\<close>

inductive dz_run :: "'c sync \<Rightarrow> 'c dz \<Rightarrow> nat \<Rightarrow> 'c dz \<Rightarrow> bool" for S s where
  dz_none: "dz_run S s 0 s"
| dz_more: "dz_run S s n s' \<Longrightarrow> dz_move S s' s'' \<Longrightarrow> dz_run S s (Suc n) s''"

subsection \<open>Whose turn it is\<close>

text \<open>It is the parent's turn, and it was told \<open>t\<close> times; or the child's.\<close>

definition parents_turn :: "nat \<Rightarrow> 'c dz \<Rightarrow> bool" where
  "parents_turn t s \<longleftrightarrow>
     (case dzpc s Parent of
        Loops \<Rightarrow> t = 0 \<and> ctr s Parent = area s \<and> ctr s Child = area s + 1
      | Reads \<Rightarrow> t = 0 \<and> ctr s Parent = area s \<and> ctr s Child = area s + 1
      | Writes \<Rightarrow> t = 0 \<and> counter s Parent = area s \<and> ctr s Parent = area s \<and> ctr s Child = area s + 1
      | Tells \<Rightarrow> t = 0 \<and> ctr s Parent = area s - 1 \<and> ctr s Child = area s
      | Waits \<Rightarrow> t = 1 \<and> ctr s Parent = area s - 2 \<and> ctr s Child = area s + 1
      | Finished \<Rightarrow> t = 0 \<and> ctr s Parent = area s \<and> ctr s Child = area s + 1 \<and> area s = NLOOPS
      | Quits \<Rightarrow> False)"

definition childs_turn :: "nat \<Rightarrow> 'c dz \<Rightarrow> bool" where
  "childs_turn t s \<longleftrightarrow>
     (case dzpc s Child of
        Loops \<Rightarrow> t = 1 \<and> ctr s Child = area s \<and> ctr s Parent = area s - 1
      | Waits \<Rightarrow> t = 1 \<and> ctr s Child = area s \<and> ctr s Parent = area s - 1
      | Reads \<Rightarrow> t = 0 \<and> ctr s Child = area s \<and> ctr s Parent = area s - 1
      | Writes \<Rightarrow> t = 0 \<and> counter s Child = area s \<and> ctr s Child = area s \<and> ctr s Parent = area s - 1
      | Tells \<Rightarrow> t = 0 \<and> ctr s Child = area s - 1 \<and> ctr s Parent = area s - 2
      | Finished \<Rightarrow> False
      | Quits \<Rightarrow> False)"

definition dz_bounds :: "'c dz \<Rightarrow> bool" where
  "dz_bounds s \<longleftrightarrow> even (ctr s Parent) \<and> 0 \<le> ctr s Parent \<and> ctr s Parent \<le> NLOOPS \<and> 0 \<le> ctr s Child \<and> ctr s Child \<le> NLOOPS + 1
     \<and> (dzpc s Parent \<in> {Reads, Writes, Tells, Waits} \<longrightarrow> ctr s Parent < NLOOPS)
     \<and> (dzpc s Child \<in> {Reads, Writes, Tells, Waits} \<longrightarrow> ctr s Child < NLOOPS + 1)
     \<and> (dzpc s Child = Finished \<longrightarrow> ctr s Child = NLOOPS + 1)"

text \<open>\<open>t p\<close> is how often \<open>p\<close> was told.\<close>

definition dz_turns :: "(who \<Rightarrow> nat) \<Rightarrow> 'c dz \<Rightarrow> bool" where
  "dz_turns t s \<longleftrightarrow> dz_bounds s
     \<and> (t Child = 0 \<and> dzpc s Child \<in> {Loops, Waits, Finished} \<and> parents_turn (t Parent) s
       \<or> t Parent = 0 \<and> dzpc s Parent = Waits \<and> childs_turn (t Child) s)"

text \<open>How far the processes are from their ends.\<close>

definition dz_left :: "who \<Rightarrow> 'c dz \<Rightarrow> nat" where
  "dz_left p s = nat (NLOOPS + 3 - ctr s p) * 5 +
     (case dzpc s p of
        Loops \<Rightarrow> 6
      | Waits \<Rightarrow> (case p of Parent \<Rightarrow> 2 | Child \<Rightarrow> 5)
      | Reads \<Rightarrow> (case p of Parent \<Rightarrow> 5 | Child \<Rightarrow> 4)
      | Writes \<Rightarrow> (case p of Parent \<Rightarrow> 4 | Child \<Rightarrow> 3)
      | Tells \<Rightarrow> (case p of Parent \<Rightarrow> 3 | Child \<Rightarrow> 2)
      | Finished \<Rightarrow> 0
      | Quits \<Rightarrow> 0)"


lemmas dz_defs = dz_step_def dz_goto_def dz_next_def dz_turns_def dz_bounds_def parents_turn_def childs_turn_def dz_left_def Let_def

lemma dz_goto_simps [simp]:
  "dzpc (dz_goto p x s) = (dzpc s)(p := x)" "comm (dz_goto p x s) = comm s" "area (dz_goto p x s) = area s"
  "ctr (dz_goto p x s) = ctr s" "counter (dz_goto p x s) = counter s"
  by (simp_all add: dz_goto_def)

lemma dz_next_simps [simp]:
  "dzpc (dz_next p s) = (dzpc s)(p := Loops)" "comm (dz_next p s) = comm s" "area (dz_next p s) = area s"
  "ctr (dz_next p s) = (ctr s)(p := ctr s p + 2)" "counter (dz_next p s) = counter s"
  by (simp_all add: dz_next_def)

lemma dz_left_step:
  assumes "dz_step S p s = Some s'" "dz_bounds s" "dzpc s p = Waits \<longrightarrow> (\<exists>c. await S p (comm s) = Returned c)"
  shows "dz_left p s' < dz_left p s \<and> dz_left (peer p) s' = dz_left (peer p) s"
proof -
  have b: "ctr s Parent \<le> NLOOPS" "ctr s Child \<le> NLOOPS + 1" using assms(2) by (simp_all add: dz_bounds_def)
  show ?thesis
  proof (cases "dzpc s p")
    case Loops
    then show ?thesis using assms(1) b by (cases p) (auto simp: dz_step_def dz_left_def)
  next
    case Reads
    then show ?thesis using assms(1) b by (cases p) (auto simp: dz_step_def dz_left_def)
  next
    case Writes
    then show ?thesis using assms(1) b by (cases p) (auto simp: dz_step_def dz_left_def)
  next
    case Tells
    then show ?thesis using assms(1) b by (cases p) (auto simp: dz_step_def dz_left_def Let_def)
  next
    case Waits
    then show ?thesis using assms(1,3) b by (cases p) (auto simp: dz_step_def dz_left_def)
  qed (use assms(1) in \<open>simp_all add: dz_step_def\<close>)
qed

context handoff begin

definition dz_measure :: "'c dz \<Rightarrow> nat" where
  "dz_measure s = (dz_left Parent s + dz_left Child s) * 13 + steps (comm s)"

definition dz_inv :: "'c dz \<Rightarrow> bool" where
  "dz_inv s \<longleftrightarrow> comm_ok (comm s) \<and> dz_turns (tokens (comm s)) s"

lemma dz_turns_comm: "dz_turns t (s\<lparr>comm := c\<rparr>) = dz_turns t s" "dz_left p (s\<lparr>comm := c\<rparr>) = dz_left p s"
  by (simp_all add: dz_turns_def dz_bounds_def parents_turn_def childs_turn_def dz_left_def cong: dzpc.case_cong)

lemma dz_parent_turns:
  assumes inv: "dz_inv s" and s': "dz_step S Parent s = Some s'"
  shows "dz_inv s'"
proof (cases "dzpc s Parent")
  case Loops
  have t: "tokens (comm s) Child = 0" "tokens (comm s) Parent = 0" "dzpc s Child \<in> {Loops, Waits, Finished}"
    "ctr s Parent = area s" "ctr s Child = area s + 1" and b: "dz_bounds s"
    using inv Loops by (simp_all add: dz_inv_def dz_turns_def parents_turn_def)
  show ?thesis
  proof (cases "ctr s Parent < NLOOPS")
    case True
    then have "s' = dz_goto Parent Reads s" using s' Loops by (simp add: dz_step_def)
    then show ?thesis using t b inv True by (simp add: dz_inv_def dz_turns_def parents_turn_def dz_bounds_def)
  next
    case False
    then have n: "area s = NLOOPS" "ctr s Parent = NLOOPS" "ctr s Child = NLOOPS + 1" using b t(4,5) by (simp_all add: dz_bounds_def)
    have e: "s' = dz_goto Parent Finished s" using s' Loops False by (simp add: dz_step_def)
    have "comm_ok (comm s')" using inv by (simp add: e dz_inv_def)
    moreover have "dz_bounds s'" using b n by (simp add: e dz_bounds_def)
    moreover have "parents_turn (tokens (comm s') Parent) s'" using n(1,2) n(3) t(2) by (simp add: e parents_turn_def)
    moreover have "tokens (comm s') Child = 0" "dzpc s' Child \<in> {Loops, Waits, Finished}" using t(1,3) by (simp_all add: e)
    ultimately show ?thesis unfolding dz_inv_def dz_turns_def by blast
  qed
next
  case Reads
  have t: "tokens (comm s) Child = 0" "tokens (comm s) Parent = 0" "dzpc s Child \<in> {Loops, Waits, Finished}"
    "ctr s Parent = area s" "ctr s Child = area s + 1" "dz_bounds s" "comm_ok (comm s)"
    using inv Reads by (simp_all add: dz_inv_def dz_turns_def parents_turn_def)
  have e: "s' = dz_goto Parent Writes (s\<lparr>counter := (counter s)(Parent := area s)\<rparr>)" using s' Reads t by (simp add: dz_step_def)
  have "dz_bounds s'" using t(6) Reads by (simp add: e dz_bounds_def)
  moreover have "parents_turn 0 s'" using t by (simp add: e parents_turn_def)
  ultimately have "dz_turns (tokens (comm s)) s'" using t(1-3) by (simp add: e dz_turns_def)
  then show ?thesis using t by (simp add: e dz_inv_def)
next
  case Writes
  have t: "tokens (comm s) Child = 0" "tokens (comm s) Parent = 0" "dzpc s Child \<in> {Loops, Waits, Finished}"
    "ctr s Parent = area s" "ctr s Child = area s + 1" "counter s Parent = area s" "dz_bounds s" "comm_ok (comm s)"
    using inv Writes by (simp_all add: dz_inv_def dz_turns_def parents_turn_def)
  have e: "s' = dz_goto Parent Tells (s\<lparr>area := counter s Parent + 1\<rparr>)" using s' Writes t by (simp add: dz_step_def)
  have "dz_bounds s'" using t(7) Writes by (simp add: e dz_bounds_def)
  moreover have "parents_turn 0 s'" using t by (simp add: e parents_turn_def)
  ultimately have "dz_turns (tokens (comm s)) s'" using t(1-3) by (simp add: e dz_turns_def)
  then show ?thesis using t by (simp add: e dz_inv_def)
next
  case Tells
  have t: "tokens (comm s) Child = 0" "tokens (comm s) Parent = 0" "dzpc s Child \<in> {Loops, Waits, Finished}"
    "ctr s Parent = area s - 1" "ctr s Child = area s" "dz_bounds s"
    using inv Tells by (simp_all add: dz_inv_def dz_turns_def parents_turn_def)
  have "dzpc s Child \<noteq> Finished" using t(4-6) Tells by (auto simp: dz_bounds_def)
  moreover have l: "comm_ok (tell S Parent (comm s))" "tokens (tell S Parent (comm s)) = (tokens (comm s))(Child := 1)"
    using tell_law [of "comm s" Parent] inv t(1) by (simp_all add: dz_inv_def)
  ultimately have "dzpc s Child = Loops \<or> dzpc s Child = Waits" "s' = dz_goto Parent Waits (s\<lparr>comm := tell S Parent (comm s)\<rparr>)"
    using s' t Tells by (auto simp: dz_step_def Let_def)
  then show ?thesis using t l Tells by (elim disjE) (simp_all add: dz_inv_def dz_turns_def childs_turn_def dz_bounds_def)
next
  case Waits
  show ?thesis
  proof (cases "await S Parent (comm s)")
    case (Goes c)
    then show ?thesis using Waits inv s' goes_law [of "comm s" Parent c] by (auto simp: dz_inv_def dz_step_def dz_turns_comm)
  next
    case (Returned c)
    have l: "comm_ok c" "tokens (comm s) Parent = 1" "tokens c = (tokens (comm s))(Parent := 0)"
      using returned_law [of "comm s" Parent c] inv Returned by (simp_all add: dz_inv_def)
    have t: "tokens (comm s) Child = 0" "dzpc s Child \<in> {Loops, Waits, Finished}" "ctr s Parent = area s - 2" "ctr s Child = area s + 1" "dz_bounds s"
      using inv Waits l(2) by (auto simp: dz_inv_def dz_turns_def parents_turn_def)
    have "even (ctr s Parent)" "ctr s Parent < NLOOPS" using t(5) Waits by (simp_all add: dz_bounds_def)
    then have n: "ctr s Parent + 2 \<le> NLOOPS" unfolding NLOOPS_def by presburger
    have e: "s' = dz_next Parent (s\<lparr>comm := c\<rparr>)" using s' Waits Returned by (simp add: dz_step_def)
    have "dz_bounds s'" using t(5) n by (simp add: e dz_bounds_def)
    moreover have "parents_turn 0 s'" using t(3,4) by (simp add: e parents_turn_def)
    ultimately have "dz_turns (tokens c) s'" using t(1,2) l(3) by (simp add: e dz_turns_def)
    then show ?thesis using l(1) by (simp add: e dz_inv_def)
  qed (use Waits s' alive_law [of "comm s" Parent] inv in \<open>auto simp: dz_step_def dz_inv_def\<close>)
qed (use s' in \<open>simp_all add: dz_step_def\<close>)

lemma dz_child_turns:
  assumes inv: "dz_inv s" and s': "dz_step S Child s = Some s'"
  shows "dz_inv s'"
proof (cases "dzpc s Child")
  case Loops
  have b: "dz_bounds s" using inv by (simp add: dz_inv_def dz_turns_def)
  have p: "parents_turn t (dz_goto Child x s) = parents_turn t s" for t x by (simp add: parents_turn_def cong: dzpc.case_cong)
  show ?thesis
  proof (cases "ctr s Child < NLOOPS + 1")
    case True
    then have "s' = dz_goto Child Waits s" using s' Loops by (simp add: dz_step_def)
    moreover have "dz_bounds (dz_goto Child Waits s)" using b True by (simp add: dz_bounds_def)
    moreover have "childs_turn t (dz_goto Child Waits s) = childs_turn t s" for t using Loops by (simp add: childs_turn_def)
    ultimately show ?thesis using inv Loops by (auto simp: dz_inv_def dz_turns_def p)
  next
    case False
    then have c: "ctr s Child = NLOOPS + 1" using b by (simp add: dz_bounds_def)
    have "s' = dz_goto Child Finished s" using s' Loops False by (simp add: dz_step_def)
    moreover have "dz_bounds (dz_goto Child Finished s)" using b c by (simp add: dz_bounds_def)
    moreover have "\<not> (dzpc s Parent = Waits \<and> childs_turn t s)" for t using b c Loops by (auto simp: dz_bounds_def childs_turn_def)
    ultimately show ?thesis using inv Loops by (auto simp: dz_inv_def dz_turns_def p)
  qed
next
  case Reads
  have t: "tokens (comm s) Child = 0" "tokens (comm s) Parent = 0" "dzpc s Parent = Waits"
    "ctr s Child = area s" "ctr s Parent = area s - 1" "dz_bounds s" "comm_ok (comm s)"
    using inv Reads by (simp_all add: dz_inv_def dz_turns_def childs_turn_def)
  have e: "s' = dz_goto Child Writes (s\<lparr>counter := (counter s)(Child := area s)\<rparr>)" using s' Reads t by (simp add: dz_step_def)
  have "dz_bounds s'" using t(6) Reads by (simp add: e dz_bounds_def)
  moreover have "childs_turn 0 s'" using t by (simp add: e childs_turn_def)
  ultimately have "dz_turns (tokens (comm s)) s'" using t(1-3) by (simp add: e dz_turns_def)
  then show ?thesis using t by (simp add: e dz_inv_def)
next
  case Writes
  have t: "tokens (comm s) Child = 0" "tokens (comm s) Parent = 0" "dzpc s Parent = Waits"
    "ctr s Child = area s" "ctr s Parent = area s - 1" "counter s Child = area s" "dz_bounds s" "comm_ok (comm s)"
    using inv Writes by (simp_all add: dz_inv_def dz_turns_def childs_turn_def)
  have e: "s' = dz_goto Child Tells (s\<lparr>area := counter s Child + 1\<rparr>)" using s' Writes t by (simp add: dz_step_def)
  have "dz_bounds s'" using t(7) Writes by (simp add: e dz_bounds_def)
  moreover have "childs_turn 0 s'" using t by (simp add: e childs_turn_def)
  ultimately have "dz_turns (tokens (comm s)) s'" using t(1-3) by (simp add: e dz_turns_def)
  then show ?thesis using t by (simp add: e dz_inv_def)
next
  case Tells
  have t: "tokens (comm s) Child = 0" "tokens (comm s) Parent = 0" "dzpc s Parent = Waits"
    "ctr s Child = area s - 1" "ctr s Parent = area s - 2" "dz_bounds s"
    using inv Tells by (simp_all add: dz_inv_def dz_turns_def childs_turn_def)
  moreover have "area s \<le> NLOOPS"
  proof -
    have "even (area s)" "area s - 1 < NLOOPS + 1" using t(4-6) Tells by (auto simp: dz_bounds_def)
    then show ?thesis unfolding NLOOPS_def by presburger
  qed
  moreover have l: "comm_ok (tell S Child (comm s))" "tokens (tell S Child (comm s)) = (tokens (comm s))(Parent := 1)"
    using tell_law [of "comm s" Child] inv t(2) by (simp_all add: dz_inv_def)
  ultimately show ?thesis using s' t Tells
    by (auto simp: dz_inv_def dz_step_def Let_def dz_turns_def parents_turn_def dz_bounds_def)
next
  case Waits
  show ?thesis
  proof (cases "await S Child (comm s)")
    case (Goes c)
    then show ?thesis using Waits inv s' goes_law [of "comm s" Child c] by (auto simp: dz_inv_def dz_step_def dz_turns_comm)
  next
    case (Returned c)
    have l: "comm_ok c" "tokens (comm s) Child = 1" "tokens c = (tokens (comm s))(Child := 0)"
      using returned_law [of "comm s" Child c] inv Returned by (simp_all add: dz_inv_def)
    have t: "tokens (comm s) Parent = 0" "dzpc s Parent = Waits" "ctr s Child = area s" "ctr s Parent = area s - 1" "dz_bounds s"
      using inv Waits l(2) by (auto simp: dz_inv_def dz_turns_def childs_turn_def)
    have e: "s' = dz_goto Child Reads (s\<lparr>comm := c\<rparr>)" using s' Waits Returned by (simp add: dz_step_def)
    have "dz_bounds s'" using t(5) Waits by (simp add: e dz_bounds_def)
    moreover have "childs_turn 0 s'" using t(3,4) by (simp add: e childs_turn_def)
    ultimately have "dz_turns (tokens c) s'" using t(1,2) l(3) by (simp add: e dz_turns_def)
    then show ?thesis using l(1) by (simp add: e dz_inv_def)
  qed (use Waits s' alive_law [of "comm s" Child] inv in \<open>auto simp: dz_step_def dz_inv_def\<close>)
qed (use s' in \<open>simp_all add: dz_step_def\<close>)

text \<open>Every step keeps the turns, and brings the end nearer.\<close>

lemma dz_move_ok:
  assumes inv: "dz_inv s" and m: "dz_move S s s'"
  shows "dz_inv s' \<and> dz_measure s' < dz_measure s"
  using m
proof cases
  case (dz_own p)
  have i: "dz_inv s'" using dz_parent_turns [OF inv] dz_child_turns [OF inv] dz_own by (cases p) auto
  show ?thesis
  proof (cases "dzpc s p = Waits \<and> (\<exists>c. await S p (comm s) = Goes c)")
    case True
    then obtain c where c: "dzpc s p = Waits" "await S p (comm s) = Goes c" by blast
    then have "s' = s\<lparr>comm := c\<rparr>" using dz_own by (simp add: dz_step_def)
    then show ?thesis using i goes_law [of "comm s" p c] c inv by (simp add: dz_inv_def dz_measure_def dz_turns_comm)
  next
    case False
    have "\<exists>c. await S p (comm s) = Returned c" if "dzpc s p = Waits"
      using that False dz_own inv alive_law [of "comm s" p] by (cases "await S p (comm s)") (auto simp: dz_step_def dz_inv_def)
    moreover have "dz_bounds s" using inv by (simp add: dz_inv_def dz_turns_def)
    ultimately have "dz_left p s' < dz_left p s \<and> dz_left (peer p) s' = dz_left (peer p) s" using dz_left_step [OF dz_own] by blast
    then have "dz_left Parent s' + dz_left Child s' < dz_left Parent s + dz_left Child s" by (cases p) auto
    then show ?thesis using i steps_law [of "comm s'"] by (simp add: dz_inv_def dz_measure_def)
  qed
next
  case (dz_signal p c)
  then show ?thesis using inv deliver_law [of "comm s" p c] by (simp add: dz_inv_def dz_turns_comm dz_measure_def)
qed

lemma dz_start_inv: "comm_ok c \<Longrightarrow> tokens c = (\<lambda>_. 0) \<Longrightarrow> dz_inv (dz_start c)"
  by (simp add: dz_inv_def dz_start_def dz_turns_def dz_bounds_def parents_turn_def NLOOPS_def)

lemma dz_run_inv:
  "dz_run S (dz_start c) n s \<Longrightarrow> comm_ok c \<Longrightarrow> tokens c = (\<lambda>_. 0) \<Longrightarrow> dz_inv s \<and> dz_measure s + n \<le> dz_measure (dz_start c)"
proof (induction rule: dz_run.induct)
  case (dz_more n s' s'')
  then show ?case using dz_move_ok [of s' s''] by auto
qed (simp add: dz_start_inv)

text \<open>The processes never quit, never access the memory at the same time, and count right.\<close>

lemma dz_alternates:
  assumes "dz_inv s"
  shows "dzpc s p \<noteq> Quits \<and> (dzpc s Parent \<in> {Reads, Writes} \<longrightarrow> dzpc s Child \<notin> {Reads, Writes})
    \<and> (dzpc s p = Finished \<longrightarrow> area s = NLOOPS)"
  using assms
  by (cases p; cases "dzpc s Parent"; cases "dzpc s Child") (auto simp: dz_inv_def dz_turns_def parents_turn_def childs_turn_def dz_bounds_def)

end

context handoff_again begin

text \<open>While a process has not finished, there is a step.\<close>

lemma dz_goes_on:
  assumes inv: "dz_inv s" and "\<not> (dzpc s Parent = Finished \<and> dzpc s Child = Finished)"
  shows "\<exists>s'. dz_move S s s'"
proof -
  have own: "\<exists>s'. dz_move S s s'" if "dzpc s p \<notin> {Waits, Finished, Quits}" for p
  proof -
    have "\<exists>s'. dz_step S p s = Some s'" using that by (cases p; cases "dzpc s p") (auto simp: dz_step_def Let_def)
    then show ?thesis using dz_move.dz_own by blast
  qed
  have wait: "\<exists>s'. dz_move S s s'" if "dzpc s p = Waits" "tokens (comm s) p = 1" for p
  proof -
    have "await S p (comm s) \<noteq> Blocked \<or> deliver S p (comm s) \<noteq> None"
      using ready_law [of "comm s" p] armed_law [of "comm s" p] that inv by (simp add: dz_inv_def)
    then show ?thesis
    proof
      assume "await S p (comm s) \<noteq> Blocked"
      then have "\<exists>s'. dz_step S p s = Some s'" using that by (cases p; cases "await S p (comm s)") (auto simp: dz_step_def)
      then show ?thesis using dz_move.dz_own by blast
    next
      assume "deliver S p (comm s) \<noteq> None"
      then obtain c where "deliver S p (comm s) = Some c" by blast
      from dz_move.dz_signal [of S, OF this] show ?thesis by blast
    qed
  qed
  show ?thesis
  proof (rule ccontr)
    assume n: "\<not> (\<exists>s'. dz_move S s s')"
    then have "dzpc s p \<in> {Waits, Finished, Quits}" "dzpc s p = Waits \<Longrightarrow> tokens (comm s) p \<noteq> 1" for p using own wait by blast+
    note this [of Parent] this [of Child]
    then have stuck: "dzpc s Parent \<in> {Waits, Finished, Quits}" "dzpc s Child \<in> {Waits, Finished, Quits}"
      "dzpc s Parent = Waits \<Longrightarrow> tokens (comm s) Parent \<noteq> 1" "dzpc s Child = Waits \<Longrightarrow> tokens (comm s) Child \<noteq> 1" by blast+
    have b: "dz_bounds s" using inv by (simp add: dz_inv_def dz_turns_def)
    from inv show False unfolding dz_inv_def dz_turns_def
    proof (elim conjE disjE)
      assume "parents_turn (tokens (comm s) Parent) s"
      then have "dzpc s Parent = Finished" "ctr s Child = NLOOPS + 1" using stuck(1,3) by (auto simp: parents_turn_def)
      then show False using stuck(2) assms(2) b inv by (auto simp: dz_bounds_def dz_inv_def dz_turns_def)
    next
      assume "childs_turn (tokens (comm s) Child) s"
      then show False using stuck(2,4) by (auto simp: childs_turn_def)
    qed
  qed
qed

end

section \<open>One after the other (proc/tellwait2.c)\<close>

text \<open>\<open>Puts r\<close>: in \<^verbatim>\<open>charatatime\<close>, with \<open>r\<close> left to write.\<close>

datatype twpc = Awaits | Puts string | Telling | Exits

record 'c tw =
  out :: string
  chan :: 'c
  twpc :: "who \<Rightarrow> twpc"

definition parent_text :: string where "parent_text = ''output from parent'' @ [CHR 10]"
definition child_text :: string where "child_text = ''output from child'' @ [CHR 10]"

definition tw_goto :: "who \<Rightarrow> twpc \<Rightarrow> 'c tw \<Rightarrow> 'c tw" where
  "tw_goto p x s = s\<lparr>twpc := (twpc s)(p := x)\<rparr>"

definition tw_start :: "'c \<Rightarrow> 'c tw" where
  "tw_start c = \<lparr>out = [], chan = c, twpc = (\<lambda>p. case p of Parent \<Rightarrow> Puts parent_text | Child \<Rightarrow> Awaits)\<rparr>"

text \<open>Every \<^verbatim>\<open>putc\<close> is a \<^verbatim>\<open>write\<close> of its own, because the output has no buffer.\<close>

definition tw_step :: "'c sync \<Rightarrow> who \<Rightarrow> 'c tw \<Rightarrow> 'c tw option" where
  "tw_step S p s =
     (case twpc s p of
        Awaits \<Rightarrow>
          (case await S p (chan s) of
             Blocked \<Rightarrow> None
           | Goes c \<Rightarrow> Some (s\<lparr>chan := c\<rparr>)
           | Dies m \<Rightarrow> Some (tw_goto p Exits s)
           | Returned c \<Rightarrow> Some (tw_goto p (Puts child_text) (s\<lparr>chan := c\<rparr>)))
      | Puts r \<Rightarrow>
          (case r of
             [] \<Rightarrow> Some (tw_goto p (case p of Parent \<Rightarrow> Telling | Child \<Rightarrow> Exits) s)
           | x # r \<Rightarrow> Some (tw_goto p (Puts r) (s\<lparr>out := out s @ [x]\<rparr>)))
      | Telling \<Rightarrow> Some (tw_goto p Exits (s\<lparr>chan := tell S p (chan s)\<rparr>))
      | Exits \<Rightarrow> None)"

inductive tw_move :: "'c sync \<Rightarrow> 'c tw \<Rightarrow> 'c tw \<Rightarrow> bool" for S where
  tw_own: "tw_step S p s = Some s' \<Longrightarrow> tw_move S s s'"
| tw_signal: "deliver S p (chan s) = Some c \<Longrightarrow> tw_move S s (s\<lparr>chan := c\<rparr>)"

inductive tw_run :: "'c sync \<Rightarrow> 'c tw \<Rightarrow> nat \<Rightarrow> 'c tw \<Rightarrow> bool" for S s where
  tw_none: "tw_run S s 0 s"
| tw_more: "tw_run S s n s' \<Longrightarrow> tw_move S s' s'' \<Longrightarrow> tw_run S s (Suc n) s''"

lemma tw_goto_simps [simp]:
  "twpc (tw_goto p x s) = (twpc s)(p := x)" "chan (tw_goto p x s) = chan s" "out (tw_goto p x s) = out s"
  by (simp_all add: tw_goto_def)

text \<open>Who writes, what is left, and how often the child was told.\<close>

definition tw_order :: "nat \<Rightarrow> 'c tw \<Rightarrow> bool" where
  "tw_order t s \<longleftrightarrow>
     (case twpc s Child of
        Awaits \<Rightarrow>
          (case twpc s Parent of
             Awaits \<Rightarrow> False
           | Puts r \<Rightarrow> t = 0 \<and> out s @ r = parent_text
           | Telling \<Rightarrow> t = 0 \<and> out s = parent_text
           | Exits \<Rightarrow> t = 1 \<and> out s = parent_text)
      | Puts r \<Rightarrow> twpc s Parent = Exits \<and> out s @ r = parent_text @ child_text
      | Telling \<Rightarrow> False
      | Exits \<Rightarrow> twpc s Parent = Exits \<and> out s = parent_text @ child_text)"

definition tw_left :: "who \<Rightarrow> 'c tw \<Rightarrow> nat" where
  "tw_left p s = (case twpc s p of Awaits \<Rightarrow> length child_text + 3 | Puts r \<Rightarrow> length r + 2 | Telling \<Rightarrow> 1 | Exits \<Rightarrow> 0)"

context handoff begin

definition tw_inv :: "'c tw \<Rightarrow> bool" where
  "tw_inv s \<longleftrightarrow> comm_ok (chan s) \<and> tw_order (tokens (chan s) Child) s \<and> (twpc s Child = Awaits \<longrightarrow> armed (chan s) Child)"

definition tw_measure :: "'c tw \<Rightarrow> nat" where
  "tw_measure s = (tw_left Parent s + tw_left Child s) * 13 + steps (chan s)"

lemma tw_chan: "tw_order t (s\<lparr>chan := c\<rparr>) = tw_order t s" "tw_left p (s\<lparr>chan := c\<rparr>) = tw_left p s"
  by (simp_all add: tw_order_def tw_left_def cong: twpc.case_cong)

lemma tw_measure_less:
  "comm_ok (chan s') \<Longrightarrow> tw_left Parent s' + tw_left Child s' < tw_left Parent s + tw_left Child s \<Longrightarrow> tw_measure s' < tw_measure s"
  using steps_law [of "chan s'"] by (simp add: tw_measure_def)

lemma tw_moved:
  assumes "comm_ok (chan s')" "tw_order (tokens (chan s') Child) s'" "twpc s' Child = Awaits \<longrightarrow> armed (chan s') Child"
    and "tw_left Parent s' + tw_left Child s' < tw_left Parent s + tw_left Child s"
  shows "tw_inv s' \<and> tw_measure s' < tw_measure s"
  using assms tw_measure_less by (simp add: tw_inv_def)

lemma tw_parent:
  assumes inv: "tw_inv s" and s': "tw_step S Parent s = Some s'"
  shows "tw_inv s' \<and> tw_measure s' < tw_measure s"
proof (cases "twpc s Parent")
  case Awaits
  then have False using inv by (auto simp: tw_inv_def tw_order_def split: twpc.splits)
  then show ?thesis by simp
next
  case (Puts r)
  then have i: "twpc s Child = Awaits" "tokens (chan s) Child = 0" "out s @ r = parent_text" "comm_ok (chan s)" "armed (chan s) Child"
    using inv by (auto simp: tw_inv_def tw_order_def split: twpc.splits)
  show ?thesis
  proof (cases r)
    case Nil
    then have e: "s' = tw_goto Parent Telling s" using s' Puts by (simp add: tw_step_def)
    show ?thesis unfolding e by (rule tw_moved) (use i Puts Nil in \<open>simp_all add: tw_order_def tw_left_def\<close>)
  next
    case (Cons x q)
    then have e: "s' = tw_goto Parent (Puts q) (s\<lparr>out := out s @ [x]\<rparr>)" using s' Puts by (simp add: tw_step_def)
    show ?thesis unfolding e by (rule tw_moved) (use i Puts Cons in \<open>simp_all add: tw_order_def tw_left_def\<close>)
  qed
next
  case Telling
  then have i: "twpc s Child = Awaits" "tokens (chan s) Child = 0" "out s = parent_text" "comm_ok (chan s)" "armed (chan s) Child"
    using inv by (auto simp: tw_inv_def tw_order_def split: twpc.splits)
  have e: "s' = tw_goto Parent Exits (s\<lparr>chan := tell S Parent (chan s)\<rparr>)" using s' Telling by (simp add: tw_step_def)
  show ?thesis unfolding e by (rule tw_moved) (use i Telling tell_law [of "chan s" Parent] in \<open>simp_all add: tw_order_def tw_left_def\<close>)
qed (use s' in \<open>simp add: tw_step_def\<close>)

lemma tw_child:
  assumes inv: "tw_inv s" and s': "tw_step S Child s = Some s'"
  shows "tw_inv s' \<and> tw_measure s' < tw_measure s"
proof (cases "twpc s Child")
  case Awaits
  have i: "comm_ok (chan s)" "armed (chan s) Child" "tw_order (tokens (chan s) Child) s" using inv Awaits by (simp_all add: tw_inv_def)
  show ?thesis
  proof (cases "await S Child (chan s)")
    case (Goes c)
    then have "s' = s\<lparr>chan := c\<rparr>" using s' Awaits by (simp add: tw_step_def)
    then show ?thesis using i goes_law [of "chan s" Child c] Goes by (simp add: tw_inv_def tw_chan tw_measure_def)
  next
    case (Returned c)
    note l = returned_law [OF i(1) Returned]
    have "tokens (chan s) Child = 1" using l by simp
    then have p: "twpc s Parent = Exits" "out s = parent_text" using i(3) Awaits by (cases "twpc s Parent"; simp add: tw_order_def)+
    have e: "s' = tw_goto Child (Puts child_text) (s\<lparr>chan := c\<rparr>)" using s' Awaits Returned by (simp add: tw_step_def)
    show ?thesis unfolding e by (rule tw_moved) (use p l Awaits in \<open>simp_all add: tw_order_def tw_left_def\<close>)
  qed (use s' Awaits alive_law [OF i(1)] in \<open>auto simp: tw_step_def\<close>)
next
  case (Puts r)
  then have i: "twpc s Parent = Exits" "out s @ r = parent_text @ child_text" "comm_ok (chan s)"
    using inv by (auto simp: tw_inv_def tw_order_def)
  show ?thesis
  proof (cases r)
    case Nil
    then have e: "s' = tw_goto Child Exits s" using s' Puts by (simp add: tw_step_def)
    show ?thesis unfolding e by (rule tw_moved) (use i Puts Nil in \<open>simp_all add: tw_order_def tw_left_def\<close>)
  next
    case (Cons x q)
    then have e: "s' = tw_goto Child (Puts q) (s\<lparr>out := out s @ [x]\<rparr>)" using s' Puts by (simp add: tw_step_def)
    show ?thesis unfolding e by (rule tw_moved) (use i Puts Cons in \<open>simp_all add: tw_order_def tw_left_def\<close>)
  qed
next
  case Telling
  then have False using inv by (simp add: tw_inv_def tw_order_def)
  then show ?thesis by simp
qed (use s' in \<open>simp add: tw_step_def\<close>)

lemma tw_move_ok: "tw_inv s \<Longrightarrow> tw_move S s s' \<Longrightarrow> tw_inv s' \<and> tw_measure s' < tw_measure s"
proof (erule tw_move.cases)
  fix p u u'
  assume "tw_inv s" "s = u" "s' = u'" "tw_step S p u = Some u'"
  then show "tw_inv s' \<and> tw_measure s' < tw_measure s" by (cases p) (use tw_parent in blast, use tw_child in blast)
next
  fix p u c
  assume "tw_inv s" "s = u" "s' = u\<lparr>chan := c\<rparr>" "deliver S p (chan u) = Some c"
  then show "tw_inv s' \<and> tw_measure s' < tw_measure s" using deliver_law [of "chan s" p c] by (simp add: tw_inv_def tw_chan tw_measure_def)
qed

lemma tw_run_inv:
  "tw_run S (tw_start c) n s \<Longrightarrow> comm_ok c \<Longrightarrow> tokens c Child = 0 \<Longrightarrow> armed c Child \<Longrightarrow> tw_inv s \<and> tw_measure s + n \<le> tw_measure (tw_start c)"
proof (induction rule: tw_run.induct)
  case tw_none
  then show ?case by (simp add: tw_inv_def tw_start_def tw_order_def)
next
  case (tw_more n s' s'')
  then show ?case using tw_move_ok [of s' s''] by auto
qed

text \<open>When no step is left, both have written.\<close>

lemma tw_stuck:
  assumes inv: "tw_inv s" and n: "\<nexists>s'. tw_move S s s'"
  shows "twpc s Parent = Exits \<and> twpc s Child = Exits \<and> out s = parent_text @ child_text"
proof -
  have no: "tw_step S p s = None" "deliver S p (chan s) = None" for p
    using n tw_own [of S p s] tw_signal [of S p s] by (metis not_None_eq)+
  have p: "twpc s Parent = Exits"
    using no(1) [of Parent] inv by (cases "twpc s Parent") (auto simp: tw_step_def tw_inv_def tw_order_def split: twpc.splits list.splits)
  show ?thesis
  proof (cases "twpc s Child")
    case Awaits
    then have "tokens (chan s) Child = 1" "comm_ok (chan s)" "armed (chan s) Child" using inv p by (simp_all add: tw_inv_def tw_order_def)
    then have "await S Child (chan s) \<noteq> Blocked" using ready_law no(2) by blast
    then have False using no(1) [of Child] Awaits by (simp add: tw_step_def split: wait_step.splits)
    then show ?thesis by simp
  next
    case (Puts r)
    then show ?thesis using no(1) [of Child] by (simp add: tw_step_def split: list.splits)
  qed (use inv p in \<open>simp_all add: tw_inv_def tw_order_def\<close>)
qed

lemma tw_prefix:
  assumes "tw_inv s"
  shows "\<exists>r. out s @ r = parent_text @ child_text"
proof -
  have "\<exists>r. out s @ r = parent_text \<or> out s @ r = parent_text @ child_text"
    using assms by (auto simp: tw_inv_def tw_order_def split: twpc.splits)
  then show ?thesis by (metis append_assoc)
qed

end

section \<open>Properties\<close>

lemma sig_start_ok: "sig_ok (sig_tell_wait old)" "sig_tokens (sig_tell_wait old) = (\<lambda>_. 0)" "sig_masked (sig_tell_wait True)" "blocked (sig_tell_wait old) p"
  by (simp_all add: sig_ok_def sig_tokens_def sig_tell_wait_def sig_masked_def fun_eq_iff)

lemma pipe_start_ok: "pipe_ok pipe_tell_wait" "pipe_tokens pipe_tell_wait = (\<lambda>_. 0)"
proof -
  show "pipe_ok pipe_tell_wait" by (simp add: pipe_ok_def pipe_tell_wait_def)
  have "pipe_tokens pipe_tell_wait p = 0" for p by (cases p) (simp_all add: pipe_tell_wait_def)
  then show "pipe_tokens pipe_tell_wait = (\<lambda>_. 0)" by blast
qed

text \<open>Runs by a schedule: the process that makes the next step, or that a signal is delivered to.\<close>

datatype sched = Own who | Signal who

fun dz_exec :: "'c sync \<Rightarrow> sched list \<Rightarrow> 'c dz \<Rightarrow> 'c dz option" where
  "dz_exec S [] s = Some s"
| "dz_exec S (Own p # ts) s = (case dz_step S p s of None \<Rightarrow> None | Some s \<Rightarrow> dz_exec S ts s)"
| "dz_exec S (Signal p # ts) s = (case deliver S p (comm s) of None \<Rightarrow> None | Some c \<Rightarrow> dz_exec S ts (s\<lparr>comm := c\<rparr>))"

lemma dz_exec_from: "dz_exec S ts u = Some s' \<Longrightarrow> dz_run S s n u \<Longrightarrow> dz_run S s (n + length ts) s'"
proof (induction S ts u arbitrary: n rule: dz_exec.induct)
  case (2 S p ts u)
  then obtain v where v: "dz_step S p u = Some v" "dz_exec S ts v = Some s'" by (auto split: option.splits)
  have "dz_run S s (Suc n) v" using "2.prems"(2) dz_own [OF v(1)] by (rule dz_more)
  from "2.IH" [OF v this] show ?case by simp
next
  case (3 S p ts u)
  then obtain c where c: "deliver S p (comm u) = Some c" "dz_exec S ts (u\<lparr>comm := c\<rparr>) = Some s'" by (auto split: option.splits)
  have "dz_run S s (Suc n) (u\<lparr>comm := c\<rparr>)" using "3.prems"(2) dz_signal [OF c(1)] by (rule dz_more)
  from "3.IH" [OF c this] show ?case by simp
qed simp

lemma dz_exec_run: "dz_exec S ts s = Some s' \<Longrightarrow> dz_run S s (length ts) s'"
  using dz_exec_from [OF _ dz_none] by fastforce

text \<open>Nobody has quit, at most one process accesses the shared memory, and one that is finished leaves the full count.\<close>

definition dz_in_turn :: "'c dz \<Rightarrow> bool" where
  "dz_in_turn s \<longleftrightarrow> dzpc s Parent \<noteq> Quits \<and> dzpc s Child \<noteq> Quits
     \<and> \<not> (dzpc s Parent \<in> {Reads, Writes} \<and> dzpc s Child \<in> {Reads, Writes})
     \<and> (dzpc s Parent = Finished \<or> dzpc s Child = Finished \<longrightarrow> area s = NLOOPS)"

definition dz_done :: "'c dz \<Rightarrow> bool" where
  "dz_done s \<longleftrightarrow> dzpc s Parent = Finished \<and> dzpc s Child = Finished \<and> area s = NLOOPS"

text \<open>C33: in every interleaving of the processes of ipc1/devzero.c, with the functions of lib/tellwait.c or of ipc1/tellwait.c,
  they access the shared memory one at a time, and the counter is always what the process expects.\<close>

theorem devzero_in_turn:
  "(dz_run signals (dz_start (sig_tell_wait old)) n s \<longrightarrow> dz_in_turn s) \<and> (dz_run pipes (dz_start pipe_tell_wait) m r \<longrightarrow> dz_in_turn r)"
proof (intro conjI impI)
  assume "dz_run signals (dz_start (sig_tell_wait old)) n s"
  then have "sig.dz_inv s" using sig.dz_run_inv sig_start_ok(1,2) by blast
  then show "dz_in_turn s" using sig.dz_alternates [of s Parent] sig.dz_alternates [of s Child] by (auto simp: dz_in_turn_def)
next
  assume "dz_run pipes (dz_start pipe_tell_wait) m r"
  then have "piped.dz_inv r" using piped.dz_run_inv pipe_start_ok by blast
  then show "dz_in_turn r" using piped.dz_alternates [of r Parent] piped.dz_alternates [of r Child] by (auto simp: dz_in_turn_def)
qed

text \<open>A bounded run has a last step.\<close>

lemma last_step: "P 0 \<Longrightarrow> (\<And>m. P m \<Longrightarrow> m < b) \<Longrightarrow> \<exists>m. P m \<and> \<not> P (Suc m)" for b :: nat
  by (metis less_irrefl nat_induct)

text \<open>A schedule of the first turns of both, up to the second wait of the child: it has seen that \<^verbatim>\<open>sigflag\<close> is 0.
  The parent goes on with its second turn, and its signal comes before the child calls \<^verbatim>\<open>sigsuspend\<close>.\<close>

definition lost_turn :: "sched list" where
  "lost_turn =
     [Own Parent, Own Parent, Own Parent, Own Parent] @
     [Own Child, Own Child, Own Child, Signal Child, Own Child, Own Child, Own Child, Own Child, Own Child, Own Child, Own Child, Own Child] @
     [Own Parent, Own Parent, Signal Parent, Own Parent, Own Parent, Own Parent, Own Parent, Own Parent, Own Parent, Own Parent] @
     [Signal Child, Own Child, Own Parent, Own Parent]"

lemmas dz_eval = dz_start_def sig_tell_wait_def dz_step_def signals_def sig_tell_def sig_wait_def sig_deliver_def dz_goto_def dz_next_def NLOOPS_def Let_def

lemma lost_turn_run:
  "\<exists>s. dz_exec signals lost_turn (dz_start (sig_tell_wait False)) = Some s \<and> dzpc s = (\<lambda>_. Waits)
     \<and> wpc (comm s) = (\<lambda>_. Suspended) \<and> pending (comm s) = (\<lambda>_. False) \<and> sigflag (comm s) Child"
  by (simp add: lost_turn_def dz_eval fun_eq_iff all_who)

theorem devzero_in_turn_witness:
  "\<exists>s. dz_run signals (dz_start (sig_tell_wait False)) (length lost_turn) s \<and> dzpc s Parent = Waits \<and> dz_in_turn s"
proof -
  obtain s where s: "dz_exec signals lost_turn (dz_start (sig_tell_wait False)) = Some s" "dzpc s = (\<lambda>_. Waits)"
    using lost_turn_run by blast
  from dz_exec_run [OF s(1)] devzero_in_turn [of False "length lost_turn" s 0 "dz_start pipe_tell_wait"] s(2) show ?thesis by auto
qed

lemma both_suspended:
  assumes "dzpc s = (\<lambda>_. Waits)" "wpc (comm s) = (\<lambda>_. Suspended)" "pending (comm s) = (\<lambda>_. False)"
  shows "\<nexists>s'. dz_move signals s s'"
  using assms by (auto elim!: dz_move.cases simp: dz_step_def signals_def sig_wait_def sig_deliver_def)

text \<open>With the functions of lib/tellwait.c the processes may wait for each other for ever. \<^verbatim>\<open>WAIT_PARENT\<close> and
  \<^verbatim>\<open>WAIT_CHILD\<close> set the signal mask back that \<^verbatim>\<open>TELL_WAIT\<close> found, so in a second wait the signal may come between the
  test of \<^verbatim>\<open>sigflag\<close> and \<^verbatim>\<open>sigsuspend\<close>, which then does not return.\<close>

theorem devzero_may_hang:
  "\<exists>n s. dz_run signals (dz_start (sig_tell_wait False)) n s \<and> dzpc s Parent = Waits \<and> dzpc s Child = Waits \<and> (\<nexists>s'. dz_move signals s s')"
proof -
  obtain s where s: "dz_exec signals lost_turn (dz_start (sig_tell_wait False)) = Some s"
    "dzpc s = (\<lambda>_. Waits)" "wpc (comm s) = (\<lambda>_. Suspended)" "pending (comm s) = (\<lambda>_. False)"
    using lost_turn_run by blast
  show ?thesis
    by (intro exI [of _ "length lost_turn"] exI [of _ s] conjI) (use dz_exec_run [OF s(1)] both_suspended [OF s(2-4)] s(2) in simp_all)
qed

text \<open>C34: with the pipes of ipc1/tellwait.c, and with signals the program had blocked before \<^verbatim>\<open>TELL_WAIT\<close>, every
  interleaving ends, after less than 131,000 steps, and then both processes have finished and the count is complete.\<close>

lemma dz_left_start: "dz_left Parent (dz_start c) + dz_left Child (dz_start c) = 10037"
  by (simp add: dz_left_def dz_start_def NLOOPS_def)

theorem devzero_ends:
  "(dz_run pipes (dz_start pipe_tell_wait) m r \<longrightarrow> m < 131000 \<and> ((\<nexists>r'. dz_move pipes r r') \<longrightarrow> dz_done r))
    \<and> (dz_run signals (dz_start (sig_tell_wait True)) n s \<longrightarrow> n < 131000 \<and> ((\<nexists>s'. dz_move signals s s') \<longrightarrow> dz_done s))"
proof (intro conjI impI)
  assume "dz_run pipes (dz_start pipe_tell_wait) m r"
  then have "piped.dz_inv r \<and> piped.dz_measure r + m \<le> piped.dz_measure (dz_start pipe_tell_wait)"
    using piped.dz_run_inv pipe_start_ok by blast
  then show "m < 131000" "\<nexists>r'. dz_move pipes r r' \<Longrightarrow> dz_done r"
    using piped.dz_goes_on [of r] piped.dz_alternates [of r Parent] unfolding piped.dz_measure_def dz_left_start by (auto simp: dz_done_def)
next
  assume "dz_run signals (dz_start (sig_tell_wait True)) n s"
  then have "masked.dz_inv s \<and> masked.dz_measure s + n \<le> masked.dz_measure (dz_start (sig_tell_wait True))"
    using masked.dz_run_inv sig_start_ok by blast
  moreover have "sig_steps (comm (dz_start (sig_tell_wait True))) = 10" by (simp add: dz_start_def sig_tell_wait_def sig_steps_def sig_steps_of_def)
  ultimately show "n < 131000" "\<nexists>s'. dz_move signals s s' \<Longrightarrow> dz_done s"
    using masked.dz_goes_on [of s] masked.dz_alternates [of s Parent] unfolding masked.dz_measure_def dz_left_start by (auto simp: dz_done_def)
qed

theorem devzero_ends_witness: "\<exists>m r. dz_run pipes (dz_start pipe_tell_wait) m r \<and> dz_done r"
proof -
  let ?run = "dz_run pipes (dz_start pipe_tell_wait)" and ?s = "dz_start (sig_tell_wait True)"
  have "\<exists>m. (\<exists>r. ?run m r) \<and> \<not> (\<exists>r. ?run (Suc m) r)"
    by (rule last_step [where b = 131000]) (use devzero_ends [of _ _ 0 ?s] dz_none in blast)+
  then obtain m r where "?run m r" "\<nexists>r'. dz_move pipes r r'" using dz_more by metis
  then show ?thesis using devzero_ends [of m r 0 ?s] by blast
qed

text \<open>the output of proc/tellwait2.c is always a beginning of the parent's line and the child's after it; every
  interleaving ends, after at most 700 steps, with both lines written, whatever signal mask the program started with.\<close>

theorem tellwait2_in_order:
  "tw_run signals (tw_start (sig_tell_wait old)) n s \<longrightarrow>
     (\<exists>r. out s @ r = parent_text @ child_text) \<and> n \<le> 700
     \<and> ((\<nexists>s'. tw_move signals s s') \<longrightarrow> twpc s Parent = Exits \<and> twpc s Child = Exits \<and> out s = parent_text @ child_text)"
proof (intro impI)
  assume r: "tw_run signals (tw_start (sig_tell_wait old)) n s"
  have i: "sig.tw_inv s \<and> sig.tw_measure s + n \<le> sig.tw_measure (tw_start (sig_tell_wait old))"
    using sig.tw_run_inv [OF r] sig_start_ok by simp
  have "sig.tw_measure (tw_start (sig_tell_wait old)) \<le> 700"
    by (simp add: sig.tw_measure_def tw_left_def tw_start_def sig_tell_wait_def sig_steps_def sig_steps_of_def parent_text_def child_text_def)
  then show "(\<exists>r. out s @ r = parent_text @ child_text) \<and> n \<le> 700
     \<and> ((\<nexists>s'. tw_move signals s s') \<longrightarrow> twpc s Parent = Exits \<and> twpc s Child = Exits \<and> out s = parent_text @ child_text)"
    using sig.tw_prefix sig.tw_stuck i by auto
qed

theorem tellwait2_in_order_witness:
  "\<exists>n s. tw_run signals (tw_start (sig_tell_wait False)) n s \<and> out s = parent_text @ child_text"
proof -
  let ?run = "tw_run signals (tw_start (sig_tell_wait False))"
  have "\<exists>n. (\<exists>s. ?run n s) \<and> \<not> (\<exists>s. ?run (Suc n) s)"
    by (rule last_step [where b = 701]) (use tellwait2_in_order [of False] tw_none in \<open>force+\<close>)
  then obtain n s where "?run n s" "\<nexists>s'. tw_move signals s s'" using tw_more by metis
  then show ?thesis using tellwait2_in_order [of False n s] by blast
qed

end
