(* ===== verification/Limits.thy ===== *)
theory Limits imports FileWalk begin

text \<open>
  The limits of lib/openmax.c and lib/pathalloc.c, which the first call asks the system for, and the walk of
  filedir/ftw8.c with the size it returns.
\<close>

section \<open>lib/openmax.c\<close>

definition OPEN_MAX_GUESS :: int where "OPEN_MAX_GUESS = 256"

text \<open>What \<^verbatim>\<open>sysconf\<close> and \<^verbatim>\<open>pathconf\<close> answer: a limit; -1 without an error, when there is none; or -1 and an error.\<close>

datatype limit = Limit int | Indeterminate | Failed

text \<open>The variable \<^verbatim>\<open>openmax\<close> is \<^verbatim>\<open>OPEN_MAX\<close> at first, or 0 where that is not defined.\<close>

definition open_max :: "limit \<Rightarrow> int \<Rightarrow> (int \<times> int) res" where
  "open_max sysconf openmax =
     (if openmax = 0 then
        (case sysconf of
           Limit n \<Rightarrow> Inr (n, n)
         | Indeterminate \<Rightarrow> Inr (OPEN_MAX_GUESS, OPEN_MAX_GUESS)
         | Failed \<Rightarrow> Inl (Sys ''sysconf error for _SC_OPEN_MAX''))
      else Inr (openmax, openmax))"

section \<open>lib/pathalloc.c\<close>

definition PATH_MAX_GUESS :: int where "PATH_MAX_GUESS = 1024"

record pathst =
  pathmax :: int
  posix_version :: int
  xsi_version :: int

text \<open>The versions \<^verbatim>\<open>sysconf\<close> tells, and what \<^verbatim>\<open>pathconf\<close> answers for the root directory.\<close>

record pathsys =
  sc_version :: int
  sc_xopen_version :: int
  pc_path_max :: limit
  malloc_ok :: "int \<Rightarrow> bool"

text \<open>\<open>sz\<close> is what \<^verbatim>\<open>malloc\<close> is asked for and what is stored at \<^verbatim>\<open>sizep\<close>.\<close>

definition path_alloc :: "pathsys \<Rightarrow> pathst \<Rightarrow> (int \<times> pathst) res" where
  "path_alloc a s =
     (let s = (if posix_version s = 0 then s\<lparr>posix_version := sc_version a\<rparr> else s);
          s = (if xsi_version s = 0 then s\<lparr>xsi_version := sc_xopen_version a\<rparr> else s) in
      rbind
        (if pathmax s = 0 then
           (case pc_path_max a of
              Limit n \<Rightarrow> Inr (s\<lparr>pathmax := n + 1\<rparr>)
            | Indeterminate \<Rightarrow> Inr (s\<lparr>pathmax := PATH_MAX_GUESS\<rparr>)
            | Failed \<Rightarrow> Inl (Sys ''pathconf error for _PC_PATH_MAX''))
         else Inr s)
        (\<lambda>s. let sz = (if posix_version s < 200112 \<and> xsi_version s < 4 then pathmax s + 1 else pathmax s) in
           if malloc_ok a sz then Inr (sz, s) else Inl (Sys ''malloc error for pathname'')))"

section \<open>The limits do not change\<close>

lemma path_alloc_kept:
  assumes "path_alloc a s = Inr (sz, s')" "pathmax s' \<noteq> 0" "posix_version s' \<noteq> 0" "xsi_version s' \<noteq> 0"
  shows "path_alloc b s' = (if malloc_ok b sz then Inr (sz, s') else Inl (Sys ''malloc error for pathname''))"
  using assms unfolding path_alloc_def
  by (simp add: Let_def rbind_eq_Inr split: if_splits limit.splits) (auto simp: Let_def split: if_splits)

text \<open>Unless \<^verbatim>\<open>PATH_MAX\<close> is smaller than POSIX allows, the buffer has room for a path of 256 bytes.\<close>

definition path_limits :: "pathsys \<Rightarrow> pathst \<Rightarrow> bool" where
  "path_limits a s \<longleftrightarrow> (pathmax s = 0 \<or> 257 \<le> pathmax s) \<and> (\<forall>n. pc_path_max a = Limit n \<longrightarrow> 256 \<le> n)"

lemma path_alloc_room:
  assumes "path_limits a s" "path_alloc a s = Inr (sz, s')"
  shows "257 \<le> sz \<and> pathmax s' \<noteq> 0"
  using assms unfolding path_alloc_def path_limits_def
  by (simp add: Let_def rbind_eq_Inr split: if_splits limit.splits) (auto simp: PATH_MAX_GUESS_def split: if_splits)

section \<open>Properties\<close>

text \<open>C35: with the buffer that \<^verbatim>\<open>path_alloc\<close> allocates, the walk of filedir/ftw8.c makes the calls of \<open>visits\<close>, and the
  next call of \<^verbatim>\<open>path_alloc\<close> allocates as much, whatever the system answers then.\<close>

theorem ftw_path_alloc:
  assumes "path_alloc a s = Inr (sz, s')" "path_limits a s" "names_ok t"
    and "sc_version a \<noteq> 0" "sc_xopen_version a \<noteq> 0"
  shows "(case myftw mem (nat sz) pathname func t c of
            Inl e \<Rightarrow> e = Sys ''realloc failed'' \<and> (\<exists>k. \<not> mem k)
          | Inr r \<Rightarrow> r = run_calls func (visits pathname t) c)
    \<and> (malloc_ok b sz \<longrightarrow> path_alloc b s' = Inr (sz, s'))"
proof
  note r = path_alloc_room [OF assms(2,1)]
  then have "257 \<le> nat sz" by (simp add: le_nat_iff)
  then show "case myftw mem (nat sz) pathname func t c of
            Inl e \<Rightarrow> e = Sys ''realloc failed'' \<and> (\<exists>k. \<not> mem k)
          | Inr r \<Rightarrow> r = run_calls func (visits pathname t) c"
    using myftw_walk [OF assms(3), of "nat sz" mem pathname func c] by auto
  have "posix_version s' \<noteq> 0" "xsi_version s' \<noteq> 0"
    using assms(1,4,5) unfolding path_alloc_def
    by (simp_all add: Let_def rbind_eq_Inr split: if_splits limit.splits) (auto split: if_splits)
  then show "malloc_ok b sz \<longrightarrow> path_alloc b s' = Inr (sz, s')" using path_alloc_kept [OF assms(1)] r by simp
qed

definition linux_sys :: pathsys where
  "linux_sys = \<lparr>sc_version = 200809, sc_xopen_version = 700, pc_path_max = Limit 4096, malloc_ok = \<lambda>n. n < 10000\<rparr>"

definition path_start :: pathst where "path_start = \<lparr>pathmax = 0, posix_version = 0, xsi_version = 0\<rparr>"

theorem ftw_path_alloc_witness:
  "\<exists>s'. path_alloc linux_sys path_start = Inr (4097, s') \<and> path_alloc linux_sys s' = Inr (4097, s')
     \<and> (case myftw all_mem 4097 ''t'' myfunc ftw_tree no_counts of
          Inl e \<Rightarrow> e = Sys ''realloc failed'' \<and> (\<exists>k. \<not> all_mem k)
        | Inr r \<Rightarrow> r = run_calls myfunc (visits ''t'' ftw_tree) no_counts)"
proof -
  obtain s' where p: "path_alloc linux_sys path_start = Inr (4097, s')"
    by (simp add: path_alloc_def linux_sys_def path_start_def Let_def)
  have l: "path_limits linux_sys path_start" by (simp add: path_limits_def linux_sys_def path_start_def)
  have n: "names_ok ftw_tree" by (simp add: ftw_tree_def NAME_MAX_def)
  have v: "sc_version linux_sys \<noteq> 0" "sc_xopen_version linux_sys \<noteq> 0" "malloc_ok linux_sys 4097" by (simp_all add: linux_sys_def)
  from ftw_path_alloc [OF p l n v(1,2), where mem = all_mem and pathname = "''t''" and func = myfunc and c = no_counts and b = linux_sys] p v(3) show ?thesis by auto
qed

text \<open>\<^verbatim>\<open>open_max\<close> asks the system once, and returns the same limit each time.\<close>

theorem open_max_kept:
  assumes "open_max q openmax = Inr (m, openmax')" "m \<noteq> 0"
  shows "open_max q' openmax' = Inr (m, openmax')"
    and "(openmax = 0 \<longrightarrow> q = Limit m \<or> q = Indeterminate \<and> m = OPEN_MAX_GUESS)"
  using assms by (auto simp: open_max_def split: if_splits limit.splits)

end
