(* ===== verification/SigSets.thy ===== *)
theory SigSets imports Prelude begin

unbundle bit_operations_syntax

text \<open>
  The signal sets of signals/setops.c: a set is a word, signal number \<open>n\<close> its bit \<open>n - 1\<close>.
\<close>

section \<open>The functions\<close>

type_synonym sigset = "32 word"

text \<open>\<^verbatim>\<open>NSIG\<close> is one more than the largest signal number, and 32 on the systems the code is for.\<close>

definition NSIG :: int where "NSIG = 32"

definition SIGBAD :: "int \<Rightarrow> bool" where "SIGBAD signo \<longleftrightarrow> signo \<le> 0 \<or> NSIG \<le> signo"

text \<open>The results are the value returned, the set and \<^verbatim>\<open>errno\<close>.\<close>

definition sigbit :: "int \<Rightarrow> sigset" where "sigbit signo = push_bit (nat (signo - 1)) 1"

definition sigaddset :: "int \<Rightarrow> sigset \<Rightarrow> int \<Rightarrow> int \<times> sigset \<times> int" where
  "sigaddset signo s e = (if SIGBAD signo then (-1, s, EINVAL) else (0, s OR sigbit signo, e))"

definition sigdelset :: "int \<Rightarrow> sigset \<Rightarrow> int \<Rightarrow> int \<times> sigset \<times> int" where
  "sigdelset signo s e = (if SIGBAD signo then (-1, s, EINVAL) else (0, s AND NOT (sigbit signo), e))"

definition sigismember :: "int \<Rightarrow> sigset \<Rightarrow> int \<Rightarrow> int \<times> sigset \<times> int" where
  "sigismember signo s e =
     (if SIGBAD signo then (-1, s, EINVAL) else (of_bool (s AND sigbit signo \<noteq> 0), s, e))"

section \<open>Sets of signal numbers\<close>

definition signals_of :: "sigset \<Rightarrow> int set" where
  "signals_of s = {signo. \<not> SIGBAD signo \<and> bit s (nat (signo - 1))}"

lemma bit_index: "\<not> SIGBAD i \<Longrightarrow> nat (i - 1) < 32"
  by (simp add: SIGBAD_def NSIG_def nat_less_iff)

lemma index_inj: "\<not> SIGBAD i \<Longrightarrow> \<not> SIGBAD j \<Longrightarrow> nat (i - 1) = nat (j - 1) \<longleftrightarrow> i = j"
  by (auto simp: SIGBAD_def)

lemma bit_sigbit: "\<not> SIGBAD i \<Longrightarrow> bit (sigbit i) n \<longleftrightarrow> n = nat (i - 1)"
  using bit_index [of i] by (auto simp: sigbit_def bit_exp_iff)

lemma and_sigbit: "\<not> SIGBAD i \<Longrightarrow> s AND sigbit i = 0 \<longleftrightarrow> \<not> bit s (nat (i - 1))"
proof -
  assume i: "\<not> SIGBAD i"
  have "s AND sigbit i = 0 \<longleftrightarrow> (\<forall>n < 32. \<not> (bit s n \<and> n = nat (i - 1)))"
    using i by (simp add: bit_eq_iff bit_and_iff bit_sigbit)
  then show ?thesis using bit_index [OF i] by auto
qed

section \<open>Properties\<close>

text \<open>C36: the functions on words are insertion, removal and membership of sets of signal numbers; a number that is no
  signal is refused with \<^verbatim>\<open>EINVAL\<close> and changes nothing.\<close>

theorem sigsets_refine:
  "(let (r, s', e') = sigaddset i s e in
      (if SIGBAD i then r = -1 \<and> s' = s \<and> e' = EINVAL else r = 0 \<and> signals_of s' = insert i (signals_of s) \<and> e' = e))
    \<and> (let (r, s', e') = sigdelset i s e in
      (if SIGBAD i then r = -1 \<and> s' = s \<and> e' = EINVAL else r = 0 \<and> signals_of s' = signals_of s - {i} \<and> e' = e))
    \<and> (let (r, s', e') = sigismember i s e in
      s' = s \<and> (if SIGBAD i then r = -1 \<and> e' = EINVAL else r = of_bool (i \<in> signals_of s) \<and> e' = e))"
  by (auto simp: sigaddset_def sigdelset_def sigismember_def signals_of_def bit_or_iff bit_and_iff bit_not_iff bit_sigbit and_sigbit index_inj
      dest: bit_index)

end
