(* ===== verification/SystemCmd.thy ===== *)
theory SystemCmd imports Popen begin

text \<open>
  \<^verbatim>\<open>system\<close> with signal handling (signals/system.c) and without (proc/system.c): what happens to the signals of the
  caller and of the command. \<^verbatim>\<open>waitpid\<close> is as in \<open>Popen\<close>.
\<close>

section \<open>Signals of a process\<close>

datatype handler = Default | Ignore | Calls nat

record sigenv =
  disp :: "int \<Rightarrow> handler"
  sigmask :: "int set"

definition SIGINT :: int where "SIGINT = 2"
definition SIGQUIT :: int where "SIGQUIT = 3"
definition SIGCHLD :: int where "SIGCHLD = 17"

text \<open>\<open>works\<close>: which of the calls, named by their place in the code, succeed.\<close>

record sysans =
  works :: "string \<Rightarrow> bool"
  sys_pid :: int
  sys_waits :: "(int + int) list"

definition sigaction :: "sysans \<Rightarrow> string \<Rightarrow> int \<Rightarrow> handler \<Rightarrow> sigenv \<Rightarrow> sigenv option" where
  "sigaction a site signo h s = (if works a site then Some (s\<lparr>disp := (disp s)(signo := h)\<rparr>) else None)"

definition sigprocmask :: "sysans \<Rightarrow> string \<Rightarrow> int set \<Rightarrow> sigenv \<Rightarrow> sigenv option" where
  "sigprocmask a site m s = (if works a site then Some (s\<lparr>sigmask := m\<rparr>) else None)"

text \<open>A call whose result the code ignores.\<close>

definition ignoring :: "('s \<Rightarrow> 's option) \<Rightarrow> 's \<Rightarrow> 's" where
  "ignoring f s = (case f s of None \<Rightarrow> s | Some s \<Rightarrow> s)"

section \<open>signals/system.c\<close>

text \<open>What is returned, the signals of the command when it starts, those of the caller while it waits, and afterwards.\<close>

record sysres =
  status :: int
  command :: "sigenv option"
  waiting :: "sigenv option"
  after :: sigenv

definition sys_returns :: "int \<Rightarrow> sigenv \<Rightarrow> sysres" where
  "sys_returns r s = \<lparr>status = r, command = None, waiting = None, after = s\<rparr>"

text \<open>Setting the actions and the mask back; the first call that fails makes the function return -1.\<close>

definition sys_restore :: "sysans \<Rightarrow> handler \<Rightarrow> handler \<Rightarrow> int set \<Rightarrow> sigenv \<Rightarrow> bool \<times> sigenv" where
  "sys_restore a saveintr savequit savemask s =
     (case sigaction a ''restore SIGINT'' SIGINT saveintr s of None \<Rightarrow> (False, s) | Some s \<Rightarrow>
      case sigaction a ''restore SIGQUIT'' SIGQUIT savequit s of None \<Rightarrow> (False, s) | Some s \<Rightarrow>
      case sigprocmask a ''SIG_SETMASK'' savemask s of None \<Rightarrow> (False, s) | Some s \<Rightarrow> (True, s))"

definition sys_child :: "sysans \<Rightarrow> handler \<Rightarrow> handler \<Rightarrow> int set \<Rightarrow> sigenv \<Rightarrow> sigenv" where
  "sys_child a saveintr savequit savemask s =
     ignoring (sigprocmask a ''child SIG_SETMASK'' savemask)
       (ignoring (sigaction a ''child SIGQUIT'' SIGQUIT savequit) (ignoring (sigaction a ''child SIGINT'' SIGINT saveintr) s))"

text \<open>\<open>None\<close>: \<^verbatim>\<open>waitpid\<close> never returns the child.\<close>

definition system_sig :: "sysans \<Rightarrow> string option \<Rightarrow> sigenv \<Rightarrow> sysres option" where
  "system_sig a cmdstring s =
     (if cmdstring = None then Some (sys_returns 1 s)
      else
        let saveintr = disp s SIGINT in
        case sigaction a ''sigaction SIGINT'' SIGINT Ignore s of None \<Rightarrow> Some (sys_returns (-1) s) | Some s \<Rightarrow>
        let savequit = disp s SIGQUIT in
        case sigaction a ''sigaction SIGQUIT'' SIGQUIT Ignore s of None \<Rightarrow> Some (sys_returns (-1) s) | Some s \<Rightarrow>
        let savemask = sigmask s in
        case sigprocmask a ''SIG_BLOCK'' (insert SIGCHLD (sigmask s)) s of None \<Rightarrow> Some (sys_returns (-1) s) | Some s \<Rightarrow>
        let finish = \<lambda>st child. (let (ok, s') = sys_restore a saveintr savequit savemask s in
              \<lparr>status = if ok then st else -1, command = child, waiting = map_option (\<lambda>_. s) child, after = s'\<rparr>) in
        if sys_pid a < 0 then Some (finish (-1) None)
        else case wait_loop (sys_waits a) of
          None \<Rightarrow> None
        | Some (st, e) \<Rightarrow> Some (finish st (Some (sys_child a saveintr savequit savemask s))))"

section \<open>proc/system.c\<close>

definition system_plain :: "sysans \<Rightarrow> string option \<Rightarrow> sigenv \<Rightarrow> sysres option" where
  "system_plain a cmdstring s =
     (if cmdstring = None then Some (sys_returns 1 s)
      else if sys_pid a < 0 then Some (sys_returns (-1) s)
      else case wait_loop (sys_waits a) of
        None \<Rightarrow> None
      | Some (st, e) \<Rightarrow> Some \<lparr>status = st, command = Some s, waiting = Some s, after = s\<rparr>)"

section \<open>Properties\<close>

lemmas system_defs = system_sig_def system_plain_def sigaction_def sigprocmask_def ignoring_def sys_restore_def sys_child_def sys_returns_def Let_def

text \<open>C37: when the calls that set signals succeed, \<^verbatim>\<open>system\<close> of signals/system.c returns what that of proc/system.c
  does, in every outcome of \<^verbatim>\<open>fork\<close> and \<^verbatim>\<open>waitpid\<close>; the command and, afterwards, the caller have the signals the caller had, and
  while it waits the caller ignores SIGINT and SIGQUIT and blocks SIGCHLD, and nothing else is different.\<close>

theorem system_restores_signals:
  assumes "works a = (\<lambda>_. True)"
  shows "system_sig a cmd s = map_option (\<lambda>r. r\<lparr>waiting := map_option
      (\<lambda>s. s\<lparr>disp := (disp s)(SIGINT := Ignore, SIGQUIT := Ignore), sigmask := insert SIGCHLD (sigmask s)\<rparr>) (waiting r)\<rparr>) (system_plain a cmd s)"
  using assms by (auto simp: system_defs SIGINT_def SIGQUIT_def fun_eq_iff split: option.splits)

definition kind_answers :: sysans where
  "kind_answers = \<lparr>works = \<lambda>_. True, sys_pid = 100, sys_waits = [Inl EINTR, Inr 256]\<rparr>"

theorem system_restores_signals_witness:
  "\<exists>r. system_sig kind_answers (Some ''date'') \<lparr>disp = \<lambda>_. Default, sigmask = {}\<rparr> = Some r \<and> status r = 256
     \<and> after r = \<lparr>disp = \<lambda>_. Default, sigmask = {}\<rparr>"
  using system_restores_signals [of kind_answers "Some ''date''" "\<lparr>disp = \<lambda>_. Default, sigmask = {}\<rparr>"]
  by (simp add: kind_answers_def system_plain_def)

text \<open>When \<^verbatim>\<open>sigaction\<close> fails for SIGQUIT, the function returns with SIGINT still ignored.\<close>

theorem system_leaves_ignored:
  assumes "works a ''sigaction SIGINT''" "\<not> works a ''sigaction SIGQUIT''"
  shows "system_sig a (Some c) s = Some \<lparr>status = -1, command = None, waiting = None, after = s\<lparr>disp := (disp s)(SIGINT := Ignore)\<rparr>\<rparr>"
  using assms by (simp add: system_defs)

end
