(* ===== verification/Timeout.thy ===== *)
theory Timeout imports Prelude begin

text \<open>
  Calling a function at a given time: \<^verbatim>\<open>timeout\<close> of threadctl/timeout.c, which makes a detached thread that sleeps
  (\<^verbatim>\<open>makethread\<close> of threadctl/detach.c), with the times \<^verbatim>\<open>maketimeout\<close> of threads/maketimeout.c computes.
\<close>

section \<open>Times\<close>

record timespec =
  tv_sec :: int
  tv_nsec :: int

definition SECTONSEC :: int where "SECTONSEC = 1000000000"

definition ts_ok :: "timespec \<Rightarrow> bool" where
  "ts_ok t \<longleftrightarrow> 0 \<le> tv_nsec t \<and> tv_nsec t < SECTONSEC"

definition nanosecs :: "timespec \<Rightarrow> int" where
  "nanosecs t = tv_sec t * SECTONSEC + tv_nsec t"

text \<open>\<^verbatim>\<open>gettimeofday\<close> answers with seconds and microseconds.\<close>

definition maketimeout :: "int \<times> int \<Rightarrow> int \<Rightarrow> timespec" where
  "maketimeout now minutes = (let t = \<lparr>tv_sec = fst now, tv_nsec = snd now * 1000\<rparr> in t\<lparr>tv_sec := tv_sec t + minutes * 60\<rparr>)"

section \<open>Threads\<close>

text \<open>The answers of the calls on threads, and the clock and the memory \<^verbatim>\<open>timeout\<close> finds.\<close>

record toans =
  attr_init :: int
  setdetached :: int
  create :: int
  clock :: timespec
  tip_ok :: bool

text \<open>The result, and whether a thread was made. The attributes are destroyed in any case.\<close>

definition makethread :: "toans \<Rightarrow> int \<times> bool" where
  "makethread a =
     (let err = attr_init a in
      if err \<noteq> 0 then (err, False)
      else
        let err = setdetached a in
        if err = 0 then (create a, create a = 0) else (err, False))"

text \<open>The function is called at once, or by a thread that first sleeps for the time given.\<close>

datatype to_call = At_once | After timespec

definition to_wait :: "timespec \<Rightarrow> timespec \<Rightarrow> timespec" where
  "to_wait when now =
     (let w = \<lparr>tv_sec = tv_sec when - tv_sec now, tv_nsec = 0\<rparr> in
      if tv_nsec when \<ge> tv_nsec now then w\<lparr>tv_nsec := tv_nsec when - tv_nsec now\<rparr>
      else w\<lparr>tv_sec := tv_sec w - 1, tv_nsec := SECTONSEC - tv_nsec now + tv_nsec when\<rparr>)"

definition timeout :: "toans \<Rightarrow> timespec \<Rightarrow> to_call" where
  "timeout a when =
     (let now = clock a in
      if (tv_sec when > tv_sec now \<or> tv_sec when = tv_sec now \<and> tv_nsec when > tv_nsec now) \<and> tip_ok a then
        (let (err, made) = makethread a in if err = 0 then After (to_wait when now) else At_once)
      else At_once)"

text \<open>\<^verbatim>\<open>timeout_helper\<close>: the time of the call, where \<open>slept\<close> is how long \<^verbatim>\<open>clock_nanosleep\<close> sleeps when asked for a time.\<close>

definition called_at :: "toans \<Rightarrow> (timespec \<Rightarrow> int) \<Rightarrow> timespec \<Rightarrow> int" where
  "called_at a slept when = (case timeout a when of At_once \<Rightarrow> nanosecs (clock a) | After w \<Rightarrow> nanosecs (clock a) + slept w)"

section \<open>Properties\<close>

lemma later_iff:
  assumes "ts_ok t" "ts_ok u"
  shows "tv_sec t > tv_sec u \<or> tv_sec t = tv_sec u \<and> tv_nsec t > tv_nsec u \<longleftrightarrow> nanosecs u < nanosecs t"
  using assms unfolding ts_ok_def nanosecs_def SECTONSEC_def by linarith

lemma to_wait_exact:
  assumes "ts_ok t" "ts_ok u"
  shows "ts_ok (to_wait t u) \<and> nanosecs u + nanosecs (to_wait t u) = nanosecs t"
  using assms by (auto simp: ts_ok_def nanosecs_def to_wait_def Let_def SECTONSEC_def algebra_simps)

lemma makethread_made: "snd (makethread a) \<longleftrightarrow> fst (makethread a) = 0"
  by (auto simp: makethread_def Let_def split: if_splits)

text \<open>a function to be called at a time that has passed is called at once; otherwise, if there is memory for the
  request and a thread can be made, a thread calls it after a valid time to sleep that ends exactly then, and if not
  it is called at once. So it is called once in every case, and not late unless the sleep is.\<close>

theorem timeout_exact:
  assumes "ts_ok when" "ts_ok (clock a)"
  shows "(case timeout a when of
            At_once \<Rightarrow> nanosecs when \<le> nanosecs (clock a) \<or> \<not> tip_ok a \<or> fst (makethread a) \<noteq> 0
          | After w \<Rightarrow> ts_ok w \<and> nanosecs (clock a) + nanosecs w = nanosecs when \<and> 0 < nanosecs w \<and> snd (makethread a))
    \<and> ((\<forall>w. slept w = nanosecs w) \<longrightarrow> tip_ok a \<longrightarrow> fst (makethread a) = 0 \<longrightarrow> called_at a slept when = max (nanosecs when) (nanosecs (clock a)))"
  using to_wait_exact [OF assms] later_iff [OF assms] makethread_made [of a]
  by (auto simp: timeout_def called_at_def Let_def split: prod.splits)

definition noon :: toans where
  "noon = \<lparr>attr_init = 0, setdetached = 0, create = 0, clock = \<lparr>tv_sec = 43200, tv_nsec = 700000000\<rparr>, tip_ok = True\<rparr>"

theorem timeout_exact_witness:
  "timeout noon \<lparr>tv_sec = 43210, tv_nsec = 200000000\<rparr> = After \<lparr>tv_sec = 9, tv_nsec = 500000000\<rparr>
    \<and> called_at noon nanosecs \<lparr>tv_sec = 43210, tv_nsec = 200000000\<rparr> = 43210200000000"
proof -
  have ok: "ts_ok \<lparr>tv_sec = 43210, tv_nsec = 200000000\<rparr>" "ts_ok (clock noon)" by (simp_all add: ts_ok_def noon_def SECTONSEC_def)
  have m: "fst (makethread noon) = 0" "tip_ok noon" by (simp_all add: makethread_def noon_def)
  show ?thesis using timeout_exact [OF ok, of nanosecs] m
    by (simp add: timeout_def noon_def to_wait_def makethread_def SECTONSEC_def nanosecs_def)
qed

text \<open>The times of \<^verbatim>\<open>maketimeout\<close> are valid, and minutes from now.\<close>

lemma maketimeout_ok:
  "0 \<le> us \<Longrightarrow> us < 1000000 \<Longrightarrow> ts_ok (maketimeout (s, us) m) \<and> nanosecs (maketimeout (s, us) m) = (s + 60 * m) * SECTONSEC + us * 1000"
  by (simp add: maketimeout_def ts_ok_def nanosecs_def SECTONSEC_def Let_def)

end
