(* ===== verification/TtyName.thy ===== *)
theory TtyName imports Prelude "HOL-Library.Multiset" begin

text \<open>
  \<^verbatim>\<open>ttyname\<close> of termios/ttyname.c: the search below /dev for the device of a terminal. Directories wait in a list until
  they are searched; paths are built in one buffer.
\<close>

section \<open>Files\<close>

text \<open>What \<^verbatim>\<open>stat\<close> says of a path: an error, a directory, or something else with its i-node and device numbers.\<close>

datatype fstatus = Unknown | Directory | Node nat nat

text \<open>\<open>entries\<close> is \<open>None\<close> where \<^verbatim>\<open>opendir\<close> fails; \<open>mem\<close>: whether \<^verbatim>\<open>malloc\<close> and \<^verbatim>\<open>strdup\<close> have memory for the name of a directory.\<close>

record devfs =
  entries :: "string \<Rightarrow> string list option"
  pstat :: "string \<Rightarrow> fstatus"
  mem :: "string \<Rightarrow> bool"

definition POSIX_PATH_MAX :: nat where "POSIX_PATH_MAX = 256"

section \<open>The search\<close>

text \<open>The test at the beginning of \<^verbatim>\<open>add\<close>; the paths it is called with have at least three characters.\<close>

definition skips :: "string \<Rightarrow> bool" where
  "skips d \<longleftrightarrow> (let len = length d in
      d ! (len - 1) = CHR ''.'' \<and> (d ! (len - 2) = CHR ''/'' \<or> d ! (len - 2) = CHR ''.'' \<and> d ! (len - 3) = CHR ''/''))
    \<or> d = ''/dev/fd''"

definition add :: "devfs \<Rightarrow> string \<Rightarrow> string list \<Rightarrow> string list" where
  "add fs d q = (if skips d then q else if \<not> mem fs d then q else q @ [d])"

text \<open>The loop over the entries of a directory. \<^verbatim>\<open>strncpy\<close> cuts the path to \<open>POSIX_PATH_MAX\<close> characters; the byte after
  them is always null.\<close>

fun search_entries :: "devfs \<Rightarrow> nat \<times> nat \<Rightarrow> string \<Rightarrow> string list \<Rightarrow> string list \<Rightarrow> string option \<times> string list" where
  "search_entries fs tty base [] q = (None, q)"
| "search_entries fs tty base (e # es) q =
     (let path = take POSIX_PATH_MAX (base @ e) in
      if path = ''/dev/stdin'' \<or> path = ''/dev/stdout'' \<or> path = ''/dev/stderr'' then search_entries fs tty base es q
      else case pstat fs path of
        Unknown \<Rightarrow> search_entries fs tty base es q
      | Directory \<Rightarrow> search_entries fs tty base es (add fs path q)
      | Node ino dev \<Rightarrow> if ino = fst tty \<and> dev = snd tty then (Some path, q) else search_entries fs tty base es q)"

text \<open>The buffer has \<open>POSIX_PATH_MAX + 1\<close> bytes; \<^verbatim>\<open>strcpy\<close> and \<^verbatim>\<open>strcat\<close> do not check it.\<close>

definition searchdir :: "devfs \<Rightarrow> nat \<times> nat \<Rightarrow> string \<Rightarrow> string list \<Rightarrow> (string option \<times> string list) res" where
  "searchdir fs tty d q =
     (if POSIX_PATH_MAX < length d then Inl Fault
      else case entries fs d of
        None \<Rightarrow> Inr (None, q)
      | Some es \<Rightarrow> if POSIX_PATH_MAX < length d + 1 then Inl Fault else Inr (search_entries fs tty (d @ ''/'') es q))"

lemma search_entries_queue:
  "length base \<le> POSIX_PATH_MAX \<Longrightarrow> \<exists>new. snd (search_entries fs tty base es q) = q @ new \<and> (\<forall>d \<in> set new. length base \<le> length d)"
proof (induction fs tty base es q rule: search_entries.induct)
  case (2 fs tty base e es q)
  let ?p = "take POSIX_PATH_MAX (base @ e)"
  have l: "length base \<le> length ?p" using "2.prems" by simp
  show ?case
  proof (cases "?p = ''/dev/stdin'' \<or> ?p = ''/dev/stdout'' \<or> ?p = ''/dev/stderr''")
    case True
    then show ?thesis using "2.IH"(1) [OF refl _ "2.prems"] by (simp add: Let_def)
  next
    case False
    show ?thesis
    proof (cases "pstat fs ?p")
      case Unknown
      then show ?thesis using "2.IH"(2) [OF refl False _ "2.prems"] False by (simp add: Let_def)
    next
      case Directory
      then obtain new where n: "snd (search_entries fs tty base es (add fs ?p q)) = add fs ?p q @ new" "\<forall>d \<in> set new. length base \<le> length d"
        using "2.IH"(3) [OF refl False _ "2.prems"] by blast
      have "snd (search_entries fs tty base (e # es) q) = add fs ?p q @ new"
        using Directory False n(1) by (simp add: Let_def)
      moreover have "\<exists>a. add fs ?p q = q @ a \<and> set a \<subseteq> {?p}" by (simp add: add_def)
      ultimately show ?thesis using n(2) l by fastforce
    next
      case (Node ino dev)
      then show ?thesis using "2.IH"(4) [OF refl False _ _ "2.prems"] False by (simp add: Let_def)
    qed
  qed
qed simp

lemma searchdir_queue:
  assumes "searchdir fs tty d q = Inr (r, q')"
  shows "\<exists>new. q' = q @ new \<and> (\<forall>x \<in> set new. length d < length x) \<and> length d \<le> POSIX_PATH_MAX"
proof (cases "entries fs d")
  case None
  then show ?thesis using assms by (auto simp: searchdir_def split: if_splits)
next
  case (Some es)
  then have s: "search_entries fs tty (d @ ''/'') es q = (r, q')" "length (d @ ''/'') \<le> POSIX_PATH_MAX" using assms by (auto simp: searchdir_def split: if_splits)
  from search_entries_queue [OF s(2), of fs tty es q] s show ?thesis by (auto simp: Suc_le_eq)
qed

text \<open>The directories that wait. Every one that is added has a longer path than the one it was found in, and paths do not
  get longer than the buffer, so the search ends, even where links to directories run in a circle.\<close>

definition search_order :: "(string list \<times> string list) set" where
  "search_order = inv_image (mult less_than) (\<lambda>q. mset (map (\<lambda>d. POSIX_PATH_MAX + 1 - length d) q))"

lemma wf_search_order: "wf search_order"
  by (simp add: search_order_def wf_mult)

lemma search_order_step:
  assumes "\<forall>x \<in> set new. length d < length x" "length d \<le> POSIX_PATH_MAX"
  shows "(q @ new, d # q) \<in> search_order"
proof -
  let ?f = "\<lambda>d. POSIX_PATH_MAX + 1 - length d"
  have "(mset (map ?f q) + mset (map ?f new), mset (map ?f q) + {#?f d#}) \<in> mult less_than"
    by (rule one_step_implies_mult) (use assms in auto)
  then show ?thesis by (simp add: search_order_def)
qed

function search_all :: "devfs \<Rightarrow> nat \<times> nat \<Rightarrow> string list \<Rightarrow> string option res" where
  "search_all fs tty [] = Inr None"
| "search_all fs tty (d # q) =
     (case searchdir fs tty d q of
        Inl e \<Rightarrow> Inl e
      | Inr (r, q') \<Rightarrow> if r \<noteq> None then Inr r else search_all fs tty q')"
  by pat_completeness auto
termination
proof (relation "inv_image search_order (\<lambda>(fs, tty, q). q)")
  show "wf (inv_image search_order (\<lambda>(fs, tty, q). q))" using wf_search_order by (rule wf_inv_image)
next
  fix fs tty d q b x y
  assume "searchdir fs tty d q = Inr b" "(x, y) = b" "\<not> x \<noteq> None"
  then obtain new where "y = q @ new" "\<forall>x \<in> set new. length d < length x" "length d \<le> POSIX_PATH_MAX" using searchdir_queue by blast
  then show "((fs, tty, y), (fs, tty, d # q)) \<in> inv_image search_order (\<lambda>(fs, tty, q). q)" using search_order_step by simp
qed

text \<open>\<open>fstat\<close> is what \<^verbatim>\<open>fstat\<close> says of the descriptor: an error, or whether it is a character device, with its numbers.
  \<^verbatim>\<open>cleanup\<close> empties the list again.\<close>

definition ttyname :: "devfs \<Rightarrow> bool \<Rightarrow> (bool \<times> nat \<times> nat) option \<Rightarrow> string option res" where
  "ttyname fs isatty fstat =
     (if \<not> isatty then Inr None
      else case fstat of
        None \<Rightarrow> Inr None
      | Some (chardev, tty) \<Rightarrow> if \<not> chardev then Inr None else search_all fs tty [''/dev''])"

section \<open>What is found\<close>

definition alias_path :: "string \<Rightarrow> bool" where
  "alias_path p \<longleftrightarrow> p = ''/dev/stdin'' \<or> p = ''/dev/stdout'' \<or> p = ''/dev/stderr''"

text \<open>\<open>p\<close> is the path of an entry of \<open>d\<close> that is no alias.\<close>

definition entry_of :: "devfs \<Rightarrow> string \<Rightarrow> string \<Rightarrow> bool" where
  "entry_of fs d p \<longleftrightarrow> (\<exists>es e. entries fs d = Some es \<and> e \<in> set es \<and> p = d @ ''/'' @ e \<and> \<not> alias_path p)"

definition subdir :: "devfs \<Rightarrow> string \<Rightarrow> string \<Rightarrow> bool" where
  "subdir fs d p \<longleftrightarrow> entry_of fs d p \<and> pstat fs p = Directory \<and> \<not> skips p"

definition names_tty :: "devfs \<Rightarrow> nat \<times> nat \<Rightarrow> string \<Rightarrow> string \<Rightarrow> bool" where
  "names_tty fs tty d p \<longleftrightarrow> entry_of fs d p \<and> pstat fs p = Node (fst tty) (snd tty)"

text \<open>All paths below \<open>d\<close> fit the buffer.\<close>

definition paths_fit :: "devfs \<Rightarrow> string \<Rightarrow> bool" where
  "paths_fit fs d \<longleftrightarrow> (\<forall>x. (subdir fs)\<^sup>*\<^sup>* d x \<longrightarrow> length x < POSIX_PATH_MAX
     \<and> (\<forall>es. entries fs x = Some es \<longrightarrow> (\<forall>e \<in> set es. length (x @ ''/'' @ e) \<le> POSIX_PATH_MAX)))"

lemma search_entries_spec:
  assumes "\<forall>e \<in> set es. length (base @ e) \<le> POSIX_PATH_MAX" "\<forall>d. mem fs d" "search_entries fs tty base es q = (r, q')"
  shows "(case r of
      None \<Rightarrow> set q' = set q \<union> {p. (\<exists>e \<in> set es. p = base @ e) \<and> \<not> alias_path p \<and> pstat fs p = Directory \<and> \<not> skips p}
        \<and> \<not> (\<exists>e \<in> set es. \<not> alias_path (base @ e) \<and> pstat fs (base @ e) = Node (fst tty) (snd tty))
    | Some p \<Rightarrow> (\<exists>e \<in> set es. p = base @ e) \<and> \<not> alias_path p \<and> pstat fs p = Node (fst tty) (snd tty))"
  using assms(1,3)
proof (induction es arbitrary: q)
  case (Cons e es)
  let ?p = "base @ e"
  have t: "take POSIX_PATH_MAX ?p = ?p" using Cons.prems(1) by (simp del: take_append)
  show ?case
  proof (cases "alias_path ?p \<or> pstat fs ?p = Unknown \<or> (\<exists>i d. pstat fs ?p = Node i d \<and> (i, d) \<noteq> tty)")
    case True
    then have s: "search_entries fs tty base es q = (r, q')" using Cons.prems(2) t
      by (auto simp: Let_def alias_path_def simp del: take_append split: if_splits fstatus.splits)
    have "\<not> (\<not> alias_path ?p \<and> pstat fs ?p = Directory)" "\<not> (\<not> alias_path ?p \<and> pstat fs ?p = Node (fst tty) (snd tty))" using True by auto
    with Cons.IH [OF _ s] Cons.prems(1) show ?thesis by (auto split: option.splits)
  next
    case False
    show ?thesis
    proof (cases "pstat fs ?p")
      case Directory
      then have s: "search_entries fs tty base es (add fs ?p q) = (r, q')" using Cons.prems(2) t False
        by (simp add: Let_def alias_path_def del: take_append)
      have "set (add fs ?p q) = set q \<union> (if skips ?p then {} else {?p})" using assms(2) by (simp add: add_def)
      with Cons.IH [OF _ s] Cons.prems(1) False Directory show ?thesis by (auto split: option.splits if_splits)
    next
      case (Node i d)
      then show ?thesis using Cons.prems(2) t False by (auto simp: Let_def alias_path_def simp del: take_append)
    qed (use False in simp)
  qed
qed simp

lemma searchdir_spec:
  assumes "paths_fit fs d" "\<forall>d. mem fs d"
  shows "\<exists>r q'. searchdir fs tty d q = Inr (r, q') \<and> (case r of
      None \<Rightarrow> set q' = set q \<union> {p. subdir fs d p} \<and> (\<nexists>p. names_tty fs tty d p)
    | Some p \<Rightarrow> names_tty fs tty d p)"
proof -
  have l: "length d < POSIX_PATH_MAX" "\<And>es e. entries fs d = Some es \<Longrightarrow> e \<in> set es \<Longrightarrow> length (d @ ''/'' @ e) \<le> POSIX_PATH_MAX"
    using assms(1) unfolding paths_fit_def by blast+
  show ?thesis
  proof (cases "entries fs d")
    case None
    then have "{p. subdir fs d p} = {}" "\<nexists>p. names_tty fs tty d p" by (simp_all add: subdir_def names_tty_def entry_of_def)
    then show ?thesis using None l(1) by (auto simp: searchdir_def)
  next
    case (Some es)
    obtain r q' where s: "search_entries fs tty (d @ ''/'') es q = (r, q')" by (cases "search_entries fs tty (d @ ''/'') es q")
    have "\<forall>e \<in> set es. length ((d @ ''/'') @ e) \<le> POSIX_PATH_MAX" using l(2) Some by simp
    from search_entries_spec [OF this assms(2) s] have "(case r of
        None \<Rightarrow> set q' = set q \<union> {p. subdir fs d p} \<and> (\<nexists>p. names_tty fs tty d p) | Some p \<Rightarrow> names_tty fs tty d p)"
      using Some by (cases r) (auto simp: subdir_def names_tty_def entry_of_def)
    moreover have "searchdir fs tty d q = Inr (r, q')" using Some s l(1) by (simp add: searchdir_def)
    ultimately show ?thesis by blast
  qed
qed

lemma paths_fit_sub: "paths_fit fs d \<Longrightarrow> subdir fs d x \<Longrightarrow> paths_fit fs x"
  unfolding paths_fit_def by (meson converse_rtranclp_into_rtranclp)

lemma search_all_spec:
  assumes "\<forall>d. mem fs d"
  shows "\<forall>d \<in> set q. paths_fit fs d \<Longrightarrow> \<exists>r. search_all fs tty q = Inr r \<and> (case r of
      None \<Rightarrow> \<forall>d \<in> set q. \<forall>x. (subdir fs)\<^sup>*\<^sup>* d x \<longrightarrow> (\<nexists>p. names_tty fs tty x p)
    | Some p \<Rightarrow> \<exists>d \<in> set q. \<exists>x. (subdir fs)\<^sup>*\<^sup>* d x \<and> names_tty fs tty x p)"
  using assms
proof (induction fs tty q rule: search_all.induct)
  case (2 fs tty d q)
  have fit: "paths_fit fs d" "\<forall>d \<in> set q. paths_fit fs d" using "2.prems"(1) by simp_all
  obtain r q' where s: "searchdir fs tty d q = Inr (r, q')" "case r of
      None \<Rightarrow> set q' = set q \<union> {p. subdir fs d p} \<and> (\<nexists>p. names_tty fs tty d p) | Some p \<Rightarrow> names_tty fs tty d p"
    using searchdir_spec [OF fit(1) "2.prems"(2)] by blast
  show ?case
  proof (cases r)
    case (Some p)
    then show ?thesis using s by auto
  next
    case None
    then have q': "set q' = set q \<union> {p. subdir fs d p}" "\<nexists>p. names_tty fs tty d p" using s(2) by simp_all
    have "\<forall>d \<in> set q'. paths_fit fs d" using fit paths_fit_sub q'(1) by blast
    from "2.IH" [OF s(1) refl _ this "2.prems"(2)] None obtain r' where r': "search_all fs tty q' = Inr r'"
      "case r' of None \<Rightarrow> \<forall>d \<in> set q'. \<forall>x. (subdir fs)\<^sup>*\<^sup>* d x \<longrightarrow> (\<nexists>p. names_tty fs tty x p)
        | Some p \<Rightarrow> \<exists>d \<in> set q'. \<exists>x. (subdir fs)\<^sup>*\<^sup>* d x \<and> names_tty fs tty x p" by blast
    have all: "search_all fs tty (d # q) = Inr r'" using s(1) None r'(1) by simp
    show ?thesis
    proof (cases r')
      case (Some p)
      then obtain e x where e: "e \<in> set q'" "(subdir fs)\<^sup>*\<^sup>* e x" "names_tty fs tty x p" using r'(2) by auto
      have "e \<in> set q \<or> (subdir fs)\<^sup>*\<^sup>* d x" using e(1,2) q'(1) by (auto intro: converse_rtranclp_into_rtranclp)
      then show ?thesis using all Some e(2,3) by auto
    next
      case None
      have "\<nexists>p. names_tty fs tty x p" if "e = d \<or> e \<in> set q" "(subdir fs)\<^sup>*\<^sup>* e x" for e x
      proof (cases "e \<in> set q'")
        case True
        then show ?thesis using that(2) r'(2) None by simp
      next
        case False
        then have "e = d" using that(1) q'(1) by auto
        from that(2) show ?thesis
        proof (cases rule: converse_rtranclpE)
          case base
          then show ?thesis using q'(2) \<open>e = d\<close> by simp
        next
          case (step y)
          then show ?thesis using r'(2) q'(1) None \<open>e = d\<close> by auto
        qed
      qed
      then show ?thesis using all None by simp
    qed
  qed
qed simp

section \<open>Properties\<close>

text \<open>C38: if all paths below /dev fit the buffer, \<^verbatim>\<open>ttyname\<close> finds a name for a terminal whenever there is one: an entry of
  /dev or of a directory below it that is a device with the terminal's numbers and no alias; and it returns nothing else.\<close>

theorem ttyname_correct:
  assumes "paths_fit fs ''/dev''" "\<forall>d. mem fs d"
  shows "\<exists>r. ttyname fs True (Some (True, tty)) = Inr r \<and> (case r of
      None \<Rightarrow> \<forall>d p. (subdir fs)\<^sup>*\<^sup>* ''/dev'' d \<longrightarrow> \<not> names_tty fs tty d p
    | Some p \<Rightarrow> \<exists>d. (subdir fs)\<^sup>*\<^sup>* ''/dev'' d \<and> names_tty fs tty d p)"
  using search_all_spec [OF assms(2), of "[''/dev'']" tty] assms(1) by (auto simp: ttyname_def simp del: search_all.simps split: option.splits)


definition dev_files :: devfs where
  "dev_files = \<lparr>entries = [''/dev'' \<mapsto> [''.'', ''null'', ''pts''], ''/dev/pts'' \<mapsto> [''0'', ''1'']],
     pstat = (\<lambda>p. if p = ''/dev/.'' \<or> p = ''/dev/pts'' then Directory else if p = ''/dev/null'' then Node 3 1
       else if p = ''/dev/pts/0'' then Node 10 5 else if p = ''/dev/pts/1'' then Node 11 5 else Unknown),
     mem = \<lambda>_. True\<rparr>"

lemma dev_files_fit: "paths_fit dev_files ''/dev''"
proof -
  have s: "x = ''/dev'' \<and> y = ''/dev/pts''" if "subdir dev_files x y" for x y
    using that by (auto simp: subdir_def entry_of_def dev_files_def skips_def Let_def split: if_splits)
  have "x = ''/dev'' \<or> x = ''/dev/pts''" if "(subdir dev_files)\<^sup>*\<^sup>* ''/dev'' x" for x
    using that by (induction rule: rtranclp_induct) (auto dest: s)
  then show ?thesis unfolding paths_fit_def by (auto simp: dev_files_def POSIX_PATH_MAX_def)
qed

theorem ttyname_correct_witness:
  "ttyname dev_files True (Some (True, 11, 5)) = Inr (Some ''/dev/pts/1'')
     \<and> (\<exists>d. (subdir dev_files)\<^sup>*\<^sup>* ''/dev'' d \<and> names_tty dev_files (11, 5) d ''/dev/pts/1'')"
proof -
  have "ttyname dev_files True (Some (True, 11, 5)) = Inr (Some ''/dev/pts/1'')"
    by (simp add: ttyname_def dev_files_def searchdir_def POSIX_PATH_MAX_def add_def skips_def Let_def)
  moreover have "\<forall>d. mem dev_files d" by (simp add: dev_files_def)
  ultimately show ?thesis using ttyname_correct [OF dev_files_fit, of "(11, 5)"] by auto
qed

text \<open>A directory whose path has 256 characters is copied into the buffer, and the slash after it overruns the buffer.\<close>

theorem ttyname_overrun:
  assumes "length d = POSIX_PATH_MAX" "entries fs d \<noteq> None"
  shows "searchdir fs tty d q = Inl Fault"
  using assms by (auto simp: searchdir_def)

end
