(* ===== verification/MsgQueue.thy ===== *)
theory MsgQueue imports Prelude "HOL-Library.Multiset" begin

text \<open>
  The queue of messages of threads/condvar.c: threads that wait on a condition variable for messages, and threads that put
  one in front. A step is a call of the thread library with the code after it up to the next one.
\<close>

section \<open>The threads\<close>

type_synonym addr = nat

text \<open>Where a thread is in \<^verbatim>\<open>process_msg\<close> or, with its message, in \<^verbatim>\<open>enqueue_msg\<close>. \<open>Asleep\<close> is in
  \<^verbatim>\<open>pthread_cond_wait\<close>, \<open>Woken\<close> still there, but waiting for the mutex.\<close>

datatype mpc = Locking | Testing | Asleep | Woken | Taking | Unlocking addr | Enq_lock addr | Enq_link addr | Enq_unlock | Enq_signal | Enq_done

text \<open>\<open>taken\<close> and \<open>queued\<close> are the messages taken and put into the queue so far.\<close>

record msgst =
  m_next :: "addr \<Rightarrow> addr option"
  workq :: "addr option"
  qlock :: "nat option"
  mpc :: "nat \<Rightarrow> mpc"
  taken :: "addr list"
  queued :: "addr list"

definition m_goto :: "nat \<Rightarrow> mpc \<Rightarrow> msgst \<Rightarrow> msgst" where
  "m_goto t x s = s\<lparr>mpc := (mpc s)(t := x)\<rparr>"

definition process_msg :: "nat \<Rightarrow> msgst \<Rightarrow> msgst option" where
  "process_msg t s =
     (case mpc s t of
        Locking \<Rightarrow> if qlock s = None then Some (m_goto t Testing (s\<lparr>qlock := Some t\<rparr>)) else None
      | Testing \<Rightarrow> if workq s = None then Some (m_goto t Asleep (s\<lparr>qlock := None\<rparr>)) else Some (m_goto t Taking s)
      | Woken \<Rightarrow> if qlock s = None then Some (m_goto t Testing (s\<lparr>qlock := Some t\<rparr>)) else None
      | Taking \<Rightarrow> (case workq s of
            None \<Rightarrow> None
          | Some mp \<Rightarrow> Some (m_goto t (Unlocking mp) (s\<lparr>workq := m_next s mp, taken := taken s @ [mp]\<rparr>)))
      | Unlocking mp \<Rightarrow> Some (m_goto t Locking (s\<lparr>qlock := None\<rparr>))
      | _ \<Rightarrow> None)"

definition enqueue_msg :: "nat \<Rightarrow> msgst \<Rightarrow> msgst option" where
  "enqueue_msg t s =
     (case mpc s t of
        Enq_lock mp \<Rightarrow> if qlock s = None then Some (m_goto t (Enq_link mp) (s\<lparr>qlock := Some t\<rparr>)) else None
      | Enq_link mp \<Rightarrow> Some (m_goto t Enq_unlock (s\<lparr>m_next := (m_next s)(mp := workq s), workq := Some mp, queued := queued s @ [mp]\<rparr>))
      | Enq_unlock \<Rightarrow> Some (m_goto t Enq_signal (s\<lparr>qlock := None\<rparr>))
      | _ \<Rightarrow> None)"

definition wake :: "nat set \<Rightarrow> msgst \<Rightarrow> msgst" where
  "wake W s = s\<lparr>mpc := (\<lambda>t. if t \<in> W then Woken else mpc s t)\<rparr>"

definition asleep :: "msgst \<Rightarrow> nat set" where
  "asleep s = {t. mpc s t = Asleep}"

text \<open>\<^verbatim>\<open>pthread_cond_signal\<close> wakes at least one of the threads that sleep, if there are any, and a thread may wake without it.\<close>

inductive msg_step :: "msgst \<Rightarrow> msgst \<Rightarrow> bool" where
  msg_process: "process_msg t s = Some s' \<Longrightarrow> msg_step s s'"
| msg_enqueue: "enqueue_msg t s = Some s' \<Longrightarrow> msg_step s s'"
| msg_signal: "mpc s t = Enq_signal \<Longrightarrow> W \<subseteq> asleep s \<Longrightarrow> W = {} \<longrightarrow> asleep s = {} \<Longrightarrow> msg_step s (wake W (m_goto t Enq_done s))"
| msg_spurious: "mpc s t = Asleep \<Longrightarrow> msg_step s (wake {t} s)"

section \<open>The queue\<close>

fun msg_list :: "(addr \<Rightarrow> addr option) \<Rightarrow> addr option \<Rightarrow> addr list \<Rightarrow> bool" where
  "msg_list n q [] = (q = None)"
| "msg_list n q (mp # mps) = (q = Some mp \<and> msg_list n (n mp) mps)"

lemma msg_list_other: "mp \<notin> set mps \<Longrightarrow> msg_list (n(mp := x)) q mps = msg_list n q mps"
  by (induction mps arbitrary: q) auto

definition holds :: "mpc \<Rightarrow> bool" where
  "holds p \<longleftrightarrow> p \<in> {Testing, Taking, Enq_unlock} \<or> (\<exists>mp. p = Unlocking mp \<or> p = Enq_link mp)"

text \<open>The message a thread has not put into the queue yet.\<close>

fun to_queue :: "mpc \<Rightarrow> addr option" where
  "to_queue (Enq_lock mp) = Some mp"
| "to_queue (Enq_link mp) = Some mp"
| "to_queue _ = None"

fun consumes :: "mpc \<Rightarrow> bool" where
  "consumes p \<longleftrightarrow> p \<in> {Locking, Testing, Asleep, Woken, Taking} \<or> (\<exists>mp. p = Unlocking mp)"

definition mutex_ok :: "msgst \<Rightarrow> bool" where
  "mutex_ok s \<longleftrightarrow> (\<forall>t. qlock s = Some t \<longleftrightarrow> holds (mpc s t)) \<and> (\<forall>t. mpc s t = Taking \<longrightarrow> workq s \<noteq> None)"

definition queue_ok :: "msgst \<Rightarrow> bool" where
  "queue_ok s \<longleftrightarrow> (\<exists>mps. msg_list (m_next s) (workq s) mps \<and> mset (queued s) = mset (taken s) + mset mps) \<and> distinct (queued s)"

definition fresh_ok :: "msgst \<Rightarrow> bool" where
  "fresh_ok s \<longleftrightarrow> (\<forall>t mp. to_queue (mpc s t) = Some mp \<longrightarrow> mp \<notin> set (queued s))
     \<and> (\<forall>t u mp. to_queue (mpc s t) = Some mp \<longrightarrow> to_queue (mpc s u) = Some mp \<longrightarrow> t = u)"

text \<open>No wakeup is lost: while there are messages, a thread that processes messages is awake, or one is about to signal.\<close>

definition wake_ok :: "msgst \<Rightarrow> bool" where
  "wake_ok s \<longleftrightarrow> (workq s \<noteq> None \<longrightarrow> (\<exists>t. consumes (mpc s t)) \<longrightarrow>
     (\<exists>t. consumes (mpc s t) \<and> mpc s t \<noteq> Asleep) \<or> (\<exists>t. mpc s t \<in> {Enq_unlock, Enq_signal}))"

lemma m_goto_simps [simp]:
  "mpc (m_goto t x s) = (mpc s)(t := x)" "qlock (m_goto t x s) = qlock s" "workq (m_goto t x s) = workq s"
  "m_next (m_goto t x s) = m_next s" "taken (m_goto t x s) = taken s" "queued (m_goto t x s) = queued s"
  by (simp_all add: m_goto_def)

lemma wake_simps [simp]:
  "qlock (wake W s) = qlock s" "workq (wake W s) = workq s" "m_next (wake W s) = m_next s" "taken (wake W s) = taken s" "queued (wake W s) = queued s"
  "mpc (wake W s) t = (if t \<in> W then Woken else mpc s t)"
  by (simp_all add: wake_def)

lemma holds_simps [simp]:
  "holds Testing" "holds Taking" "holds (Unlocking mp)" "holds (Enq_link mp)" "holds Enq_unlock"
  "\<not> holds Locking" "\<not> holds Asleep" "\<not> holds Woken" "\<not> holds (Enq_lock mp)" "\<not> holds Enq_signal" "\<not> holds Enq_done"
  by (simp_all add: holds_def)

lemma consumes_simps [simp]:
  "consumes Locking" "consumes Testing" "consumes Asleep" "consumes Woken" "consumes Taking" "consumes (Unlocking mp)"
  "\<not> consumes (Enq_lock mp)" "\<not> consumes (Enq_link mp)" "\<not> consumes Enq_unlock" "\<not> consumes Enq_signal" "\<not> consumes Enq_done"
  by simp_all

declare consumes.simps [simp del]

lemma mutex_step: "msg_step s s' \<Longrightarrow> mutex_ok s \<Longrightarrow> mutex_ok s'"
proof (induction rule: msg_step.induct)
  case (msg_process t s s')
  have o: "qlock s = Some u \<longleftrightarrow> holds (mpc s u)" "mpc s u = Taking \<longrightarrow> workq s \<noteq> None" for u
    using msg_process.prems unfolding mutex_ok_def by blast+
  have one: "holds (mpc s u) \<Longrightarrow> holds (mpc s v) \<Longrightarrow> u = v" for u v using o(1) by (metis option.inject)
  show ?case
  proof (cases "mpc s t")
    case Testing
    then have "mpc s u \<noteq> Taking" if "u \<noteq> t" for u using one [of u t] that by (metis holds_simps(1,2))
    then show ?thesis using msg_process Testing o one [of _ t] by (auto simp: process_msg_def mutex_ok_def split: if_splits)
  next
    case Taking
    then have "mpc s u \<noteq> Taking" if "u \<noteq> t" for u using one [of u t] that by (metis holds_simps(2))
    then show ?thesis using msg_process Taking o one [of _ t] by (auto simp: process_msg_def mutex_ok_def split: option.splits if_splits)
  qed (use msg_process o one [of _ t] in \<open>auto simp: process_msg_def mutex_ok_def split: if_splits\<close>)
next
  case (msg_enqueue t s s')
  have o: "qlock s = Some u \<longleftrightarrow> holds (mpc s u)" "mpc s u = Taking \<longrightarrow> workq s \<noteq> None" for u
    using msg_enqueue.prems unfolding mutex_ok_def by blast+
  have one: "holds (mpc s u) \<Longrightarrow> holds (mpc s v) \<Longrightarrow> u = v" for u v using o(1) by (metis option.inject)
  show ?case
    by (cases "mpc s t") (use msg_enqueue o one [of _ t] in \<open>auto simp: enqueue_msg_def mutex_ok_def split: if_splits\<close>)
next
  case (msg_signal s t W)
  then show ?case by (auto simp: mutex_ok_def asleep_def subset_iff)
next
  case (msg_spurious s t)
  then show ?case by (auto simp: mutex_ok_def)
qed

lemma queue_step: "msg_step s s' \<Longrightarrow> queue_ok s \<Longrightarrow> fresh_ok s \<Longrightarrow> queue_ok s'"
proof (induction rule: msg_step.induct)
  case (msg_process t s s')
  show ?case
  proof (cases "mpc s t")
    case Taking
    obtain mps where m: "msg_list (m_next s) (workq s) mps" "mset (queued s) = mset (taken s) + mset mps" using msg_process.prems(1) by (auto simp: queue_ok_def)
    obtain mp where w: "workq s = Some mp" using msg_process Taking by (auto simp: process_msg_def split: option.splits)
    with m obtain ms where ms: "mps = mp # ms" "msg_list (m_next s) (m_next s mp) ms" by (cases mps) auto
    have "s' = m_goto t (Unlocking mp) (s\<lparr>workq := m_next s mp, taken := taken s @ [mp]\<rparr>)"
      using msg_process Taking w by (simp add: process_msg_def)
    then show ?thesis using ms m(2) msg_process.prems(1) by (auto simp: queue_ok_def)
  qed (use msg_process in \<open>auto simp: process_msg_def queue_ok_def split: if_splits\<close>)
next
  case (msg_enqueue t s s')
  show ?case
  proof (cases "mpc s t")
    case (Enq_link mp)
    obtain mps where m: "msg_list (m_next s) (workq s) mps" "mset (queued s) = mset (taken s) + mset mps" "distinct (queued s)"
      using msg_enqueue.prems(1) by (auto simp: queue_ok_def)
    have f: "mp \<notin> set (queued s)" using msg_enqueue.prems(2) Enq_link unfolding fresh_ok_def by (metis to_queue.simps(2))
    have "set mps \<subseteq> set (queued s)" using m(2) by (metis set_mset_mset set_mset_union sup_ge2)
    then have "mp \<notin> set mps" using f by blast
    then have "msg_list ((m_next s)(mp := workq s)) (Some mp) (mp # mps)" using m(1) by (simp add: msg_list_other)
    moreover have "mset (queued s @ [mp]) = mset (taken s) + mset (mp # mps)" using m(2) by simp
    moreover have "s' = m_goto t Enq_unlock (s\<lparr>m_next := (m_next s)(mp := workq s), workq := Some mp, queued := queued s @ [mp]\<rparr>)"
      using msg_enqueue Enq_link by (simp add: enqueue_msg_def)
    moreover have "distinct (queued s @ [mp])" using f m(3) by simp
    ultimately show ?thesis unfolding queue_ok_def by (intro conjI exI [of _ "mp # mps"]) (simp_all del: msg_list.simps)
  qed (use msg_enqueue in \<open>auto simp: enqueue_msg_def queue_ok_def split: if_splits\<close>)
qed (simp_all add: queue_ok_def)

lemma fresh_goto:
  assumes "fresh_ok s" "mpc s' = (mpc s)(t := x)" "to_queue x = None \<or> to_queue x = to_queue (mpc s t)" "queued s' = queued s"
  shows "fresh_ok s'"
proof -
  have "to_queue (mpc s' u) = Some mp \<Longrightarrow> to_queue (mpc s u) = Some mp" for u mp using assms(2,3) by (auto split: if_splits)
  then show ?thesis using assms(1,4) unfolding fresh_ok_def by metis
qed

lemma fresh_step: "msg_step s s' \<Longrightarrow> fresh_ok s \<Longrightarrow> fresh_ok s'"
proof (induction rule: msg_step.induct)
  case (msg_process t s s')
  have "mpc s' = (mpc s)(t := mpc s' t) \<and> to_queue (mpc s' t) = None \<and> queued s' = queued s"
    using msg_process.hyps by (cases "mpc s t") (auto simp: process_msg_def split: if_splits option.splits)
  then show ?case using fresh_goto [OF msg_process.prems] by blast
next
  case (msg_enqueue t s s')
  show ?case
  proof (cases "mpc s t")
    case (Enq_lock mp)
    then have e: "mpc s' = (mpc s)(t := Enq_link mp)" "queued s' = queued s" using msg_enqueue.hyps by (auto simp: enqueue_msg_def split: if_splits)
    show ?thesis by (rule fresh_goto [OF msg_enqueue.prems e(1) _ e(2)]) (simp add: Enq_lock)
  next
    case (Enq_link mp)
    then have e: "mpc s' = (mpc s)(t := Enq_unlock)" "queued s' = queued s @ [mp]" using msg_enqueue.hyps by (auto simp: enqueue_msg_def)
    have q: "to_queue (mpc s t) = Some mp" using Enq_link by simp
    have u: "u \<noteq> t \<and> to_queue (mpc s u) = Some m" if "to_queue (mpc s' u) = Some m" for u m using that e(1) by (auto split: if_splits)
    have "m \<notin> set (queued s')" if "to_queue (mpc s' u) = Some m" for u m
    proof -
      have "m \<notin> set (queued s)" "m \<noteq> mp" using u [OF that] q msg_enqueue.prems unfolding fresh_ok_def by blast+
      then show ?thesis using e(2) by simp
    qed
    moreover have "u = v" if "to_queue (mpc s' u) = Some m" "to_queue (mpc s' v) = Some m" for u v m
      using u [OF that(1)] u [OF that(2)] msg_enqueue.prems unfolding fresh_ok_def by blast
    ultimately show ?thesis unfolding fresh_ok_def by blast
  next
    case Enq_unlock
    then have e: "mpc s' = (mpc s)(t := Enq_signal)" "queued s' = queued s" using msg_enqueue.hyps by (auto simp: enqueue_msg_def)
    show ?thesis by (rule fresh_goto [OF msg_enqueue.prems e(1) _ e(2)]) simp
  qed (use msg_enqueue.hyps in \<open>simp_all add: enqueue_msg_def\<close>)
next
  case (msg_signal s t W)
  have "to_queue (mpc (wake W (m_goto t Enq_done s)) u) = Some mp \<Longrightarrow> to_queue (mpc s u) = Some mp" for u mp by (auto split: if_splits)
  then show ?case using msg_signal.prems unfolding fresh_ok_def by (metis m_goto_simps(6) wake_simps(5))
next
  case (msg_spurious s t)
  have "to_queue (mpc (wake {t} s) u) = Some mp \<Longrightarrow> to_queue (mpc s u) = Some mp" for u mp by (auto split: if_splits)
  then show ?case using msg_spurious.prems unfolding fresh_ok_def by (metis wake_simps(5))
qed

lemma wake_step: "msg_step s s' \<Longrightarrow> mutex_ok s \<Longrightarrow> wake_ok s \<Longrightarrow> wake_ok s'"
proof (induction rule: msg_step.induct)
  case (msg_process t s s')
  show ?case
  proof (cases "mpc s' t = Asleep")
    case True
    then have "workq s' = None" using msg_process.hyps by (cases "mpc s t") (auto simp: process_msg_def split: if_splits option.splits)
    then show ?thesis by (simp add: wake_ok_def)
  next
    case False
    moreover have "consumes (mpc s' t)" using msg_process.hyps by (cases "mpc s t") (auto simp: process_msg_def split: if_splits option.splits)
    ultimately show ?thesis by (auto simp: wake_ok_def)
  qed
next
  case (msg_enqueue t s s')
  show ?case
  proof (cases "mpc s t")
    case (Enq_lock mp)
    then have "s' = m_goto t (Enq_link mp) (s\<lparr>qlock := Some t\<rparr>)" using msg_enqueue by (simp add: enqueue_msg_def split: if_splits)
    then show ?thesis using msg_enqueue.prems(2) Enq_lock unfolding wake_ok_def by (simp; metis consumes_simps(7) insert_iff mpc.distinct singletonD)
  next
    case (Enq_link mp)
    then have "mpc s' t = Enq_unlock" using msg_enqueue by (auto simp: enqueue_msg_def)
    then show ?thesis by (auto simp: wake_ok_def)
  next
    case Enq_unlock
    then have "mpc s' t = Enq_signal" using msg_enqueue by (auto simp: enqueue_msg_def)
    then show ?thesis by (auto simp: wake_ok_def)
  qed (use msg_enqueue in \<open>simp_all add: enqueue_msg_def\<close>)
next
  case (msg_signal s t W)
  show ?case
  proof (cases "W = {}")
    case False
    then obtain u where "u \<in> W" by blast
    then have "mpc (wake W (m_goto t Enq_done s)) u = Woken" by simp
    then show ?thesis unfolding wake_ok_def by (metis consumes_simps(4) mpc.distinct)
  next
    case True
    then have "mpc s u \<noteq> Asleep" for u using msg_signal.hyps by (auto simp: asleep_def)
    then show ?thesis using True by (auto simp: wake_ok_def)
  qed
next
  case (msg_spurious s t)
  have "mpc (wake {t} s) t = Woken" by simp
  then show ?case unfolding wake_ok_def by (metis consumes_simps(4) mpc.distinct)
qed

section \<open>Runs\<close>

definition msgs_of :: "msgst \<Rightarrow> addr set" where
  "msgs_of s = {mp. \<exists>t. to_queue (mpc s t) = Some mp}"

text \<open>The messages, in the queue or not, stay the same, and so do the threads that process them.\<close>

lemma msgs_step:
  "msg_step s s' \<Longrightarrow> set (queued s') \<union> msgs_of s' = set (queued s) \<union> msgs_of s \<and> (\<forall>t. consumes (mpc s' t) = consumes (mpc s t))"
proof (induction rule: msg_step.induct)
  case (msg_process t s s')
  have e: "mpc s' = (mpc s)(t := mpc s' t) \<and> to_queue (mpc s' t) = None \<and> to_queue (mpc s t) = None \<and> queued s' = queued s
      \<and> consumes (mpc s t) \<and> consumes (mpc s' t)"
    using msg_process by (cases "mpc s t") (auto simp: process_msg_def split: if_splits option.splits)
  then have "to_queue (mpc s' u) = to_queue (mpc s u)" "consumes (mpc s' u) = consumes (mpc s u)" for u by (metis fun_upd_apply)+
  then show ?case using e by (simp add: msgs_of_def)
next
  case (msg_enqueue t s s')
  show ?case
  proof (cases "mpc s t")
    case (Enq_lock mp)
    then have e: "s' = m_goto t (Enq_link mp) (s\<lparr>qlock := Some t\<rparr>)" using msg_enqueue by (simp add: enqueue_msg_def split: if_splits)
    have "to_queue (mpc s' u) = to_queue (mpc s u)" "consumes (mpc s' u) = consumes (mpc s u)" for u using Enq_lock by (simp_all add: e)
    then show ?thesis by (simp add: msgs_of_def e)
  next
    case (Enq_link mp)
    then have e: "mpc s' = (mpc s)(t := Enq_unlock)" "queued s' = queued s @ [mp]" using msg_enqueue by (auto simp: enqueue_msg_def)
    have "to_queue (mpc s u) = Some m \<longleftrightarrow> to_queue (mpc s' u) = Some m \<or> u = t \<and> m = mp" for u m using Enq_link by (auto simp: e(1))
    then have "msgs_of s = insert mp (msgs_of s')" by (auto simp: msgs_of_def)
    then show ?thesis using Enq_link by (simp add: e)
  next
    case Enq_unlock
    then have e: "s' = m_goto t Enq_signal (s\<lparr>qlock := None\<rparr>)" using msg_enqueue by (simp add: enqueue_msg_def)
    have "to_queue (mpc s' u) = to_queue (mpc s u)" "consumes (mpc s' u) = consumes (mpc s u)" for u using Enq_unlock by (simp_all add: e)
    then show ?thesis by (simp add: msgs_of_def e)
  qed (use msg_enqueue in \<open>simp_all add: enqueue_msg_def\<close>)
next
  case (msg_signal s t W)
  have "to_queue (mpc (wake W (m_goto t Enq_done s)) u) = to_queue (mpc s u)" "consumes (mpc (wake W (m_goto t Enq_done s)) u) = consumes (mpc s u)" for u
    using msg_signal by (auto simp: asleep_def subset_iff)
  then show ?case by (simp add: msgs_of_def)
next
  case (msg_spurious s t)
  have "to_queue (mpc (wake {t} s) u) = to_queue (mpc s u)" "consumes (mpc (wake {t} s) u) = consumes (mpc s u)" for u
    using msg_spurious by auto
  then show ?case by (simp add: msgs_of_def)
qed

text \<open>Threads that process messages, and some with a message to put into the empty queue.\<close>

definition msg_start :: "(nat \<Rightarrow> mpc) \<Rightarrow> msgst" where
  "msg_start pc = \<lparr>m_next = (\<lambda>_. None), workq = None, qlock = None, mpc = pc, taken = [], queued = []\<rparr>"

definition msg_roles :: "(nat \<Rightarrow> mpc) \<Rightarrow> bool" where
  "msg_roles pc \<longleftrightarrow> (\<forall>t. pc t = Locking \<or> pc t = Enq_done \<or> (\<exists>mp. pc t = Enq_lock mp)) \<and> inj_on pc {t. \<exists>mp. pc t = Enq_lock mp} \<and> (\<exists>t. pc t = Locking)"

definition msg_inv :: "addr set \<Rightarrow> msgst \<Rightarrow> bool" where
  "msg_inv M s \<longleftrightarrow> mutex_ok s \<and> queue_ok s \<and> fresh_ok s \<and> wake_ok s \<and> set (queued s) \<union> msgs_of s = M \<and> (\<exists>t. consumes (mpc s t))"

lemma msg_inv_step: "msg_inv M s \<Longrightarrow> msg_step s s' \<Longrightarrow> msg_inv M s'"
  using mutex_step queue_step fresh_step wake_step msgs_step unfolding msg_inv_def by metis

lemma msg_start_inv:
  assumes "msg_roles pc"
  shows "msg_inv (msgs_of (msg_start pc)) (msg_start pc)"
proof -
  have r: "pc t = Locking \<or> pc t = Enq_done \<or> (\<exists>mp. pc t = Enq_lock mp)" for t using assms by (simp add: msg_roles_def)
  have q: "to_queue (pc t) = Some mp \<longleftrightarrow> pc t = Enq_lock mp" for t mp using r [of t] by auto
  have "\<not> holds (pc t)" "pc t \<noteq> Taking" for t using r [of t] by auto
  then have "mutex_ok (msg_start pc)" by (simp add: mutex_ok_def msg_start_def)
  moreover have "queue_ok (msg_start pc)" by (auto simp: queue_ok_def msg_start_def intro: exI [of _ "[]"])
  moreover have "fresh_ok (msg_start pc)" using assms unfolding fresh_ok_def msg_roles_def inj_on_def by (auto simp: msg_start_def q)
  moreover have "wake_ok (msg_start pc)" by (simp add: wake_ok_def msg_start_def)
  moreover have "\<exists>t. consumes (mpc (msg_start pc) t)" using assms unfolding msg_roles_def msg_start_def by (metis consumes_simps(1) select_convs(4))
  ultimately show ?thesis by (simp add: msg_inv_def msg_start_def)
qed

lemma msg_run_inv: "msg_step\<^sup>*\<^sup>* (msg_start pc) s \<Longrightarrow> msg_roles pc \<Longrightarrow> msg_inv (msgs_of (msg_start pc)) s"
  by (induction rule: rtranclp_induct) (auto intro: msg_start_inv msg_inv_step)

text \<open>No thread can go on, unless one wakes that nobody has woken.\<close>

definition msg_rests :: "msgst \<Rightarrow> bool" where
  "msg_rests s \<longleftrightarrow> (\<forall>s'. msg_step s s' \<longrightarrow> (\<exists>t. mpc s t = Asleep \<and> s' = wake {t} s))"

lemma msg_rests_threads:
  assumes "msg_rests s" "mutex_ok s"
  shows "mpc s t = Asleep \<or> mpc s t = Enq_done"
proof -
  have own: "process_msg t s = None \<and> enqueue_msg t s = None" for t
  proof -
    have moves: "mpc s' t \<noteq> mpc s t \<and> mpc s' t \<noteq> Woken" if "process_msg t s = Some s' \<or> enqueue_msg t s = Some s'" for s'
      using that by (cases "mpc s t") (auto simp: process_msg_def enqueue_msg_def split: if_splits option.splits)
    have "mpc (wake {u} s) t = mpc s t \<or> mpc (wake {u} s) t = Woken" for u by simp
    then have "process_msg t s \<noteq> Some s'" "enqueue_msg t s \<noteq> Some s'" for s'
      using moves assms(1) msg_process [of t s s'] msg_enqueue [of t s s'] unfolding msg_rests_def by metis+
    then show ?thesis by (metis not_None_eq)
  qed
  have signal: "mpc s t \<noteq> Enq_signal" for t
  proof
    assume p: "mpc s t = Enq_signal"
    then have "msg_step s (wake (asleep s) (m_goto t Enq_done s))" by (rule msg_signal) simp_all
    then obtain u where "wake (asleep s) (m_goto t Enq_done s) = wake {u} s" "mpc s u = Asleep" using assms(1) unfolding msg_rests_def by blast
    then have "mpc (wake (asleep s) (m_goto t Enq_done s)) t = mpc (wake {u} s) t" "u \<noteq> t" using p by auto
    then show False using p by (simp add: asleep_def)
  qed
  have free: "qlock s = None"
  proof (rule ccontr)
    assume "qlock s \<noteq> None"
    then obtain u where "qlock s = Some u" by blast
    then have h: "holds (mpc s u)" "mpc s u = Taking \<Longrightarrow> workq s \<noteq> None" using assms(2) unfolding mutex_ok_def by blast+
    show False using own [of u] h by (cases "mpc s u") (auto simp: process_msg_def enqueue_msg_def split: if_splits)
  qed
  then have "\<not> holds (mpc s t)" using assms(2) unfolding mutex_ok_def by (metis option.distinct(1))
  then show ?thesis using own [of t] signal [of t] free by (cases "mpc s t") (auto simp: process_msg_def enqueue_msg_def)
qed

section \<open>Properties\<close>

text \<open>C40: in every interleaving no message is taken twice or out of nothing; and no wakeup is lost: when no thread can go
  on, the queue is empty and every message has been taken.\<close>

theorem messages_delivered:
  assumes "msg_roles pc" "msg_step\<^sup>*\<^sup>* (msg_start pc) s"
  shows "distinct (taken s) \<and> set (taken s) \<subseteq> msgs_of (msg_start pc)
    \<and> (msg_rests s \<longrightarrow> workq s = None \<and> set (taken s) = msgs_of (msg_start pc))"
proof -
  have inv: "mutex_ok s" "queue_ok s" "wake_ok s" "set (queued s) \<union> msgs_of s = msgs_of (msg_start pc)" "\<exists>t. consumes (mpc s t)"
    using msg_run_inv [OF assms(2,1)] by (simp_all add: msg_inv_def)
  obtain mps where q: "msg_list (m_next s) (workq s) mps" "mset (queued s) = mset (taken s @ mps)" "distinct (queued s)"
    using inv(2) by (auto simp: queue_ok_def)
  then have d: "distinct (taken s @ mps)" "set (queued s) = set (taken s @ mps)" using mset_eq_imp_distinct_iff mset_eq_setD by blast+
  have "workq s = None \<and> set (taken s) = msgs_of (msg_start pc)" if "msg_rests s"
  proof -
    note th = msg_rests_threads [OF that inv(1)]
    have "workq s = None" using inv(3,5) th unfolding wake_ok_def by (metis consumes_simps(11) insertE mpc.distinct singletonD)
    moreover from this have "mps = []" using q(1) by (cases mps) auto
    moreover have "to_queue (mpc s t) = None" for t using th [of t] by auto
    then have "msgs_of s = {}" by (simp add: msgs_of_def)
    ultimately show ?thesis using d(2) inv(4) by simp
  qed
  then show ?thesis using d inv(4) by auto
qed

definition one_each :: "nat \<Rightarrow> mpc" where
  "one_each t = (if t = 0 then Locking else if t = 1 then Enq_lock 5 else Enq_done)"

text \<open>A schedule: the thread that makes the next step, where a signal wakes every thread that sleeps.\<close>

fun msg_exec :: "nat list \<Rightarrow> msgst \<Rightarrow> msgst" where
  "msg_exec [] s = s"
| "msg_exec (t # ts) s =
     (case process_msg t s of Some s' \<Rightarrow> msg_exec ts s'
      | None \<Rightarrow> (case enqueue_msg t s of Some s' \<Rightarrow> msg_exec ts s'
      | None \<Rightarrow> if mpc s t = Enq_signal then msg_exec ts (wake (asleep s) (m_goto t Enq_done s)) else s))"

lemma msg_exec_run: "msg_step\<^sup>*\<^sup>* s (msg_exec ts s)"
proof (induction ts s rule: msg_exec.induct)
  case (2 t ts s)
  show ?case
  proof (cases "process_msg t s")
    case (Some s')
    with 2(3) [OF Some] show ?thesis using msg_process [OF Some] by (simp add: converse_rtranclp_into_rtranclp)
  next
    case None
    show ?thesis
    proof (cases "enqueue_msg t s")
      case (Some s')
      with 2(2) [OF None Some] None show ?thesis using msg_enqueue [OF Some] by (simp add: converse_rtranclp_into_rtranclp)
    next
      case n: None
      show ?thesis
      proof (cases "mpc s t = Enq_signal")
        case True
        have "msg_step s (wake (asleep s) (m_goto t Enq_done s))" using True by (rule msg_signal) simp_all
        with 2(1) [OF None n True] None n True show ?thesis by (simp add: converse_rtranclp_into_rtranclp)
      qed (use None n in simp)
    qed
  qed
qed simp

lemma all_rest: "(\<And>t. mpc s t = Asleep \<or> mpc s t = Enq_done) \<Longrightarrow> msg_rests s"
  unfolding msg_rests_def
  by (auto elim!: msg_step.cases simp: process_msg_def enqueue_msg_def split: mpc.splits) (metis mpc.distinct)+

theorem messages_delivered_witness:
  "\<exists>s. msg_step\<^sup>*\<^sup>* (msg_start one_each) s \<and> msg_rests s \<and> set (taken s) = {5}"
proof -
  define s where "s = msg_exec [0, 0, 1, 1, 1, 1, 0, 0, 0, 0, 0, 0] (msg_start one_each)"
  have "mpc s t = Asleep \<or> mpc s t = Enq_done" for t
    by (simp add: s_def msg_start_def one_each_def process_msg_def enqueue_msg_def m_goto_def wake_def asleep_def)
  then have r: "msg_rests s" by (rule all_rest)
  have "inj_on one_each {t. \<exists>mp. one_each t = Enq_lock mp}" by (auto simp: inj_on_def one_each_def split: if_splits)
  then have roles: "msg_roles one_each" unfolding msg_roles_def by (auto simp: one_each_def)
  have "msgs_of (msg_start one_each) = {5}" by (auto simp: msgs_of_def msg_start_def one_each_def split: if_splits intro: exI [of _ 1])
  moreover have run: "msg_step\<^sup>*\<^sup>* (msg_start one_each) s" unfolding s_def by (rule msg_exec_run)
  ultimately show ?thesis using messages_delivered [OF roles run] r by auto
qed

end
