(* ===== verification/Spec2Isabelle.thy ===== *)
theory Spec2Isabelle imports DbProps PrintSubmit PrintMain RwQueue OpenServer OpenConn MemStream Semaph TtyModes FooVersions SortMerge Rot13 Popen FileWalk
  ErrorLines TakeTurns Limits SigSets SystemCmd Timeout TtyName MsgQueue begin

text \<open>
  The programs of apue.3e/, the source code of a book on programming with the interfaces of UNIX: a library
  (\<^verbatim>\<open>lib/\<close>) that the programs are linked with, three systems built on it (a database, a print spooler, a server that
  opens files), and shorter programs, each about one interface. The theories below model the systems, the parts of the
  library with logic of their own, and those shorter programs that have some.

  \<^bold>\<open>Conventions.\<close> A C function is a function on an explicit state; what the system answers is an argument or a part of the
  state, so that every failure branch of the code is a branch of the definition. \<open>'a res\<close> (Prelude) is the result of
  code that may end the process: \<open>Dump\<close>, \<open>Sys\<close> and \<open>Quit\<close> are the calls of \<^verbatim>\<open>err_dump\<close>, \<^verbatim>\<open>err_sys\<close> and \<^verbatim>\<open>err_quit\<close>
  (and their \<^verbatim>\<open>log_\<close> versions), \<open>Fault\<close> is an access C leaves undefined, and \<open>Diverges\<close> a loop that does not end. A
  theorem that gives \<open>Inr\<close> for a call therefore says that it returns and touches only its own memory. Strings hold
  the characters before the null byte; buffers that can overflow have their size and an access outside is a \<open>Fault\<close>.
  Integers are words or cut to their width where a program depends on it, and unbounded otherwise, which the
  component's theory says. Programs with several threads or processes are step relations, a step being one
  call of the system, and their properties are about every interleaving.

  \<^bold>\<open>The database\<close> (\<^verbatim>\<open>db/db.c\<close>). \<open>DbModel\<close> has one definition for each function; the handle \<open>DB\<close> holds the bytes of the
  index and the data file, the offsets in them, and the trace of its lock, read and write calls. \<open>DbCalls\<close>, \<open>DbLayout\<close>,
  \<open>DbChains\<close>, \<open>DbRefine\<close>, \<open>DbStore\<close> and \<open>DbSession\<close> show that the files implement a finite map: from the calls on
  bytes, over the records at their offsets, to the hash chains and the free list. \<open>DbApi\<close> states what a client may
  rely on as the locales \<open>kv_store\<close> and \<open>kv_cursor\<close>, with db.c as their interpretation. \<open>DbSafety\<close> and \<open>DbLoops\<close> are about
  arbitrary files: locks, bounds and loops. The chain walks have \<open>Suc (length file)\<close> rounds of fuel; a walk that
  takes more visits an offset twice, and then the code never returns, so the fuel loses nothing, as a property in \<open>DbProps\<close> says.

  \<^bold>\<open>The print spooler\<close> (\<^verbatim>\<open>printer/\<close>). The command \<^verbatim>\<open>print\<close> sends a request and a file to the daemon, which spools it, queues
  a job, and sends it to the printer by HTTP. \<open>DList\<close> has doubly linked lists in a store and the locale \<open>deque\<close>, which
  the queue of jobs in \<open>PrintQueue\<close> and the queue of \<^verbatim>\<open>threads/rwlock.c\<close> in \<open>RwQueue\<close> interpret. \<open>PrintJobs\<close>: state, queue, workers, job
  numbers, with \<open>PrintWorkers\<close> and \<open>PrintProps\<close>. \<open>PrintWire\<close>: the bytes of the request and of the IPP and HTTP headers.
  \<open>PrintStatus\<close>: reading the printer's answer (the fuel is an argument, and the results hold for every sufficient one;
  \<open>printer_status_hangs\<close> shows where no amount suffices). \<open>PrintConfig\<close>: configuration file, connecting, server
  sockets. \<open>PrintServer\<close>: the threads of the daemon, with \<open>PrintClient\<close> (receiving, restart) and \<open>PrintDeliver\<close>
  (sending). \<open>PrintMain\<close>: the start of the daemon and its loop on connections. \<open>PrintSubmit\<close>: the command,
  and its composition with a thread of the daemon. \<open>StreamIO\<close> has \<^verbatim>\<open>readn\<close>, \<^verbatim>\<open>writen\<close>,
  \<^verbatim>\<open>tread\<close> and \<^verbatim>\<open>treadn\<close> over the locale \<open>byte_source\<close>.

  \<^bold>\<open>The open server\<close> (\<^verbatim>\<open>ipc2/\<close>). \<open>OpenArgs\<close>: arguments, descriptors over a stream pipe, both ends of a request. \<open>OpenServer\<close>:
  the table of clients and the loops on \<^verbatim>\<open>select\<close> and \<^verbatim>\<open>poll\<close>, compared with one specification that maps descriptors to
  users. \<open>OpenConn\<close>: Unix domain sockets, and the server that a client starts itself.

  \<^bold>\<open>Library and shorter programs.\<close> \<open>MemStream\<close> (\<^verbatim>\<open>exercises/fmemopen.c\<close>) refines a byte sequence with a position. \<open>Semaph\<close>
  (\<^verbatim>\<open>lib/semaph.c\<close>): any number of processes, one system call a step. \<open>TtyModes\<close> (\<^verbatim>\<open>lib/ttymodes.c\<close>). \<open>Popen\<close> (\<^verbatim>\<open>lib/popen.c\<close>):
  the descriptors of parent and child. \<open>ErrorLines\<close> (\<^verbatim>\<open>lib/error.c\<close>, \<^verbatim>\<open>lib/errorlog.c\<close>). \<open>TellWait\<close> has \<^verbatim>\<open>TELL_WAIT\<close> and its companions
  with signals (\<^verbatim>\<open>lib/tellwait.c\<close>) and pipes (\<^verbatim>\<open>ipc1/tellwait.c\<close>), and what both promise as the locale \<open>handoff\<close>; \<open>TakeTurns\<close> proves
  \<^verbatim>\<open>ipc1/devzero.c\<close> and \<^verbatim>\<open>proc/tellwait2.c\<close> from the locale. \<open>FooTable\<close>, \<open>FooSafety\<close> and \<open>FooVersions\<close> (\<^verbatim>\<open>threads/mutex2.c\<close>, \<^verbatim>\<open>mutex3.c\<close>):
  reference counts under every interleaving, freedom from deadlock, and the agreement of the two versions. \<open>MsgQueue\<close>
  (\<^verbatim>\<open>threads/condvar.c\<close>): no message and no wakeup is lost.
  \<open>SortMerge\<close> (\<^verbatim>\<open>threads/barrier.c\<close>), \<open>Rot13\<close> (\<^verbatim>\<open>advio/rot13a.c\<close>, \<^verbatim>\<open>rot13c2.c\<close>), \<open>FileWalk\<close> (\<^verbatim>\<open>filedir/ftw8.c\<close>).
  \<open>Limits\<close> (\<^verbatim>\<open>lib/openmax.c\<close>, \<^verbatim>\<open>lib/pathalloc.c\<close>) is about the sizes such programs are given, and the walk with them. \<open>SigSets\<close>
  (\<^verbatim>\<open>signals/setops.c\<close>), \<open>SystemCmd\<close> (\<^verbatim>\<open>signals/system.c\<close>, \<^verbatim>\<open>proc/system.c\<close>), \<open>Timeout\<close> (\<^verbatim>\<open>threadctl/timeout.c\<close>, \<^verbatim>\<open>detach.c\<close>,
  \<^verbatim>\<open>threads/maketimeout.c\<close>), \<open>TtyName\<close> (\<^verbatim>\<open>termios/ttyname.c\<close>, whose search ends because paths get longer and the buffer does not).

  \<^bold>\<open>The properties\<close> are the theorems with a number C<n> in their text; the theorems after them named \<open>_witness\<close> apply
  them to concrete inputs. Other theorems are facts about the code that the list of properties leaves out, among them
  ways in which it fails: \<open>second_worker_lost\<close>, \<open>ipp_header_overflow\<close>, \<open>printer_status_hangs\<close>, \<open>poll_wrong_user\<close>,
  \<open>open_loses_semaphore\<close>, \<open>popen_loses_stdin\<close>, \<open>devzero_may_hang\<close>.

  \<^bold>\<open>Not modelled.\<close> \<^verbatim>\<open>standards/options.c\<close> and \<^verbatim>\<open>conf.c\<close> are written by the awk programs next to them and only print what
  \<^verbatim>\<open>sysconf\<close> answers. The functions of \<^verbatim>\<open>lib/\<close> that only pass a request to the system (\<^verbatim>\<open>setfl\<close>, \<^verbatim>\<open>lockreg\<close>, \<^verbatim>\<open>ptyopen\<close>, \<^verbatim>\<open>daemonize\<close> and
  others), and the programs of \<^verbatim>\<open>intro/\<close>, \<^verbatim>\<open>fileio/\<close>, \<^verbatim>\<open>environ/\<close>, \<^verbatim>\<open>stdio/\<close>, \<^verbatim>\<open>proc/\<close>, \<^verbatim>\<open>signals/\<close>, \<^verbatim>\<open>daemons/\<close>, \<^verbatim>\<open>termios/\<close>, \<^verbatim>\<open>pty/\<close> and \<^verbatim>\<open>sockets/\<close> that are not named
  above call one interface and print what it answers: their behaviour is that of the system. Of the modelled programs,
  the parts left out are the set-up before their main loops (arguments, opening files) and the printing of results, as the
  notes of the theories say. The interleaving of the daemon's threads in \<^verbatim>\<open>printd.c\<close> is not modelled: each thread runs
  alone between two states of the daemon.
\<close>

end
